(* ===== verification/Prelude.thy ===== *)
theory Prelude
  imports Main "HOL-Library.Word"
begin

text \<open>
  Shared vocabulary of the development: the kernel's machine integers, the arithmetic
  the source uses on them (the workspace is built with \<open>overflow-checks = true\<close> in
  every profile, so a plain \<open>+\<close> or \<open>-\<close> that leaves the type's range panics, while
  \<open>checked_\<close>, \<open>saturating_\<close> and \<open>wrapping_\<close> calls do not), little-endian byte
  strings, slices of byte buffers, and the generic list lemmas of the component proofs.
\<close>

unbundle bit_operations_syntax

type_synonym u8 = "8 word"
type_synonym u16 = "16 word"
type_synonym u32 = "32 word"
type_synonym u64 = "64 word"
type_synonym bytes = "u8 list"

text \<open>Unfolding collections: constants of the source, and the operations of a component.\<close>

named_theorems kconsts
named_theorems kdefs

section \<open>Fixed-width arithmetic\<close>

text \<open>\<open>None\<close> is the absent result of \<open>checked_add\<close>/\<open>checked_sub\<close>; where the source
  writes a plain operator, \<open>None\<close> is the overflow panic.\<close>

definition checked_add :: "'a::len word \<Rightarrow> 'a word \<Rightarrow> 'a word option" where
  "checked_add x y = (if unat x + unat y < 2 ^ LENGTH('a) then Some (x + y) else None)"

definition checked_sub :: "'a::len word \<Rightarrow> 'a word \<Rightarrow> 'a word option" where
  "checked_sub x y = (if y \<le> x then Some (x - y) else None)"

definition saturating_add :: "'a::len word \<Rightarrow> 'a word \<Rightarrow> 'a word" where
  "saturating_add x y = (if unat x + unat y < 2 ^ LENGTH('a) then x + y else - 1)"

definition saturating_sub :: "'a::len word \<Rightarrow> 'a word \<Rightarrow> 'a word" where
  "saturating_sub x y = (if y \<le> x then x - y else 0)"

definition saturating_mul :: "'a::len word \<Rightarrow> 'a word \<Rightarrow> 'a word" where
  "saturating_mul x y = (if unat x * unat y < 2 ^ LENGTH('a) then x * y else - 1)"

lemma unat_add_in_range:
  fixes x y :: "'a::len word"
  assumes "unat x + unat y < 2 ^ LENGTH('a)"
  shows "unat (x + y) = unat x + unat y"
  using assms by (simp add: unat_word_ariths)

lemma unat_mult_in_range:
  fixes x y :: "'a::len word"
  assumes "unat x * unat y < 2 ^ LENGTH('a)"
  shows "unat (x * y) = unat x * unat y"
  using assms by (simp add: unat_word_ariths)

lemma checked_add_SomeD:
  "checked_add x y = Some z \<Longrightarrow> unat z = unat x + unat y"
  by (auto simp: checked_add_def unat_add_in_range split: if_splits)

lemma checked_add_eq_Some:
  fixes x y :: "'a::len word"
  shows "checked_add x y = Some z \<longleftrightarrow> z = x + y \<and> unat x + unat y < 2 ^ LENGTH('a)"
  by (auto simp: checked_add_def)

lemma checked_sub_SomeD:
  "checked_sub x y = Some z \<Longrightarrow> unat z = unat x - unat y \<and> y \<le> x"
  by (auto simp: checked_sub_def unat_sub split: if_splits)

lemma checked_sub_eq_Some:
  "checked_sub x y = Some z \<longleftrightarrow> z = x - y \<and> y \<le> x"
  by (auto simp: checked_sub_def)

lemma unat_max_word: "unat (- 1 :: 'a::len word) = 2 ^ LENGTH('a) - 1"
  by (simp add: unsigned_minus_1_eq_mask mask_eq_exp_minus_1)

lemma unat_saturating_add:
  fixes x y :: "'a::len word"
  shows "unat (saturating_add x y) = min (unat x + unat y) (2 ^ LENGTH('a) - 1)"
  by (auto simp: saturating_add_def unat_add_in_range unat_max_word)

lemma unat_saturating_sub: "unat (saturating_sub x y) = unat x - unat y"
proof (cases "y \<le> x")
  case True
  then show ?thesis by (simp add: saturating_sub_def unat_sub)
next
  case False
  then have "unat x < unat y"
    by (simp add: word_less_nat_alt not_le)
  with False show ?thesis by (simp add: saturating_sub_def)
qed

lemma unat_saturating_mul:
  fixes x y :: "'a::len word"
  shows "unat (saturating_mul x y) = min (unat x * unat y) (2 ^ LENGTH('a) - 1)"
  by (auto simp: saturating_mul_def unat_mult_in_range unat_max_word)

lemma le_saturating_add:
  fixes x y :: "'a::len word"
  shows "x \<le> saturating_add x y"
proof -
  have "unat x < 2 ^ LENGTH('a)" by (rule unsigned_less)
  then have "unat x \<le> 2 ^ LENGTH('a) - 1" by linarith
  then show ?thesis by (simp add: word_le_nat_alt unat_saturating_add)
qed

lemma unat_u64_less: "unat (w :: u64) < 2 ^ 64"
proof -
  have "unat w < 2 ^ LENGTH(64)" by (rule unsigned_less)
  then show ?thesis by simp
qed

lemma unat_ucast_up:
  "LENGTH('a::len) \<le> LENGTH('b::len) \<Longrightarrow> unat (ucast (w :: 'a word) :: 'b word) = unat w"
  by (simp add: unsigned_ucast_eq take_bit_nat_eq_self unsigned_less order_less_le_trans [OF unsigned_less])

lemma unat_of_nat_small:
  "n < 2 ^ LENGTH('a::len) \<Longrightarrow> unat (of_nat n :: 'a word) = n"
  by (simp add: unat_of_nat)

text \<open>Rounding down to a power of two, \<open>x & !(2^n - 1)\<close>.\<close>

lemma and_not_mask: "w AND NOT (mask n) = push_bit n (drop_bit n w)" for w :: "'a::len word"
  by (rule bit_word_eqI) (auto simp: bit_simps)

lemma unat_align_down:
  "unat (w AND NOT (mask n)) = unat w div 2 ^ n * 2 ^ n" for w :: "'a::len word"
proof -
  have "unat w div 2 ^ n * 2 ^ n < 2 ^ LENGTH('a)"
    using unsigned_less [of w] by (meson div_times_less_eq_dividend le_less_trans)
  then have "take_bit LENGTH('a) (push_bit n (drop_bit n (unat w))) = unat w div 2 ^ n * 2 ^ n"
    by (simp add: push_bit_eq_mult drop_bit_eq_div take_bit_nat_eq_self)
  then show ?thesis
    by (simp add: and_not_mask unsigned_push_bit_eq unsigned_drop_bit_eq
        take_bit_nat_eq_self unsigned_less del: push_bit_of_nat drop_bit_of_nat)
qed

section \<open>Little-endian byte strings\<close>

text \<open>\<open>to_le_bytes\<close> and \<open>from_le_bytes\<close> of the integer types.\<close>

definition to_le :: "nat \<Rightarrow> 'a::len word \<Rightarrow> bytes" where
  "to_le n w = map (\<lambda>i. ucast (drop_bit (8 * i) w)) [0..<n]"

primrec from_le :: "bytes \<Rightarrow> 'a::len word" where
  "from_le [] = 0"
| "from_le (b # bs) = ucast b OR push_bit 8 (from_le bs)"

lemma length_to_le [simp]: "length (to_le n w) = n"
  by (simp add: to_le_def)

lemma to_le_nth: "i < n \<Longrightarrow> to_le n w ! i = ucast (drop_bit (8 * i) w)"
  by (simp add: to_le_def)

lemma bit_from_le:
  "bit (from_le bs :: 'a::len word) i \<longleftrightarrow>
     i < LENGTH('a) \<and> i div 8 < length bs \<and> bit (bs ! (i div 8)) (i mod 8)"
proof (induction bs arbitrary: i)
  case Nil
  then show ?case by simp
next
  case (Cons b bs)
  show ?case
  proof (cases "i < 8")
    case True
    then show ?thesis
      by (auto simp: bit_or_iff bit_push_bit_iff bit_unsigned_iff)
  next
    case False
    then have eqs: "i div 8 = Suc ((i - 8) div 8)" "i mod 8 = (i - 8) mod 8"
      by (simp_all add: le_div_geq le_mod_geq)
    have "\<not> bit (ucast b :: 'a word) i"
      using False by (auto simp: bit_unsigned_iff dest: bit_imp_le_length)
    then show ?thesis
      using False Cons [of "i - 8"] by (auto simp: bit_or_iff bit_push_bit_iff eqs)
  qed
qed

lemma from_le_to_le:
  fixes w :: "'a::len word"
  assumes "LENGTH('a) \<le> 8 * n"
  shows "from_le (to_le n w) = w"
proof (rule bit_word_eqI)
  fix i
  assume i: "i < LENGTH('a)"
  with assms have "i div 8 < n" by arith
  then show "bit (from_le (to_le n w) :: 'a word) i = bit w i"
    using i by (simp add: bit_from_le to_le_nth bit_unsigned_iff bit_drop_bit_eq)
qed

lemma from_le_to_le_u16 [simp]: "from_le (to_le 2 w) = (w :: u16)"
  by (rule from_le_to_le) simp

lemma from_le_to_le_u32 [simp]: "from_le (to_le 4 w) = (w :: u32)"
  by (rule from_le_to_le) simp

lemma from_le_to_le_u64 [simp]: "from_le (to_le 8 w) = (w :: u64)"
  by (rule from_le_to_le) simp

lemma to_le_from_le:
  assumes "length bs = n" "8 * n \<le> LENGTH('a::len)"
  shows "to_le n (from_le bs :: 'a word) = bs"
proof (rule nth_equalityI)
  show "length (to_le n (from_le bs :: 'a word)) = length bs"
    using assms(1) by simp
next
  fix i
  assume "i < length (to_le n (from_le bs :: 'a word))"
  then have i: "i < n" by simp
  show "to_le n (from_le bs :: 'a word) ! i = bs ! i"
  proof (rule bit_word_eqI)
    fix j
    assume j: "j < LENGTH(8)"
    then have "8 * i + j < LENGTH('a)" using i assms(2) by simp
    moreover have "(8 * i + j) div 8 = i" "(8 * i + j) mod 8 = j" using j by simp_all
    ultimately show "bit (to_le n (from_le bs :: 'a word) ! i) j = bit (bs ! i) j"
      using i j assms(1) by (simp add: to_le_nth bit_unsigned_iff bit_drop_bit_eq bit_from_le)
  qed
qed

section \<open>Slices of byte buffers\<close>

text \<open>\<open>buf[off..off + n]\<close> as a value, and \<open>buf[off..off + xs.len()].copy_from_slice(xs)\<close>;
  both panic outside the buffer, so every use below stays inside it.\<close>

definition slice :: "nat \<Rightarrow> nat \<Rightarrow> 'a list \<Rightarrow> 'a list" where
  "slice off n buf = take n (drop off buf)"

definition splice :: "nat \<Rightarrow> 'a list \<Rightarrow> 'a list \<Rightarrow> 'a list" where
  "splice off xs buf = take off buf @ xs @ drop (off + length xs) buf"

lemma length_splice:
  "off + length xs \<le> length buf \<Longrightarrow> length (splice off xs buf) = length buf"
  by (simp add: splice_def)

lemma length_slice: "off + n \<le> length buf \<Longrightarrow> length (slice off n buf) = n"
  by (simp add: slice_def)

lemma slice_splice_same:
  "off \<le> length buf \<Longrightarrow> n = length xs \<Longrightarrow> slice off n (splice off xs buf) = xs"
  by (simp add: slice_def splice_def)

lemma slice_splice_other:
  assumes "off + length xs \<le> length buf"
    and "o2 + n \<le> off \<or> off + length xs \<le> o2"
  shows "slice o2 n (splice off xs buf) = slice o2 n buf"
proof (rule nth_equalityI)
  show "length (slice o2 n (splice off xs buf)) = length (slice o2 n buf)"
    using assms(1) by (simp add: slice_def length_splice)
next
  fix i
  assume "i < length (slice o2 n (splice off xs buf))"
  then have i: "i < n" "o2 + i < length buf"
    using assms(1) by (auto simp: slice_def length_splice)
  show "slice o2 n (splice off xs buf) ! i = slice o2 n buf ! i"
    using assms i by (auto simp: slice_def splice_def nth_append)
qed

lemma slice_whole: "slice 0 (length xs) xs = xs"
  by (simp add: slice_def)

lemma slice_slice:
  "b + m \<le> n \<Longrightarrow> slice b m (slice a n buf) = slice (a + b) m buf"
  by (simp add: slice_def drop_take min_def add.commute)

section \<open>Lists\<close>

lemma length_filter_eq_iff:
  "length (filter P xs) = length xs \<longleftrightarrow> (\<forall>x \<in> set xs. P x)"
proof
  assume "length (filter P xs) = length xs"
  then show "\<forall>x \<in> set xs. P x"
    by (metis length_filter_less less_irrefl)
next
  assume "\<forall>x \<in> set xs. P x"
  then show "length (filter P xs) = length xs" by simp
qed

lemma find_SomeD: "List.find P xs = Some x \<Longrightarrow> x \<in> set xs \<and> P x"
  by (auto simp: find_Some_iff)

section \<open>Set bits of a mask\<close>

text \<open>\<open>count_ones\<close> and \<open>trailing_zeros\<close> of Rust, and the list of set bits they are read from:
  \<open>m & (m - 1)\<close> drops the head of that list.\<close>

definition set_bits64 :: "u64 \<Rightarrow> nat list" where
  "set_bits64 m = filter (bit m) [0..<64]"

definition count_ones :: "u64 \<Rightarrow> nat" where
  "count_ones m = length (set_bits64 m)"

definition trailing_zeros :: "u64 \<Rightarrow> nat" where
  "trailing_zeros m = length (takeWhile (\<lambda>i. \<not> bit m i) [0..<64])"

lemma filter_upt_not_first:
  "filter (\<lambda>i. P i \<and> (\<exists>j<i. P j)) [0..<n] = tl (filter P [0..<n])"
proof (induction n)
  case (Suc n)
  have "filter P [0..<n] = [] \<longleftrightarrow> (\<forall>j<n. \<not> P j)" by (auto simp: filter_empty_conv)
  then show ?case using Suc by auto
qed simp

lemma bit_clear_lowest_nat:
  "0 < m \<Longrightarrow> bit m i \<and> bit (m - 1 :: nat) i \<longleftrightarrow> bit m i \<and> (\<exists>j<i. bit m j)"
proof (induction i arbitrary: m)
  case 0
  then show ?case by (auto simp: bit_0)
next
  case (Suc i)
  show ?case
  proof (cases "even m")
    case True
    then have h: "0 < m div 2" "(m - 1) div 2 = m div 2 - 1" using Suc.prems by (auto elim!: evenE)
    have "(\<exists>j<Suc i. bit m j) \<longleftrightarrow> (\<exists>j<i. bit (m div 2) j)"
      using True by (auto simp: less_Suc_eq_0_disj bit_Suc bit_0)
    then show ?thesis using Suc.IH [OF h(1)] h(2) by (auto simp: bit_Suc)
  next
    case False
    then have "(m - 1) div 2 = m div 2" by (auto elim!: oddE)
    moreover have "bit m 0" using False by (simp add: bit_0)
    ultimately show ?thesis by (auto simp: bit_Suc)
  qed
qed

lemma bit_clear_lowest:
  "bit (m AND (m - 1 :: u64)) i \<longleftrightarrow> bit m i \<and> (\<exists>j<i. bit m j)"
proof (cases "m = 0")
  case False
  then have "unat (m - 1) = unat m - 1" "0 < unat m" by (simp_all add: unat_minus_one unat_gt_0)
  moreover have "bit w j \<longleftrightarrow> bit (unat w) j" for w :: u64 and j
    by (auto simp: bit_unsigned_iff dest: bit_imp_le_length)
  ultimately show ?thesis using bit_clear_lowest_nat [of "unat m" i]
    unfolding bit_and_iff by metis
qed simp

lemma set_bits64_clear_lowest: "set_bits64 (m AND (m - 1)) = tl (set_bits64 m)"
  unfolding set_bits64_def bit_clear_lowest by (rule filter_upt_not_first)

lemma trailing_zeros_hd:
  assumes "set_bits64 m \<noteq> []" shows "trailing_zeros m = hd (set_bits64 m)"
proof -
  have "hd (filter P xs) = xs ! length (takeWhile (\<lambda>i. \<not> P i) xs)" if "filter P xs \<noteq> []" for P and xs :: "nat list"
    using that by (induction xs) auto
  moreover have "length (takeWhile (\<lambda>i. \<not> P i) xs) < length xs" if "filter P xs \<noteq> []" for P and xs :: "nat list"
    using that by (induction xs) auto
  ultimately show ?thesis using assms unfolding set_bits64_def trailing_zeros_def
    by (metis add_0 length_upt minus_nat.diff_0 nth_upt)
qed

end
