(* ===== verification/Kapi.thy ===== *)
theory Kapi
  imports Prelude
begin

text \<open>
  The types every layer shares (\<open>kapi/src/lib.rs\<close>) and the negated errno values the
  system calls return (\<open>kernel/src/errno.rs\<close>).
\<close>

section \<open>Process identifiers and wait keys\<close>

datatype pid = Pid (pid_raw: u32)

instantiation pid :: linorder
begin

definition less_eq_pid :: "pid \<Rightarrow> pid \<Rightarrow> bool" where
  "less_eq_pid p q \<longleftrightarrow> pid_raw p \<le> pid_raw q"

definition less_pid :: "pid \<Rightarrow> pid \<Rightarrow> bool" where
  "less_pid p q \<longleftrightarrow> pid_raw p < pid_raw q"

instance
  by standard (auto simp: less_eq_pid_def less_pid_def pid.expand)

end

record wait_key =
  wk_vmspace_id :: u64
  wk_vaddr :: u64

section \<open>Error numbers\<close>

datatype errno = Errno (errno_raw: u16)

definition as_neg_i64 :: "errno \<Rightarrow> int" where
  "as_neg_i64 e = - uint (errno_raw e)"

abbreviation Errno_PERM :: errno where "Errno_PERM \<equiv> Errno 1"
abbreviation Errno_NOENT :: errno where "Errno_NOENT \<equiv> Errno 2"
abbreviation Errno_SRCH :: errno where "Errno_SRCH \<equiv> Errno 3"
abbreviation Errno_INTR :: errno where "Errno_INTR \<equiv> Errno 4"
abbreviation Errno_IO :: errno where "Errno_IO \<equiv> Errno 5"
abbreviation Errno_NOEXEC :: errno where "Errno_NOEXEC \<equiv> Errno 8"
abbreviation Errno_BADF :: errno where "Errno_BADF \<equiv> Errno 9"
abbreviation Errno_AGAIN :: errno where "Errno_AGAIN \<equiv> Errno 11"
abbreviation Errno_NOMEM :: errno where "Errno_NOMEM \<equiv> Errno 12"
abbreviation Errno_ACCES :: errno where "Errno_ACCES \<equiv> Errno 13"
abbreviation Errno_FAULT :: errno where "Errno_FAULT \<equiv> Errno 14"
abbreviation Errno_BUSY :: errno where "Errno_BUSY \<equiv> Errno 16"
abbreviation Errno_EXIST :: errno where "Errno_EXIST \<equiv> Errno 17"
abbreviation Errno_NODEV :: errno where "Errno_NODEV \<equiv> Errno 19"
abbreviation Errno_NOTDIR :: errno where "Errno_NOTDIR \<equiv> Errno 20"
abbreviation Errno_ISDIR :: errno where "Errno_ISDIR \<equiv> Errno 21"
abbreviation Errno_INVAL :: errno where "Errno_INVAL \<equiv> Errno 22"
abbreviation Errno_NFILE :: errno where "Errno_NFILE \<equiv> Errno 23"
abbreviation Errno_MFILE :: errno where "Errno_MFILE \<equiv> Errno 24"
abbreviation Errno_NOSPC :: errno where "Errno_NOSPC \<equiv> Errno 28"
abbreviation Errno_SPIPE :: errno where "Errno_SPIPE \<equiv> Errno 29"
abbreviation Errno_PIPE :: errno where "Errno_PIPE \<equiv> Errno 32"
abbreviation Errno_DEADLK :: errno where "Errno_DEADLK \<equiv> Errno 35"
abbreviation Errno_NAMETOOLONG :: errno where "Errno_NAMETOOLONG \<equiv> Errno 36"
abbreviation Errno_NOLCK :: errno where "Errno_NOLCK \<equiv> Errno 37"
abbreviation Errno_NOSYS :: errno where "Errno_NOSYS \<equiv> Errno 38"
abbreviation Errno_NOTEMPTY :: errno where "Errno_NOTEMPTY \<equiv> Errno 39"
abbreviation Errno_LOOP :: errno where "Errno_LOOP \<equiv> Errno 40"
abbreviation Errno_OVERFLOW :: errno where "Errno_OVERFLOW \<equiv> Errno 75"
abbreviation Errno_TIMEDOUT :: errno where "Errno_TIMEDOUT \<equiv> Errno 110"

text \<open>The \<open>i64\<close> forms.\<close>

abbreviation EPERM :: int where "EPERM \<equiv> as_neg_i64 Errno_PERM"
abbreviation ESRCH :: int where "ESRCH \<equiv> as_neg_i64 Errno_SRCH"
abbreviation EINTR :: int where "EINTR \<equiv> as_neg_i64 Errno_INTR"
abbreviation EBADF :: int where "EBADF \<equiv> as_neg_i64 Errno_BADF"
abbreviation EAGAIN :: int where "EAGAIN \<equiv> as_neg_i64 Errno_AGAIN"
abbreviation ENOMEM :: int where "ENOMEM \<equiv> as_neg_i64 Errno_NOMEM"
abbreviation EFAULT :: int where "EFAULT \<equiv> as_neg_i64 Errno_FAULT"
abbreviation EBUSY :: int where "EBUSY \<equiv> as_neg_i64 Errno_BUSY"
abbreviation EEXIST :: int where "EEXIST \<equiv> as_neg_i64 Errno_EXIST"
abbreviation EINVAL :: int where "EINVAL \<equiv> as_neg_i64 Errno_INVAL"
abbreviation EMFILE :: int where "EMFILE \<equiv> as_neg_i64 Errno_MFILE"
abbreviation ENOSYS :: int where "ENOSYS \<equiv> as_neg_i64 Errno_NOSYS"
abbreviation ETIMEDOUT :: int where "ETIMEDOUT \<equiv> as_neg_i64 Errno_TIMEDOUT"

lemmas errno_int_defs = as_neg_i64_def

lemma errno_values [kconsts]:
  "EPERM = - 1"
  and "ESRCH = - 3"
  and "EINTR = - 4"
  and "EBADF = - 9"
  and "EAGAIN = - 11"
  and "ENOMEM = - 12"
  and "EFAULT = - 14"
  and "EBUSY = - 16"
  and "EEXIST = - 17"
  and "EINVAL = - 22"
  and "EMFILE = - 24"
  and "ENOSYS = - 38"
  and "ETIMEDOUT = - 110"
  by (simp_all add: as_neg_i64_def)

lemma as_neg_i64_nonpos: "as_neg_i64 e \<le> 0"
  by (simp add: as_neg_i64_def)

section \<open>Poll masks and open flags\<close>

abbreviation PollMask_IN :: u32 where "PollMask_IN \<equiv> 0x001"
abbreviation PollMask_OUT :: u32 where "PollMask_OUT \<equiv> 0x004"
abbreviation PollMask_HUP :: u32 where "PollMask_HUP \<equiv> 0x010"

type_synonym open_flags = u32

abbreviation O_WRONLY :: open_flags where "O_WRONLY \<equiv> 1"
abbreviation O_RDWR :: open_flags where "O_RDWR \<equiv> 2"
abbreviation O_APPEND :: open_flags where "O_APPEND \<equiv> 0x400"
abbreviation O_NONBLOCK :: open_flags where "O_NONBLOCK \<equiv> 0x800"

text \<open>\<open>contains\<close> of the bitflags types.\<close>

definition flags_contains :: "u32 \<Rightarrow> u32 \<Rightarrow> bool" where
  "flags_contains s other \<longleftrightarrow> s AND other = other"

definition is_writable :: "open_flags \<Rightarrow> bool" where
  "is_writable f \<longleftrightarrow> flags_contains f O_WRONLY \<or> flags_contains f O_RDWR"

definition is_readable :: "open_flags \<Rightarrow> bool" where
  "is_readable f \<longleftrightarrow> \<not> flags_contains f O_WRONLY"

end
