(* ===== verification/Creds.thy ===== *)
theory Creds
  imports Kapi
begin

text \<open>
  Credentials, capabilities and user namespaces (\<open>kernel/src/process_model/creds.rs\<close>) with
  the capability operations of \<open>kernel/src/security/mod.rs\<close>. A namespace is shared by
  reference in the source; \<open>un_addr\<close> is the identity that \<open>Arc::ptr_eq\<close> compares. Ids
  stored in credentials are kernel ids; the namespace translates the ids user space names.
\<close>

section \<open>User namespaces\<close>

record id_mapping =
  im_inside_start :: u32
  im_outside_start :: u32
  im_length :: u32

datatype user_ns = UserNs
  (un_addr: nat)
  (un_parent: "user_ns option")
  (un_creator_uid: u32)
  (un_uid_map: "id_mapping list")
  (un_gid_map: "id_mapping list")
  (un_level: u32)
  (un_setgroups_allowed: bool)

text \<open>One mapping, in each direction.\<close>

definition map_one_down :: "id_mapping \<Rightarrow> u32 \<Rightarrow> u32 option" where
  "map_one_down m i =
     (case checked_sub i (im_inside_start m) of
        None \<Rightarrow> None
      | Some off \<Rightarrow>
          if off < im_length m then checked_add (im_outside_start m) off else None)"

definition map_one_up :: "id_mapping \<Rightarrow> u32 \<Rightarrow> u32 option" where
  "map_one_up m i =
     (case checked_sub i (im_outside_start m) of
        None \<Rightarrow> None
      | Some off \<Rightarrow>
          if off < im_length m then checked_add (im_inside_start m) off else None)"

text \<open>\<open>find_map\<close>: the first mapping that answers.\<close>

fun id_map_down :: "id_mapping list \<Rightarrow> u32 \<Rightarrow> u32 option" where
  "id_map_down [] i = None"
| "id_map_down (m # ms) i =
     (case map_one_down m i of Some r \<Rightarrow> Some r | None \<Rightarrow> id_map_down ms i)"

fun id_map_up :: "id_mapping list \<Rightarrow> u32 \<Rightarrow> u32 option" where
  "id_map_up [] i = None"
| "id_map_up (m # ms) i =
     (case map_one_up m i of Some r \<Rightarrow> Some r | None \<Rightarrow> id_map_up ms i)"

definition host_ns :: "nat \<Rightarrow> user_ns" where
  "host_ns addr = UserNs addr None 0 [] [] 0 True"

text \<open>\<open>new_child\<close>: \<open>None\<close> is \<open>UserNsDepthExceeded\<close>.\<close>

definition new_child :: "nat \<Rightarrow> user_ns \<Rightarrow> u32 \<Rightarrow> user_ns option" where
  "new_child addr parent creator_uid =
     (let level = saturating_add (un_level parent) 1 in
      if 32 < level then None
      else Some (UserNs addr (Some parent) creator_uid [] [] level True))"

fun uid_to_kernel :: "user_ns \<Rightarrow> u32 \<Rightarrow> u32 option" where
  "uid_to_kernel (UserNs a par c um gm level s) ns_uid =
     (if level = 0 then Some ns_uid
      else case par of
        None \<Rightarrow> None
      | Some p \<Rightarrow>
          (case id_map_down um ns_uid of
             None \<Rightarrow> None
           | Some parent_uid \<Rightarrow> uid_to_kernel p parent_uid))"

fun uid_from_kernel :: "user_ns \<Rightarrow> u32 \<Rightarrow> u32 option" where
  "uid_from_kernel (UserNs a par c um gm level s) kuid =
     (if level = 0 then Some kuid
      else case par of
        None \<Rightarrow> None
      | Some p \<Rightarrow>
          (case uid_from_kernel p kuid of
             None \<Rightarrow> None
           | Some parent_uid \<Rightarrow> id_map_up um parent_uid))"

fun gid_to_kernel :: "user_ns \<Rightarrow> u32 \<Rightarrow> u32 option" where
  "gid_to_kernel (UserNs a par c um gm level s) ns_gid =
     (if level = 0 then Some ns_gid
      else case par of
        None \<Rightarrow> None
      | Some p \<Rightarrow>
          (case id_map_down gm ns_gid of
             None \<Rightarrow> None
           | Some parent_gid \<Rightarrow> gid_to_kernel p parent_gid))"

fun gid_from_kernel :: "user_ns \<Rightarrow> u32 \<Rightarrow> u32 option" where
  "gid_from_kernel (UserNs a par c um gm level s) kgid =
     (if level = 0 then Some kgid
      else case par of
        None \<Rightarrow> None
      | Some p \<Rightarrow>
          (case gid_from_kernel p kgid of
             None \<Rightarrow> None
           | Some parent_gid \<Rightarrow> id_map_up gm parent_gid))"

section \<open>Credentials\<close>

abbreviation OVERFLOW_UID :: u32 where "OVERFLOW_UID \<equiv> 65534"
abbreviation OVERFLOW_GID :: u32 where "OVERFLOW_GID \<equiv> 65534"
abbreviation SETID_KEEP :: u32 where "SETID_KEEP \<equiv> 0xFFFFFFFF"

abbreviation CAP_DAC_OVERRIDE :: u32 where "CAP_DAC_OVERRIDE \<equiv> 1"
abbreviation CAP_KILL :: u32 where "CAP_KILL \<equiv> 5"
abbreviation CAP_SETGID :: u32 where "CAP_SETGID \<equiv> 6"
abbreviation CAP_SETUID :: u32 where "CAP_SETUID \<equiv> 7"
abbreviation CAP_SYS_ADMIN :: u32 where "CAP_SYS_ADMIN \<equiv> 21"
abbreviation CAP_AUDIT_CONTROL :: u32 where "CAP_AUDIT_CONTROL \<equiv> 30"
abbreviation CAP_LAST :: u32 where "CAP_LAST \<equiv> 40"
abbreviation ALL_CAPS_MASK :: u64 where "ALL_CAPS_MASK \<equiv> push_bit 41 1 - 1"

record credentials =
  cr_ruid :: u32
  cr_euid :: u32
  cr_suid :: u32
  cr_fsuid :: u32
  cr_rgid :: u32
  cr_egid :: u32
  cr_sgid :: u32
  cr_fsgid :: u32
  cr_groups :: "u32 list"
  cr_caps_eff :: u64
  cr_caps_perm :: u64
  cr_caps_inh :: u64
  cr_caps_bnd :: u64
  cr_user_ns :: "user_ns option"
  cr_loginuid :: u32

definition creds_root :: credentials where
  "creds_root = \<lparr>
     cr_ruid = 0, cr_euid = 0, cr_suid = 0, cr_fsuid = 0,
     cr_rgid = 0, cr_egid = 0, cr_sgid = 0, cr_fsgid = 0,
     cr_groups = [],
     cr_caps_eff = ALL_CAPS_MASK, cr_caps_perm = ALL_CAPS_MASK,
     cr_caps_inh = 0, cr_caps_bnd = ALL_CAPS_MASK,
     cr_user_ns = None, cr_loginuid = 0xFFFFFFFF\<rparr>"

definition has_cap :: "credentials \<Rightarrow> u32 \<Rightarrow> bool" where
  "has_cap c cap \<longleftrightarrow>
     (if CAP_LAST < cap then False
      else cr_caps_eff c AND push_bit (unat cap) 1 \<noteq> 0)"

definition in_host_user_ns :: "credentials \<Rightarrow> bool" where
  "in_host_user_ns c = (case cr_user_ns c of None \<Rightarrow> True | Some ns \<Rightarrow> un_level ns = 0)"

definition capable_host :: "credentials \<Rightarrow> u32 \<Rightarrow> bool" where
  "capable_host c cap \<longleftrightarrow> has_cap c cap \<and> in_host_user_ns c"

text \<open>The \<open>while let Some(ns) = cur\<close> walk of \<open>dominates\<close> up the parent chain.\<close>

fun on_parent_chain :: "user_ns \<Rightarrow> user_ns \<Rightarrow> bool" where
  "on_parent_chain caller (UserNs a par c um gm level s) =
     (if a = un_addr caller then True
      else case par of None \<Rightarrow> False | Some p \<Rightarrow> on_parent_chain caller p)"

definition dominates :: "credentials \<Rightarrow> user_ns option \<Rightarrow> bool" where
  "dominates c governing =
     (case cr_user_ns c of
        None \<Rightarrow> True
      | Some ns \<Rightarrow>
          if un_level ns = 0 then True
          else case governing of None \<Rightarrow> False | Some g \<Rightarrow> on_parent_chain ns g)"

definition capable_in :: "credentials \<Rightarrow> u32 \<Rightarrow> user_ns option \<Rightarrow> bool" where
  "capable_in c cap governing \<longleftrightarrow> has_cap c cap \<and> dominates c governing"

definition owns_kuid :: "credentials \<Rightarrow> u32 \<Rightarrow> bool" where
  "owns_kuid c kuid =
     (case cr_user_ns c of None \<Rightarrow> True | Some ns \<Rightarrow> uid_from_kernel ns kuid \<noteq> None)"

definition owns_kgid :: "credentials \<Rightarrow> u32 \<Rightarrow> bool" where
  "owns_kgid c kgid =
     (case cr_user_ns c of None \<Rightarrow> True | Some ns \<Rightarrow> gid_from_kernel ns kgid \<noteq> None)"

definition creds_uid_into_kernel :: "credentials \<Rightarrow> u32 \<Rightarrow> u32 option" where
  "creds_uid_into_kernel c ns_uid =
     (case cr_user_ns c of None \<Rightarrow> Some ns_uid | Some ns \<Rightarrow> uid_to_kernel ns ns_uid)"

definition creds_uid_from_kernel :: "credentials \<Rightarrow> u32 \<Rightarrow> u32" where
  "creds_uid_from_kernel c kuid =
     (case cr_user_ns c of
        None \<Rightarrow> kuid
      | Some ns \<Rightarrow> (case uid_from_kernel ns kuid of None \<Rightarrow> OVERFLOW_UID | Some u \<Rightarrow> u))"

definition creds_gid_into_kernel :: "credentials \<Rightarrow> u32 \<Rightarrow> u32 option" where
  "creds_gid_into_kernel c ns_gid =
     (case cr_user_ns c of None \<Rightarrow> Some ns_gid | Some ns \<Rightarrow> gid_to_kernel ns ns_gid)"

definition creds_gid_from_kernel :: "credentials \<Rightarrow> u32 \<Rightarrow> u32" where
  "creds_gid_from_kernel c kgid =
     (case cr_user_ns c of
        None \<Rightarrow> kgid
      | Some ns \<Rightarrow> (case gid_from_kernel ns kgid of None \<Rightarrow> OVERFLOW_GID | Some g \<Rightarrow> g))"

abbreviation is_privileged :: "credentials \<Rightarrow> bool" where
  "is_privileged c \<equiv> capable_host c CAP_DAC_OVERRIDE"

definition apply_uid_change_caps ::
  "u32 \<Rightarrow> u32 \<Rightarrow> u32 \<Rightarrow> u32 \<Rightarrow> bool \<Rightarrow> credentials \<Rightarrow> credentials" where
  "apply_uid_change_caps old_ruid old_euid old_suid old_fsuid keep_caps c =
     (let was_any_root = old_ruid = 0 \<or> old_euid = 0 \<or> old_suid = 0 \<or> old_fsuid = 0;
          now_any_root = cr_ruid c = 0 \<or> cr_euid c = 0 \<or> cr_suid c = 0 \<or> cr_fsuid c = 0 in
      if was_any_root \<and> \<not> now_any_root then
        (let c1 = c\<lparr>cr_caps_eff := 0\<rparr> in if \<not> keep_caps then c1\<lparr>cr_caps_perm := 0\<rparr> else c1)
      else if old_euid \<noteq> 0 \<and> cr_euid c = 0 then c\<lparr>cr_caps_eff := cr_caps_perm c\<rparr>
      else if old_euid = 0 \<and> cr_euid c \<noteq> 0 then c\<lparr>cr_caps_eff := 0\<rparr>
      else c)"

definition is_in_group :: "credentials \<Rightarrow> u32 \<Rightarrow> bool" where
  "is_in_group c gid \<longleftrightarrow> (if cr_egid c = gid then True else gid \<in> set (cr_groups c))"

definition can_access :: "credentials \<Rightarrow> u32 \<Rightarrow> u32 \<Rightarrow> u16 \<Rightarrow> u8 \<Rightarrow> bool" where
  "can_access c file_uid file_gid file_mode mode_req \<longleftrightarrow>
     (if is_privileged c then True
      else
        (let class_bits =
           (if cr_euid c = file_uid then drop_bit 6 file_mode AND 0x7
            else if is_in_group c file_gid then drop_bit 3 file_mode AND 0x7
            else file_mode AND 0x7)
         in (ucast class_bits :: u8) AND mode_req = mode_req))"

definition can_signal :: "credentials \<Rightarrow> credentials \<Rightarrow> bool" where
  "can_signal c target \<longleftrightarrow>
     (if capable_host c CAP_KILL then True
      else cr_ruid c = cr_ruid target \<or> cr_ruid c = cr_suid target
        \<or> cr_euid c = cr_ruid target \<or> cr_euid c = cr_suid target)"

section \<open>Capability sets\<close>

definition capset :: "u64 \<Rightarrow> u64 \<Rightarrow> u64 \<Rightarrow> credentials \<Rightarrow> (int + unit) \<times> credentials" where
  "capset new_eff new_perm new_inh c =
     (if new_perm AND NOT (cr_caps_perm c) \<noteq> 0 then (Inl EPERM, c)
      else if new_eff AND NOT new_perm \<noteq> 0 then (Inl EPERM, c)
      else if new_inh AND NOT (cr_caps_inh c OR cr_caps_perm c) \<noteq> 0 then (Inl EPERM, c)
      else if new_inh AND NOT (cr_caps_bnd c OR cr_caps_inh c) \<noteq> 0 then (Inl EPERM, c)
      else (Inr (), c\<lparr>cr_caps_eff := new_eff AND ALL_CAPS_MASK,
                     cr_caps_perm := new_perm AND ALL_CAPS_MASK,
                     cr_caps_inh := new_inh AND ALL_CAPS_MASK\<rparr>))"

text \<open>\<open>1u64 << cap\<close> panics from 64 on; \<open>None\<close> is that panic.\<close>

definition capbset_read :: "u32 \<Rightarrow> credentials \<Rightarrow> bool option" where
  "capbset_read cap c =
     (if unat cap < 64 then Some (cr_caps_bnd c AND push_bit (unat cap) 1 \<noteq> 0) else None)"

definition capbset_drop :: "u32 \<Rightarrow> credentials \<Rightarrow> credentials option" where
  "capbset_drop cap c =
     (if unat cap < 64
      then Some (c\<lparr>cr_caps_bnd := cr_caps_bnd c AND NOT (push_bit (unat cap) 1)\<rparr>) else None)"

section \<open>Id translation\<close>

text \<open>What a consumer of a namespace relies on: on well-formed namespaces the two
  directions are inverse. The laws are discharged for the uid and for the gid maps.\<close>

locale id_translation =
  fixes to_kernel from_kernel :: "'n \<Rightarrow> u32 \<Rightarrow> u32 option"
    and wf :: "'n \<Rightarrow> bool"
  assumes from_to: "wf n \<Longrightarrow> to_kernel n i = Some k \<Longrightarrow> from_kernel n k = Some i"
    and to_from: "wf n \<Longrightarrow> from_kernel n k = Some i \<Longrightarrow> to_kernel n i = Some k"
begin

lemma to_kernel_inject:
  "wf n \<Longrightarrow> to_kernel n i = Some k \<Longrightarrow> to_kernel n j = Some k \<Longrightarrow> i = j"
  by (metis from_to option.inject)

lemma to_kernel_iff: "wf n \<Longrightarrow> to_kernel n i = Some k \<longleftrightarrow> from_kernel n k = Some i"
  using from_to to_from by blast

lemma mapped_kernel_ids: "wf n \<Longrightarrow> ran (to_kernel n) = {k. from_kernel n k \<noteq> None}"
  by (auto simp: ran_def to_kernel_iff)

end

text \<open>Well-formed maps: ranges inside the id space, disjoint on either side.\<close>

definition ranges_disjoint :: "u32 \<Rightarrow> u32 \<Rightarrow> u32 \<Rightarrow> u32 \<Rightarrow> bool" where
  "ranges_disjoint s1 l1 s2 l2 \<longleftrightarrow>
     unat s1 + unat l1 \<le> unat s2 \<or> unat s2 + unat l2 \<le> unat s1"

definition wf_mapping :: "id_mapping \<Rightarrow> bool" where
  "wf_mapping m \<longleftrightarrow> unat (im_inside_start m) + unat (im_length m) < 2 ^ 32
     \<and> unat (im_outside_start m) + unat (im_length m) < 2 ^ 32"

fun wf_id_map :: "id_mapping list \<Rightarrow> bool" where
  "wf_id_map [] = True"
| "wf_id_map (m # ms) \<longleftrightarrow> wf_mapping m \<and> wf_id_map ms \<and>
     (\<forall>m' \<in> set ms.
        ranges_disjoint (im_inside_start m) (im_length m) (im_inside_start m') (im_length m')
        \<and> ranges_disjoint (im_outside_start m) (im_length m) (im_outside_start m') (im_length m'))"

lemma map_one_down_iff:
  assumes "wf_mapping m"
  shows "map_one_down m i = Some k \<longleftrightarrow>
     unat (im_inside_start m) \<le> unat i \<and> unat i < unat (im_inside_start m) + unat (im_length m)
     \<and> unat k = unat (im_outside_start m) + (unat i - unat (im_inside_start m))"
proof -
  have "unat k = unat (im_outside_start m) + unat (i - im_inside_start m) \<longleftrightarrow>
      k = im_outside_start m + (i - im_inside_start m)"
    if "im_inside_start m \<le> i" "i - im_inside_start m < im_length m"
  proof -
    have "unat (im_outside_start m + (i - im_inside_start m))
        = unat (im_outside_start m) + unat (i - im_inside_start m)"
      using that assms by (intro unat_add_in_range) (simp add: wf_mapping_def word_less_nat_alt)
    then show ?thesis by (metis unsigned_word_eqI)
  qed
  then show ?thesis
    using assms
    by (auto simp: map_one_down_def checked_sub_def checked_add_def word_less_nat_alt
        word_le_nat_alt unat_sub wf_mapping_def split: if_splits)
qed


text \<open>A mapping read in the other direction is the mapping with its sides exchanged.\<close>

definition swap_mapping :: "id_mapping \<Rightarrow> id_mapping" where
  "swap_mapping m = \<lparr>im_inside_start = im_outside_start m,
     im_outside_start = im_inside_start m, im_length = im_length m\<rparr>"

lemma swap_mapping_simps [simp]:
  "im_inside_start (swap_mapping m) = im_outside_start m"
  "im_outside_start (swap_mapping m) = im_inside_start m"
  "im_length (swap_mapping m) = im_length m"
  "swap_mapping (swap_mapping m) = m"
  "wf_mapping (swap_mapping m) = wf_mapping m"
  by (auto simp: swap_mapping_def wf_mapping_def)

lemma map_one_up_swap: "map_one_up m = map_one_down (swap_mapping m)"
  by (simp add: map_one_up_def map_one_down_def fun_eq_iff split: option.split)

lemma id_map_up_swap: "id_map_up ms = id_map_down (map swap_mapping ms)"
proof (rule ext)
  show "id_map_up ms i = id_map_down (map swap_mapping ms) i" for i
    by (induction ms) (simp_all add: map_one_up_swap split: option.split)
qed

lemma wf_id_map_swap: "wf_id_map (map swap_mapping ms) = wf_id_map ms"
  by (induction ms) auto

lemma map_one_inverse:
  assumes "wf_mapping m" and "map_one_down m i = Some k"
  shows "map_one_down (swap_mapping m) k = Some i"
  using assms map_one_down_iff [of m i k] map_one_down_iff [of "swap_mapping m" k i] by auto

lemma id_map_down_in_range:
  assumes "id_map_down ms i = Some k" and "wf_id_map ms"
  shows "\<exists>m \<in> set ms. wf_mapping m \<and> map_one_down m i = Some k"
  using assms
proof (induction ms)
  case (Cons m ms)
  then show ?case by (cases "map_one_down m i") auto
qed simp

lemma id_map_inverse:
  assumes "wf_id_map ms" and "id_map_down ms i = Some k"
  shows "id_map_down (map swap_mapping ms) k = Some i"
  using assms
proof (induction ms)
  case (Cons m ms)
  show ?case
  proof (cases "map_one_down m i")
    case None
    then have down: "id_map_down ms i = Some k" using Cons.prems by simp
    then obtain m' where m': "m' \<in> set ms" "wf_mapping m'" "map_one_down m' i = Some k"
      using id_map_down_in_range Cons.prems by fastforce
    have "ranges_disjoint (im_outside_start m) (im_length m) (im_outside_start m') (im_length m')"
      using Cons.prems m' by auto
    moreover have "unat (im_outside_start m') \<le> unat k"
      "unat k < unat (im_outside_start m') + unat (im_length m')"
      using m' map_one_down_iff [of m' i k] by auto
    ultimately have "map_one_down (swap_mapping m) k \<noteq> Some j" for j
      using Cons.prems map_one_down_iff [of "swap_mapping m" k j]
      by (auto simp: ranges_disjoint_def)
    then have "map_one_down (swap_mapping m) k = None" by blast
    then show ?thesis using Cons down by simp
  next
    case (Some k')
    then show ?thesis using Cons.prems map_one_inverse by simp
  qed
qed simp

text \<open>A namespace chain is well formed for a family of maps when every level below the host
  has a parent and a well-formed map.\<close>

fun wf_ns_uid :: "user_ns \<Rightarrow> bool" where
  "wf_ns_uid (UserNs a par c um gm level s) \<longleftrightarrow>
     level = 0 \<or> wf_id_map um \<and> (case par of None \<Rightarrow> False | Some p \<Rightarrow> wf_ns_uid p)"

fun wf_ns_gid :: "user_ns \<Rightarrow> bool" where
  "wf_ns_gid (UserNs a par c um gm level s) \<longleftrightarrow>
     level = 0 \<or> wf_id_map gm \<and> (case par of None \<Rightarrow> False | Some p \<Rightarrow> wf_ns_gid p)"

lemma id_map_up_inverse:
  "wf_id_map ms \<Longrightarrow> id_map_up ms k = Some i \<Longrightarrow> id_map_down ms i = Some k"
  using id_map_inverse [of "map swap_mapping ms" k i]
  by (simp add: id_map_up_swap wf_id_map_swap comp_def)

lemma id_map_down_inverse:
  "wf_id_map ms \<Longrightarrow> id_map_down ms i = Some k \<Longrightarrow> id_map_up ms k = Some i"
  by (simp add: id_map_up_swap id_map_inverse)

interpretation uid_tr: id_translation uid_to_kernel uid_from_kernel wf_ns_uid
proof unfold_locales
  show "uid_from_kernel n k = Some i"
    if "wf_ns_uid n" "uid_to_kernel n i = Some k" for n i k
    using that
    by (induction n i rule: uid_to_kernel.induct)
      (auto simp: id_map_down_inverse split: if_splits option.splits)
  show "uid_to_kernel n i = Some k"
    if "wf_ns_uid n" "uid_from_kernel n k = Some i" for n i k
    using that
    by (induction n k arbitrary: i rule: uid_from_kernel.induct)
      (auto dest: id_map_up_inverse split: if_splits option.splits)
qed

interpretation gid_tr: id_translation gid_to_kernel gid_from_kernel wf_ns_gid
proof unfold_locales
  show "gid_from_kernel n k = Some i"
    if "wf_ns_gid n" "gid_to_kernel n i = Some k" for n i k
    using that
    by (induction n i rule: gid_to_kernel.induct)
      (auto simp: id_map_down_inverse split: if_splits option.splits)
  show "gid_to_kernel n i = Some k"
    if "wf_ns_gid n" "gid_from_kernel n k = Some i" for n i k
    using that
    by (induction n k arbitrary: i rule: gid_from_kernel.induct)
      (auto dest: id_map_up_inverse split: if_splits option.splits)
qed

end
