(* ===== verification/Setid.thy ===== *)
theory Setid
  imports Creds
begin

text \<open>
  The set-id system calls and the credential transition of exec
  (\<open>kernel/src/security/setid.rs\<close>). \<open>with_current_creds_mut\<close> hands the handler the
  credentials of the current process; a handler is a function from credentials to its return
  value and the updated credentials. \<open>keep\<close> is \<open>current_keep_caps()\<close>.
\<close>

section \<open>Handlers\<close>

definition check_setid_transition ::
  "u32 \<Rightarrow> u32 \<Rightarrow> u32 \<Rightarrow> u32 \<Rightarrow> u32 \<Rightarrow> bool \<Rightarrow> bool" where
  "check_setid_transition current new ruid euid suid privileged \<longleftrightarrow>
     (if new = SETID_KEEP then True
      else if privileged then True
      else new = ruid \<or> new = euid \<or> new = suid \<or> new = current)"

definition map_setuid_in :: "credentials \<Rightarrow> u32 \<Rightarrow> u32 option" where
  "map_setuid_in c i = (if i = SETID_KEEP then Some SETID_KEEP else creds_uid_into_kernel c i)"

definition map_setgid_in :: "credentials \<Rightarrow> u32 \<Rightarrow> u32 option" where
  "map_setgid_in c i = (if i = SETID_KEEP then Some SETID_KEEP else creds_gid_into_kernel c i)"

definition sys_setresuid ::
  "bool \<Rightarrow> u32 \<Rightarrow> u32 \<Rightarrow> u32 \<Rightarrow> credentials \<Rightarrow> int \<times> credentials" where
  "sys_setresuid keep new_ruid new_euid new_suid c =
     (case (map_setuid_in c new_ruid, map_setuid_in c new_euid, map_setuid_in c new_suid) of
        (Some k_ruid, Some k_euid, Some k_suid) \<Rightarrow>
          (let priv = has_cap c CAP_SETUID;
               chk = (\<lambda>cur new. check_setid_transition cur new (cr_ruid c) (cr_euid c) (cr_suid c) priv)
           in if \<not> chk (cr_ruid c) k_ruid \<or> \<not> chk (cr_euid c) k_euid \<or> \<not> chk (cr_suid c) k_suid
              then (EPERM, c)
              else
                (let c1 = (if k_ruid \<noteq> SETID_KEEP then c\<lparr>cr_ruid := k_ruid\<rparr> else c);
                     c2 = (if k_euid \<noteq> SETID_KEEP
                           then c1\<lparr>cr_euid := k_euid, cr_fsuid := k_euid\<rparr> else c1);
                     c3 = (if k_suid \<noteq> SETID_KEEP then c2\<lparr>cr_suid := k_suid\<rparr> else c2)
                 in (0, apply_uid_change_caps (cr_ruid c) (cr_euid c) (cr_suid c) (cr_fsuid c)
                          keep c3)))
      | _ \<Rightarrow> (EINVAL, c))"

definition sys_setresgid ::
  "u32 \<Rightarrow> u32 \<Rightarrow> u32 \<Rightarrow> credentials \<Rightarrow> int \<times> credentials" where
  "sys_setresgid new_rgid new_egid new_sgid c =
     (case (map_setgid_in c new_rgid, map_setgid_in c new_egid, map_setgid_in c new_sgid) of
        (Some k_rgid, Some k_egid, Some k_sgid) \<Rightarrow>
          (let priv = has_cap c CAP_SETGID;
               chk = (\<lambda>cur new. check_setid_transition cur new (cr_rgid c) (cr_egid c) (cr_sgid c) priv)
           in if \<not> chk (cr_rgid c) k_rgid \<or> \<not> chk (cr_egid c) k_egid \<or> \<not> chk (cr_sgid c) k_sgid
              then (EPERM, c)
              else
                (let c1 = (if k_rgid \<noteq> SETID_KEEP then c\<lparr>cr_rgid := k_rgid\<rparr> else c);
                     c2 = (if k_egid \<noteq> SETID_KEEP
                           then c1\<lparr>cr_egid := k_egid, cr_fsgid := k_egid\<rparr> else c1);
                     c3 = (if k_sgid \<noteq> SETID_KEEP then c2\<lparr>cr_sgid := k_sgid\<rparr> else c2)
                 in (0, c3)))
      | _ \<Rightarrow> (EINVAL, c))"

definition sys_setuid :: "bool \<Rightarrow> u32 \<Rightarrow> credentials \<Rightarrow> int \<times> credentials" where
  "sys_setuid keep uid c =
     (case creds_uid_into_kernel c uid of
        None \<Rightarrow> (EINVAL, c)
      | Some ku \<Rightarrow>
          (let upd = apply_uid_change_caps (cr_ruid c) (cr_euid c) (cr_suid c) (cr_fsuid c) keep in
           if has_cap c CAP_SETUID then
             (0, upd (c\<lparr>cr_ruid := ku, cr_euid := ku, cr_suid := ku, cr_fsuid := ku\<rparr>))
           else if ku = cr_ruid c \<or> ku = cr_euid c \<or> ku = cr_suid c then
             (0, upd (c\<lparr>cr_euid := ku, cr_fsuid := ku\<rparr>))
           else (EPERM, c)))"

definition sys_setgid :: "u32 \<Rightarrow> credentials \<Rightarrow> int \<times> credentials" where
  "sys_setgid gid c =
     (case creds_gid_into_kernel c gid of
        None \<Rightarrow> (EINVAL, c)
      | Some kg \<Rightarrow>
          if has_cap c CAP_SETGID then
            (0, c\<lparr>cr_rgid := kg, cr_egid := kg, cr_sgid := kg, cr_fsgid := kg\<rparr>)
          else if kg = cr_rgid c \<or> kg = cr_egid c \<or> kg = cr_sgid c then
            (0, c\<lparr>cr_egid := kg, cr_fsgid := kg\<rparr>)
          else (EPERM, c))"

definition sys_setreuid :: "bool \<Rightarrow> u32 \<Rightarrow> u32 \<Rightarrow> credentials \<Rightarrow> int \<times> credentials" where
  "sys_setreuid keep new_ruid new_euid c =
     (case (map_setuid_in c new_ruid, map_setuid_in c new_euid) of
        (Some k_ruid, Some k_euid) \<Rightarrow>
          (let priv = has_cap c CAP_SETUID;
               chk = (\<lambda>cur new. check_setid_transition cur new (cr_ruid c) (cr_euid c) (cr_suid c) priv)
           in if \<not> chk (cr_ruid c) k_ruid \<or> \<not> chk (cr_euid c) k_euid then (EPERM, c)
              else
                (let ruid_changing = k_ruid \<noteq> SETID_KEEP \<and> k_ruid \<noteq> cr_ruid c;
                     euid_changing = k_euid \<noteq> SETID_KEEP \<and> k_euid \<noteq> cr_euid c;
                     c1 = (if k_ruid \<noteq> SETID_KEEP then c\<lparr>cr_ruid := k_ruid\<rparr> else c);
                     c2 = (if k_euid \<noteq> SETID_KEEP
                           then c1\<lparr>cr_euid := k_euid, cr_fsuid := k_euid\<rparr> else c1);
                     c3 = (if ruid_changing \<or> (euid_changing \<and> k_euid \<noteq> cr_suid c2)
                           then c2\<lparr>cr_suid := cr_euid c2\<rparr> else c2)
                 in (0, apply_uid_change_caps (cr_ruid c) (cr_euid c) (cr_suid c) (cr_fsuid c)
                          keep c3)))
      | _ \<Rightarrow> (EINVAL, c))"

definition sys_setregid :: "u32 \<Rightarrow> u32 \<Rightarrow> credentials \<Rightarrow> int \<times> credentials" where
  "sys_setregid new_rgid new_egid c =
     (case (map_setgid_in c new_rgid, map_setgid_in c new_egid) of
        (Some k_rgid, Some k_egid) \<Rightarrow>
          (let priv = has_cap c CAP_SETGID;
               chk = (\<lambda>cur new. check_setid_transition cur new (cr_rgid c) (cr_egid c) (cr_sgid c) priv)
           in if \<not> chk (cr_rgid c) k_rgid \<or> \<not> chk (cr_egid c) k_egid then (EPERM, c)
              else
                (let rgid_changing = k_rgid \<noteq> SETID_KEEP \<and> k_rgid \<noteq> cr_rgid c;
                     egid_changing = k_egid \<noteq> SETID_KEEP \<and> k_egid \<noteq> cr_egid c;
                     c1 = (if k_rgid \<noteq> SETID_KEEP then c\<lparr>cr_rgid := k_rgid\<rparr> else c);
                     c2 = (if k_egid \<noteq> SETID_KEEP
                           then c1\<lparr>cr_egid := k_egid, cr_fsgid := k_egid\<rparr> else c1);
                     c3 = (if rgid_changing \<or> (egid_changing \<and> k_egid \<noteq> cr_sgid c2)
                           then c2\<lparr>cr_sgid := cr_egid c2\<rparr> else c2)
                 in (0, c3)))
      | _ \<Rightarrow> (EINVAL, c))"

definition sys_setfsuid :: "u32 \<Rightarrow> credentials \<Rightarrow> int \<times> credentials" where
  "sys_setfsuid new_fsuid c =
     (let old = uint (creds_uid_from_kernel c (cr_fsuid c)) in
      case map_setuid_in c new_fsuid of
        None \<Rightarrow> (old, c)
      | Some k_new \<Rightarrow>
          (let allowed = has_cap c CAP_SETUID \<or> k_new = cr_ruid c \<or> k_new = cr_euid c
                           \<or> k_new = cr_suid c \<or> k_new = cr_fsuid c
           in (old, if allowed \<and> k_new \<noteq> SETID_KEEP then c\<lparr>cr_fsuid := k_new\<rparr> else c)))"

definition sys_setfsgid :: "u32 \<Rightarrow> credentials \<Rightarrow> int \<times> credentials" where
  "sys_setfsgid new_fsgid c =
     (let old = uint (creds_gid_from_kernel c (cr_fsgid c)) in
      case map_setgid_in c new_fsgid of
        None \<Rightarrow> (old, c)
      | Some k_new \<Rightarrow>
          (let allowed = has_cap c CAP_SETGID \<or> k_new = cr_rgid c \<or> k_new = cr_egid c
                           \<or> k_new = cr_sgid c \<or> k_new = cr_fsgid c
           in (old, if allowed \<and> k_new \<noteq> SETID_KEEP then c\<lparr>cr_fsgid := k_new\<rparr> else c)))"

section \<open>Credentials across exec\<close>

record exec_cred_transition =
  et_post_euid :: u32
  et_post_egid :: u32
  et_secure :: bool
  et_suid_owner :: "u32 option"
  et_sgid_owner :: "u32 option"

definition exec_transition ::
  "u16 \<Rightarrow> u32 \<Rightarrow> u32 \<Rightarrow> u32 \<Rightarrow> u32 \<Rightarrow> u32 \<Rightarrow> u32 \<Rightarrow> bool \<Rightarrow> bool \<Rightarrow> exec_cred_transition" where
  "exec_transition file_mode file_uid file_gid ruid pre_euid rgid pre_egid nosuid no_new_privs =
     (let grant_setid = \<not> nosuid \<and> \<not> no_new_privs;
          suid_owner = (if grant_setid \<and> file_mode AND 0x800 \<noteq> 0 then Some file_uid else None);
          sgid_owner = (if grant_setid \<and> file_mode AND 0x400 \<noteq> 0 then Some file_gid else None);
          post_euid = (case suid_owner of None \<Rightarrow> pre_euid | Some u \<Rightarrow> u);
          post_egid = (case sgid_owner of None \<Rightarrow> pre_egid | Some g \<Rightarrow> g);
          secure = (ruid \<noteq> post_euid \<or> rgid \<noteq> post_egid
             \<or> (case suid_owner of Some u \<Rightarrow> u \<noteq> ruid | None \<Rightarrow> False)
             \<or> (case sgid_owner of Some g \<Rightarrow> g \<noteq> rgid | None \<Rightarrow> False))
      in \<lparr>et_post_euid = post_euid, et_post_egid = post_egid, et_secure = secure,
          et_suid_owner = suid_owner, et_sgid_owner = sgid_owner\<rparr>)"

definition apply_exec_transition :: "exec_cred_transition \<Rightarrow> credentials \<Rightarrow> credentials" where
  "apply_exec_transition t c =
     (let c1 = (case et_suid_owner t of
                  Some uid \<Rightarrow> c\<lparr>cr_euid := uid, cr_suid := uid, cr_fsuid := uid\<rparr> | None \<Rightarrow> c);
          c2 = (case et_sgid_owner t of
                  Some gid \<Rightarrow> c1\<lparr>cr_egid := gid, cr_sgid := gid, cr_fsgid := gid\<rparr> | None \<Rightarrow> c1);
          privileged = cr_euid c2 = 0 \<or> cr_ruid c2 = 0;
          c3 = c2\<lparr>cr_caps_perm := if privileged then cr_caps_bnd c2 OR cr_caps_inh c2 else 0\<rparr>
      in c3\<lparr>cr_caps_eff := if cr_euid c3 = 0 then cr_caps_perm c3 else 0\<rparr>)"

section \<open>Supplementary groups and namespaces\<close>

fun map_groups :: "credentials \<Rightarrow> u32 list \<Rightarrow> u32 list option" where
  "map_groups c [] = Some []"
| "map_groups c (g # gs) =
     (case creds_gid_into_kernel c g of
        None \<Rightarrow> None
      | Some k \<Rightarrow> map_option (Cons k) (map_groups c gs))"

definition set_supplementary_groups ::
  "u32 list \<Rightarrow> credentials \<Rightarrow> (int + unit) \<times> credentials" where
  "set_supplementary_groups ns_gids c =
     (case map_groups c ns_gids of
        None \<Rightarrow> (Inl EINVAL, c)
      | Some kgroups \<Rightarrow> (Inr (), c\<lparr>cr_groups := kgroups\<rparr>))"

definition clear_supplementary_groups :: "credentials \<Rightarrow> credentials" where
  "clear_supplementary_groups c = c\<lparr>cr_groups := []\<rparr>"

definition enter_user_namespace :: "user_ns \<Rightarrow> credentials \<Rightarrow> credentials" where
  "enter_user_namespace new_ns c =
     c\<lparr>cr_user_ns := Some new_ns, cr_caps_eff := ALL_CAPS_MASK, cr_caps_perm := ALL_CAPS_MASK,
       cr_caps_inh := ALL_CAPS_MASK, cr_caps_bnd := ALL_CAPS_MASK\<rparr>"

definition set_loginuid :: "u32 \<Rightarrow> credentials \<Rightarrow> bool \<times> credentials" where
  "set_loginuid val c =
     (if \<not> has_cap c CAP_AUDIT_CONTROL then (False, c) else (True, c\<lparr>cr_loginuid := val\<rparr>))"

text \<open>The two bounding-set requests of \<open>sys_prctl\<close>; \<open>None\<close> would be a shift panic.\<close>

abbreviation CAP_SETPCAP :: u32 where "CAP_SETPCAP \<equiv> 8"

definition prctl_capbset_read :: "u64 \<Rightarrow> credentials \<Rightarrow> int option" where
  "prctl_capbset_read arg2 c =
     (if 63 < arg2 then Some EINVAL
      else map_option (\<lambda>b. if b then 1 else 0) (capbset_read (ucast arg2) c))"

definition prctl_capbset_drop :: "u64 \<Rightarrow> credentials \<Rightarrow> (int \<times> credentials) option" where
  "prctl_capbset_drop arg2 c =
     (if 63 < arg2 then Some (EINVAL, c)
      else if \<not> has_cap c CAP_SETPCAP then Some (EPERM, c)
      else map_option (\<lambda>c'. (0, c')) (capbset_drop (ucast arg2) c))"

section \<open>Histories of credential calls\<close>

text \<open>The calls with which a process changes its own ids and capability sets, short of
  exec and of entering a user namespace. The first argument of the uid calls is the
  keep-capabilities flag in force at that call.\<close>

datatype cred_call =
    CallSetresuid bool u32 u32 u32
  | CallSetresgid u32 u32 u32
  | CallSetuid bool u32
  | CallSetgid u32
  | CallSetreuid bool u32 u32
  | CallSetregid u32 u32
  | CallSetfsuid u32
  | CallSetfsgid u32
  | CallCapset u64 u64 u64
  | CallCapbsetDrop u64

fun cred_call_step :: "cred_call \<Rightarrow> credentials \<Rightarrow> credentials" where
  "cred_call_step (CallSetresuid k r e s) c = snd (sys_setresuid k r e s c)"
| "cred_call_step (CallSetresgid r e s) c = snd (sys_setresgid r e s c)"
| "cred_call_step (CallSetuid k u) c = snd (sys_setuid k u c)"
| "cred_call_step (CallSetgid g) c = snd (sys_setgid g c)"
| "cred_call_step (CallSetreuid k r e) c = snd (sys_setreuid k r e c)"
| "cred_call_step (CallSetregid r e) c = snd (sys_setregid r e c)"
| "cred_call_step (CallSetfsuid u) c = snd (sys_setfsuid u c)"
| "cred_call_step (CallSetfsgid g) c = snd (sys_setfsgid g c)"
| "cred_call_step (CallCapset e p i) c = snd (capset e p i c)"
| "cred_call_step (CallCapbsetDrop cap) c =
     (case prctl_capbset_drop cap c of None \<Rightarrow> c | Some (_, c') \<Rightarrow> c')"

definition cred_uids :: "credentials \<Rightarrow> u32 set" where
  "cred_uids c = {cr_ruid c, cr_euid c, cr_suid c, cr_fsuid c}"

definition cred_gids :: "credentials \<Rightarrow> u32 set" where
  "cred_gids c = {cr_rgid c, cr_egid c, cr_sgid c, cr_fsgid c}"

definition caps_sub :: "u64 \<Rightarrow> u64 \<Rightarrow> bool" where
  "caps_sub a b \<longleftrightarrow> a AND NOT b = 0"

text \<open>The effective set lies inside the permitted set.\<close>

definition caps_wf :: "credentials \<Rightarrow> bool" where
  "caps_wf c \<longleftrightarrow> caps_sub (cr_caps_eff c) (cr_caps_perm c)"

section \<open>Capability arithmetic\<close>

lemma caps_sub_iff: "caps_sub a b \<longleftrightarrow> (\<forall>n < 64. bit a n \<longrightarrow> bit b n)"
  by (simp add: caps_sub_def bit_eq_iff bit_and_iff bit_not_iff)

lemma caps_sub_refl [simp]: "caps_sub a a"
  and caps_sub_zero [simp]: "caps_sub 0 a"
  by (simp_all add: caps_sub_iff)

lemma caps_sub_trans: "caps_sub a b \<Longrightarrow> caps_sub b c \<Longrightarrow> caps_sub a c"
  by (simp add: caps_sub_iff)

lemma caps_sub_and_mono: "caps_sub a b \<Longrightarrow> caps_sub (a AND m) (b AND m)"
  by (simp add: caps_sub_iff bit_and_iff)

lemma caps_sub_and_left: "caps_sub a b \<Longrightarrow> caps_sub (a AND m) b"
  by (simp add: caps_sub_iff bit_and_iff)

lemma has_cap_bit: "cap \<le> CAP_LAST \<Longrightarrow> has_cap c cap \<longleftrightarrow> bit (cr_caps_eff c) (unat cap)"
  by (simp add: has_cap_def bit_iff_and_push_bit_not_eq_0 not_less [symmetric])

lemma has_cap_setid [simp]:
  "has_cap c CAP_SETUID \<longleftrightarrow> bit (cr_caps_eff c) 7"
  "has_cap c CAP_SETGID \<longleftrightarrow> bit (cr_caps_eff c) 6"
  using has_cap_bit [of CAP_SETUID c] has_cap_bit [of CAP_SETGID c]
  by simp_all

section \<open>What a uid change does to the capability sets\<close>

lemma apply_uid_change_caps_ids [simp]:
  "cred_uids (apply_uid_change_caps r e s f k c) = cred_uids c"
  "cred_gids (apply_uid_change_caps r e s f k c) = cred_gids c"
  by (simp_all add: apply_uid_change_caps_def cred_uids_def cred_gids_def Let_def)

lemma apply_uid_change_caps_perm:
  "caps_sub (cr_caps_perm (apply_uid_change_caps r e s f k c)) (cr_caps_perm c)"
  by (simp add: apply_uid_change_caps_def Let_def)

lemma apply_uid_change_caps_wf:
  "caps_wf c \<Longrightarrow> caps_wf (apply_uid_change_caps r e s f k c)"
  by (simp add: apply_uid_change_caps_def caps_wf_def Let_def)

lemma ids_self:
  "cr_ruid c \<in> cred_uids c" "cr_euid c \<in> cred_uids c" "cr_suid c \<in> cred_uids c"
  "cr_fsuid c \<in> cred_uids c" "cr_rgid c \<in> cred_gids c" "cr_egid c \<in> cred_gids c"
  "cr_sgid c \<in> cred_gids c" "cr_fsgid c \<in> cred_gids c"
  by (simp_all add: cred_uids_def cred_gids_def)

lemma cred_uids_subset: "cred_uids d \<subseteq> U \<longleftrightarrow> cr_ruid d \<in> U \<and> cr_euid d \<in> U \<and> cr_suid d \<in> U
    \<and> cr_fsuid d \<in> U"
  by (simp add: cred_uids_def)

lemma cred_gids_subset: "cred_gids d \<subseteq> U \<longleftrightarrow> cr_rgid d \<in> U \<and> cr_egid d \<in> U \<and> cr_sgid d \<in> U
    \<and> cr_fsgid d \<in> U"
  by (simp add: cred_gids_def)

lemma cred_uids_upd [simp]:
  "cred_gids (c\<lparr>cr_ruid := u\<rparr>) = cred_gids c" "cred_gids (c\<lparr>cr_euid := u\<rparr>) = cred_gids c"
  "cred_gids (c\<lparr>cr_suid := u\<rparr>) = cred_gids c" "cred_gids (c\<lparr>cr_fsuid := u\<rparr>) = cred_gids c"
  "cred_uids (c\<lparr>cr_rgid := u\<rparr>) = cred_uids c" "cred_uids (c\<lparr>cr_egid := u\<rparr>) = cred_uids c"
  "cred_uids (c\<lparr>cr_sgid := u\<rparr>) = cred_uids c" "cred_uids (c\<lparr>cr_fsgid := u\<rparr>) = cred_uids c"
  by (simp_all add: cred_uids_def cred_gids_def)

text \<open>The common shape of the uid handlers: they either leave the credentials alone or move
  the ids, within the ids already held unless privileged, and then adjust the capabilities.\<close>

definition uid_effect :: "credentials \<Rightarrow> credentials \<Rightarrow> bool" where
  "uid_effect c c' \<longleftrightarrow>
     (\<exists>d. (c' = d \<or> (\<exists>r e s f k. c' = apply_uid_change_caps r e s f k d))
        \<and> cr_caps_eff d = cr_caps_eff c \<and> cr_caps_perm d = cr_caps_perm c
        \<and> cred_gids d = cred_gids c
        \<and> (bit (cr_caps_eff c) 7 \<or> cred_uids d \<subseteq> cred_uids c))"

lemma uid_effect_refl: "uid_effect c c"
  unfolding uid_effect_def by blast

lemma uid_effectI:
  assumes "cr_caps_eff d = cr_caps_eff c" "cr_caps_perm d = cr_caps_perm c"
    "cred_gids d = cred_gids c"
    "bit (cr_caps_eff c) 7 \<or> cr_ruid d \<in> cred_uids c \<and> cr_euid d \<in> cred_uids c
       \<and> cr_suid d \<in> cred_uids c \<and> cr_fsuid d \<in> cred_uids c"
  shows "uid_effect c d" and "uid_effect c (apply_uid_change_caps r e s f k d)"
  using assms unfolding uid_effect_def cred_uids_subset by blast+

text \<open>An id after a checked transition, the keep value meaning the id held.\<close>

definition kept :: "u32 \<Rightarrow> u32 \<Rightarrow> u32" where
  "kept cur new = (if new \<noteq> SETID_KEEP then new else cur)"

lemma kept_in:
  assumes "check_setid_transition cur new r e s False" "{r, e, s, cur, cur'} \<subseteq> I"
  shows "kept cur' new \<in> I"
  using assms by (auto simp: check_setid_transition_def kept_def split: if_splits)

lemma kept_uid_in:
  assumes "check_setid_transition cur new (cr_ruid c) (cr_euid c) (cr_suid c) False"
  shows "cur = cr_ruid c \<Longrightarrow> kept (cr_ruid c) new \<in> cred_uids c"
    and "cur = cr_suid c \<Longrightarrow> kept (cr_suid c) new \<in> cred_uids c"
    and "cur = cr_euid c \<Longrightarrow> kept (cr_euid c) new \<in> cred_uids c"
    and "cur = cr_euid c \<Longrightarrow> kept (cr_fsuid c) new \<in> cred_uids c"
  using kept_in [OF assms, of _ "cred_uids c"] by (simp_all add: ids_self)

lemma kept_gid_in:
  assumes "check_setid_transition cur new (cr_rgid c) (cr_egid c) (cr_sgid c) False"
  shows "cur = cr_rgid c \<Longrightarrow> kept (cr_rgid c) new \<in> cred_gids c"
    and "cur = cr_sgid c \<Longrightarrow> kept (cr_sgid c) new \<in> cred_gids c"
    and "cur = cr_egid c \<Longrightarrow> kept (cr_egid c) new \<in> cred_gids c"
    and "cur = cr_egid c \<Longrightarrow> kept (cr_fsgid c) new \<in> cred_gids c"
  using kept_in [OF assms, of _ "cred_gids c"] by (simp_all add: ids_self)

lemmas kept_simps [simp] =
  kept_uid_in(1) [OF _ refl] kept_uid_in(2) [OF _ refl] kept_uid_in(3) [OF _ refl]
  kept_uid_in(4) [OF _ refl] kept_gid_in(1) [OF _ refl] kept_gid_in(2) [OF _ refl]
  kept_gid_in(3) [OF _ refl] kept_gid_in(4) [OF _ refl]

lemma if_kept:
  "(if k \<noteq> SETID_KEEP then c\<lparr>cr_ruid := k\<rparr> else c) = c\<lparr>cr_ruid := kept (cr_ruid c) k\<rparr>"
  "(if k \<noteq> SETID_KEEP then c\<lparr>cr_suid := k\<rparr> else c) = c\<lparr>cr_suid := kept (cr_suid c) k\<rparr>"
  "(if k \<noteq> SETID_KEEP then c\<lparr>cr_euid := k, cr_fsuid := k\<rparr> else c) =
     c\<lparr>cr_euid := kept (cr_euid c) k, cr_fsuid := kept (cr_fsuid c) k\<rparr>"
  "(if k \<noteq> SETID_KEEP then c\<lparr>cr_rgid := k\<rparr> else c) = c\<lparr>cr_rgid := kept (cr_rgid c) k\<rparr>"
  "(if k \<noteq> SETID_KEEP then c\<lparr>cr_sgid := k\<rparr> else c) = c\<lparr>cr_sgid := kept (cr_sgid c) k\<rparr>"
  "(if k \<noteq> SETID_KEEP then c\<lparr>cr_egid := k, cr_fsgid := k\<rparr> else c) =
     c\<lparr>cr_egid := kept (cr_egid c) k, cr_fsgid := kept (cr_fsgid c) k\<rparr>"
  by (simp_all add: kept_def)

lemma sys_setresuid_effect: "uid_effect c (snd (sys_setresuid k r e s c))"
  unfolding sys_setresuid_def if_kept Let_def has_cap_setid
  by (cases "bit (cr_caps_eff c) 7")
    (auto simp: uid_effect_refl ids_self intro!: uid_effectI
      split: option.split)

lemma sys_setreuid_effect: "uid_effect c (snd (sys_setreuid k r e c))"
  unfolding sys_setreuid_def if_kept Let_def has_cap_setid
  by (cases "bit (cr_caps_eff c) 7")
    (auto simp: uid_effect_refl ids_self intro!: uid_effectI
      split: option.split)

lemma sys_setuid_effect: "uid_effect c (snd (sys_setuid k u c))"
  by (auto simp: sys_setuid_def Let_def uid_effect_refl ids_self
      intro!: uid_effectI split: option.split)

lemma sys_setfsuid_effect: "uid_effect c (snd (sys_setfsuid u c))"
  by (auto simp: sys_setfsuid_def Let_def uid_effect_refl ids_self
      intro!: uid_effectI split: option.split)

text \<open>The gid handlers move gids only.\<close>

definition gid_effect :: "credentials \<Rightarrow> credentials \<Rightarrow> bool" where
  "gid_effect c c' \<longleftrightarrow> cr_caps_eff c' = cr_caps_eff c \<and> cr_caps_perm c' = cr_caps_perm c
     \<and> cred_uids c' = cred_uids c \<and> (bit (cr_caps_eff c) 6 \<or> cred_gids c' \<subseteq> cred_gids c)"

lemma gid_effectI:
  assumes "cr_caps_eff d = cr_caps_eff c" "cr_caps_perm d = cr_caps_perm c"
    "cred_uids d = cred_uids c"
    "bit (cr_caps_eff c) 6 \<or> cr_rgid d \<in> cred_gids c \<and> cr_egid d \<in> cred_gids c
       \<and> cr_sgid d \<in> cred_gids c \<and> cr_fsgid d \<in> cred_gids c"
  shows "gid_effect c d"
  using assms unfolding gid_effect_def cred_gids_subset by blast

lemma sys_setresgid_effect: "gid_effect c (snd (sys_setresgid r e s c))"
  unfolding sys_setresgid_def if_kept Let_def has_cap_setid
  by (cases "bit (cr_caps_eff c) 6")
    (auto simp: ids_self intro!: gid_effectI split: option.split)

lemma sys_setregid_effect: "gid_effect c (snd (sys_setregid r e c))"
  unfolding sys_setregid_def if_kept Let_def has_cap_setid
  by (cases "bit (cr_caps_eff c) 6")
    (auto simp: ids_self intro!: gid_effectI split: option.split)

lemma sys_setgid_effect: "gid_effect c (snd (sys_setgid g c))"
  by (auto simp: sys_setgid_def Let_def ids_self intro!: gid_effectI split: option.split)

lemma sys_setfsgid_effect: "gid_effect c (snd (sys_setfsgid g c))"
  by (auto simp: sys_setfsgid_def Let_def ids_self intro!: gid_effectI split: option.split)

section \<open>Nothing is regained\<close>

text \<open>What a history of calls keeps: ids among \<open>U\<close> and \<open>G\<close>, permitted capabilities
  among \<open>P\<close>, effective inside permitted.\<close>

definition cred_bounded :: "u32 set \<Rightarrow> u32 set \<Rightarrow> u64 \<Rightarrow> credentials \<Rightarrow> bool" where
  "cred_bounded U G P c \<longleftrightarrow> cred_uids c \<subseteq> U \<and> cred_gids c \<subseteq> G
     \<and> caps_sub (cr_caps_perm c) P \<and> caps_wf c"

lemma uid_effect_bounded:
  assumes "cred_bounded U G P c" "\<not> bit P 7" "uid_effect c c'"
  shows "cred_bounded U G P c'"
proof -
  from assms(3) obtain d where d: "c' = d \<or> (\<exists>r e s f k. c' = apply_uid_change_caps r e s f k d)"
    "cr_caps_eff d = cr_caps_eff c" "cr_caps_perm d = cr_caps_perm c"
    "cred_gids d = cred_gids c" "bit (cr_caps_eff c) 7 \<or> cred_uids d \<subseteq> cred_uids c"
    unfolding uid_effect_def by blast
  have "\<not> bit (cr_caps_eff c) 7"
    using assms(1,2) unfolding cred_bounded_def caps_wf_def caps_sub_iff by force
  then have "cred_bounded U G P d"
    using assms(1) d(2-5) by (auto simp: cred_bounded_def caps_wf_def)
  then show ?thesis
    using d(1) apply_uid_change_caps_wf
      caps_sub_trans [OF apply_uid_change_caps_perm, of d P]
    by (auto simp: cred_bounded_def)
qed

lemma gid_effect_bounded:
  assumes "cred_bounded U G P c" "\<not> bit P 6" "gid_effect c c'"
  shows "cred_bounded U G P c'"
proof -
  have "\<not> bit (cr_caps_eff c) 6"
    using assms(1,2) unfolding cred_bounded_def caps_wf_def caps_sub_iff by force
  then show ?thesis
    using assms(1,3) unfolding cred_bounded_def gid_effect_def caps_wf_def by auto
qed

lemma capset_bounded:
  "cred_bounded U G P c \<Longrightarrow> cred_bounded U G P (snd (capset e p i c))"
  unfolding capset_def caps_sub_def [symmetric]
  by (auto simp: cred_bounded_def caps_wf_def caps_sub_and_mono cred_uids_def cred_gids_def
      intro: caps_sub_trans caps_sub_and_left)

lemma cred_call_bounded:
  assumes "cred_bounded U G P c" "\<not> bit P 6" "\<not> bit P 7"
  shows "cred_bounded U G P (cred_call_step call c)"
proof (cases call)
  case (CallCapbsetDrop cap)
  then show ?thesis
    using assms(1) by (auto simp: prctl_capbset_drop_def capbset_drop_def cred_bounded_def
        caps_wf_def cred_uids_def cred_gids_def split: if_splits)
qed (simp_all add: uid_effect_bounded [OF assms(1,3)] gid_effect_bounded [OF assms(1,2)]
    capset_bounded assms sys_setresuid_effect sys_setreuid_effect sys_setuid_effect
    sys_setfsuid_effect sys_setresgid_effect sys_setregid_effect sys_setgid_effect
    sys_setfsgid_effect)

lemma cred_calls_bounded:
  assumes "cred_bounded U G P c" "\<not> bit P 6" "\<not> bit P 7"
  shows "cred_bounded U G P (fold cred_call_step calls c)"
  using assms by (induction calls arbitrary: c) (simp_all add: cred_call_bounded)


text \<open>A set-uid root program that holds root as saved id, with no capability but CAP_KILL:
  switching its effective id gains ids it already had and nothing else.\<close>

definition demo_creds :: credentials where
  "demo_creds = creds_root\<lparr>cr_ruid := 1000, cr_euid := 1000, cr_fsuid := 1000,
     cr_caps_eff := 0, cr_caps_perm := 32\<rparr>"


section \<open>Exec\<close>

text \<open>C4: what exec does to every credential. The set-uid and set-gid bits count unless the mount
  is nosuid or no_new_privs is set; they set the effective, saved and file-system ids to the owner
  of the file, and no other id changes. The permitted capabilities are recomputed: those of the
  bounding or the inheritable set when the new effective or the real uid is 0, otherwise none; the
  effective ones are the permitted ones when the new effective uid is 0, otherwise none. The
  announced ids are the ones applied, and the program runs in secure mode exactly when an effective
  id differs from the real one. So a program that is not root and runs no set-uid root file ends
  without any capability.\<close>

theorem exec_transition_applied:
  fixes c :: credentials
  defines "t mode fu fg nosuid nnp \<equiv> exec_transition mode fu fg (cr_ruid c) (cr_euid c)
    (cr_rgid c) (cr_egid c) nosuid nnp"
  shows "let c' = apply_exec_transition (t mode fu fg nosuid nnp) c;
      su = (\<not> nosuid \<and> \<not> nnp \<and> bit mode 11); sg = (\<not> nosuid \<and> \<not> nnp \<and> bit mode 10) in
    c' = c\<lparr>cr_euid := if su then fu else cr_euid c, cr_suid := if su then fu else cr_suid c,
           cr_fsuid := if su then fu else cr_fsuid c, cr_egid := if sg then fg else cr_egid c,
           cr_sgid := if sg then fg else cr_sgid c, cr_fsgid := if sg then fg else cr_fsgid c,
           cr_caps_perm := cr_caps_perm c', cr_caps_eff := cr_caps_eff c'\<rparr>
    \<and> (\<forall>i. bit (cr_caps_perm c') i \<longleftrightarrow>
         (cr_euid c' = 0 \<or> cr_ruid c = 0) \<and> (bit (cr_caps_bnd c) i \<or> bit (cr_caps_inh c) i))
    \<and> (\<forall>i. bit (cr_caps_eff c') i \<longleftrightarrow> cr_euid c' = 0 \<and> bit (cr_caps_perm c') i)
    \<and> et_post_euid (t mode fu fg nosuid nnp) = cr_euid c'
    \<and> et_post_egid (t mode fu fg nosuid nnp) = cr_egid c'
    \<and> (et_secure (t mode fu fg nosuid nnp) \<longleftrightarrow> cr_ruid c' \<noteq> cr_euid c' \<or> cr_rgid c' \<noteq> cr_egid c')
    \<and> (cr_ruid c \<noteq> 0 \<and> cr_euid c \<noteq> 0 \<and> (su \<longrightarrow> fu \<noteq> 0) \<longrightarrow>
         cr_caps_perm c' = 0 \<and> cr_caps_eff c' = 0)"
proof -
  have bit11: "mode AND 0x800 \<noteq> 0 \<longleftrightarrow> bit mode 11"
    using bit_iff_and_push_bit_not_eq_0 [of mode 11] by (simp add: push_bit_eq_mult)
  have bit10: "mode AND 0x400 \<noteq> 0 \<longleftrightarrow> bit mode 10"
    using bit_iff_and_push_bit_not_eq_0 [of mode 10] by (simp add: push_bit_eq_mult)
  show ?thesis
    unfolding t_def exec_transition_def apply_exec_transition_def bit11 bit10
    by (auto simp: Let_def bit_or_iff split: if_splits)
qed

theorem exec_transition_applied_witness:
  "cr_euid (apply_exec_transition (exec_transition 0x9ED 0 0 1000 1000 1000 1000 False False)
     (demo_creds\<lparr>cr_rgid := 1000, cr_egid := 1000\<rparr>)) = 0
   \<and> cr_euid (apply_exec_transition (exec_transition 0x9ED 0 0 1000 1000 1000 1000 False True)
     (demo_creds\<lparr>cr_rgid := 1000, cr_egid := 1000\<rparr>)) = 1000"
  using exec_transition_applied [where c = "demo_creds\<lparr>cr_rgid := 1000, cr_egid := 1000\<rparr>"
      and mode = "0x9ED" and fu = 0 and fg = 0 and nosuid = False and nnp = True]
    exec_transition_applied [where c = "demo_creds\<lparr>cr_rgid := 1000, cr_egid := 1000\<rparr>"
      and mode = "0x9ED" and fu = 0 and fg = 0 and nosuid = False and nnp = False]
  by (simp add: Let_def demo_creds_def creds_root_def exec_transition_def bit_iff_odd)

end
