(* ===== verification/Id_Map.thy ===== *)
theory Id_Map
  imports Setid
begin

text \<open>
  The files \<open>uid_map\<close>, \<open>gid_map\<close> and \<open>setgroups\<close> of a process (\<open>IdMapFile\<close> and
  \<open>SetgroupsFile\<close> in \<open>kernel/src/fs/procfs.rs\<close>), through which the maps of a user namespace
  are installed, and the creation of a namespace by \<open>unshare\<close>. The text written is given as
  its lines split into words at white space; \<open>None\<close> is text that is not UTF-8.
\<close>

section \<open>Parsing\<close>

definition is_digit :: "char \<Rightarrow> bool" where
  "is_digit ch \<longleftrightarrow> 48 \<le> (of_char ch :: nat) \<and> (of_char ch :: nat) \<le> 57"

definition digit_val :: "char \<Rightarrow> nat" where
  "digit_val ch = of_char ch - 48"

text \<open>\<open>str::parse::<u32>\<close>: an optional plus sign, then at least one digit, within range.\<close>

definition parse_u32 :: "string \<Rightarrow> u32 option" where
  "parse_u32 s =
     (let ds = (case s of [] \<Rightarrow> [] | ch # rest \<Rightarrow> if ch = CHR ''+'' then rest else s);
          v = foldl (\<lambda>a ch. a * 10 + digit_val ch) 0 ds
      in if ds = [] \<or> \<not> list_all is_digit ds
         then None
         else if v < 2 ^ 32 then Some (of_nat v) else None)"

text \<open>One non-empty line.\<close>

definition parse_id_line :: "string list \<Rightarrow> errno + id_mapping" where
  "parse_id_line ws =
     (case ws of
        [a, b, l] \<Rightarrow>
          (case (parse_u32 a, parse_u32 b, parse_u32 l) of
             (Some i, Some out, Some len) \<Rightarrow>
               if 0 < len then
                 (if checked_add i len = None then Inl Errno_INVAL
                  else if checked_add out len = None then Inl Errno_INVAL
                  else Inr \<lparr>im_inside_start = i, im_outside_start = out, im_length = len\<rparr>)
               else Inl Errno_INVAL
           | _ \<Rightarrow> Inl Errno_INVAL)
      | _ \<Rightarrow> Inl Errno_INVAL)"

fun parse_id_lines :: "string list list \<Rightarrow> errno + id_mapping list" where
  "parse_id_lines [] = Inr []"
| "parse_id_lines (ws # rest) =
     (if ws = [] then parse_id_lines rest
      else case parse_id_line ws of
        Inl e \<Rightarrow> Inl e
      | Inr m \<Rightarrow>
          (case parse_id_lines rest of Inl e \<Rightarrow> Inl e | Inr ms \<Rightarrow> Inr (m # ms)))"

section \<open>Writing a map\<close>

fun set_id_map :: "bool \<Rightarrow> id_mapping list \<Rightarrow> user_ns \<Rightarrow> user_ns" where
  "set_id_map is_uid ms (UserNs a par c um gm level s) =
     (if is_uid then UserNs a par c ms gm level s else UserNs a par c um ms level s)"

fun set_setgroups :: "bool \<Rightarrow> user_ns \<Rightarrow> user_ns" where
  "set_setgroups allow (UserNs a par c um gm level s) = UserNs a par c um gm level allow"

text \<open>\<open>target\<close> is the namespace of the process whose file is written, \<open>c\<close> the writer.\<close>

definition idmap_write_at ::
  "bool \<Rightarrow> string list list option \<Rightarrow> nat \<Rightarrow> credentials \<Rightarrow> user_ns option \<Rightarrow>
   (errno + nat) \<times> user_ns option" where
  "idmap_write_at is_uid input buflen c target =
     (case target of
        None \<Rightarrow> (Inl Errno_ACCES, target)
      | Some ns \<Rightarrow>
          if un_level ns = 0 then (Inl Errno_ACCES, target)
          else if (if is_uid then un_uid_map ns else un_gid_map ns) \<noteq> [] then
            (Inl Errno_ACCES, target)
          else case input of
            None \<Rightarrow> (Inl Errno_INVAL, target)
          | Some lines \<Rightarrow>
              (case parse_id_lines lines of
                 Inl e \<Rightarrow> (Inl e, target)
               | Inr [] \<Rightarrow> (Inl Errno_INVAL, target)
               | Inr (m # ms) \<Rightarrow>
                   (let cap = (if is_uid then CAP_SETUID else CAP_SETGID);
                        writer_id = (if is_uid then cr_euid c else cr_egid c);
                        privileged = capable_in c cap (un_parent ns)
                    in if \<not> privileged \<and>
                          (ms \<noteq> [] \<or> im_length m \<noteq> 1 \<or> im_outside_start m \<noteq> writer_id)
                       then (Inl Errno_ACCES, target)
                       else if \<not> privileged \<and> \<not> is_uid \<and> un_setgroups_allowed ns
                       then (Inl Errno_ACCES, target)
                       else (Inr buflen, Some (set_id_map is_uid (m # ms) ns)))))"

definition setgroups_write_at ::
  "string option \<Rightarrow> nat \<Rightarrow> user_ns option \<Rightarrow> (errno + nat) \<times> user_ns option" where
  "setgroups_write_at word buflen target =
     (case target of
        None \<Rightarrow> (Inl Errno_ACCES, target)
      | Some ns \<Rightarrow>
          if un_level ns = 0 then (Inl Errno_ACCES, target)
          else if un_gid_map ns \<noteq> [] then (Inl Errno_ACCES, target)
          else case word of
            None \<Rightarrow> (Inl Errno_INVAL, target)
          | Some w \<Rightarrow>
              if w = ''allow'' then (Inr buflen, Some (set_setgroups True ns))
              else if w = ''deny'' then (Inr buflen, Some (set_setgroups False ns))
              else (Inl Errno_INVAL, target))"

text \<open>The CLONE_NEWUSER part of \<open>sys_unshare\<close>; \<open>host\<close> is \<open>UserNamespace::host()\<close>.\<close>

definition unshare_newuser :: "nat \<Rightarrow> user_ns \<Rightarrow> credentials \<Rightarrow> int \<times> credentials" where
  "unshare_newuser addr host c =
     (let parent = (case cr_user_ns c of None \<Rightarrow> host | Some ns \<Rightarrow> ns) in
      case new_child addr parent (cr_euid c) of
        None \<Rightarrow> (EINVAL, c)
      | Some new_ns \<Rightarrow> (0, enter_user_namespace new_ns c))"

section \<open>Maps and credentials\<close>

lemma parse_id_line_wf: "parse_id_line ws = Inr m \<Longrightarrow> wf_mapping m \<and> 0 < im_length m"
  by (auto simp: parse_id_line_def wf_mapping_def checked_add_def
      split: list.splits option.splits if_splits)

text \<open>C5: on a namespace with well-formed maps, translating a user id into a kernel id and back
  gives the id again, distinct ids get distinct kernel ids, and a process owns exactly the
  kernel ids its namespace maps; the same holds of group ids.\<close>

theorem id_translation_roundtrip:
  assumes "cr_user_ns c = Some ns" "wf_ns_uid ns" "wf_ns_gid ns"
  shows "(creds_uid_into_kernel c i = Some k \<longrightarrow> creds_uid_from_kernel c k = i)
    \<and> (creds_uid_into_kernel c i = Some k \<and> creds_uid_into_kernel c j = Some k \<longrightarrow> i = j)
    \<and> (owns_kuid c k \<longleftrightarrow> k \<in> ran (creds_uid_into_kernel c))
    \<and> (creds_gid_into_kernel c i = Some k \<longrightarrow> creds_gid_from_kernel c k = i)
    \<and> (creds_gid_into_kernel c i = Some k \<and> creds_gid_into_kernel c j = Some k \<longrightarrow> i = j)
    \<and> (owns_kgid c k \<longleftrightarrow> k \<in> ran (creds_gid_into_kernel c))"
proof -
  have "creds_uid_into_kernel c = uid_to_kernel ns" "creds_gid_into_kernel c = gid_to_kernel ns"
    using assms(1) by (auto simp: creds_uid_into_kernel_def creds_gid_into_kernel_def)
  then show ?thesis
    using assms uid_tr.mapped_kernel_ids [of ns] gid_tr.mapped_kernel_ids [of ns]
    by (auto simp: uid_tr.to_kernel_iff gid_tr.to_kernel_iff creds_uid_from_kernel_def
        creds_gid_from_kernel_def owns_kuid_def owns_kgid_def)
qed

text \<open>A container namespace: ids 0 to 65535 stand for kernel ids from 100000 on.\<close>

definition container_ns :: user_ns where
  "container_ns = UserNs 2 (Some (host_ns 1)) 0 [\<lparr>im_inside_start = 0,
     im_outside_start = 100000, im_length = 65536\<rparr>] [\<lparr>im_inside_start = 0,
     im_outside_start = 100000, im_length = 65536\<rparr>] 1 True"

theorem id_translation_roundtrip_witness:
  "creds_uid_into_kernel (creds_root\<lparr>cr_user_ns := Some container_ns\<rparr>) 1000 = Some 101000
   \<and> creds_uid_from_kernel (creds_root\<lparr>cr_user_ns := Some container_ns\<rparr>) 101000 = 1000"
proof -
  let ?c = "creds_root\<lparr>cr_user_ns := Some container_ns\<rparr>"
  have wf: "wf_ns_uid container_ns" "wf_ns_gid container_ns"
    by (simp_all add: container_ns_def host_ns_def wf_mapping_def)
  have to: "creds_uid_into_kernel ?c 1000 = Some 101000"
    by (simp add: creds_uid_into_kernel_def container_ns_def host_ns_def map_one_down_def
        checked_sub_def checked_add_def)
  have "cr_user_ns ?c = Some container_ns" by simp
  from id_translation_roundtrip [OF this wf, of 1000 101000] to show ?thesis by blast
qed

section \<open>Unprivileged maps\<close>

lemma set_id_map_uid:
  "set_id_map True ms ns = UserNs (un_addr ns) (un_parent ns) (un_creator_uid ns) ms
     (un_gid_map ns) (un_level ns) (un_setgroups_allowed ns)"
  by (cases ns) simp

lemma map_one_down_single:
  "im_length m = 1 \<Longrightarrow> map_one_down m i = Some k \<Longrightarrow> i = im_inside_start m \<and> k = im_outside_start m"
  by (auto simp: map_one_down_def checked_sub_def checked_add_def word_less_nat_alt unat_eq_0
      split: if_splits)

lemma idmap_write_at_InrD:
  assumes "idmap_write_at is_uid input n c (Some ns) = (Inr r, t)"
  obtains ms where "t = Some (set_id_map is_uid ms ns)" "r = n" "un_level ns \<noteq> 0"
    "ms \<noteq> []" "(if is_uid then un_uid_map ns else un_gid_map ns) = []"
    "capable_in c (if is_uid then CAP_SETUID else CAP_SETGID) (un_parent ns)
      \<or> (\<exists>m. ms = [m] \<and> im_length m = 1
            \<and> im_outside_start m = (if is_uid then cr_euid c else cr_egid c))"
proof -
  obtain lines where l: "input = Some lines" "un_level ns \<noteq> 0"
      "(if is_uid then un_uid_map ns else un_gid_map ns) = []"
    using assms by (cases input) (simp_all add: idmap_write_at_def split: if_splits)
  obtain m ms where p: "parse_id_lines lines = Inr (m # ms)"
    using assms l
    by (cases "parse_id_lines lines") (auto simp: idmap_write_at_def split: list.splits)
  show ?thesis
    using assms l p that [of "m # ms"]
    by (auto simp: idmap_write_at_def Let_def split: if_split_asm)
qed

text \<open>C6: a writer without CAP_SETUID over the parent that installs the uid map of a namespace
  directly below the host makes exactly one user id of that namespace usable, and it stands for
  the writer's own effective uid; a map already installed is never replaced.\<close>

theorem unprivileged_uid_map_own_id:
  assumes "un_parent ns = Some h" "un_level h = 0"
    and "\<not> capable_in c CAP_SETUID (un_parent ns)"
    and "idmap_write_at True input n c (Some ns) = (Inr r, Some ns')"
  shows "un_uid_map ns = [] \<and> r = n
    \<and> (\<forall>i k. uid_to_kernel ns' i = Some k \<longrightarrow> k = cr_euid c)
    \<and> (\<exists>i. uid_to_kernel ns' i = Some (cr_euid c))"
proof -
  obtain m where m: "ns' = set_id_map True [m] ns" "im_length m = 1"
      "im_outside_start m = cr_euid c" "un_uid_map ns = []" "r = n" "un_level ns \<noteq> 0"
    using idmap_write_at_InrD [OF assms(4)] assms(3) by (metis option.inject)
  obtain a p cu um gm s where h: "h = UserNs a p cu um gm 0 s"
    using assms(2) by (cases h) auto
  have "uid_to_kernel ns' i = map_one_down m i" for i
    using m(6) assms(1) by (simp add: m(1) set_id_map_uid h split: option.split)
  moreover have "map_one_down m (im_inside_start m) = Some (im_outside_start m)"
    using m(2) unsigned_less [of "im_outside_start m"]
    by (simp add: map_one_down_def checked_sub_def checked_add_def)
  ultimately show ?thesis
    using m(2-5) map_one_down_single [of m] by auto
qed

definition plain_user :: "u32 \<Rightarrow> user_ns option \<Rightarrow> credentials" where
  "plain_user u ns = creds_root\<lparr>cr_ruid := u, cr_euid := u, cr_suid := u, cr_fsuid := u,
     cr_caps_eff := 0, cr_caps_perm := 0, cr_user_ns := ns\<rparr>"

lemma parse_u32_examples:
  "parse_u32 ''0'' = Some 0" "parse_u32 ''1'' = Some 1"
  "parse_u32 ''1000'' = Some 1000" "parse_u32 ''2000'' = Some 2000"
  by (simp_all add: parse_u32_def is_digit_def digit_val_def)

lemma idmap_write_single:
  assumes "un_level ns \<noteq> 0" "un_uid_map ns = []" "parse_u32 b = Some (cr_euid c)"
    "cr_euid c < 0xFFFFFFFF"
  shows "idmap_write_at True (Some [[''0'', b, ''1'']]) n c (Some ns) =
    (Inr n, Some (set_id_map True [\<lparr>im_inside_start = 0, im_outside_start = cr_euid c,
       im_length = 1\<rparr>] ns))"
proof -
  have "unat (cr_euid c) < 4294967295"
    using assms(4) by (simp add: word_less_nat_alt)
  then have "parse_id_line [''0'', b, ''1''] =
      Inr \<lparr>im_inside_start = 0, im_outside_start = cr_euid c, im_length = 1\<rparr>"
    using assms(3) by (simp add: parse_id_line_def parse_u32_examples checked_add_def)
  then show ?thesis using assms by (simp add: idmap_write_at_def Let_def)
qed

theorem unprivileged_uid_map_own_id_witness:
  "\<exists>ns'. idmap_write_at True (Some [[''0'', ''1000'', ''1'']]) 9 (plain_user 1000 None)
      (Some (UserNs 3 (Some (host_ns 1)) 1000 [] [] 1 True)) = (Inr 9, Some ns')
    \<and> (\<forall>i k. uid_to_kernel ns' i = Some k \<longrightarrow> k = 1000)"
proof -
  let ?ns = "UserNs 3 (Some (host_ns 1)) 1000 [] [] 1 True"
  have 1: "un_parent ?ns = Some (host_ns 1)" "un_level (host_ns 1) = 0"
    "\<not> capable_in (plain_user 1000 None) CAP_SETUID (un_parent ?ns)"
    by (simp_all add: host_ns_def plain_user_def capable_in_def)
  have 2: "idmap_write_at True (Some [[''0'', ''1000'', ''1'']]) 9 (plain_user 1000 None) (Some ?ns)
    = (Inr 9, Some (set_id_map True [\<lparr>im_inside_start = 0, im_outside_start = 1000,
        im_length = 1\<rparr>] ?ns))"
    using idmap_write_single [of ?ns "''1000''" "plain_user 1000 None" 9]
    by (simp add: parse_u32_examples plain_user_def)
  show ?thesis
    using 2 unprivileged_uid_map_own_id [OF 1 2]
    by (intro exI conjI) (assumption, simp add: plain_user_def)
qed

section \<open>Maps of nested namespaces\<close>

text \<open>The writer's id compared by \<open>write_at\<close> is a kernel id, while the outside id of the map
  is read in the parent namespace. In a namespace whose ids are shifted the two differ.\<close>

definition shifted_ns :: user_ns where
  "shifted_ns = UserNs 2 (Some (host_ns 1)) 0 [\<lparr>im_inside_start = 0,
     im_outside_start = 1000, im_length = 65536\<rparr>] [] 1 True"

text \<open>in a namespace whose ids are shifted by 1000, a process with kernel uid 2000 and no
  capability can unshare a user namespace, install the map \<open>0 2000 1\<close> and call setuid(0); every
  step succeeds, and it then runs with kernel uid 3000, the id of another user.\<close>

lemma nested_uid_map_foreign_id:
  fixes c :: credentials
  defines "c \<equiv> plain_user 2000 (Some shifted_ns)"
  shows "\<exists>c1 ns' c3. unshare_newuser 3 (host_ns 1) c = (0, c1)
    \<and> idmap_write_at True (Some [[''0'', ''2000'', ''1'']]) 9 c1 (cr_user_ns c1) = (Inr 9, Some ns')
    \<and> sys_setuid False 0 (c1\<lparr>cr_user_ns := Some ns'\<rparr>) = (0, c3)
    \<and> cr_ruid c3 = 3000 \<and> cr_euid c3 = 3000 \<and> 3000 \<notin> cred_uids c
    \<and> \<not> has_cap c CAP_SETUID"
proof -
  let ?ns = "UserNs 3 (Some shifted_ns) 2000 [] [] 2 True"
  let ?c1 = "enter_user_namespace ?ns c"
  let ?ns' = "set_id_map True [\<lparr>im_inside_start = 0, im_outside_start = 2000, im_length = 1\<rparr>] ?ns"
  have un: "unshare_newuser 3 (host_ns 1) c = (0, ?c1)"
    by (simp add: unshare_newuser_def c_def plain_user_def new_child_def shifted_ns_def
        saturating_add_def Let_def)
  have wr: "idmap_write_at True (Some [[''0'', ''2000'', ''1'']]) 9 ?c1 (cr_user_ns ?c1)
      = (Inr 9, Some ?ns')"
    using idmap_write_single [of ?ns "''2000''" ?c1 9]
    by (simp add: parse_u32_examples plain_user_def c_def enter_user_namespace_def)
  have "creds_uid_into_kernel (?c1\<lparr>cr_user_ns := Some ?ns'\<rparr>) 0 = Some 3000"
    by (simp add: creds_uid_into_kernel_def shifted_ns_def host_ns_def map_one_down_def
        checked_sub_def checked_add_def)
  moreover have "has_cap (?c1\<lparr>cr_user_ns := Some ?ns'\<rparr>) CAP_SETUID"
    by (simp add: enter_user_namespace_def bit_iff_odd)
  ultimately have "\<exists>c3. sys_setuid False 0 (?c1\<lparr>cr_user_ns := Some ?ns'\<rparr>) = (0, c3)
      \<and> cr_ruid c3 = 3000 \<and> cr_euid c3 = 3000"
    by (simp add: sys_setuid_def Let_def apply_uid_change_caps_def)
  moreover have "3000 \<notin> cred_uids c" "\<not> has_cap c CAP_SETUID"
    by (simp_all add: c_def plain_user_def cred_uids_def)
  ultimately show ?thesis using un wr by blast
qed

end
