(* ===== verification/Bpf.thy ===== *)
theory Bpf
  imports Kapi
begin

text \<open>
  The classic-BPF verifier and interpreter (\<open>kernel/src/security/bpf.rs\<close>). A panic of
  the interpreter (a scratch index out of range) is an outcome of its own, so that the
  safety theorem says the verifier rules it out. A program counter is a natural number:
  the source's \<open>usize\<close> counter is at most the program length plus \<open>2 ^ 32\<close> and does not
  overflow.
\<close>

section \<open>Instructions\<close>

record sock_filter =
  sf_code :: u16
  sf_jt :: u8
  sf_jf :: u8
  sf_k :: u32

abbreviation BPF_LD :: u16 where "BPF_LD \<equiv> 0x00"
abbreviation BPF_LDX :: u16 where "BPF_LDX \<equiv> 0x01"
abbreviation BPF_ST :: u16 where "BPF_ST \<equiv> 0x02"
abbreviation BPF_STX :: u16 where "BPF_STX \<equiv> 0x03"
abbreviation BPF_ALU :: u16 where "BPF_ALU \<equiv> 0x04"
abbreviation BPF_JMP :: u16 where "BPF_JMP \<equiv> 0x05"
abbreviation BPF_RET :: u16 where "BPF_RET \<equiv> 0x06"
abbreviation BPF_MISC :: u16 where "BPF_MISC \<equiv> 0x07"

abbreviation BPF_W :: u16 where "BPF_W \<equiv> 0x00"
abbreviation BPF_H :: u16 where "BPF_H \<equiv> 0x08"
abbreviation BPF_B :: u16 where "BPF_B \<equiv> 0x10"

abbreviation BPF_IMM :: u16 where "BPF_IMM \<equiv> 0x00"
abbreviation BPF_ABS :: u16 where "BPF_ABS \<equiv> 0x20"
abbreviation BPF_IND :: u16 where "BPF_IND \<equiv> 0x40"
abbreviation BPF_MEM :: u16 where "BPF_MEM \<equiv> 0x60"
abbreviation BPF_LEN :: u16 where "BPF_LEN \<equiv> 0x80"
abbreviation BPF_MSH :: u16 where "BPF_MSH \<equiv> 0xa0"

abbreviation BPF_ADD :: u16 where "BPF_ADD \<equiv> 0x00"
abbreviation BPF_SUB :: u16 where "BPF_SUB \<equiv> 0x10"
abbreviation BPF_MUL :: u16 where "BPF_MUL \<equiv> 0x20"
abbreviation BPF_DIV :: u16 where "BPF_DIV \<equiv> 0x30"
abbreviation BPF_OR :: u16 where "BPF_OR \<equiv> 0x40"
abbreviation BPF_AND :: u16 where "BPF_AND \<equiv> 0x50"
abbreviation BPF_LSH :: u16 where "BPF_LSH \<equiv> 0x60"
abbreviation BPF_RSH :: u16 where "BPF_RSH \<equiv> 0x70"
abbreviation BPF_NEG :: u16 where "BPF_NEG \<equiv> 0x80"
abbreviation BPF_MOD :: u16 where "BPF_MOD \<equiv> 0x90"
abbreviation BPF_XOR :: u16 where "BPF_XOR \<equiv> 0xa0"

abbreviation BPF_JA :: u16 where "BPF_JA \<equiv> 0x00"
abbreviation BPF_JEQ :: u16 where "BPF_JEQ \<equiv> 0x10"
abbreviation BPF_JGT :: u16 where "BPF_JGT \<equiv> 0x20"
abbreviation BPF_JGE :: u16 where "BPF_JGE \<equiv> 0x30"
abbreviation BPF_JSET :: u16 where "BPF_JSET \<equiv> 0x40"

abbreviation BPF_K :: u16 where "BPF_K \<equiv> 0x00"
abbreviation BPF_A :: u16 where "BPF_A \<equiv> 0x10"

abbreviation BPF_TAX :: u16 where "BPF_TAX \<equiv> 0x00"
abbreviation BPF_TXA :: u16 where "BPF_TXA \<equiv> 0x80"

abbreviation SCRATCH_LEN :: nat where "SCRATCH_LEN \<equiv> 16"
abbreviation BPF_MAXINSNS :: nat where "BPF_MAXINSNS \<equiv> 4096"

record bpf_program =
  bp_insns :: "sock_filter list"

section \<open>The verifier\<close>

definition abs_load_size :: "u16 \<Rightarrow> u32 option" where
  "abs_load_size code =
     (let s = code AND 0x18 in
      if s = BPF_W then Some 4 else if s = BPF_H then Some 2
      else if s = BPF_B then Some 1 else None)"

definition verify_insn :: "nat \<Rightarrow> u32 \<Rightarrow> nat \<Rightarrow> sock_filter \<Rightarrow> errno + unit" where
  "verify_insn len packet_len pc ins =
     (let code = sf_code ins; k = sf_k ins; class = code AND 0x07 in
      if class = BPF_LD \<or> class = BPF_LDX then
        (let mode = code AND 0xe0 in
         if mode = BPF_IMM then Inr ()
         else if mode = BPF_ABS then
           (case abs_load_size code of
              None \<Rightarrow> Inl Errno_INVAL
            | Some sz \<Rightarrow>
                if packet_len < saturating_add k sz then Inl Errno_INVAL else Inr ())
         else if mode = BPF_IND then Inr ()
         else if mode = BPF_MEM then
           (if SCRATCH_LEN \<le> unat k then Inl Errno_INVAL else Inr ())
         else if mode = BPF_LEN then Inr ()
         else if mode = BPF_MSH then Inr ()
         else Inl Errno_INVAL)
      else if class = BPF_ST \<or> class = BPF_STX then
        (if SCRATCH_LEN \<le> unat k then Inl Errno_INVAL else Inr ())
      else if class = BPF_JMP then
        (let opc = code AND 0xf0; mx = (of_nat (len - pc - 1) :: u32) in
         if opc = BPF_JA then (if mx < k then Inl Errno_INVAL else Inr ())
         else if opc = BPF_JEQ \<or> opc = BPF_JGT \<or> opc = BPF_JGE \<or> opc = BPF_JSET then
           (if mx < ucast (sf_jt ins) \<or> mx < ucast (sf_jf ins) then Inl Errno_INVAL else Inr ())
         else Inl Errno_INVAL)
      else if class = BPF_ALU then
        (let opc = code AND 0xf0 in
         if opc \<in> {BPF_ADD, BPF_SUB, BPF_MUL, BPF_DIV, BPF_OR, BPF_AND, BPF_LSH, BPF_RSH,
                   BPF_NEG, BPF_MOD, BPF_XOR} then Inr () else Inl Errno_INVAL)
      else if class = BPF_RET then Inr ()
      else if class = BPF_MISC then
        (let opc = code AND 0xf8 in
         if opc \<noteq> BPF_TAX \<and> opc \<noteq> BPF_TXA then Inl Errno_INVAL else Inr ())
      else Inl Errno_INVAL)"

text \<open>The \<open>for (pc, ins) in insns.iter().enumerate()\<close> loop, from position \<open>pc\<close> on.\<close>

fun verify_insns :: "nat \<Rightarrow> u32 \<Rightarrow> nat \<Rightarrow> sock_filter list \<Rightarrow> errno + unit" where
  "verify_insns len packet_len pc [] = Inr ()"
| "verify_insns len packet_len pc (ins # rest) =
     (case verify_insn len packet_len pc ins of
        Inl e \<Rightarrow> Inl e
      | Inr _ \<Rightarrow> verify_insns len packet_len (Suc pc) rest)"

definition verify :: "sock_filter list \<Rightarrow> u32 \<Rightarrow> errno + bpf_program" where
  "verify insns packet_len =
     (if insns = [] then Inl Errno_INVAL
      else if BPF_MAXINSNS < length insns then Inl Errno_INVAL
      else case verify_insns (length insns) packet_len 0 insns of
        Inl e \<Rightarrow> Inl e
      | Inr _ \<Rightarrow>
          if sf_code (last insns) AND 0x07 \<noteq> BPF_RET then Inl Errno_INVAL
          else Inr \<lparr>bp_insns = insns\<rparr>)"

section \<open>The interpreter\<close>

definition read_packet :: "bytes \<Rightarrow> nat \<Rightarrow> u16 \<Rightarrow> u32" where
  "read_packet packet offset sz =
     (if sz = BPF_W then
        (if length packet < offset + 4 then 0 else from_le (slice offset 4 packet))
      else if sz = BPF_H then
        (if length packet < offset + 2 then 0
         else ucast (from_le (slice offset 2 packet) :: u16))
      else if sz = BPF_B then
        (if length packet \<le> offset then 0 else ucast (packet ! offset))
      else 0)"

record bpf_state =
  bs_a :: u32
  bs_x :: u32
  bs_m :: "u32 list"
  bs_pc :: nat

datatype bpf_outcome = Continue bpf_state | Return u32 | Panic

text \<open>A scratch access \<open>m[k]\<close>, with its bounds check.\<close>

definition scratch_load :: "u32 list \<Rightarrow> u32 \<Rightarrow> u32 option" where
  "scratch_load m k = (if unat k < length m then Some (m ! unat k) else None)"

definition scratch_store :: "u32 list \<Rightarrow> u32 \<Rightarrow> u32 \<Rightarrow> u32 list option" where
  "scratch_store m k v = (if unat k < length m then Some (m[unat k := v]) else None)"

definition step_ld :: "sock_filter \<Rightarrow> bytes \<Rightarrow> bpf_state \<Rightarrow> bpf_outcome" where
  "step_ld ins packet s =
     (let mode = sf_code ins AND 0xe0; k = sf_k ins; sz = sf_code ins AND 0x18 in
      if mode = BPF_IMM then Continue (s\<lparr>bs_a := k\<rparr>)
      else if mode = BPF_ABS then Continue (s\<lparr>bs_a := read_packet packet (unat k) sz\<rparr>)
      else if mode = BPF_IND then
        Continue (s\<lparr>bs_a := read_packet packet (unat (k + bs_x s)) sz\<rparr>)
      else if mode = BPF_MEM then
        (case scratch_load (bs_m s) k of None \<Rightarrow> Panic | Some v \<Rightarrow> Continue (s\<lparr>bs_a := v\<rparr>))
      else if mode = BPF_LEN then Continue (s\<lparr>bs_a := of_nat (length packet)\<rparr>)
      else Return 0)"

definition step_ldx :: "sock_filter \<Rightarrow> bytes \<Rightarrow> bpf_state \<Rightarrow> bpf_outcome" where
  "step_ldx ins packet s =
     (let mode = sf_code ins AND 0xe0; k = sf_k ins in
      if mode = BPF_IMM then Continue (s\<lparr>bs_x := k\<rparr>)
      else if mode = BPF_MEM then
        (case scratch_load (bs_m s) k of None \<Rightarrow> Panic | Some v \<Rightarrow> Continue (s\<lparr>bs_x := v\<rparr>))
      else if mode = BPF_LEN then Continue (s\<lparr>bs_x := of_nat (length packet)\<rparr>)
      else if mode = BPF_MSH then
        Continue (s\<lparr>bs_x := push_bit 2 (read_packet packet (unat k) BPF_B AND 0x0f)\<rparr>)
      else Return 0)"

definition alu_op :: "u16 \<Rightarrow> u32 \<Rightarrow> u32 \<Rightarrow> u32 option" where
  "alu_op opc a v =
     (if opc = BPF_ADD then Some (a + v)
      else if opc = BPF_SUB then Some (a - v)
      else if opc = BPF_MUL then Some (a * v)
      else if opc = BPF_DIV then (if v = 0 then None else Some (a div v))
      else if opc = BPF_OR then Some (a OR v)
      else if opc = BPF_AND then Some (a AND v)
      else if opc = BPF_LSH then Some (push_bit (unat (v AND 31)) a)
      else if opc = BPF_RSH then Some (drop_bit (unat (v AND 31)) a)
      else if opc = BPF_NEG then Some (0 - a)
      else if opc = BPF_MOD then (if v = 0 then None else Some (a mod v))
      else if opc = BPF_XOR then Some (a XOR v)
      else None)"

definition operand :: "sock_filter \<Rightarrow> bpf_state \<Rightarrow> u32" where
  "operand ins s = (if sf_code ins AND 0x08 = BPF_K then sf_k ins else bs_x s)"

definition jump_taken :: "u16 \<Rightarrow> u32 \<Rightarrow> u32 \<Rightarrow> bool option" where
  "jump_taken opc a v =
     (if opc = BPF_JEQ then Some (a = v)
      else if opc = BPF_JGT then Some (v < a)
      else if opc = BPF_JGE then Some (v \<le> a)
      else if opc = BPF_JSET then Some (a AND v \<noteq> 0)
      else None)"

definition step_jmp :: "sock_filter \<Rightarrow> bpf_state \<Rightarrow> bpf_outcome" where
  "step_jmp ins s =
     (let opc = sf_code ins AND 0xf0 in
      if opc = BPF_JA then Continue (s\<lparr>bs_pc := bs_pc s + unat (sf_k ins)\<rparr>)
      else case jump_taken opc (bs_a s) (operand ins s) of
        None \<Rightarrow> Return 0
      | Some t \<Rightarrow>
          Continue (s\<lparr>bs_pc := bs_pc s + (if t then unat (sf_jt ins) else unat (sf_jf ins))\<rparr>))"

text \<open>One iteration of the loop body, after \<open>pc += 1\<close>.\<close>

definition bpf_step :: "sock_filter \<Rightarrow> bytes \<Rightarrow> bpf_state \<Rightarrow> bpf_outcome" where
  "bpf_step ins packet s =
     (let class = sf_code ins AND 0x07 in
      if class = BPF_LD then step_ld ins packet s
      else if class = BPF_LDX then step_ldx ins packet s
      else if class = BPF_ST then
        (case scratch_store (bs_m s) (sf_k ins) (bs_a s) of
           None \<Rightarrow> Panic | Some m \<Rightarrow> Continue (s\<lparr>bs_m := m\<rparr>))
      else if class = BPF_STX then
        (case scratch_store (bs_m s) (sf_k ins) (bs_x s) of
           None \<Rightarrow> Panic | Some m \<Rightarrow> Continue (s\<lparr>bs_m := m\<rparr>))
      else if class = BPF_ALU then
        (case alu_op (sf_code ins AND 0xf0) (bs_a s) (operand ins s) of
           None \<Rightarrow> Return 0 | Some v \<Rightarrow> Continue (s\<lparr>bs_a := v\<rparr>))
      else if class = BPF_JMP then step_jmp ins s
      else if class = BPF_RET then
        Return (if sf_code ins AND 0x18 = BPF_A then bs_a s else sf_k ins)
      else if class = BPF_MISC then
        (let opc = sf_code ins AND 0xf8 in
         if opc = BPF_TAX then Continue (s\<lparr>bs_x := bs_a s\<rparr>)
         else if opc = BPF_TXA then Continue (s\<lparr>bs_a := bs_x s\<rparr>)
         else Continue s)
      else Return 0)"

lemmas bpf_step_defs [kdefs] =
  bpf_step_def step_ld_def step_ldx_def step_jmp_def scratch_load_def scratch_store_def

lemma bpf_step_pc_mono:
  "bpf_step ins packet s = Continue s' \<Longrightarrow> bs_pc s \<le> bs_pc s'"
  by (auto simp: bpf_step_defs Let_def split: if_splits option.splits)

text \<open>\<open>run\<close>: the \<open>while pc < self.insns.len()\<close> loop. Every iteration moves the program
  counter forward, so the loop is total; \<open>None\<close> is a panic.\<close>

function bpf_run_from :: "sock_filter list \<Rightarrow> bytes \<Rightarrow> bpf_state \<Rightarrow> u32 option" where
  "bpf_run_from insns packet s =
     (if bs_pc s < length insns then
        (case bpf_step (insns ! bs_pc s) packet (s\<lparr>bs_pc := Suc (bs_pc s)\<rparr>) of
           Continue s' \<Rightarrow> bpf_run_from insns packet s'
         | Return v \<Rightarrow> Some v
         | Panic \<Rightarrow> None)
      else Some 0)"
  by pat_completeness auto
termination
  by (relation "measure (\<lambda>(insns, packet, s). length insns - bs_pc s)")
    (auto dest!: bpf_step_pc_mono)

declare bpf_run_from.simps [simp del]

definition bpf_init :: bpf_state where
  "bpf_init = \<lparr>bs_a = 0, bs_x = 0, bs_m = replicate SCRATCH_LEN 0, bs_pc = 0\<rparr>"

definition bpf_run :: "bpf_program \<Rightarrow> bytes \<Rightarrow> u32 option" where
  "bpf_run prog packet = bpf_run_from (bp_insns prog) packet bpf_init"

section \<open>What the verifier guarantees\<close>

lemma verify_insns_nth:
  "verify_insns len plen pc insns = Inr u \<Longrightarrow> i < length insns \<Longrightarrow>
     verify_insn len plen (pc + i) (insns ! i) = Inr ()"
proof (induction insns arbitrary: pc i)
  case Nil
  then show ?case by simp
next
  case (Cons ins rest)
  then have here: "verify_insn len plen pc ins = Inr ()"
    and there: "verify_insns len plen (Suc pc) rest = Inr u"
    by (auto split: sum.splits)
  show ?case
  proof (cases i)
    case 0
    with here show ?thesis by simp
  next
    case (Suc j)
    with there Cons.IH [of "Suc pc" j] Cons.prems(2) show ?thesis by simp
  qed
qed

lemma verify_InrD:
  assumes "verify insns plen = Inr prog"
  shows "bp_insns prog = insns" "insns \<noteq> []" "length insns \<le> 4096"
    "\<And>i. i < length insns \<Longrightarrow> verify_insn (length insns) plen i (insns ! i) = Inr ()"
    "sf_code (last insns) AND 0x07 = BPF_RET"
  using assms
  by (auto simp: verify_def kconsts split: if_splits sum.splits
      dest: verify_insns_nth [where pc = 0, simplified])

text \<open>One instruction the verifier accepts, run with a full scratch array, neither panics
  nor jumps past the end.\<close>

definition bpf_ok :: "sock_filter list \<Rightarrow> bpf_state \<Rightarrow> bool" where
  "bpf_ok insns s \<longleftrightarrow> length (bs_m s) = SCRATCH_LEN \<and> bs_pc s \<le> length insns"

lemma verify_insn_no_panic:
  assumes "verify_insn len plen pc ins = Inr ()" and "length (bs_m s) = SCRATCH_LEN"
  shows "bpf_step ins packet s \<noteq> Panic"
  using assms
  by (auto simp: verify_insn_def bpf_step_defs kconsts Let_def split: if_splits option.splits)

lemma verify_insn_scratch:
  "bpf_step ins packet s = Continue s' \<Longrightarrow> length (bs_m s') = length (bs_m s)"
  by (auto simp: bpf_step_defs Let_def split: if_splits option.splits)

lemma bpf_step_pc_cases:
  assumes "bpf_step ins packet s = Continue s'"
  shows "bs_pc s' = bs_pc s
    \<or> (sf_code ins AND 0x07 = BPF_JMP \<and> sf_code ins AND 0xf0 = BPF_JA
        \<and> bs_pc s' = bs_pc s + unat (sf_k ins))
    \<or> (sf_code ins AND 0x07 = BPF_JMP
        \<and> sf_code ins AND 0xf0 \<in> {BPF_JEQ, BPF_JGT, BPF_JGE, BPF_JSET}
        \<and> (bs_pc s' = bs_pc s + unat (sf_jt ins) \<or> bs_pc s' = bs_pc s + unat (sf_jf ins)))"
  using assms
  by (auto simp: bpf_step_defs jump_taken_def Let_def split: if_splits option.splits)

lemma unat_of_nat_u32: "n \<le> 4096 \<Longrightarrow> unat (of_nat n :: u32) = n"
  by (rule unat_of_nat_small) simp

lemma verify_insn_jumps:
  assumes v: "verify_insn len plen pc ins = Inr ()" and len: "len \<le> 4096" and pc: "pc < len"
    and jmp: "sf_code ins AND 0x07 = BPF_JMP"
  shows "sf_code ins AND 0xf0 = BPF_JA \<Longrightarrow> Suc pc + unat (sf_k ins) \<le> len"
    and "sf_code ins AND 0xf0 \<in> {BPF_JEQ, BPF_JGT, BPF_JGE, BPF_JSET} \<Longrightarrow>
      Suc pc + unat (sf_jt ins) \<le> len \<and> Suc pc + unat (sf_jf ins) \<le> len"
proof -
  have mx: "unat (of_nat (len - pc - 1) :: u32) = len - pc - 1"
    using len by (intro unat_of_nat_u32) simp
  have uc: "unat (ucast b :: u32) = unat b" for b :: u8
    by (rule unat_ucast_up) simp
  show "Suc pc + unat (sf_k ins) \<le> len" if "sf_code ins AND 0xf0 = BPF_JA"
    using v jmp pc mx that
    by (auto simp: verify_insn_def kconsts Let_def word_less_nat_alt split: if_splits)
  show "Suc pc + unat (sf_jt ins) \<le> len \<and> Suc pc + unat (sf_jf ins) \<le> len"
    if "sf_code ins AND 0xf0 \<in> {BPF_JEQ, BPF_JGT, BPF_JGE, BPF_JSET}"
    using v jmp pc mx that
    by (auto simp: verify_insn_def kconsts Let_def word_less_nat_alt uc split: if_splits)
qed

text \<open>A verified program keeps the interpreter's invariant.\<close>

lemma bpf_step_ok:
  assumes v: "verify_insn (length insns) plen (bs_pc s) (insns ! bs_pc s) = Inr ()"
    and len: "length insns \<le> 4096" and pc: "bs_pc s < length insns" and ok: "bpf_ok insns s"
    and step: "bpf_step (insns ! bs_pc s) packet (s\<lparr>bs_pc := Suc (bs_pc s)\<rparr>) = Continue s'"
  shows "bpf_ok insns s'"
proof -
  have "bs_pc s' \<le> length insns"
    using bpf_step_pc_cases [OF step] verify_insn_jumps [OF v len pc] pc by auto
  moreover have "length (bs_m s') = SCRATCH_LEN"
    using verify_insn_scratch [OF step] ok by (simp add: bpf_ok_def)
  ultimately show ?thesis by (simp add: bpf_ok_def)
qed

lemma bpf_run_from_safe:
  assumes "\<And>i. i < length insns \<Longrightarrow> verify_insn (length insns) plen i (insns ! i) = Inr ()"
    and "length insns \<le> 4096" and "bpf_ok insns s"
  shows "\<exists>v. bpf_run_from insns packet s = Some v"
  using assms
proof (induction insns packet s rule: bpf_run_from.induct)
  case (1 insns packet s)
  show ?case
  proof (cases "bs_pc s < length insns")
    case False
    then show ?thesis by (simp add: bpf_run_from.simps [of insns packet s])
  next
    case True
    let ?s = "s\<lparr>bs_pc := Suc (bs_pc s)\<rparr>"
    have v: "verify_insn (length insns) plen (bs_pc s) (insns ! bs_pc s) = Inr ()"
      using "1.prems"(1) True by blast
    have "length (bs_m ?s) = SCRATCH_LEN" using "1.prems"(3) by (simp add: bpf_ok_def)
    then have np: "bpf_step (insns ! bs_pc s) packet ?s \<noteq> Panic"
      by (rule verify_insn_no_panic [OF v])
    show ?thesis
    proof (cases "bpf_step (insns ! bs_pc s) packet ?s")
      case (Continue s')
      then have "bpf_ok insns s'"
        using v "1.prems"(2,3) True by (blast intro: bpf_step_ok)
      then show ?thesis
        using "1.IH" [OF True Continue] "1.prems"(1,2) True Continue
        by (simp add: bpf_run_from.simps [of insns packet s])
    next
      case (Return v)
      with True show ?thesis by (simp add: bpf_run_from.simps [of insns packet s])
    next
      case Panic
      with np show ?thesis by simp
    qed
  qed
qed

lemma bpf_ok_init: "bpf_ok insns bpf_init"
  by (simp add: bpf_ok_def bpf_init_def)

text \<open>The same loop as a step relation between states at the loop head.\<close>

inductive bpf_next :: "sock_filter list \<Rightarrow> bytes \<Rightarrow> bpf_state \<Rightarrow> bpf_state \<Rightarrow> bool"
  for insns packet where
  bpf_nextI: "bs_pc s < length insns \<Longrightarrow>
     bpf_step (insns ! bs_pc s) packet (s\<lparr>bs_pc := Suc (bs_pc s)\<rparr>) = Continue s' \<Longrightarrow>
     bpf_next insns packet s s'"

inductive_cases bpf_nextE: "bpf_next insns packet s s'"

lemma bpf_next_run: "bpf_next insns packet s s' \<Longrightarrow>
    bpf_run_from insns packet s = bpf_run_from insns packet s'"
  by (elim bpf_nextE) (simp add: bpf_run_from.simps [of insns packet s])

lemma bpf_next_pow:
  assumes v: "\<And>i. i < length insns \<Longrightarrow> verify_insn (length insns) plen i (insns ! i) = Inr ()"
    and len: "length insns \<le> 4096"
    and run: "(bpf_next insns packet ^^ n) bpf_init s"
  shows "n \<le> bs_pc s \<and> bpf_ok insns s"
  using run
proof (induction n arbitrary: s)
  case 0
  then show ?case using bpf_ok_init by (simp add: bpf_init_def)
next
  case (Suc n)
  then obtain t where t: "(bpf_next insns packet ^^ n) bpf_init t" and st: "bpf_next insns packet t s"
    by auto
  from Suc.IH [OF t] have IH: "n \<le> bs_pc t" "bpf_ok insns t" by auto
  from st have pc: "bs_pc t < length insns"
    and step: "bpf_step (insns ! bs_pc t) packet (t\<lparr>bs_pc := Suc (bs_pc t)\<rparr>) = Continue s"
    by (auto elim: bpf_nextE)
  have "Suc (bs_pc t) \<le> bs_pc s"
    using bpf_step_pc_mono [OF step] by simp
  moreover have "bpf_ok insns s"
    by (rule bpf_step_ok [OF v [OF pc] len pc IH(2) step])
  ultimately show ?case using IH(1) by simp
qed

lemma verify_abs_in_range:
  assumes v: "verify_insn len plen pc ins = Inr ()"
    and ld: "sf_code ins AND 0x07 = BPF_LD" "sf_code ins AND 0xe0 = BPF_ABS"
    and sz: "abs_load_size (sf_code ins) = Some sz" and p: "unat plen \<le> length packet"
    and noov: "unat plen < 2 ^ 32 - 1"
  shows "unat (sf_k ins) + unat sz \<le> length packet"
proof -
  have le: "saturating_add (sf_k ins) sz \<le> plen"
    using v ld sz by (auto simp: verify_insn_def kconsts Let_def not_less split: if_splits)
  then have "min (unat (sf_k ins) + unat sz) (2 ^ 32 - 1) \<le> unat plen"
    by (simp add: word_le_nat_alt unat_saturating_add)
  with noov p show ?thesis by linarith
qed

section \<open>Properties\<close>

text \<open>C1: safety of the interpreter. A program the verifier accepts runs to a result on
  every packet: no scratch access is out of range and the loop ends.\<close>

theorem bpf_verified_run_safe:
  "verify insns packet_len = Inr prog \<Longrightarrow> \<exists>v. bpf_run prog packet = Some v"
  unfolding bpf_run_def
  by (metis bpf_run_from_safe verify_InrD(1,3,4) bpf_ok_init)

theorem bpf_verified_run_safe_witness:
  "\<exists>v. bpf_run \<lparr>bp_insns = [\<lparr>sf_code = 0x02, sf_jt = 0, sf_jf = 0, sf_k = 15\<rparr>,
        \<lparr>sf_code = 0x06, sf_jt = 0, sf_jf = 0, sf_k = 7\<rparr>]\<rparr> [] = Some v"
  by (rule bpf_verified_run_safe
      [of "[\<lparr>sf_code = 0x02, sf_jt = 0, sf_jf = 0, sf_k = 15\<rparr>,
        \<lparr>sf_code = 0x06, sf_jt = 0, sf_jf = 0, sf_k = 7\<rparr>]" 64])
    (simp add: verify_def verify_insn_def kconsts)

text \<open>progress of the interpreter. In a verified program an execution of \<open>n\<close> loop
  iterations has a program counter of at least \<open>n\<close>, and no jump leaves the program: at
  most \<open>length insns\<close> instructions run.\<close>

lemma bpf_verified_steps_bounded:
  assumes "verify insns packet_len = Inr prog"
    and "(bpf_next insns packet ^^ n) bpf_init s"
  shows "n \<le> bs_pc s \<and> bs_pc s \<le> length insns"
  using bpf_next_pow [OF verify_InrD(4) verify_InrD(3) assms(2)] assms(1)
  by (auto simp: bpf_ok_def)

lemma bpf_verified_steps_bounded_witness:
  "bs_pc (bpf_init\<lparr>bs_a := 5, bs_pc := 1\<rparr>) \<le> 2"
proof -
  let ?p = "[\<lparr>sf_code = 0x00, sf_jt = 0, sf_jf = 0, sf_k = 5\<rparr>,
             \<lparr>sf_code = 0x06, sf_jt = 0, sf_jf = 0, sf_k = 7\<rparr>]"
  have v: "verify ?p 64 = Inr \<lparr>bp_insns = ?p\<rparr>"
    by (simp add: verify_def verify_insn_def kconsts)
  have "bpf_next ?p [] bpf_init (bpf_init\<lparr>bs_a := 5, bs_pc := 1\<rparr>)"
    by (rule bpf_nextI) (simp_all add: bpf_init_def bpf_step_defs kconsts)
  then have "(bpf_next ?p [] ^^ 1) bpf_init (bpf_init\<lparr>bs_a := 5, bs_pc := 1\<rparr>)"
    by (simp add: relcompp.simps)
  from bpf_verified_steps_bounded [OF v this] show ?thesis by simp
qed

end
