(* ===== verification/User_Mem.thy ===== *)
theory User_Mem
  imports Kapi
begin

text \<open>
  The user boundary of the substrate (\<open>frame/src/user/mod.rs\<close>): the trap frame the
  syscall trampoline builds, and the checked copies between kernel buffers and user
  memory. A page is named by its base address; \<open>um_flags\<close> is what
  \<open>VmSpace::page_flags\<close> reports for it (present, user, writable). The fault hook the
  kernel registers is an argument: it may map the page it is asked for and answers
  whether it did. The copy itself is \<open>rep movsb\<close>; a concurrent unmap between the check
  and the copy is outside this sequential model. So are virtual pages that share a frame: bytes
  are named by their virtual address, and a store through one of two such pages is not seen
  through the other.
\<close>

section \<open>Trap frames\<close>

record trap_frame =
  tf_rax :: u64
  tf_rdi :: u64
  tf_rsi :: u64
  tf_rdx :: u64
  tf_r10 :: u64
  tf_r8 :: u64
  tf_r9 :: u64
  tf_rip_user :: u64
  tf_rflags_user :: u64
  tf_rsp_user :: u64
  tf_rbx :: u64
  tf_rbp :: u64
  tf_r12 :: u64
  tf_r13 :: u64
  tf_r14 :: u64
  tf_r15 :: u64
  tf_orig_rax :: u64
  tf_rcx :: u64
  tf_r11 :: u64

abbreviation syscall_nr :: "trap_frame \<Rightarrow> u64" where
  "syscall_nr tf \<equiv> tf_rax tf"

definition tf_arg :: "trap_frame \<Rightarrow> nat \<Rightarrow> u64" where
  "tf_arg tf i =
     (if i = 0 then tf_rdi tf else if i = 1 then tf_rsi tf else if i = 2 then tf_rdx tf
      else if i = 3 then tf_r10 tf else if i = 4 then tf_r8 tf else if i = 5 then tf_r9 tf
      else 0)"

abbreviation set_ret :: "u64 \<Rightarrow> trap_frame \<Rightarrow> trap_frame" where
  "set_ret v tf \<equiv> tf\<lparr>tf_rax := v\<rparr>"

section \<open>User memory\<close>

record user_mem =
  um_byte :: "u64 \<Rightarrow> u8"
  um_flags :: "u64 \<Rightarrow> (bool \<times> bool \<times> bool) option"

datatype access_kind = Read | Write

type_synonym pf_hook = "user_mem \<Rightarrow> u64 \<Rightarrow> u64 \<Rightarrow> bool \<times> user_mem"

abbreviation need_write :: "access_kind \<Rightarrow> bool" where
  "need_write k \<equiv> k = Write"

definition page_usable :: "access_kind \<Rightarrow> (bool \<times> bool \<times> bool) option \<Rightarrow> bool" where
  "page_usable k fl =
     (case fl of Some (True, True, w) \<Rightarrow> \<not> need_write k \<or> w | _ \<Rightarrow> False)"

definition fault_error_code :: "access_kind \<Rightarrow> (bool \<times> bool \<times> bool) option \<Rightarrow> u64" where
  "fault_error_code k fl =
     (case fl of Some (True, _, _) \<Rightarrow> 1 | _ \<Rightarrow> 0)
       OR (if need_write k then push_bit 1 1 else 0) OR push_bit 2 1"

text \<open>The body of the page loop of \<open>access_ok\<close>: \<open>None\<close> in the hook slot is an
  unregistered hook.\<close>

definition access_page ::
  "pf_hook option \<Rightarrow> access_kind \<Rightarrow> u64 \<Rightarrow> user_mem \<Rightarrow> bool \<times> user_mem" where
  "access_page hook k page m =
     (if page_usable k (um_flags m page) then (True, m)
      else case hook of
        None \<Rightarrow> (False, m)
      | Some h \<Rightarrow>
          (case h m page (fault_error_code k (um_flags m page)) of (handled, m') \<Rightarrow>
             if \<not> handled then (False, m')
             else (page_usable k (um_flags m' page), m')))"

text \<open>The loop runs from \<open>page\<close> to \<open>last_page\<close> in steps of 4096, so the number of
  further iterations is \<open>(last_page - page) / 4096\<close>.\<close>

fun access_pages ::
  "pf_hook option \<Rightarrow> access_kind \<Rightarrow> nat \<Rightarrow> u64 \<Rightarrow> user_mem \<Rightarrow> bool \<times> user_mem" where
  "access_pages hook k 0 page m = access_page hook k page m"
| "access_pages hook k (Suc n) page m =
     (case access_page hook k page m of
        (False, m') \<Rightarrow> (False, m')
      | (True, m') \<Rightarrow> access_pages hook k n (page + 4096) m')"

abbreviation USER_LIMIT :: u64 where "USER_LIMIT \<equiv> 0x800000000000"

definition page_of :: "u64 \<Rightarrow> u64" where
  "page_of a = a AND NOT 0xfff"

definition access_ok ::
  "pf_hook option \<Rightarrow> access_kind \<Rightarrow> u64 \<Rightarrow> nat \<Rightarrow> user_mem \<Rightarrow> bool \<times> user_mem" where
  "access_ok hook k addr len m =
     (if len = 0 then (True, m)
      else if 2 ^ 64 \<le> unat addr + len then (False, m)
      else if unat USER_LIMIT < unat addr + len then (False, m)
      else
        (let page = page_of addr; last_page = page_of (addr + of_nat len - 1) in
         access_pages hook k (unat (last_page - page) div 4096) page m))"

definition read_bytes :: "user_mem \<Rightarrow> u64 \<Rightarrow> nat \<Rightarrow> bytes" where
  "read_bytes m addr n = map (\<lambda>i. um_byte m (addr + of_nat i)) [0..<n]"

definition write_bytes :: "u64 \<Rightarrow> bytes \<Rightarrow> user_mem \<Rightarrow> user_mem" where
  "write_bytes addr bs m =
     m\<lparr>um_byte := \<lambda>a. if unat (a - addr) < length bs then bs ! unat (a - addr) else um_byte m a\<rparr>"

text \<open>\<open>Err(UserAccessFault)\<close> is \<open>None\<close>.\<close>

definition copy_from_user ::
  "pf_hook option \<Rightarrow> u64 \<Rightarrow> nat \<Rightarrow> user_mem \<Rightarrow> bytes option \<times> user_mem" where
  "copy_from_user hook addr n m =
     (case access_ok hook Read addr n m of
        (ok, m') \<Rightarrow> (if ok then Some (read_bytes m' addr n) else None, m'))"

definition copy_to_user ::
  "pf_hook option \<Rightarrow> u64 \<Rightarrow> bytes \<Rightarrow> user_mem \<Rightarrow> bool \<times> user_mem" where
  "copy_to_user hook addr bs m =
     (case access_ok hook Write addr (length bs) m of
        (ok, m') \<Rightarrow> if ok then (True, write_bytes addr bs m') else (False, m'))"

definition cmpxchg_user_u32 ::
  "pf_hook option \<Rightarrow> u64 \<Rightarrow> u32 \<Rightarrow> u32 \<Rightarrow> user_mem \<Rightarrow> u32 option \<times> user_mem" where
  "cmpxchg_user_u32 hook addr expected new m =
     (if addr AND 0x3 \<noteq> 0 then (None, m)
      else case access_ok hook Write addr 4 m of
        (ok, m') \<Rightarrow>
          if \<not> ok then (None, m')
          else
            (let prev = from_le (read_bytes m' addr 4) in
             (Some prev, if prev = expected then write_bytes addr (to_le 4 new) m' else m')))"

section \<open>Facts about the copies\<close>

lemma length_read_bytes [simp]: "length (read_bytes m addr n) = n"
  by (simp add: read_bytes_def)

lemma write_bytes_flags [simp]: "um_flags (write_bytes addr bs m) = um_flags m"
  by (simp add: write_bytes_def)

lemma read_write_same:
  assumes "length bs \<le> 2 ^ 64"
  shows "read_bytes (write_bytes addr bs m) addr (length bs) = bs"
proof (rule nth_equalityI)
  fix i
  assume "i < length (read_bytes (write_bytes addr bs m) addr (length bs))"
  then have i: "i < length bs" by simp
  then have "unat (of_nat i :: u64) = i"
    using assms by (intro unat_of_nat_small) simp
  then show "read_bytes (write_bytes addr bs m) addr (length bs) ! i = bs ! i"
    using i by (simp add: read_bytes_def write_bytes_def)
qed simp

lemma read_write_other:
  assumes "unat addr + length bs \<le> unat a \<or> unat a + n \<le> unat addr"
    and "unat a + n \<le> 2 ^ 64" and "unat addr + length bs \<le> 2 ^ 64"
  shows "read_bytes (write_bytes addr bs m) a n = read_bytes m a n"
proof (rule nth_equalityI)
  fix i
  assume "i < length (read_bytes (write_bytes addr bs m) a n)"
  then have i: "i < n" by simp
  have ai: "unat (a + of_nat i) = unat a + i"
  proof -
    have "unat (of_nat i :: u64) = i"
      using i assms(2) by (intro unat_of_nat_small) simp
    then show ?thesis
      using i assms(2) by (subst unat_add_in_range) simp_all
  qed
  have "\<not> unat (a + of_nat i - addr) < length bs"
  proof (cases "addr \<le> a + of_nat i")
    case True
    then show ?thesis using ai i assms by (simp add: unat_sub word_le_nat_alt)
  next
    case False
    then have lt: "unat a + i < unat addr" using ai by (simp add: word_le_nat_alt)
    have "unat (a + of_nat i - addr) = 2 ^ 64 + (unat a + i) - unat addr"
      using lt ai by (simp add: unat_sub_if_size word_size word_le_nat_alt)
    then show ?thesis using lt assms(3) by simp
  qed
  then show "read_bytes (write_bytes addr bs m) a n ! i = read_bytes m a n ! i"
    using i by (simp add: read_bytes_def write_bytes_def)
qed simp

text \<open>What the fault hook may do: it never takes away a usable page and never changes the
  bytes of one. (The kernel's hook maps the faulting page; it unmaps nothing.)\<close>

definition hook_monotone :: "pf_hook option \<Rightarrow> bool" where
  "hook_monotone hook \<longleftrightarrow>
     (\<forall>h m page err k p. hook = Some h \<longrightarrow> page_usable k (um_flags m p) \<longrightarrow>
        page_usable k (um_flags (snd (h m page err)) p)
        \<and> (\<forall>a. page_of a = p \<longrightarrow> um_byte (snd (h m page err)) a = um_byte m a))"

lemma hook_monotone_None [simp]: "hook_monotone None"
  by (simp add: hook_monotone_def)

lemma page_usable_weaken: "page_usable Write fl \<Longrightarrow> page_usable k fl"
  by (auto simp: page_usable_def split: option.splits bool.splits)

lemma access_page_True:
  "access_page hook k page m = (True, m') \<Longrightarrow> page_usable k (um_flags m' page)"
  by (auto simp: access_page_def split: if_splits option.splits prod.splits)

definition mem_extends :: "user_mem \<Rightarrow> user_mem \<Rightarrow> bool" where
  "mem_extends m m' \<longleftrightarrow>
     (\<forall>k p. page_usable k (um_flags m p) \<longrightarrow>
        page_usable k (um_flags m' p) \<and> (\<forall>a. page_of a = p \<longrightarrow> um_byte m' a = um_byte m a))"

lemma mem_extends_refl [simp]: "mem_extends m m"
  by (simp add: mem_extends_def)

lemma mem_extends_trans: "mem_extends m1 m2 \<Longrightarrow> mem_extends m2 m3 \<Longrightarrow> mem_extends m1 m3"
  unfolding mem_extends_def by metis

lemma access_page_extends:
  assumes "hook_monotone hook"
  shows "mem_extends m (snd (access_page hook k page m))"
proof (cases hook)
  case None
  then show ?thesis by (simp add: access_page_def)
next
  case (Some h)
  then have "mem_extends m (snd (h m page err))" for err
    using assms unfolding hook_monotone_def mem_extends_def by blast
  with Some show ?thesis
    by (auto simp: access_page_def split: prod.splits) (metis snd_conv)+
qed

lemma access_pages_extends:
  "hook_monotone hook \<Longrightarrow> mem_extends m (snd (access_pages hook k n page m))"
proof (induction n arbitrary: page m)
  case 0
  then show ?case by (simp add: access_page_extends)
next
  case (Suc n)
  have "mem_extends m (snd (access_page hook k page m))"
    by (rule access_page_extends [OF Suc.prems])
  with Suc.IH [OF Suc.prems] show ?case
    by (auto split: prod.splits bool.splits intro: mem_extends_trans)
qed

lemma access_pages_all:
  assumes "hook_monotone hook" and "access_pages hook k n page m = (True, m')" and "i \<le> n"
  shows "page_usable k (um_flags m' (page + 4096 * of_nat i))"
  using assms(2,3)
proof (induction n arbitrary: page m i)
  case 0
  then show ?case by (simp add: access_page_True)
next
  case (Suc n)
  then obtain m1 where m1: "access_page hook k page m = (True, m1)"
    and rest: "access_pages hook k n (page + 4096) m1 = (True, m')"
    by (auto split: prod.splits bool.splits)
  show ?case
  proof (cases i)
    case 0
    have "mem_extends m1 m'"
      using access_pages_extends [OF assms(1), of m1 k n "page + 4096"] rest by simp
    with access_page_True [OF m1] 0 show ?thesis by (simp add: mem_extends_def)
  next
    case (Suc j)
    with Suc.IH [OF rest, of j] Suc.prems(2) show ?thesis by (simp add: algebra_simps)
  qed
qed

lemma access_pages_usable:
  "(\<And>i. i \<le> n \<Longrightarrow> page_usable k (um_flags m (page + 4096 * of_nat i))) \<Longrightarrow>
     access_pages hook k n page m = (True, m)"
proof (induction n arbitrary: page)
  case 0
  from 0 [of 0] show ?case by (simp add: access_page_def)
next
  case (Suc n)
  have "access_pages hook k n (page + 4096) m = (True, m)"
  proof (rule Suc.IH)
    fix i
    assume "i \<le> n"
    with Suc.prems [of "Suc i"] show "page_usable k (um_flags m (page + 4096 + 4096 * of_nat i))"
      by (simp add: algebra_simps)
  qed
  moreover have "page_usable k (um_flags m page)"
    using Suc.prems [of 0] by simp
  ultimately show ?case by (simp add: access_page_def)
qed

lemma unat_page_of: "unat (page_of a) = unat a div 4096 * 4096"
proof -
  have "(0xfff :: u64) = mask 12" by (simp add: mask_eq_exp_minus_1)
  then show ?thesis using unat_align_down [of a 12] by (simp add: page_of_def)
qed

text \<open>Every byte of a range the check accepted lies on a usable page.\<close>

definition range_usable :: "access_kind \<Rightarrow> u64 \<Rightarrow> nat \<Rightarrow> user_mem \<Rightarrow> bool" where
  "range_usable k addr n m \<longleftrightarrow>
     unat addr + n \<le> unat USER_LIMIT \<and>
     (\<forall>i < n. page_usable k (um_flags m (page_of (addr + of_nat i))))"

lemma unat_addr_plus:
  "unat addr + n \<le> 2 ^ 63 \<Longrightarrow> i \<le> n \<Longrightarrow> unat (addr + of_nat i :: u64) = unat addr + i"
  by (subst unat_add_in_range) (simp_all add: unat_of_nat_small)

lemma last_page_distance:
  assumes "unat addr + n \<le> 2 ^ 63" and "n \<noteq> 0"
  shows "unat (page_of (addr + of_nat n - 1) - page_of addr) div 4096
    = (unat addr + (n - 1)) div 4096 - unat addr div 4096"
proof -
  obtain q where q: "n = Suc q" using assms(2) by (cases n) auto
  have at: "unat (page_of (addr + of_nat q)) = (unat addr + q) div 4096 * 4096"
    using assms(1) q by (simp add: unat_page_of unat_addr_plus [of addr n])
  have "page_of addr \<le> page_of (addr + of_nat q)"
    unfolding word_le_nat_alt at by (simp add: unat_page_of div_le_mono)
  then have "unat (page_of (addr + of_nat q) - page_of addr)
      = (unat addr + q) div 4096 * 4096 - unat addr div 4096 * 4096"
    by (simp only: unat_sub at unat_page_of [of addr])
  then show ?thesis by (simp add: q flip: diff_mult_distrib)
qed

lemma page_of_step:
  assumes "unat addr + n \<le> 2 ^ 63" and "i < n"
  shows "page_of (addr + of_nat i) =
      page_of addr + 4096 * of_nat ((unat addr + i) div 4096 - unat addr div 4096)"
    and "(unat addr + i) div 4096 - unat addr div 4096
      \<le> unat (page_of (addr + of_nat n - 1) - page_of addr) div 4096"
proof -
  define j where "j = (unat addr + i) div 4096 - unat addr div 4096"
  have sum: "unat addr div 4096 + j = (unat addr + i) div 4096"
    by (simp add: j_def div_le_mono)
  have bound: "unat addr div 4096 * 4096 + 4096 * j < 2 ^ 64"
  proof -
    have "unat addr div 4096 * 4096 + 4096 * j = (unat addr div 4096 + j) * 4096" by simp
    also have "\<dots> = (unat addr + i) div 4096 * 4096" by (simp only: sum)
    also have "\<dots> \<le> unat addr + i" by simp
    finally show ?thesis using assms by simp
  qed
  have j4: "unat (4096 * of_nat j :: u64) = 4096 * j"
    using bound by (subst unat_mult_in_range) (simp_all add: unat_of_nat_small)
  have "unat (page_of addr + 4096 * of_nat j) = unat addr div 4096 * 4096 + 4096 * j"
    using bound by (subst unat_add_in_range) (simp_all add: j4 unat_page_of)
  also have "\<dots> = unat (page_of (addr + of_nat i))"
    using assms by (simp add: unat_page_of unat_addr_plus [of addr n] flip: sum)
  finally show "page_of (addr + of_nat i) =
      page_of addr + 4096 * of_nat ((unat addr + i) div 4096 - unat addr div 4096)"
    unfolding j_def by (rule unsigned_word_eqI [OF sym])
  have "unat (page_of (addr + of_nat n - 1) - page_of addr) div 4096
      = (unat addr + (n - 1)) div 4096 - unat addr div 4096"
    using assms by (intro last_page_distance) simp_all
  moreover have "(unat addr + i) div 4096 \<le> (unat addr + (n - 1)) div 4096"
    using assms(2) by (intro div_le_mono) simp
  ultimately show "(unat addr + i) div 4096 - unat addr div 4096
      \<le> unat (page_of (addr + of_nat n - 1) - page_of addr) div 4096"
    by (simp only: diff_le_mono)
qed

lemma access_ok_usable:
  assumes "hook_monotone hook" and "access_ok hook k addr n m = (True, m')" and "n \<noteq> 0"
  shows "range_usable k addr n m'"
proof -
  let ?pn = "unat (page_of (addr + of_nat n - 1) - page_of addr) div 4096"
  have lim: "unat addr + n \<le> unat USER_LIMIT"
    and pages: "access_pages hook k ?pn (page_of addr) m = (True, m')"
    using assms(2,3) by (auto simp: access_ok_def Let_def split: if_splits)
  then have lim2: "unat addr + n \<le> 2 ^ 63" by (simp add: kconsts)
  have "page_usable k (um_flags m' (page_of (addr + of_nat i)))" if "i < n" for i
    using access_pages_all [OF assms(1) pages page_of_step(2) [OF lim2 that]]
    by (simp add: page_of_step(1) [OF lim2 that])
  with lim show ?thesis by (simp add: range_usable_def)
qed

lemma range_usable_pages:
  assumes u: "range_usable k addr n m" and n: "n \<noteq> 0"
    and i: "i \<le> unat (page_of (addr + of_nat n - 1) - page_of addr) div 4096"
  shows "page_usable k (um_flags m (page_of addr + 4096 * of_nat i))"
proof -
  let ?p = "unat addr div 4096"
  have lim: "unat addr + n \<le> 2 ^ 63" using u by (simp add: range_usable_def kconsts)
  have pn: "i \<le> (unat addr + (n - 1)) div 4096 - ?p"
    using i last_page_distance [OF lim n] by simp
  define d where "d = (?p + i) * 4096 - unat addr"
  have d: "d < n" "(unat addr + d) div 4096 = ?p + i"
  proof -
    have "?p + i \<le> (unat addr + (n - 1)) div 4096" using pn by (simp add: div_le_mono le_diff_conv2)
    then have "(?p + i) * 4096 \<le> unat addr + (n - 1)" by simp
    then show "d < n" using n by (simp add: d_def)
    show "(unat addr + d) div 4096 = ?p + i"
      unfolding d_def by (cases i) simp_all
  qed
  have "page_usable k (um_flags m (page_of (addr + of_nat d)))"
    using u d(1) by (simp add: range_usable_def)
  then show ?thesis
    using page_of_step(1) [OF lim d(1)] d(2) by simp
qed

lemma access_ok_of_usable:
  "range_usable k addr n m \<Longrightarrow> access_ok hook k addr n m = (True, m)"
  by (auto simp: access_ok_def Let_def range_usable_def kconsts
      intro!: access_pages_usable range_usable_pages)

lemma access_ok_extends:
  "hook_monotone hook \<Longrightarrow> mem_extends m (snd (access_ok hook k addr n m))"
  by (simp add: access_ok_def Let_def access_pages_extends)

lemma range_usable_weaken: "range_usable Write addr n m \<Longrightarrow> range_usable k addr n m"
  by (auto simp: range_usable_def intro: page_usable_weaken)

lemma range_usable_write [simp]:
  "range_usable k addr n (write_bytes a bs m) = range_usable k addr n m"
  by (simp add: range_usable_def)

lemma range_usable_extends:
  "mem_extends m m' \<Longrightarrow> range_usable k addr n m \<Longrightarrow> range_usable k addr n m'"
  by (auto simp: range_usable_def mem_extends_def)

lemma read_bytes_extends:
  "mem_extends m m' \<Longrightarrow> range_usable k addr n m \<Longrightarrow> read_bytes m' addr n = read_bytes m addr n"
  by (auto simp: range_usable_def mem_extends_def read_bytes_def)

lemma copy_to_user_TrueD:
  assumes "hook_monotone hook" and "copy_to_user hook addr bs m = (True, m')" and "bs \<noteq> []"
  shows "range_usable Write addr (length bs) m'"
    and "read_bytes m' addr (length bs) = bs"
proof -
  obtain m1 where m1: "access_ok hook Write addr (length bs) m = (True, m1)"
    and m': "m' = write_bytes addr bs m1"
    using assms(2) by (auto simp: copy_to_user_def split: prod.splits if_splits)
  have u: "range_usable Write addr (length bs) m1"
    using access_ok_usable [OF assms(1) m1] assms(3) by simp
  then show "range_usable Write addr (length bs) m'" by (simp add: m')
  from u have "length bs \<le> 2 ^ 64" by (simp add: range_usable_def kconsts)
  then show "read_bytes m' addr (length bs) = bs" by (simp add: m' read_write_same)
qed

text \<open>A later copy elsewhere keeps what an earlier one wrote.\<close>

lemma copy_to_user_keeps:
  assumes "hook_monotone hook" and "copy_to_user hook addr bs m = (True, m')"
    and "range_usable k a n m"
    and "unat addr + length bs \<le> unat a \<or> unat a + n \<le> unat addr"
  shows "range_usable k a n m' \<and> read_bytes m' a n = read_bytes m a n"
proof -
  obtain m1 where m1: "access_ok hook Write addr (length bs) m = (True, m1)"
    and m': "m' = write_bytes addr bs m1"
    using assms(2) by (auto simp: copy_to_user_def split: prod.splits if_splits)
  have ext: "mem_extends m m1"
    using access_ok_extends [OF assms(1), of m Write addr "length bs"] m1 by simp
  have "unat a + n \<le> 2 ^ 64"
    using assms(3) by (simp add: range_usable_def kconsts)
  moreover have "unat addr + length bs \<le> 2 ^ 64"
    using m1 unat_u64_less [of addr]
    by (auto simp: access_ok_def kconsts less_imp_le split: if_splits)
  ultimately have "read_bytes m' a n = read_bytes m1 a n"
    using assms(4) by (simp add: m' read_write_other)
  then show ?thesis
    using ext assms(3) by (simp add: m' range_usable_extends read_bytes_extends)
qed

lemma copy_from_usable:
  "range_usable k addr n m \<Longrightarrow> k = Read \<or> k = Write \<Longrightarrow>
     copy_from_user hook addr n m = (Some (read_bytes m addr n), m)"
  by (auto simp: copy_from_user_def access_ok_of_usable range_usable_weaken)

lemma page_usable_Write: "page_usable Write fl \<longleftrightarrow> fl = Some (True, True, True)"
  by (auto simp: page_usable_def split: option.splits bool.splits)

lemma copy_to_user_elsewhere:
  assumes "hook_monotone hook" and "copy_to_user hook addr bs m = (ok, m')"
    and "page_usable k (um_flags m (page_of a))" and "\<not> (ok \<and> unat (a - addr) < length bs)"
  shows "um_byte m' a = um_byte m a \<and> page_usable k (um_flags m' (page_of a))"
proof -
  obtain m1 where m1: "access_ok hook Write addr (length bs) m = (ok, m1)"
    and m': "m' = (if ok then write_bytes addr bs m1 else m1)"
    using assms(2) by (auto simp: copy_to_user_def split: prod.splits if_splits)
  have "mem_extends m m1"
    using access_ok_extends [OF assms(1), of m Write addr "length bs"] m1 by simp
  then show ?thesis
    using assms(3,4) by (auto simp: m' mem_extends_def write_bytes_def)
qed

section \<open>Properties\<close>

text \<open>C2: a copy to user memory is checked, complete and confined. When it reports success, every
  byte of the range lies below the end of user space on a page that is present, a user page and
  writable, and reading the range back gives the bytes, without another fault. It fails only if
  the range leaves user space or some page of it was not writable for the user before the call.
  In either case no byte outside the range that was accessible changes or becomes inaccessible. The
  fault hook may map pages. (Pages are named by their virtual address: two of them backed by one
  frame are outside this model.)\<close>

theorem copy_to_from_user:
  assumes "hook_monotone hook" and "copy_to_user hook addr bs m = (ok, m')"
  shows "(if ok then
       (\<forall>i < length bs. um_flags m' (page_of (addr + of_nat i)) = Some (True, True, True)) \<and>
       (bs = [] \<or> unat addr + length bs \<le> 2 ^ 47) \<and>
       copy_from_user hook addr (length bs) m' = (Some bs, m')
     else 2 ^ 47 < unat addr + length bs \<or>
       (\<exists>i < length bs. um_flags m (page_of (addr + of_nat i)) \<noteq> Some (True, True, True))) \<and>
     (\<forall>k a. page_usable k (um_flags m (page_of a)) \<and> \<not> (ok \<and> unat (a - addr) < length bs) \<longrightarrow>
       um_byte m' a = um_byte m a \<and> page_usable k (um_flags m' (page_of a)))"
proof -
  have "copy_from_user hook addr (length bs) m' = (Some bs, m') \<and>
      (\<forall>i < length bs. um_flags m' (page_of (addr + of_nat i)) = Some (True, True, True)) \<and>
      (bs = [] \<or> unat addr + length bs \<le> 2 ^ 47)" if ok
  proof (cases "bs = []")
    case True
    then show ?thesis using assms(2) that
      by (auto simp: copy_to_user_def copy_from_user_def access_ok_def read_bytes_def)
  next
    case False
    have c: "copy_to_user hook addr bs m = (True, m')" using assms(2) that by simp
    note r = copy_to_user_TrueD [OF assms(1) c False]
    then show ?thesis
      by (simp add: copy_from_usable [where k = Write] range_usable_def page_usable_Write)
  qed
  moreover have "\<not> range_usable Write addr (length bs) m" if "\<not> ok"
    using that assms(2) access_ok_of_usable [of Write addr "length bs" m hook]
    by (auto simp: copy_to_user_def split: if_splits)
  ultimately show ?thesis
    using copy_to_user_elsewhere [OF assms]
    by (auto simp: range_usable_def page_usable_Write not_le)
qed

text \<open>A hook that maps the page it is asked for, as the kernel's does: a copy over two unmapped
  pages.\<close>

definition demo_hook :: pf_hook where
  "demo_hook m page err = (True, m\<lparr>um_flags := (um_flags m)(page := Some (True, True, True))\<rparr>)"

theorem copy_to_from_user_witness:
  "\<exists>m'. copy_to_user (Some demo_hook) 0x1fff [7, 9] \<lparr>um_byte = (\<lambda>_. 0), um_flags = (\<lambda>_. None)\<rparr> = (True, m') \<and>
     um_flags m' 0x1000 = Some (True, True, True) \<and> um_flags m' 0x2000 = Some (True, True, True) \<and>
     copy_from_user (Some demo_hook) 0x1fff 2 m' = (Some [7, 9], m')"
proof -
  let ?m = "\<lparr>um_byte = (\<lambda>_. 0), um_flags = (\<lambda>_. None)\<rparr>"
  have mono: "hook_monotone (Some demo_hook)"
    by (auto simp: hook_monotone_def demo_hook_def page_usable_def)
  have "fst (copy_to_user (Some demo_hook) 0x1fff [7, 9] ?m)"
    by (simp add: copy_to_user_def access_ok_def page_of_def access_page_def page_usable_def
        demo_hook_def)
  then have c: "copy_to_user (Some demo_hook) 0x1fff [7, 9] ?m
      = (True, snd (copy_to_user (Some demo_hook) 0x1fff [7, 9] ?m))"
    by (simp add: prod_eq_iff)
  let ?m' = "snd (copy_to_user (Some demo_hook) 0x1fff [7, 9] ?m)"
  have len: "length [7, 9 :: u8] = 2" by simp
  note r = copy_to_from_user [OF mono c, unfolded len if_True]
  note fl = conjunct1 [OF conjunct1 [OF r], rule_format]
    and again = conjunct2 [OF conjunct2 [OF conjunct1 [OF r]]]
  show ?thesis
    using c again fl [of 0] fl [of 1]
    by (intro exI [of _ ?m']) (simp add: page_of_def)
qed

end
