(* ===== verification/Seccomp.thy ===== *)
theory Seccomp
  imports Bpf Setid User_Mem
begin

text \<open>
  Seccomp: the filter chain (\<open>kernel/src/security/seccomp.rs\<close>), the seccomp system call, the
  strict-mode program and the check at the head of the system call dispatcher
  (\<open>kernel/src/syscall/creds.rs\<close>), over the security context of a process
  (\<open>SecurityContext\<close> in \<open>kernel/src/process_model/context.rs\<close>). A filter is shared by
  reference and immutable, so a chain is a list of programs.
\<close>

section \<open>Actions and the filter input\<close>

abbreviation SECCOMP_RET_KILL_PROCESS :: u32 where "SECCOMP_RET_KILL_PROCESS \<equiv> 0x80000000"
abbreviation SECCOMP_RET_KILL_THREAD :: u32 where "SECCOMP_RET_KILL_THREAD \<equiv> 0x00000000"
abbreviation SECCOMP_RET_TRAP :: u32 where "SECCOMP_RET_TRAP \<equiv> 0x00030000"
abbreviation SECCOMP_RET_ERRNO :: u32 where "SECCOMP_RET_ERRNO \<equiv> 0x00050000"
abbreviation SECCOMP_RET_LOG :: u32 where "SECCOMP_RET_LOG \<equiv> 0x7ffc0000"
abbreviation SECCOMP_RET_ALLOW :: u32 where "SECCOMP_RET_ALLOW \<equiv> 0x7fff0000"
abbreviation SECCOMP_RET_ACTION :: u32 where "SECCOMP_RET_ACTION \<equiv> 0xffff0000"
abbreviation SECCOMP_RET_DATA :: u32 where "SECCOMP_RET_DATA \<equiv> 0x0000ffff"
abbreviation AUDIT_ARCH_X86_64 :: u32 where "AUDIT_ARCH_X86_64 \<equiv> 0xC000003E"
abbreviation SECCOMP_DATA_SIZE :: u32 where "SECCOMP_DATA_SIZE \<equiv> 64"

text \<open>\<open>nr\<close> is the bit pattern of the \<open>i32\<close>; \<open>args\<close> has six entries.\<close>

record seccomp_data =
  sd_nr :: u32
  sd_arch :: u32
  sd_instruction_pointer :: u64
  sd_args :: "u64 list"

definition seccomp_to_bytes :: "seccomp_data \<Rightarrow> bytes" where
  "seccomp_to_bytes d =
     to_le 4 (sd_nr d) @ to_le 4 (sd_arch d) @ to_le 8 (sd_instruction_pointer d)
       @ concat (map (to_le 8) (sd_args d))"

section \<open>The chain\<close>

text \<open>The loop over the chain; \<open>None\<close> is a panic inside a filter.\<close>

fun evaluate_from :: "bytes \<Rightarrow> u32 \<Rightarrow> bpf_program list \<Rightarrow> u32 option" where
  "evaluate_from bs best [] = Some best"
| "evaluate_from bs best (prog # rest) =
     (case bpf_run prog bs of
        None \<Rightarrow> None
      | Some r \<Rightarrow>
          evaluate_from bs
            (if r AND SECCOMP_RET_ACTION < best AND SECCOMP_RET_ACTION then r else best) rest)"

definition evaluate_chain :: "bpf_program list \<Rightarrow> seccomp_data \<Rightarrow> u32 option" where
  "evaluate_chain chain data =
     (if chain = [] then Some SECCOMP_RET_ALLOW
      else evaluate_from (seccomp_to_bytes data) SECCOMP_RET_ALLOW chain)"

section \<open>Security contexts\<close>

record security_context =
  sc_no_new_privs :: bool
  sc_dumpable :: u32
  sc_keep_caps :: bool
  sc_seccomp_filters :: "bpf_program list"

definition security_new :: security_context where
  "security_new = \<lparr>sc_no_new_privs = False, sc_dumpable = 1, sc_keep_caps = False,
     sc_seccomp_filters = []\<rparr>"

definition security_inherit :: "security_context \<Rightarrow> security_context" where
  "security_inherit parent = \<lparr>sc_no_new_privs = sc_no_new_privs parent, sc_dumpable = 1,
     sc_keep_caps = False, sc_seccomp_filters = sc_seccomp_filters parent\<rparr>"

definition set_no_new_privs :: "security_context \<Rightarrow> security_context" where
  "set_no_new_privs s = s\<lparr>sc_no_new_privs := True\<rparr>"

definition add_seccomp_filter :: "bpf_program \<Rightarrow> security_context \<Rightarrow> security_context" where
  "add_seccomp_filter prog s = s\<lparr>sc_seccomp_filters := sc_seccomp_filters s @ [prog]\<rparr>"

text \<open>The part of the process table these calls touch, and the running process.\<close>

record sec_proc =
  sp_tgid :: pid
  sp_creds :: credentials
  sp_security :: security_context

record sec_state =
  ss_current :: pid
  ss_procs :: "pid \<Rightarrow> sec_proc option"
  ss_mem :: user_mem

definition with_security_mut ::
  "(security_context \<Rightarrow> security_context) \<Rightarrow> sec_proc \<Rightarrow> sec_proc" where
  "with_security_mut f p = p\<lparr>sp_security := f (sp_security p)\<rparr>"

definition seccomp_append_filter :: "bpf_program \<Rightarrow> sec_state \<Rightarrow> sec_state" where
  "seccomp_append_filter prog s =
     s\<lparr>ss_procs := \<lambda>q. if q = ss_current s
         then map_option (with_security_mut (add_seccomp_filter prog)) (ss_procs s q)
         else ss_procs s q\<rparr>"

definition seccomp_append_filter_tgid :: "bpf_program \<Rightarrow> sec_state \<Rightarrow> sec_state" where
  "seccomp_append_filter_tgid prog s =
     (let tgid = (case ss_procs s (ss_current s) of Some p \<Rightarrow> sp_tgid p | None \<Rightarrow> ss_current s) in
      s\<lparr>ss_procs := \<lambda>q. map_option (\<lambda>p. if sp_tgid p = tgid
           then with_security_mut (add_seccomp_filter prog) p else p) (ss_procs s q)\<rparr>)"

definition current_seccomp_chain :: "sec_state \<Rightarrow> bpf_program list option" where
  "current_seccomp_chain s =
     map_option (\<lambda>p. sc_seccomp_filters (sp_security p)) (ss_procs s (ss_current s))"

definition current_no_new_privs :: "sec_state \<Rightarrow> bool" where
  "current_no_new_privs s =
     (case ss_procs s (ss_current s) of
        Some p \<Rightarrow> sc_no_new_privs (sp_security p) | None \<Rightarrow> False)"

section \<open>The seccomp system call\<close>

definition strict_mode_program :: "sock_filter list" where
  "strict_mode_program = [
     \<lparr>sf_code = 0x20, sf_jt = 0, sf_jf = 0, sf_k = 0\<rparr>,
     \<lparr>sf_code = 0x05 OR 0x10, sf_jt = 5, sf_jf = 0, sf_k = 0\<rparr>,
     \<lparr>sf_code = 0x05 OR 0x10, sf_jt = 4, sf_jf = 0, sf_k = 1\<rparr>,
     \<lparr>sf_code = 0x05 OR 0x10, sf_jt = 3, sf_jf = 0, sf_k = 15\<rparr>,
     \<lparr>sf_code = 0x05 OR 0x10, sf_jt = 2, sf_jf = 0, sf_k = 60\<rparr>,
     \<lparr>sf_code = 0x05 OR 0x10, sf_jt = 1, sf_jf = 0, sf_k = 231\<rparr>,
     \<lparr>sf_code = 0x06, sf_jt = 0, sf_jf = 0, sf_k = SECCOMP_RET_KILL_PROCESS\<rparr>,
     \<lparr>sf_code = 0x06, sf_jt = 0, sf_jf = 0, sf_k = SECCOMP_RET_ALLOW\<rparr>]"

definition decode_insn :: "bytes \<Rightarrow> nat \<Rightarrow> sock_filter" where
  "decode_insn buf i =
     (let off = i * 8 in
      \<lparr>sf_code = from_le (slice off 2 buf), sf_jt = buf ! (off + 2), sf_jf = buf ! (off + 3),
       sf_k = from_le (slice (off + 4) 4 buf)\<rparr>)"

text \<open>\<open>None\<close> is the panic of \<open>with_current_creds\<close> when the current process is gone.\<close>

definition may_install_filter :: "sec_state \<Rightarrow> bool option" where
  "may_install_filter s =
     (if current_no_new_privs s then Some True
      else map_option (\<lambda>p. has_cap (sp_creds p) CAP_SYS_ADMIN) (ss_procs s (ss_current s)))"

definition seccomp_set_strict :: "sec_state \<Rightarrow> (int \<times> sec_state) option" where
  "seccomp_set_strict s =
     (case verify strict_mode_program SECCOMP_DATA_SIZE of
        Inl _ \<Rightarrow> Some (EINVAL, s)
      | Inr prog \<Rightarrow>
          (case may_install_filter s of
             None \<Rightarrow> None
           | Some False \<Rightarrow> Some (EPERM, s)
           | Some True \<Rightarrow> Some (0, seccomp_append_filter prog s)))"

definition seccomp_set_filter ::
  "pf_hook option \<Rightarrow> u64 \<Rightarrow> u64 \<Rightarrow> sec_state \<Rightarrow> (int \<times> sec_state) option" where
  "seccomp_set_filter hook flags args s =
     (if flags AND NOT (1 OR 2 OR 4) \<noteq> 0 then Some (EINVAL, s)
      else case may_install_filter s of
        None \<Rightarrow> None
      | Some False \<Rightarrow> Some (EPERM, s)
      | Some True \<Rightarrow>
          (case copy_from_user hook args 16 (ss_mem s) of
             (None, m) \<Rightarrow> Some (EFAULT, s\<lparr>ss_mem := m\<rparr>)
           | (Some hdr, m) \<Rightarrow>
               (let len = unat (from_le (slice 0 2 hdr) :: u16);
                    filter_ptr = (from_le (slice 8 8 hdr) :: u64);
                    s1 = s\<lparr>ss_mem := m\<rparr> in
                if len = 0 \<or> 4096 < len then Some (EINVAL, s1)
                else case copy_from_user hook filter_ptr (len * 8) m of
                  (None, m2) \<Rightarrow> Some (EFAULT, s1\<lparr>ss_mem := m2\<rparr>)
                | (Some buf, m2) \<Rightarrow>
                    (let s2 = s1\<lparr>ss_mem := m2\<rparr> in
                     case verify (map (decode_insn buf) [0..<len]) SECCOMP_DATA_SIZE of
                       Inl _ \<Rightarrow> Some (EINVAL, s2)
                     | Inr prog \<Rightarrow>
                         Some (0, if flags AND 1 \<noteq> 0 then seccomp_append_filter_tgid prog s2
                                  else seccomp_append_filter prog s2)))))"

definition seccomp_action_avail ::
  "pf_hook option \<Rightarrow> u64 \<Rightarrow> sec_state \<Rightarrow> int \<times> sec_state" where
  "seccomp_action_avail hook args s =
     (case copy_from_user hook args 4 (ss_mem s) of
        (None, m) \<Rightarrow> (EFAULT, s\<lparr>ss_mem := m\<rparr>)
      | (Some a, m) \<Rightarrow>
          (if (from_le a :: u32) \<in> set [SECCOMP_RET_KILL_PROCESS, SECCOMP_RET_KILL_THREAD,
                SECCOMP_RET_TRAP, SECCOMP_RET_ERRNO, SECCOMP_RET_LOG, SECCOMP_RET_ALLOW]
           then 0 else EINVAL, s\<lparr>ss_mem := m\<rparr>))"

definition sys_seccomp ::
  "pf_hook option \<Rightarrow> u64 \<Rightarrow> u64 \<Rightarrow> u64 \<Rightarrow> sec_state \<Rightarrow> (int \<times> sec_state) option" where
  "sys_seccomp hook operation flags args s =
     (if operation = 0 then seccomp_set_strict s
      else if operation = 1 then seccomp_set_filter hook flags args s
      else if operation = 2 then Some (seccomp_action_avail hook args s)
      else Some (EINVAL, s))"

section \<open>The check at system call entry\<close>

definition seccomp_data_of :: "trap_frame \<Rightarrow> seccomp_data" where
  "seccomp_data_of tf = \<lparr>sd_nr = ucast (syscall_nr tf), sd_arch = AUDIT_ARCH_X86_64,
     sd_instruction_pointer = tf_rip_user tf, sd_args = map (tf_arg tf) [0, 1, 2, 3, 4, 5]\<rparr>"

definition evaluate_for_syscall :: "sec_state \<Rightarrow> trap_frame \<Rightarrow> u32 option" where
  "evaluate_for_syscall s tf =
     (case current_seccomp_chain s of
        None \<Rightarrow> Some SECCOMP_RET_ALLOW
      | Some chain \<Rightarrow>
          if chain = [] then Some SECCOMP_RET_ALLOW
          else evaluate_chain chain (seccomp_data_of tf))"

text \<open>\<open>Proceed\<close> runs the system call; \<open>Refused\<close> returns to user space with the given
  frame; \<open>Sigsys\<close> carries what \<open>SigInfo::for_seccomp\<close> is built from and the frame handed
  to signal delivery; \<open>Terminated\<close> is \<open>terminate_current_with_signal\<close>.\<close>

datatype seccomp_outcome =
    Proceed
  | Refused trap_frame
  | Sigsys u64 u32 u16 trap_frame
  | Terminated nat

definition apply_seccomp :: "sec_state \<Rightarrow> trap_frame \<Rightarrow> seccomp_outcome option" where
  "apply_seccomp s tf =
     map_option (\<lambda>r.
       (let action = r AND SECCOMP_RET_ACTION; data = r AND SECCOMP_RET_DATA in
        if action = SECCOMP_RET_ALLOW then Proceed
        else if action = SECCOMP_RET_LOG then Proceed
        else if action = SECCOMP_RET_ERRNO then
          Refused (set_ret (- ucast (min data 4095)) tf)
        else if action = SECCOMP_RET_TRAP then
          Sigsys (tf_rip_user tf) (ucast (tf_orig_rax tf)) (ucast data)
            (set_ret (of_int ENOSYS) tf)
        else Terminated 9)) (evaluate_for_syscall s tf)"

section \<open>Evaluation of a chain\<close>

lemma evaluate_from_least:
  assumes "\<And>p. p \<in> set chain \<Longrightarrow> \<exists>v. bpf_run p bs = Some v"
  shows "\<exists>r. evaluate_from bs best chain = Some r
    \<and> (r = best \<or> (\<exists>p \<in> set chain. bpf_run p bs = Some r))
    \<and> r AND SECCOMP_RET_ACTION \<le> best AND SECCOMP_RET_ACTION
    \<and> (\<forall>p \<in> set chain. \<forall>v. bpf_run p bs = Some v \<longrightarrow>
         r AND SECCOMP_RET_ACTION \<le> v AND SECCOMP_RET_ACTION)"
  using assms
proof (induction chain arbitrary: best)
  case (Cons p ps)
  from Cons.prems [of p] obtain v where v: "bpf_run p bs = Some v" by auto
  define b where "b = (if v AND SECCOMP_RET_ACTION < best AND SECCOMP_RET_ACTION then v else best)"
  from Cons.IH [of b] Cons.prems obtain r where r: "evaluate_from bs b ps = Some r"
    "r = b \<or> (\<exists>p \<in> set ps. bpf_run p bs = Some r)"
    "r AND SECCOMP_RET_ACTION \<le> b AND SECCOMP_RET_ACTION"
    "\<forall>p \<in> set ps. \<forall>v. bpf_run p bs = Some v \<longrightarrow>
         r AND SECCOMP_RET_ACTION \<le> v AND SECCOMP_RET_ACTION"
    by auto
  have "b AND SECCOMP_RET_ACTION \<le> best AND SECCOMP_RET_ACTION"
    "b AND SECCOMP_RET_ACTION \<le> v AND SECCOMP_RET_ACTION" "b = best \<or> b = v"
    by (auto simp: b_def)
  then show ?case
    using v r by (intro exI [of _ r]) (auto simp flip: b_def)
qed simp

definition verified :: "bpf_program \<Rightarrow> bool" where
  "verified prog \<longleftrightarrow> verify (bp_insns prog) SECCOMP_DATA_SIZE = Inr prog"

lemma verify_verified: "verify insns SECCOMP_DATA_SIZE = Inr prog \<Longrightarrow> verified prog"
  using verify_InrD(1) [of insns SECCOMP_DATA_SIZE prog] by (simp add: verified_def)

lemma verified_runs: "verified prog \<Longrightarrow> \<exists>v. bpf_run prog packet = Some v"
  unfolding verified_def bpf_run_def
  by (metis bpf_run_from_safe verify_InrD(1,3,4) bpf_ok_init)

lemma evaluate_chain_unsigned_least:
  assumes "\<And>prog. prog \<in> set chain \<Longrightarrow> verified prog"
  shows "\<exists>r. evaluate_chain chain d = Some r
    \<and> (r = SECCOMP_RET_ALLOW \<or> (\<exists>p \<in> set chain. bpf_run p (seccomp_to_bytes d) = Some r))
    \<and> r AND SECCOMP_RET_ACTION \<le> SECCOMP_RET_ALLOW
    \<and> (\<forall>p \<in> set chain. \<forall>v. bpf_run p (seccomp_to_bytes d) = Some v \<longrightarrow>
         r AND SECCOMP_RET_ACTION \<le> v AND SECCOMP_RET_ACTION)"
proof -
  have "SECCOMP_RET_ALLOW AND SECCOMP_RET_ACTION = SECCOMP_RET_ALLOW" by (simp add: kconsts)
  then show ?thesis
    using evaluate_from_least [of chain "seccomp_to_bytes d" SECCOMP_RET_ALLOW]
      verified_runs assms
    by (auto simp: evaluate_chain_def)
qed

text \<open>Because the comparison is unsigned and starts from allow, a result with the action
  kill-process is never the result of a chain, whatever the filters return.\<close>

lemma kill_process_never_wins:
  assumes "\<And>prog. prog \<in> set chain \<Longrightarrow> verified prog"
  shows "\<exists>r. evaluate_chain chain d = Some r \<and> r AND SECCOMP_RET_ACTION \<noteq> SECCOMP_RET_KILL_PROCESS"
proof -
  obtain r where "evaluate_chain chain d = Some r" "r AND SECCOMP_RET_ACTION \<le> SECCOMP_RET_ALLOW"
    using evaluate_chain_unsigned_least [OF assms, of chain d] by auto
  moreover from this(2) have "r AND SECCOMP_RET_ACTION \<noteq> SECCOMP_RET_KILL_PROCESS"
    by (intro notI) (simp add: kconsts)
  ultimately show ?thesis by blast
qed

text \<open>C7: a chain of verified filters none of which answers with an action above allow (kill-process
  is the one documented action there) never panics, and the strictest answer wins. The result is
  one that a filter returned, or plain allow when every filter allows; its action precedes or
  equals that of every filter in the order kill-thread, trap, errno, log, allow, which is the
  unsigned order of the action fields. So the call is let through as allowed only if every
  filter allows it, and any filter that kills the thread has its way.\<close>

theorem evaluate_chain_least_action:
  assumes "\<And>prog. prog \<in> set chain \<Longrightarrow> verified prog"
    and "\<And>prog v. prog \<in> set chain \<Longrightarrow> bpf_run prog (seccomp_to_bytes d) = Some v \<Longrightarrow>
      v AND SECCOMP_RET_ACTION \<le> SECCOMP_RET_ALLOW"
  shows "\<exists>r. evaluate_chain chain d = Some r
    \<and> ((\<exists>p \<in> set chain. bpf_run p (seccomp_to_bytes d) = Some r) \<or>
       r = SECCOMP_RET_ALLOW \<and> (\<forall>p \<in> set chain. \<exists>v. bpf_run p (seccomp_to_bytes d) = Some v \<and>
         v AND SECCOMP_RET_ACTION = SECCOMP_RET_ALLOW))
    \<and> (\<forall>p \<in> set chain. \<exists>v. bpf_run p (seccomp_to_bytes d) = Some v \<and>
         r AND SECCOMP_RET_ACTION \<le> v AND SECCOMP_RET_ACTION)
    \<and> (r AND SECCOMP_RET_ACTION = SECCOMP_RET_ALLOW \<longleftrightarrow>
         (\<forall>p \<in> set chain. \<exists>v. bpf_run p (seccomp_to_bytes d) = Some v \<and>
            v AND SECCOMP_RET_ACTION = SECCOMP_RET_ALLOW))
    \<and> ((\<exists>p \<in> set chain. \<exists>v. bpf_run p (seccomp_to_bytes d) = Some v \<and>
          v AND SECCOMP_RET_ACTION = SECCOMP_RET_KILL_THREAD) \<longrightarrow>
       r AND SECCOMP_RET_ACTION = SECCOMP_RET_KILL_THREAD)"
    (is "\<exists>r. ?ev r \<and> (?from r \<or> r = _ \<and> ?all) \<and> ?least r \<and> (?act r = _ \<longleftrightarrow> ?all) \<and> ?kill r")
proof -
  obtain r where r: "?ev r" "r = SECCOMP_RET_ALLOW \<or> ?from r" "?act r \<le> SECCOMP_RET_ALLOW"
    and le: "\<forall>p \<in> set chain. \<forall>v. bpf_run p (seccomp_to_bytes d) = Some v \<longrightarrow>
      ?act r \<le> v AND SECCOMP_RET_ACTION"
    using evaluate_chain_unsigned_least [OF assms(1), of chain d] by auto
  have allow: "SECCOMP_RET_ALLOW AND SECCOMP_RET_ACTION = SECCOMP_RET_ALLOW" by (simp add: kconsts)
  have least: "?least r" using le verified_runs assms(1) by metis
  have "?all" if a: "?act r = SECCOMP_RET_ALLOW"
  proof
    fix p assume p: "p \<in> set chain"
    then obtain v where v: "bpf_run p (seccomp_to_bytes d) = Some v"
      "SECCOMP_RET_ALLOW \<le> v AND SECCOMP_RET_ACTION"
      using bspec [OF least] unfolding a by blast
    then show "\<exists>v. bpf_run p (seccomp_to_bytes d) = Some v \<and>
        v AND SECCOMP_RET_ACTION = SECCOMP_RET_ALLOW"
      using order_antisym [OF assms(2) [OF p v(1)] v(2)] by blast
  qed
  moreover have "?act r = SECCOMP_RET_ALLOW" if "?all"
    using r(2) that allow by (elim disjE) (simp_all only:, fastforce)
  moreover have "?kill r" using le by (force simp: word_le_0_iff)
  ultimately show ?thesis
    using r least allow by (intro exI [of _ r]) (simp only:, blast)
qed

definition errno_filter :: bpf_program where
  "errno_filter = \<lparr>bp_insns = [\<lparr>sf_code = 0x06, sf_jt = 0, sf_jf = 0, sf_k = 0x00050001\<rparr>]\<rparr>"

definition allow_filter :: bpf_program where
  "allow_filter = \<lparr>bp_insns = [\<lparr>sf_code = 0x06, sf_jt = 0, sf_jf = 0, sf_k = 0x7fff0000\<rparr>]\<rparr>"

lemma demo_filters_run:
  "bpf_run errno_filter bs = Some 0x00050001" "bpf_run allow_filter bs = Some 0x7fff0000"
  by (simp_all add: bpf_run_def errno_filter_def allow_filter_def bpf_run_from.simps bpf_init_def
      bpf_step_def kconsts)

lemma demo_filters_verified: "verified errno_filter" "verified allow_filter"
  by (simp_all add: verified_def errno_filter_def allow_filter_def verify_def verify_insn_def
      kconsts)

definition demo_data :: seccomp_data where
  "demo_data = \<lparr>sd_nr = 2, sd_arch = AUDIT_ARCH_X86_64, sd_instruction_pointer = 0x401000,
     sd_args = [0, 0, 0, 0, 0, 0]\<rparr>"

theorem evaluate_chain_least_action_witness:
  "evaluate_chain [allow_filter, errno_filter] demo_data = Some 0x00050001"
proof -
  have v: "verified prog" if "prog \<in> set [allow_filter, errno_filter]" for prog
    using that demo_filters_verified by auto
  have le: "v AND SECCOMP_RET_ACTION \<le> SECCOMP_RET_ALLOW"
    if "prog \<in> set [allow_filter, errno_filter]"
      "bpf_run prog (seccomp_to_bytes demo_data) = Some v" for prog v
    using that by (auto simp: demo_filters_run kconsts)
  show ?thesis
    by (rule exE [OF evaluate_chain_least_action [of "[allow_filter, errno_filter]" demo_data]],
        erule v, erule (1) le) (auto simp: demo_filters_run)
qed

section \<open>Installed filters\<close>

text \<open>Every filter any process carries was accepted by the verifier.\<close>

definition filters_verified :: "sec_state \<Rightarrow> bool" where
  "filters_verified s \<longleftrightarrow> (\<forall>q p. ss_procs s q = Some p \<longrightarrow>
     (\<forall>prog \<in> set (sc_seccomp_filters (sp_security p)). verified prog))"

definition filters_kept :: "sec_state \<Rightarrow> sec_state \<Rightarrow> bool" where
  "filters_kept s s' \<longleftrightarrow> (\<forall>q p. ss_procs s q = Some p \<longrightarrow>
     (\<exists>p' added. ss_procs s' q = Some p' \<and>
        sc_seccomp_filters (sp_security p') = sc_seccomp_filters (sp_security p) @ added))"

lemma append_filter_kept:
  assumes "ss_procs s = ss_procs s0"
  shows "filters_kept s0 (seccomp_append_filter prog s)"
    and "filters_kept s0 (seccomp_append_filter_tgid prog s)"
  using assms
  by (auto simp: filters_kept_def seccomp_append_filter_def seccomp_append_filter_tgid_def
      with_security_mut_def add_seccomp_filter_def Let_def)

lemma add_filter_verified:
  "\<forall>x \<in> set (sc_seccomp_filters (sp_security p)). verified x \<Longrightarrow> verified prog \<Longrightarrow>
   \<forall>x \<in> set (sc_seccomp_filters (sp_security
       (with_security_mut (add_seccomp_filter prog) p))). verified x"
  by (auto simp: with_security_mut_def add_seccomp_filter_def)

lemma append_filter_verified:
  assumes "ss_procs s = ss_procs s0" "filters_verified s0" "verified prog"
  shows "filters_verified (seccomp_append_filter prog s)"
    and "filters_verified (seccomp_append_filter_tgid prog s)"
proof -
  have old: "\<forall>x \<in> set (sc_seccomp_filters (sp_security p)). verified x"
    if "ss_procs s q = Some p" for q p
    using that assms(1,2) by (simp add: filters_verified_def)
  show "filters_verified (seccomp_append_filter prog s)"
    unfolding filters_verified_def
  proof (intro allI impI)
    fix q p assume "ss_procs (seccomp_append_filter prog s) q = Some p"
    then obtain p0 where "ss_procs s q = Some p0"
        "p = p0 \<or> p = with_security_mut (add_seccomp_filter prog) p0"
      by (auto simp: seccomp_append_filter_def split: if_split_asm)
    then show "\<forall>x \<in> set (sc_seccomp_filters (sp_security p)). verified x"
      using old add_filter_verified assms(3) by blast
  qed
  show "filters_verified (seccomp_append_filter_tgid prog s)"
    unfolding filters_verified_def
  proof (intro allI impI)
    fix q p assume "ss_procs (seccomp_append_filter_tgid prog s) q = Some p"
    then obtain p0 where "ss_procs s q = Some p0"
        "p = p0 \<or> p = with_security_mut (add_seccomp_filter prog) p0"
      by (auto simp: seccomp_append_filter_tgid_def Let_def split: if_split_asm)
    then show "\<forall>x \<in> set (sc_seccomp_filters (sp_security p)). verified x"
      using old add_filter_verified assms(3) by blast
  qed
qed

definition filters_step :: "sec_state \<Rightarrow> sec_state \<Rightarrow> bool" where
  "filters_step s s' \<longleftrightarrow> filters_kept s s' \<and> (filters_verified s \<longrightarrow> filters_verified s')"

lemma filters_step_same: "ss_procs s' = ss_procs s \<Longrightarrow> filters_step s s'"
  by (simp add: filters_step_def filters_kept_def filters_verified_def)

lemma filters_step_append:
  assumes "ss_procs s1 = ss_procs s" "verified prog"
  shows "filters_step s (seccomp_append_filter prog s1)"
    and "filters_step s (seccomp_append_filter_tgid prog s1)"
  using append_filter_kept [OF assms(1)] append_filter_verified [OF assms(1) _ assms(2)]
  unfolding filters_step_def by blast+

lemmas filters_stepI = filters_step_same filters_step_append

lemma seccomp_set_strict_step: "seccomp_set_strict s = Some (r, s') \<Longrightarrow> filters_step s s'"
  by (auto simp: seccomp_set_strict_def filters_stepI verify_verified
      split: sum.splits option.splits bool.splits)

lemma seccomp_set_filter_step:
  "seccomp_set_filter hook flags args s = Some (r, s') \<Longrightarrow> filters_step s s'"
  by (auto simp: seccomp_set_filter_def Let_def filters_stepI verify_verified
      split: sum.splits option.splits bool.splits prod.splits if_splits)

lemma sys_seccomp_step: "sys_seccomp hook opn flags args s = Some (r, s') \<Longrightarrow> filters_step s s'"
  by (auto simp: sys_seccomp_def seccomp_action_avail_def filters_stepI
      dest: seccomp_set_strict_step seccomp_set_filter_step
      split: if_splits prod.splits option.splits)

lemma apply_seccomp_total:
  assumes "filters_verified s"
  shows "\<exists>out. apply_seccomp s tf = Some out"
proof -
  have "\<exists>r. evaluate_for_syscall s tf = Some r"
  proof (cases "ss_procs s (ss_current s)")
    case (Some p)
    then have "verified prog" if "prog \<in> set (sc_seccomp_filters (sp_security p))" for prog
      using assms that by (auto simp: filters_verified_def)
    with Some show ?thesis
      using evaluate_from_least [of "sc_seccomp_filters (sp_security p)"
          "seccomp_to_bytes (seccomp_data_of tf)" SECCOMP_RET_ALLOW] verified_runs
      by (auto simp: evaluate_for_syscall_def current_seccomp_chain_def evaluate_chain_def)
  qed (simp add: evaluate_for_syscall_def current_seccomp_chain_def)
  then show ?thesis by (auto simp: apply_seccomp_def)
qed

text \<open>C8: the seccomp system call, with any arguments and any user memory, only ever appends
  filters, keeps the invariant that every installed filter passed the verifier, and the check at
  the entry of every later system call returns: no filter user space installs can panic the
  kernel.\<close>

theorem sys_seccomp_keeps_filters:
  assumes "filters_verified s" and "sys_seccomp hook opn flags args s = Some (r, s')"
  shows "filters_verified s' \<and> filters_kept s s' \<and> (\<exists>out. apply_seccomp s' tf = Some out)"
  using sys_seccomp_step [OF assms(2)] assms(1) apply_seccomp_total
  by (simp add: filters_step_def)

definition demo_sec_state :: sec_state where
  "demo_sec_state = \<lparr>ss_current = Pid 1,
     ss_procs = [Pid 1 \<mapsto> \<lparr>sp_tgid = Pid 1, sp_creds = creds_root,
       sp_security = set_no_new_privs security_new\<rparr>],
     ss_mem = \<lparr>um_byte = \<lambda>_. 0, um_flags = \<lambda>_. None\<rparr>\<rparr>"

definition strict_prog :: bpf_program where
  "strict_prog = \<lparr>bp_insns = strict_mode_program\<rparr>"

lemma strict_verified: "verify strict_mode_program SECCOMP_DATA_SIZE = Inr strict_prog"
  by (simp add: strict_prog_def strict_mode_program_def verify_def verify_insn_def
      abs_load_size_def saturating_add_def kconsts)

theorem sys_seccomp_keeps_filters_witness:
  "\<exists>s'. sys_seccomp None 0 0 0 demo_sec_state = Some (0, s')
    \<and> current_seccomp_chain s' = Some [strict_prog] \<and> filters_verified s'"
proof -
  let ?s = "seccomp_append_filter strict_prog demo_sec_state"
  have inv: "filters_verified demo_sec_state"
    by (simp add: filters_verified_def demo_sec_state_def set_no_new_privs_def security_new_def)
  have ok: "sys_seccomp None 0 0 0 demo_sec_state = Some (0, ?s)"
    by (simp add: sys_seccomp_def seccomp_set_strict_def strict_verified may_install_filter_def
        current_no_new_privs_def demo_sec_state_def set_no_new_privs_def)
  have "current_seccomp_chain ?s = Some [strict_prog]"
    by (simp add: current_seccomp_chain_def seccomp_append_filter_def demo_sec_state_def
        with_security_mut_def add_seccomp_filter_def set_no_new_privs_def security_new_def)
  then show ?thesis
    using ok sys_seccomp_keeps_filters [OF inv ok] by blast
qed

section \<open>Strict mode\<close>

lemma strict_run:
  "bpf_run strict_prog (seccomp_to_bytes d) =
     Some (if sd_nr d \<in> {0, 1, 15, 60, 231} then SECCOMP_RET_ALLOW else SECCOMP_RET_KILL_PROCESS)"
proof -
  have nr: "read_packet (seccomp_to_bytes d) 0 BPF_W = sd_nr d"
    by (simp add: read_packet_def seccomp_to_bytes_def slice_def kconsts)
  show ?thesis
    by (simp add: bpf_run_def strict_prog_def strict_mode_program_def bpf_run_from.simps
        bpf_init_def bpf_step_defs operand_def jump_taken_def nr kconsts)
qed

text \<open>strict mode does not restrict anything. The program it installs returns
  kill-process for every system call but five, yet a chain consisting of it evaluates to allow
  for every system call, because kill-process is the numerically largest action; the check at
  system call entry then lets the call proceed.\<close>

lemma strict_mode_allows_everything:
  "(\<forall>d. sd_nr d \<notin> {0, 1, 15, 60, 231} \<longrightarrow>
      bpf_run strict_prog (seccomp_to_bytes d) = Some SECCOMP_RET_KILL_PROCESS)
   \<and> evaluate_chain [strict_prog] d = Some SECCOMP_RET_ALLOW
   \<and> (\<forall>s s'. current_seccomp_chain s = Some [] \<longrightarrow> seccomp_set_strict s = Some (0, s') \<longrightarrow>
        apply_seccomp s' tf = Some Proceed)"
proof -
  have ev: "evaluate_chain [strict_prog] d = Some SECCOMP_RET_ALLOW" for d
    by (simp add: evaluate_chain_def strict_run)
  have "apply_seccomp s' tf = Some Proceed"
    if "current_seccomp_chain s = Some []" "seccomp_set_strict s = Some (0, s')" for s s'
  proof -
    have "s' = seccomp_append_filter strict_prog s"
      using that(2)
      by (auto simp: seccomp_set_strict_def strict_verified errno_values
          split: option.splits bool.splits)
    then have "current_seccomp_chain s' = Some [strict_prog]"
      using that(1)
      by (auto simp: current_seccomp_chain_def seccomp_append_filter_def
          with_security_mut_def add_seccomp_filter_def)
    then have "evaluate_for_syscall s' tf = Some SECCOMP_RET_ALLOW"
      by (simp add: evaluate_for_syscall_def ev)
    then show ?thesis by (simp add: apply_seccomp_def kconsts)
  qed
  then show ?thesis using ev strict_run by auto
qed

lemma strict_mode_allows_everything_witness:
  "\<exists>s'. seccomp_set_strict demo_sec_state = Some (0, s')
    \<and> bpf_run strict_prog (seccomp_to_bytes demo_data) = Some SECCOMP_RET_KILL_PROCESS
    \<and> apply_seccomp s' (trap_frame.make 2 0 0 0 0 0 0 0 0 0 0 0 0 0 0 0 2 0 0) = Some Proceed"
proof -
  let ?s = "seccomp_append_filter strict_prog demo_sec_state"
  let ?tf = "trap_frame.make 2 0 0 0 0 0 0 0 0 0 0 0 0 0 0 0 2 0 0"
  have ok: "seccomp_set_strict demo_sec_state = Some (0, ?s)"
    by (simp add: seccomp_set_strict_def strict_verified may_install_filter_def
        current_no_new_privs_def demo_sec_state_def set_no_new_privs_def)
  have "current_seccomp_chain demo_sec_state = Some []" "sd_nr demo_data \<notin> {0, 1, 15, 60, 231}"
    by (simp_all add: current_seccomp_chain_def demo_sec_state_def set_no_new_privs_def
        security_new_def demo_data_def)
  then show ?thesis
    using ok strict_mode_allows_everything [of demo_data ?tf] by blast
qed

end
