(* ===== verification/Ordered_Map.thy ===== *)
theory Ordered_Map
  imports Prelude "HOL-Library.Product_Lexorder"
begin

text \<open>
  \<open>BTreeMap\<close> of the Rust standard library as the source uses it: an association list with
  strictly increasing keys, iterated in key order.
\<close>

type_synonym ('k, 'v) omap = "('k \<times> 'v) list"

definition om_wf :: "('k::linorder, 'v) omap \<Rightarrow> bool" where
  "om_wf m \<longleftrightarrow> sorted_wrt (<) (map fst m)"

fun om_insert :: "'k::linorder \<Rightarrow> 'v \<Rightarrow> ('k, 'v) omap \<Rightarrow> ('k, 'v) omap" where
  "om_insert k v [] = [(k, v)]"
| "om_insert k v ((k', v') # m) =
     (if k < k' then (k, v) # (k', v') # m
      else if k = k' then (k, v) # m
      else (k', v') # om_insert k v m)"

definition om_remove :: "'k \<Rightarrow> ('k, 'v) omap \<Rightarrow> ('k, 'v) omap" where
  "om_remove k m = filter (\<lambda>e. fst e \<noteq> k) m"

fun om_pop_first :: "('k, 'v) omap \<Rightarrow> ('k \<times> 'v) option \<times> ('k, 'v) omap" where
  "om_pop_first [] = (None, [])"
| "om_pop_first (e # m) = (Some e, m)"

text \<open>\<open>iter().find_map\<close>: the first key with a property.\<close>

definition om_find_key :: "('k \<Rightarrow> bool) \<Rightarrow> ('k, 'v) omap \<Rightarrow> 'k option" where
  "om_find_key P m = find P (map fst m)"

lemma om_wf_Nil [simp]: "om_wf []"
  by (simp add: om_wf_def)

lemma om_wf_Cons [simp]: "om_wf (e # m) \<longleftrightarrow> (\<forall>e' \<in> set m. fst e < fst e') \<and> om_wf m"
  by (auto simp: om_wf_def)

lemma om_wf_distinct: "om_wf m \<Longrightarrow> distinct (map fst m)"
  by (induction m) auto

lemma set_om_insert:
  "om_wf m \<Longrightarrow> set (om_insert k v m) = insert (k, v) {e \<in> set m. fst e \<noteq> k}"
  by (induction k v m rule: om_insert.induct) auto

lemma om_wf_insert [simp]: "om_wf m \<Longrightarrow> om_wf (om_insert k v m)"
  by (induction k v m rule: om_insert.induct) (auto simp: set_om_insert)

lemma map_of_om_insert: "om_wf m \<Longrightarrow> map_of (om_insert k v m) = (map_of m)(k \<mapsto> v)"
proof (induction k v m rule: om_insert.induct)
  case (2 k v k' v' m)
  have "map_of m k = None" if "k < k'" "\<forall>e' \<in> set m. k' < fst e'"
    using that by (force simp: map_of_eq_None_iff)
  then show ?case using 2 by (auto simp: fun_eq_iff)
qed simp

lemma om_wf_remove [simp]: "om_wf m \<Longrightarrow> om_wf (om_remove k m)"
  by (simp add: om_wf_def om_remove_def sorted_wrt_filter sorted_wrt_map)

lemma set_om_remove: "set (om_remove k m) = {e \<in> set m. fst e \<noteq> k}"
  by (auto simp: om_remove_def)

lemma map_of_om_remove: "map_of (om_remove k m) = (map_of m)(k := None)"
  by (induction m) (auto simp: om_remove_def fun_eq_iff)

lemma om_remove_absent: "k \<notin> fst ` set m \<Longrightarrow> om_remove k m = m"
  by (induction m) (auto simp: om_remove_def)

lemma om_insert_absent_mset:
  "k \<notin> fst ` set m \<Longrightarrow> \<exists>xs ys. m = xs @ ys \<and> om_insert k v m = xs @ (k, v) # ys"
proof (induction k v m rule: om_insert.induct)
  case (2 k v k' v' m)
  show ?case
  proof (cases "k < k'")
    case True
    then show ?thesis by (intro exI [of _ "[]"] exI [of _ "(k', v') # m"]) simp
  next
    case False
    with 2 obtain xs ys where "m = xs @ ys" "om_insert k v m = xs @ (k, v) # ys" by auto
    with False 2(2) show ?thesis
      by (intro exI [of _ "(k', v') # xs"] exI [of _ ys]) auto
  qed
qed simp

lemma om_remove_present:
  assumes "om_wf m" "(k, v) \<in> set m"
  shows "\<exists>xs ys. m = xs @ (k, v) # ys \<and> om_remove k m = xs @ ys"
proof -
  from assms(2) obtain xs ys where m: "m = xs @ (k, v) # ys" by (metis split_list)
  have "distinct (map fst m)" by (rule om_wf_distinct [OF assms(1)])
  then have "k \<notin> fst ` set xs" "k \<notin> fst ` set ys" by (auto simp: m)
  then have "om_remove k m = xs @ ys"
    by (simp add: m om_remove_absent [unfolded om_remove_def] om_remove_def)
  with m show ?thesis by blast
qed

lemma om_find_key_Some:
  "om_find_key P m = Some k \<Longrightarrow> P k \<and> (\<exists>v. (k, v) \<in> set m)"
  unfolding om_find_key_def by (drule find_SomeD) auto

lemma om_find_key_None: "om_find_key P m = None \<longleftrightarrow> (\<forall>e \<in> set m. \<not> P (fst e))"
  by (auto simp: om_find_key_def find_None_iff)

text \<open>The first entry has the least key.\<close>

definition om_least :: "('k::linorder, 'v) omap \<Rightarrow> 'k \<Rightarrow> bool" where
  "om_least m k \<longleftrightarrow> k \<in> fst ` set m \<and> (\<forall>k' \<in> fst ` set m. k \<le> k')"

lemma om_least_first: "om_wf (e # m) \<Longrightarrow> om_least (e # m) (fst e)"
  by (auto simp: om_least_def intro: less_imp_le)

end
