(* ===== verification/Runqueue.thy ===== *)
theory Runqueue
  imports Kapi Ordered_Map "HOL-Library.Multiset"
begin

text \<open>
  The per-CPU run queues (\<open>kernel/src/core/runqueue.rs\<close>, \<open>sched_params.rs\<close>): fair tasks
  ordered by virtual runtime, 99 real-time bands served first in first out, and deadline tasks
  ordered by absolute deadline. Counters of \<open>usize\<close> are natural numbers; a subtraction below
  zero, which panics, is \<open>None\<close>.
\<close>

section \<open>Scheduling classes\<close>

datatype sched_class =
    Cfs
  | Rt (rt_priority: u8) (rt_round_robin: bool)
  | Deadline (dl_runtime_ns: u64) (dl_deadline_ns: u64) (dl_period_ns: u64)

abbreviation NICE_0_LOAD :: u64 where "NICE_0_LOAD \<equiv> 1024"

definition PRIO_TO_WEIGHT :: "u64 list" where
  "PRIO_TO_WEIGHT = [88761, 71755, 56483, 46273, 36291, 29154, 23254, 18705, 14949, 11916, 9548,
     7620, 6100, 4904, 3906, 3121, 2501, 1991, 1586, 1277, 1024, 820, 655, 526, 423, 335, 272,
     215, 172, 137, 110, 87, 70, 56, 45, 36, 29, 23, 18, 15]"

text \<open>\<open>(nice as i32 + 20) as usize\<close> of a negative sum is huge, hence out of the table.\<close>

definition nice_to_weight :: "int \<Rightarrow> u64" where
  "nice_to_weight nice =
     (if 0 \<le> nice + 20 \<and> nat (nice + 20) < length PRIO_TO_WEIGHT
      then PRIO_TO_WEIGHT ! nat (nice + 20) else NICE_0_LOAD)"

abbreviation SCHED_LATENCY_NS :: u64 where "SCHED_LATENCY_NS \<equiv> 24000000"
abbreviation SCHED_MIN_GRANULARITY_NS :: u64 where "SCHED_MIN_GRANULARITY_NS \<equiv> 3000000"
abbreviation SCHED_WAKEUP_VRUNTIME_THRESH_NS :: u64
  where "SCHED_WAKEUP_VRUNTIME_THRESH_NS \<equiv> SCHED_LATENCY_NS div 2"
abbreviation RT_PRIO_COUNT :: nat where "RT_PRIO_COUNT \<equiv> 99"
abbreviation RT_PRIO_MIN :: u8 where "RT_PRIO_MIN \<equiv> 1"
abbreviation RT_PRIO_MAX :: u8 where "RT_PRIO_MAX \<equiv> 99"
abbreviation DL_BW_SCALE :: u64 where "DL_BW_SCALE \<equiv> 1000000"
abbreviation DL_BW_MAX :: u64 where "DL_BW_MAX \<equiv> 950000"

datatype cfs_place = PlaceNew | PlaceWake | PlaceContinuing

record enqueue_data =
  ed_class :: sched_class
  ed_vruntime :: u64
  ed_weight :: u64
  ed_dl_deadline :: u64

record run_queues =
  rq_cfs :: "(u64 \<times> u32, u64) omap"
  rq_cfs_min_vruntime :: u64
  rq_cfs_load :: u64
  rq_rt :: "pid list list"
  rq_rt_count :: nat
  rq_deadline :: "(u64 \<times> u32, unit) omap"
  rq_dl_total_bw :: u64

definition rq_new :: run_queues where
  "rq_new = \<lparr>rq_cfs = [], rq_cfs_min_vruntime = 0, rq_cfs_load = 0,
     rq_rt = replicate RT_PRIO_COUNT [], rq_rt_count = 0, rq_deadline = [], rq_dl_total_bw = 0\<rparr>"

section \<open>Operations\<close>

definition cfs_placement :: "run_queues \<Rightarrow> u64 \<Rightarrow> cfs_place \<Rightarrow> u64" where
  "cfs_placement q vruntime kind =
     (case kind of
        PlaceNew \<Rightarrow> max vruntime (rq_cfs_min_vruntime q)
      | PlaceWake \<Rightarrow>
          max vruntime (saturating_sub (rq_cfs_min_vruntime q) SCHED_WAKEUP_VRUNTIME_THRESH_NS)
      | PlaceContinuing \<Rightarrow> vruntime)"

definition raise_min_vruntime :: "run_queues \<Rightarrow> run_queues" where
  "raise_min_vruntime q =
     (case rq_cfs q of
        [] \<Rightarrow> q
      | ((left, _), _) # _ \<Rightarrow>
          if rq_cfs_min_vruntime q < left then q\<lparr>rq_cfs_min_vruntime := left\<rparr> else q)"

definition enqueue_cfs ::
  "pid \<Rightarrow> u64 \<Rightarrow> u64 \<Rightarrow> cfs_place \<Rightarrow> run_queues \<Rightarrow> u64 \<times> run_queues" where
  "enqueue_cfs pid vruntime weight kind q =
     (let placed = cfs_placement q vruntime kind;
          prev = map_of (rq_cfs q) (placed, pid_raw pid);
          q1 = q\<lparr>rq_cfs := om_insert (placed, pid_raw pid) weight (rq_cfs q)\<rparr>;
          q2 = q1\<lparr>rq_cfs_load := saturating_sub (saturating_add (rq_cfs_load q1) weight)
                   (case prev of None \<Rightarrow> 0 | Some w \<Rightarrow> w)\<rparr>
      in (placed, raise_min_vruntime q2))"

definition cfs_slice_for :: "run_queues \<Rightarrow> u64 \<Rightarrow> u64" where
  "cfs_slice_for q weight =
     (let total = saturating_add (rq_cfs_load q) weight in
      if total = 0 then SCHED_LATENCY_NS
      else max (saturating_mul SCHED_LATENCY_NS weight div total) SCHED_MIN_GRANULARITY_NS)"

definition rt_band :: "u8 \<Rightarrow> nat" where
  "rt_band priority = unat (max RT_PRIO_MIN (min RT_PRIO_MAX priority)) - 1"

definition enqueue_rt :: "pid \<Rightarrow> u8 \<Rightarrow> run_queues \<Rightarrow> run_queues" where
  "enqueue_rt pid priority q =
     q\<lparr>rq_rt := (rq_rt q)[rt_band priority := rq_rt q ! rt_band priority @ [pid]],
       rq_rt_count := rq_rt_count q + 1\<rparr>"

definition rt_top_priority :: "run_queues \<Rightarrow> u8 option" where
  "rt_top_priority q =
     (if rq_rt_count q = 0 then None
      else map_option (\<lambda>i. of_nat (i + 1))
             (find (\<lambda>i. rq_rt q ! i \<noteq> []) (rev [0..<length (rq_rt q)])))"

definition enqueue_deadline :: "pid \<Rightarrow> u64 \<Rightarrow> run_queues \<Rightarrow> run_queues" where
  "enqueue_deadline pid absolute_deadline q =
     q\<lparr>rq_deadline := om_insert (absolute_deadline, pid_raw pid) () (rq_deadline q)\<rparr>"

abbreviation dl_bw :: "u64 \<Rightarrow> u64 \<Rightarrow> u64" where
  "dl_bw runtime_ns period_ns \<equiv> saturating_mul runtime_ns DL_BW_SCALE div period_ns"

definition admit_dl_bandwidth :: "u64 \<Rightarrow> u64 \<Rightarrow> run_queues \<Rightarrow> bool \<times> run_queues" where
  "admit_dl_bandwidth runtime_ns period_ns q =
     (if period_ns = 0 \<or> period_ns < runtime_ns then (False, q)
      else
        (let bw = dl_bw runtime_ns period_ns in
         if DL_BW_MAX < saturating_add (rq_dl_total_bw q) bw then (False, q)
         else (True, q\<lparr>rq_dl_total_bw := saturating_add (rq_dl_total_bw q) bw\<rparr>)))"

definition release_dl_bandwidth :: "u64 \<Rightarrow> u64 \<Rightarrow> run_queues \<Rightarrow> run_queues" where
  "release_dl_bandwidth runtime_ns period_ns q =
     (if period_ns = 0 then q
      else q\<lparr>rq_dl_total_bw := saturating_sub (rq_dl_total_bw q) (dl_bw runtime_ns period_ns)\<rparr>)"

definition rq_enqueue ::
  "pid \<Rightarrow> enqueue_data \<Rightarrow> cfs_place \<Rightarrow> run_queues \<Rightarrow> u64 \<times> run_queues" where
  "rq_enqueue pid data kind q =
     (case ed_class data of
        Cfs \<Rightarrow> enqueue_cfs pid (ed_vruntime data) (ed_weight data) kind q
      | Rt priority _ \<Rightarrow> (ed_vruntime data, enqueue_rt pid priority q)
      | Deadline _ _ _ \<Rightarrow> (ed_vruntime data, enqueue_deadline pid (ed_dl_deadline data) q))"

text \<open>The scan of the real-time bands from the highest priority down.\<close>

definition pick_rt :: "run_queues \<Rightarrow> (pid \<times> run_queues) option" where
  "pick_rt q =
     (if rq_rt_count q = 0 then None
      else case find (\<lambda>i. rq_rt q ! i \<noteq> []) (rev [0..<length (rq_rt q)]) of
        None \<Rightarrow> None
      | Some i \<Rightarrow>
          Some (hd (rq_rt q ! i),
            q\<lparr>rq_rt := (rq_rt q)[i := tl (rq_rt q ! i)], rq_rt_count := rq_rt_count q - 1\<rparr>))"

definition pick_cfs :: "run_queues \<Rightarrow> pid option \<times> run_queues" where
  "pick_cfs q =
     (case om_pop_first (rq_cfs q) of
        (None, _) \<Rightarrow> (None, q)
      | (Some ((vr, raw), w), rest) \<Rightarrow>
          (let q1 = q\<lparr>rq_cfs := rest, rq_cfs_load := saturating_sub (rq_cfs_load q) w\<rparr>;
               q2 = (case rest of
                       [] \<Rightarrow> q1\<lparr>rq_cfs_min_vruntime := max (rq_cfs_min_vruntime q1) vr\<rparr>
                     | _ # _ \<Rightarrow> raise_min_vruntime q1)
           in (Some (Pid raw), q2)))"

definition pick_next :: "bool \<Rightarrow> run_queues \<Rightarrow> pid option \<times> run_queues" where
  "pick_next rt_ok q =
     (if rt_ok then
        (case om_pop_first (rq_deadline q) of
           (Some ((_, raw), _), rest) \<Rightarrow> (Some (Pid raw), q\<lparr>rq_deadline := rest\<rparr>)
         | (None, _) \<Rightarrow>
             (case pick_rt q of
                Some (p, q') \<Rightarrow> (Some p, q')
              | None \<Rightarrow> pick_cfs q))
      else pick_cfs q)"

definition rq_is_empty :: "run_queues \<Rightarrow> bool" where
  "rq_is_empty q \<longleftrightarrow> rq_rt_count q = 0 \<and> rq_deadline q = [] \<and> rq_cfs q = []"

definition contains_pid :: "pid \<Rightarrow> run_queues \<Rightarrow> bool" where
  "contains_pid target q \<longleftrightarrow>
     (if \<exists>e \<in> set (rq_cfs q). snd (fst e) = pid_raw target then True
      else if \<exists>e \<in> set (rq_deadline q). snd (fst e) = pid_raw target then True
      else if 0 < rq_rt_count q then \<exists>band \<in> set (rq_rt q). target \<in> set band
      else False)"

definition remove_pid :: "pid \<Rightarrow> run_queues \<Rightarrow> ((nat \<times> nat \<times> nat) \<times> run_queues) option" where
  "remove_pid target q =
     (let bands = map (filter (\<lambda>p. p \<noteq> target)) (rq_rt q);
          rt_removed = sum_list (map length (rq_rt q)) - sum_list (map length bands)
      in if rq_rt_count q < rt_removed then None
      else
        (let q1 = q\<lparr>rq_rt := bands, rq_rt_count := rq_rt_count q - rt_removed\<rparr>;
             (dl_removed, q2) =
               (case om_find_key (\<lambda>k. snd k = pid_raw target) (rq_deadline q1) of
                  Some k \<Rightarrow> (1, q1\<lparr>rq_deadline := om_remove k (rq_deadline q1)\<rparr>)
                | None \<Rightarrow> (0, q1));
             (cfs_removed, q3) =
               (case om_find_key (\<lambda>k. snd k = pid_raw target) (rq_cfs q2) of
                  Some k \<Rightarrow>
                    (1, (case map_of (rq_cfs q2) k of
                           Some w \<Rightarrow> q2\<lparr>rq_cfs := om_remove k (rq_cfs q2),
                                       rq_cfs_load := saturating_sub (rq_cfs_load q2) w\<rparr>
                         | None \<Rightarrow> q2))
                | None \<Rightarrow> (0, q2))
         in Some ((rt_removed, dl_removed, cfs_removed), q3)))"

definition cfs_leftmost_vruntime :: "run_queues \<Rightarrow> u64" where
  "cfs_leftmost_vruntime q =
     (case rq_cfs q of [] \<Rightarrow> rq_cfs_min_vruntime q | ((v, _), _) # _ \<Rightarrow> v)"

section \<open>Well-formed queues\<close>

definition rq_wf :: "run_queues \<Rightarrow> bool" where
  "rq_wf q \<longleftrightarrow> om_wf (rq_cfs q) \<and> om_wf (rq_deadline q)
     \<and> length (rq_rt q) = RT_PRIO_COUNT
     \<and> rq_rt_count q = sum_list (map length (rq_rt q))
     \<and> rq_dl_total_bw q \<le> DL_BW_MAX"

text \<open>Everything queued, with multiplicity.\<close>

definition rq_pids :: "run_queues \<Rightarrow> pid multiset" where
  "rq_pids q = mset (map (\<lambda>e. Pid (snd (fst e))) (rq_cfs q))
     + mset (map (\<lambda>e. Pid (snd (fst e))) (rq_deadline q))
     + mset (concat (rq_rt q))"

section \<open>Bands\<close>

lemma rt_band_less: "rt_band p < RT_PRIO_COUNT"
proof -
  have "max RT_PRIO_MIN (min RT_PRIO_MAX p) \<le> RT_PRIO_MAX"
    by (simp add: kconsts)
  then have "unat (max RT_PRIO_MIN (min RT_PRIO_MAX p)) \<le> 99"
    by (simp add: word_le_nat_alt)
  then show ?thesis by (simp add: rt_band_def)
qed

lemma mset_concat_update:
  "i < length xs \<Longrightarrow> mset (concat (xs[i := ys])) + mset (xs ! i) = mset (concat xs) + mset ys"
proof (induction xs arbitrary: i)
  case (Cons x xs)
  show ?case
  proof (cases i)
    case (Suc j)
    with Cons.IH [of j] Cons.prems show ?thesis by (simp add: union_assoc add.commute add.left_commute)
  qed (simp add: union_commute union_assoc)
qed simp

lemma length_concat_sum: "sum_list (map length xs) = size (mset (concat xs))"
  by (simp add: length_concat)

lemma find_nonempty_band:
  assumes "List.find (\<lambda>i. bands ! i \<noteq> []) (rev [0..<length bands]) = Some i"
  shows "i < length bands \<and> bands ! i \<noteq> [] \<and> (\<forall>j < length bands. i < j \<longrightarrow> bands ! j = [])"
proof -
  let ?n = "length bands"
  from assms obtain k where k: "k < ?n" "i = rev [0..<?n] ! k" "bands ! i \<noteq> []"
      "\<forall>j < k. bands ! (rev [0..<?n] ! j) = []"
    by (auto simp: find_Some_iff)
  have r: "rev [0..<?n] ! j = ?n - Suc j" if "j < ?n" for j
    using that by (simp add: rev_nth)
  have "bands ! j = []" if "j < ?n" "i < j" for j
  proof -
    have "?n - Suc j < k" using that k r by simp
    moreover have "rev [0..<?n] ! (?n - Suc j) = j"
      using r [of "?n - Suc j"] that by simp
    ultimately show ?thesis using k(4) by metis
  qed
  with k r show ?thesis by auto
qed

lemma find_no_band:
  assumes "List.find (\<lambda>i. bands ! i \<noteq> []) (rev [0..<length bands]) = None"
  shows "concat bands = []"
proof -
  have "bands ! i = []" if "i < length bands" for i
    using assms that by (auto simp: find_None_iff)
  then show ?thesis by (auto simp: concat_eq_Nil_conv in_set_conv_nth)
qed

section \<open>The operations keep queues well formed and lose no task\<close>

lemma raise_min_vruntime_simps [simp]:
  "rq_cfs (raise_min_vruntime q) = rq_cfs q" "rq_cfs_load (raise_min_vruntime q) = rq_cfs_load q"
  "rq_rt (raise_min_vruntime q) = rq_rt q" "rq_rt_count (raise_min_vruntime q) = rq_rt_count q"
  "rq_deadline (raise_min_vruntime q) = rq_deadline q"
  "rq_dl_total_bw (raise_min_vruntime q) = rq_dl_total_bw q"
  by (auto simp: raise_min_vruntime_def split: list.split prod.split)

lemma raise_min_vruntime_mono: "rq_cfs_min_vruntime q \<le> rq_cfs_min_vruntime (raise_min_vruntime q)"
  by (auto simp: raise_min_vruntime_def split: list.split prod.split)

lemma rq_enqueue_wf: "rq_wf q \<Longrightarrow> rq_wf (snd (rq_enqueue p d k q))"
proof (cases "ed_class d")
  case (Rt pr rr)
  assume wf: "rq_wf q"
  let ?b = "rt_band pr"
  have "?b < length (rq_rt q)" using wf rt_band_less by (simp add: rq_wf_def)
  then have "size (mset (concat ((rq_rt q)[?b := rq_rt q ! ?b @ [p]])))
      = Suc (size (mset (concat (rq_rt q))))"
    using arg_cong [OF mset_concat_update [of ?b "rq_rt q" "rq_rt q ! ?b @ [p]"], of size]
    by simp
  with wf Rt show ?thesis
    by (simp add: rq_enqueue_def enqueue_rt_def rq_wf_def length_concat_sum)
qed (simp_all add: rq_enqueue_def enqueue_cfs_def enqueue_deadline_def rq_wf_def Let_def)

lemma mset_om_insert_absent:
  assumes "k \<notin> fst ` set m"
  shows "mset (om_insert k v m) = add_mset (k, v) (mset m)"
  using om_insert_absent_mset [OF assms, of v] by auto

lemma rq_enqueue_pids:
  assumes "rq_wf q" "p \<notin># rq_pids q"
  shows "rq_pids (snd (rq_enqueue p d k q)) = add_mset p (rq_pids q)"
proof -
  have cfs: "(v, pid_raw p) \<notin> fst ` set (rq_cfs q)" and dl: "(v, pid_raw p) \<notin> fst ` set (rq_deadline q)"
    for v using assms(2) by (force simp: rq_pids_def)+
  show ?thesis
  proof (cases "ed_class d")
    case Cfs
    then show ?thesis
      by (simp add: rq_enqueue_def enqueue_cfs_def Let_def rq_pids_def mset_om_insert_absent [OF cfs])
  next
    case (Rt pr rr)
    let ?b = "rt_band pr"
    have "?b < length (rq_rt q)" using assms(1) rt_band_less by (simp add: rq_wf_def)
    then have "mset (concat ((rq_rt q)[?b := rq_rt q ! ?b @ [p]]))
        = add_mset p (mset (concat (rq_rt q)))"
      using mset_concat_update [of ?b "rq_rt q" "rq_rt q ! ?b @ [p]"] by simp
    with Rt show ?thesis by (simp add: rq_enqueue_def enqueue_rt_def rq_pids_def)
  next
    case (Deadline r dd pe)
    then show ?thesis
      by (simp add: rq_enqueue_def enqueue_deadline_def rq_pids_def mset_om_insert_absent [OF dl])
  qed
qed

lemma pick_cfs_cases:
  assumes "pick_cfs q = (r, q')"
  shows "(r = None \<and> rq_cfs q = [] \<and> q' = q) \<or>
    (\<exists>vr raw w rest. r = Some (Pid raw) \<and> rq_cfs q = ((vr, raw), w) # rest
      \<and> rq_cfs q' = rest \<and> rq_deadline q' = rq_deadline q \<and> rq_rt q' = rq_rt q
      \<and> rq_rt_count q' = rq_rt_count q \<and> rq_dl_total_bw q' = rq_dl_total_bw q
      \<and> rq_cfs_load q' = saturating_sub (rq_cfs_load q) w
      \<and> rq_cfs_min_vruntime q \<le> rq_cfs_min_vruntime q')"
  using assms
proof (cases "rq_cfs q")
  case (Cons e rest)
  obtain vr raw w where e: "e = ((vr, raw), w)" by (metis prod.exhaust)
  let ?q1 = "q\<lparr>rq_cfs := rest, rq_cfs_load := saturating_sub (rq_cfs_load q) w\<rparr>"
  have "rq_cfs_min_vruntime q \<le> rq_cfs_min_vruntime (raise_min_vruntime ?q1)"
    using raise_min_vruntime_mono [of ?q1] by simp
  then show ?thesis
    using assms Cons e by (cases rest) (auto simp: pick_cfs_def Let_def)
qed (auto simp: pick_cfs_def)

lemma pick_rt_Some:
  assumes "pick_rt q = Some (p, q')"
  shows "\<exists>i rest. i < length (rq_rt q) \<and> rq_rt q ! i = p # rest
    \<and> (\<forall>j < length (rq_rt q). i < j \<longrightarrow> rq_rt q ! j = []) \<and> 0 < rq_rt_count q
    \<and> q' = q\<lparr>rq_rt := (rq_rt q)[i := rest], rq_rt_count := rq_rt_count q - 1\<rparr>"
proof -
  from assms obtain i where f: "List.find (\<lambda>i. rq_rt q ! i \<noteq> []) (rev [0..<length (rq_rt q)]) = Some i"
      and p: "p = hd (rq_rt q ! i)"
      "q' = q\<lparr>rq_rt := (rq_rt q)[i := tl (rq_rt q ! i)], rq_rt_count := rq_rt_count q - 1\<rparr>"
      and pos: "0 < rq_rt_count q"
    by (auto simp: pick_rt_def split: if_splits option.splits)
  from find_nonempty_band [OF f] p pos show ?thesis
    by (intro exI [of _ i] exI [of _ "tl (rq_rt q ! i)"]) auto
qed

lemma pick_rt_None: "rq_wf q \<Longrightarrow> pick_rt q = None \<Longrightarrow> rq_rt_count q = 0 \<and> concat (rq_rt q) = []"
  using find_no_band [of "rq_rt q"]
  by (auto simp: pick_rt_def rq_wf_def split: if_splits option.splits)

lemma pick_rt_pids:
  assumes "rq_wf q" "pick_rt q = Some (p, q')"
  shows "rq_wf q'" and "rq_pids q = add_mset p (rq_pids q')"
proof -
  from pick_rt_Some [OF assms(2)] obtain i rest where i: "i < length (rq_rt q)"
      "rq_rt q ! i = p # rest"
      "q' = q\<lparr>rq_rt := (rq_rt q)[i := rest], rq_rt_count := rq_rt_count q - 1\<rparr>" by blast
  have m: "mset (concat (rq_rt q)) = add_mset p (mset (concat ((rq_rt q)[i := rest])))"
    using mset_concat_update [OF i(1), of rest] i(2) by simp
  then show "rq_pids q = add_mset p (rq_pids q')" by (simp add: rq_pids_def i(3))
  have "size (mset (concat (rq_rt q))) = Suc (size (mset (concat ((rq_rt q)[i := rest]))))"
    using m by simp
  then show "rq_wf q'" using assms(1) by (simp add: rq_wf_def i(3) length_concat_sum)
qed

lemma pick_cfs_pids:
  assumes "rq_wf q" "pick_cfs q = (r, q')"
  shows "rq_wf q'" and "rq_pids q = (case r of None \<Rightarrow> {#} | Some p \<Rightarrow> {#p#}) + rq_pids q'"
  using pick_cfs_cases [OF assms(2)] assms(1) by (auto simp: rq_wf_def rq_pids_def)

lemma pick_next_pids:
  assumes "rq_wf q" "pick_next rt_ok q = (r, q')"
  shows "rq_wf q'" and "rq_pids q = (case r of None \<Rightarrow> {#} | Some p \<Rightarrow> {#p#}) + rq_pids q'"
proof -
  have "rq_wf q' \<and> rq_pids q = (case r of None \<Rightarrow> {#} | Some p \<Rightarrow> {#p#}) + rq_pids q'"
  proof (cases "rt_ok \<and> rq_deadline q \<noteq> []")
    case True
    then obtain dl raw rest where "rq_deadline q = ((dl, raw), ()) # rest"
      by (metis neq_Nil_conv old.unit.exhaust surj_pair)
    with True assms show ?thesis by (auto simp: pick_next_def rq_wf_def rq_pids_def)
  next
    case False
    then show ?thesis
      using assms pick_rt_pids [OF assms(1)] pick_cfs_pids [OF assms(1)]
      by (auto simp: pick_next_def split: if_splits option.splits)
  qed
  then show "rq_wf q'" and "rq_pids q = (case r of None \<Rightarrow> {#} | Some p \<Rightarrow> {#p#}) + rq_pids q'"
    by blast+
qed

lemma rq_is_empty_iff: "rq_wf q \<Longrightarrow> rq_is_empty q \<longleftrightarrow> rq_pids q = {#}"
  by (auto simp: rq_is_empty_def rq_wf_def rq_pids_def)

text \<open>Picking loses and invents nothing. The task picked, when there is one, is exactly
  what leaves the queues; the queues stay well formed; and a pick that may serve every class
  returns nothing only when the queues are empty.\<close>

lemma pick_next_conserves:
  assumes "rq_wf q" and "pick_next rt_ok q = (r, q')"
  shows "rq_wf q' \<and> rq_pids q = (case r of None \<Rightarrow> {#} | Some p \<Rightarrow> {#p#}) + rq_pids q'
    \<and> (rt_ok \<longrightarrow> (r = None \<longleftrightarrow> rq_is_empty q))"
proof -
  have "rq_is_empty q" if "r = None" "rt_ok"
  proof -
    have "rq_deadline q = []" using that assms(2)
      by (cases "rq_deadline q") (auto simp: pick_next_def)
    moreover then have "pick_rt q = None" "pick_cfs q = (None, q')"
      using that assms(2) by (auto simp: pick_next_def split: option.splits)
    ultimately show ?thesis
      using pick_rt_None [OF assms(1)] pick_cfs_cases [of q None q'] by (auto simp: rq_is_empty_def)
  qed
  moreover have "r = None" if "rq_is_empty q"
    using that pick_next_pids [OF assms] rq_is_empty_iff [OF assms(1)] by (cases r) auto
  ultimately show ?thesis using pick_next_pids [OF assms] by blast
qed

text \<open>A queue with a fair task, two real-time tasks and a deadline task.\<close>

definition demo_rq :: run_queues where
  "demo_rq = rq_new\<lparr>rq_cfs := [((10, 3), 1024)], rq_cfs_load := 1024,
     rq_rt := (replicate 99 [])[4 := [Pid 7, Pid 8]], rq_rt_count := 2,
     rq_deadline := [((500, 9), ())]\<rparr>"

lemma sum_length_replicate [simp]: "sum_list (map length (replicate n [])) = 0"
  by (induction n) auto

lemma demo_rq_wf: "rq_wf demo_rq"
proof -
  have "size (mset (concat ((replicate 99 [])[4 := [Pid 7, Pid 8]]))) = 2"
    using arg_cong [OF mset_concat_update [of 4 "replicate 99 []" "[Pid 7, Pid 8]"], of size] by simp
  then have "sum_list (map length ((replicate 99 [])[4 := [Pid 7, Pid 8]])) = 2"
    by (simp only: length_concat_sum)
  then show ?thesis by (simp add: rq_wf_def demo_rq_def rq_new_def kconsts)
qed

lemma pick_next_conserves_witness:
  "fst (pick_next True demo_rq) = Some (Pid 9)
   \<and> rq_pids demo_rq = {#Pid 9#} + rq_pids (snd (pick_next True demo_rq))"
proof -
  have p: "pick_next True demo_rq = (Some (Pid 9), demo_rq\<lparr>rq_deadline := []\<rparr>)"
    by (simp add: pick_next_def demo_rq_def)
  from pick_next_conserves [OF demo_rq_wf p] show ?thesis by (simp add: p)
qed

section \<open>Which task is picked\<close>

text \<open>C9: the order of service. With real-time service allowed, the deadline task with the
  earliest deadline goes first; without one, the head of the highest non-empty real-time band;
  otherwise the fair task with the least virtual runtime. Ties go to the smaller pid.\<close>

theorem pick_next_order:
  assumes "rq_wf q" and "pick_next rt_ok q = (Some p, q')"
  shows "(rt_ok \<and> (\<exists>dl. om_least (rq_deadline q) (dl, pid_raw p)))
    \<or> (rt_ok \<and> rq_deadline q = [] \<and> (\<exists>i rest. i < RT_PRIO_COUNT \<and> rq_rt q ! i = p # rest
            \<and> (\<forall>j < RT_PRIO_COUNT. i < j \<longrightarrow> rq_rt q ! j = [])))
    \<or> ((rt_ok \<longrightarrow> rq_deadline q = [] \<and> concat (rq_rt q) = [])
          \<and> (\<exists>vr. om_least (rq_cfs q) (vr, pid_raw p)))"
proof -
  have cfs: ?thesis if "pick_cfs q = (Some p, q')"
      "rt_ok \<longrightarrow> rq_deadline q = [] \<and> concat (rq_rt q) = []"
  proof -
    from pick_cfs_cases [OF that(1)] obtain vr w rest where
      c: "rq_cfs q = ((vr, pid_raw p), w) # rest" by auto
    then have "om_least (rq_cfs q) (vr, pid_raw p)"
      using om_least_first [of "((vr, pid_raw p), w)" rest] assms(1) by (simp add: rq_wf_def)
    with that(2) show ?thesis by blast
  qed
  show ?thesis
  proof (cases "rt_ok")
    case False
    then show ?thesis using assms(2) cfs by (simp add: pick_next_def)
  next
    case rt: True
    show ?thesis
    proof (cases "rq_deadline q")
      case (Cons e rest)
      then obtain dl raw where e: "e = ((dl, raw), ())" by (metis old.unit.exhaust surj_pair)
      with Cons assms(2) rt have p: "p = Pid raw" by (simp add: pick_next_def)
      have "om_least (rq_deadline q) (dl, raw)"
        using om_least_first [of e rest] Cons e assms(1) by (simp add: rq_wf_def)
      then show ?thesis using rt p by auto
    next
      case Nil
      show ?thesis
      proof (cases "pick_rt q")
        case None
        then show ?thesis
          using Nil rt assms(2) cfs pick_rt_None [OF assms(1) None] by (simp add: pick_next_def)
      next
        case (Some pq)
        then have "pick_rt q = Some (p, q')"
          using Nil rt assms(2) by (auto simp: pick_next_def split: prod.splits)
        from pick_rt_Some [OF this] show ?thesis using Nil rt assms(1) by (auto simp: rq_wf_def)
      qed
    qed
  qed
qed

theorem pick_next_order_witness:
  "fst (pick_next True (demo_rq\<lparr>rq_deadline := []\<rparr>)) = Some (Pid 7)
   \<and> rq_rt demo_rq ! 4 = [Pid 7, Pid 8]"
proof -
  have wf: "rq_wf (demo_rq\<lparr>rq_deadline := []\<rparr>)"
    using demo_rq_wf by (simp add: rq_wf_def)
  obtain r q' where p: "pick_next True (demo_rq\<lparr>rq_deadline := []\<rparr>) = (r, q')" by fastforce
  have cat: "mset (concat (rq_rt demo_rq)) = {#Pid 7, Pid 8#}"
    using mset_concat_update [of 4 "replicate 99 []" "[Pid 7, Pid 8]"]
    by (simp add: demo_rq_def add_mset_commute)
  then have ne: "concat (rq_rt demo_rq) \<noteq> []"
    by (metis empty_not_add_mset mset.simps(1))
  have "pick_rt (demo_rq\<lparr>rq_deadline := []\<rparr>) \<noteq> None"
    using pick_rt_None [OF wf] ne by fastforce
  then obtain t where r: "r = Some t"
    using p by (auto simp: pick_next_def split: option.splits)
  have rt: "rq_rt demo_rq ! i = (if i = 4 then [Pid 7, Pid 8] else [])" if "i < 99" for i
    using that by (simp add: demo_rq_def nth_list_update)
  from pick_next_order [OF wf p [unfolded r]] ne rt have "t = Pid 7"
    by (auto simp: om_least_def split: if_splits)
  then show ?thesis using p r rt by simp
qed

section \<open>Enqueue and remove\<close>

lemma mset_om_remove:
  assumes "om_wf m" "(k, v) \<in> set m"
  shows "mset m = add_mset (k, v) (mset (om_remove k m))"
  using om_remove_present [OF assms] by auto

lemma filter_bands: "mset (concat (map (filter P) bands)) = filter_mset P (mset (concat bands))"
  by (induction bands) simp_all

lemma filter_mset_one:
  "count M p \<le> 1 \<Longrightarrow> M = add_mset p N \<Longrightarrow> filter_mset (\<lambda>x. x \<noteq> p) M = N"
  by (auto simp: filter_mset_eq_conv not_in_iff [symmetric] Suc_le_eq)

lemma remove_pid_total:
  assumes "rq_wf q"
  obtains r q' where "remove_pid p q = Some (r, q')" "rq_wf q'"
    "rq_rt q' = map (filter (\<lambda>x. x \<noteq> p)) (rq_rt q)"
    "rq_deadline q' = (case om_find_key (\<lambda>k. snd k = pid_raw p) (rq_deadline q) of
       Some k \<Rightarrow> om_remove k (rq_deadline q) | None \<Rightarrow> rq_deadline q)"
    "rq_cfs q' = (case om_find_key (\<lambda>k. snd k = pid_raw p) (rq_cfs q) of
       Some k \<Rightarrow> om_remove k (rq_cfs q) | None \<Rightarrow> rq_cfs q)"
proof -
  let ?b = "map (filter (\<lambda>x. x \<noteq> p)) (rq_rt q)"
  let ?dl = "case om_find_key (\<lambda>k. snd k = pid_raw p) (rq_deadline q) of
     Some k \<Rightarrow> om_remove k (rq_deadline q) | None \<Rightarrow> rq_deadline q"
  let ?cfs = "case om_find_key (\<lambda>k. snd k = pid_raw p) (rq_cfs q) of
     Some k \<Rightarrow> om_remove k (rq_cfs q) | None \<Rightarrow> rq_cfs q"
  have le: "sum_list (map length ?b) \<le> sum_list (map length (rq_rt q))"
    by (auto intro: sum_list_mono simp: comp_def)
  have some: "map_of (rq_cfs q) k \<noteq> None" if "om_find_key (\<lambda>k. snd k = pid_raw p) (rq_cfs q) = Some k" for k
    using om_find_key_Some [OF that] weak_map_of_SomeI by fastforce
  have "\<exists>r q'. remove_pid p q = Some (r, q') \<and> rq_rt q' = ?b \<and> rq_deadline q' = ?dl
      \<and> rq_cfs q' = ?cfs \<and> rq_dl_total_bw q' = rq_dl_total_bw q
      \<and> rq_rt_count q' = rq_rt_count q - (sum_list (map length (rq_rt q)) - sum_list (map length ?b))"
    using assms some unfolding rq_wf_def remove_pid_def
    by (auto simp: Let_def split: option.splits)
  then obtain r q' where *: "remove_pid p q = Some (r, q')" "rq_rt q' = ?b" "rq_deadline q' = ?dl"
      "rq_cfs q' = ?cfs" "rq_dl_total_bw q' = rq_dl_total_bw q"
      "rq_rt_count q' = rq_rt_count q - (sum_list (map length (rq_rt q)) - sum_list (map length ?b))"
    by blast
  have "rq_wf q'" using assms le unfolding rq_wf_def *
    by (auto split: option.split)
  with * show ?thesis using that by blast
qed

text \<open>on well-formed queues enqueue adds exactly the given task when it is not queued yet,
  and the entry stays there; removal never underflows its counters and, for a task queued at
  most once, removes that task and nothing else.\<close>

lemma enqueue_remove_exact:
  assumes "rq_wf q"
  shows "(p \<notin># rq_pids q \<longrightarrow>
            rq_wf (snd (rq_enqueue p d kind q))
            \<and> rq_pids (snd (rq_enqueue p d kind q)) = add_mset p (rq_pids q))
    \<and> (\<exists>r q'. remove_pid p q = Some (r, q') \<and> rq_wf q'
        \<and> (count (rq_pids q) p \<le> 1 \<longrightarrow> rq_pids q' = filter_mset (\<lambda>x. x \<noteq> p) (rq_pids q)))"
proof -
  obtain r q' where rm: "remove_pid p q = Some (r, q')" "rq_wf q'"
    "rq_rt q' = map (filter (\<lambda>x. x \<noteq> p)) (rq_rt q)"
    "rq_deadline q' = (case om_find_key (\<lambda>k. snd k = pid_raw p) (rq_deadline q) of
       Some k \<Rightarrow> om_remove k (rq_deadline q) | None \<Rightarrow> rq_deadline q)"
    "rq_cfs q' = (case om_find_key (\<lambda>k. snd k = pid_raw p) (rq_cfs q) of
       Some k \<Rightarrow> om_remove k (rq_cfs q) | None \<Rightarrow> rq_cfs q)"
    using remove_pid_total [OF assms] by metis
  have part: "mset (map (\<lambda>e. Pid (snd (fst e))) (case om_find_key (\<lambda>k. snd k = pid_raw p) m of
        Some k \<Rightarrow> om_remove k m | None \<Rightarrow> m))
      = filter_mset (\<lambda>x. x \<noteq> p) (mset (map (\<lambda>e. Pid (snd (fst e))) m))"
    if "om_wf m" "count (mset (map (\<lambda>e. Pid (snd (fst e))) m)) p \<le> 1"
    for m :: "(u64 \<times> u32, 'b) omap"
  proof (cases "om_find_key (\<lambda>k. snd k = pid_raw p) m")
    case None
    then have "p \<notin># mset (map (\<lambda>e. Pid (snd (fst e))) m)"
      by (auto simp: om_find_key_None)
    then have "filter_mset (\<lambda>x. x \<noteq> p) (mset (map (\<lambda>e. Pid (snd (fst e))) m))
        = mset (map (\<lambda>e. Pid (snd (fst e))) m)"
      unfolding filter_mset_eq_conv by auto
    then show ?thesis using None by simp
  next
    case (Some k)
    from om_find_key_Some [OF Some] obtain v where v: "(k, v) \<in> set m" "snd k = pid_raw p" by auto
    have "mset (map (\<lambda>e. Pid (snd (fst e))) m)
        = add_mset p (mset (map (\<lambda>e. Pid (snd (fst e))) (om_remove k m)))"
      using mset_om_remove [OF that(1) v(1)] v(2) by simp
    from filter_mset_one [OF that(2) this] Some show ?thesis by simp
  qed
  have "rq_pids q' = filter_mset (\<lambda>x. x \<noteq> p) (rq_pids q)" if "count (rq_pids q) p \<le> 1"
    using that part [of "rq_cfs q"] part [of "rq_deadline q"] assms
    by (simp add: rq_pids_def rm(3-5) filter_bands rq_wf_def del: mset_map)
  then show ?thesis using rm rq_enqueue_wf [OF assms] rq_enqueue_pids [OF assms] by blast
qed

lemma enqueue_remove_exact_witness:
  "Pid 5 \<notin># rq_pids demo_rq \<and>
   rq_pids (snd (rq_enqueue (Pid 5) \<lparr>ed_class = Rt 50 False, ed_vruntime = 0, ed_weight = 0,
      ed_dl_deadline = 0\<rparr> PlaceWake demo_rq)) = add_mset (Pid 5) (rq_pids demo_rq)"
proof -
  have "mset (concat (rq_rt demo_rq)) = {#Pid 7, Pid 8#}"
    using mset_concat_update [of 4 "replicate 99 []" "[Pid 7, Pid 8]"]
    by (simp add: demo_rq_def add_mset_commute)
  then have "Pid 5 \<notin># rq_pids demo_rq"
    by (simp only: rq_pids_def) (simp add: demo_rq_def)
  then show ?thesis using enqueue_remove_exact [OF demo_rq_wf] by blast
qed

section \<open>Histories of a queue\<close>

datatype rq_call =
    RqEnqueue pid enqueue_data cfs_place
  | RqPick bool
  | RqRemove pid
  | RqAdmit u64 u64
  | RqRelease u64 u64

fun rq_step :: "rq_call \<Rightarrow> run_queues \<Rightarrow> run_queues option" where
  "rq_step (RqEnqueue p d k) q = Some (snd (rq_enqueue p d k q))"
| "rq_step (RqPick rt_ok) q = Some (snd (pick_next rt_ok q))"
| "rq_step (RqRemove p) q = map_option snd (remove_pid p q)"
| "rq_step (RqAdmit r pe) q = Some (snd (admit_dl_bandwidth r pe q))"
| "rq_step (RqRelease r pe) q = Some (release_dl_bandwidth r pe q)"

fun rq_run :: "rq_call list \<Rightarrow> run_queues \<Rightarrow> run_queues option" where
  "rq_run [] q = Some q"
| "rq_run (c # cs) q = (case rq_step c q of None \<Rightarrow> None | Some q' \<Rightarrow> rq_run cs q')"

lemma rq_new_wf: "rq_wf rq_new"
  by (simp add: rq_wf_def rq_new_def kconsts)

lemma admit_wf: "rq_wf q \<Longrightarrow> rq_wf (snd (admit_dl_bandwidth r pe q))"
  by (auto simp: admit_dl_bandwidth_def rq_wf_def Let_def not_less)

lemma release_wf: "rq_wf q \<Longrightarrow> rq_wf (release_dl_bandwidth r pe q)"
proof -
  have "saturating_sub a b \<le> a" for a b :: u64
    by (simp add: word_le_nat_alt unat_saturating_sub)
  then show "rq_wf q \<Longrightarrow> rq_wf (release_dl_bandwidth r pe q)"
    by (auto simp: release_dl_bandwidth_def rq_wf_def intro: order_trans)
qed

lemma rq_step_wf: "rq_wf q \<Longrightarrow> \<exists>q'. rq_step c q = Some q' \<and> rq_wf q'"
proof (cases c)
  case (RqRemove p)
  assume "rq_wf q"
  with RqRemove show ?thesis using remove_pid_total [of q p] by (metis option.simps(9) rq_step.simps(3) snd_conv)
next
  case (RqPick rt_ok)
  assume "rq_wf q"
  with RqPick show ?thesis using pick_next_pids(1) [of q rt_ok] by (metis rq_step.simps(2) prod.collapse)
qed (auto simp: rq_enqueue_wf admit_wf release_wf)

lemma rq_run_wf: "rq_wf q \<Longrightarrow> \<exists>q'. rq_run cs q = Some q' \<and> rq_wf q'"
proof (induction cs arbitrary: q)
  case (Cons c cs)
  from rq_step_wf [OF Cons.prems] Cons.IH show ?case by (fastforce split: option.splits)
qed simp

text \<open>The load counter is the sum of the weights of the queued fair tasks, as long as the sum of
  the weights ever queued fits a word.\<close>

definition om_weight :: "('k, u64) omap \<Rightarrow> nat" where
  "om_weight m = (\<Sum>e\<leftarrow>m. unat (snd e))"

lemma om_weight_simps [simp]: "om_weight [] = 0" "om_weight (e # m) = unat (snd e) + om_weight m"
  by (simp_all add: om_weight_def)

lemma om_weight_insert:
  "om_wf m \<Longrightarrow> om_weight (om_insert k w m) + (case map_of m k of None \<Rightarrow> 0 | Some v \<Rightarrow> unat v)
     = om_weight m + unat w"
proof (induction k w m rule: om_insert.induct)
  case (2 k w k' v' m)
  have "map_of m k = None" if "k \<le> k'"
    using 2(2) that by (auto simp: map_of_eq_None_iff)
  then show ?case using 2 by (auto split: option.splits)
qed simp

lemma om_weight_remove:
  assumes "om_wf m" and "map_of m k = Some v"
  shows "om_weight (om_remove k m) + unat v = om_weight m"
proof -
  obtain xs ys where "m = xs @ (k, v) # ys" "om_remove k m = xs @ ys"
    using om_remove_present [OF assms(1) map_of_SomeD [OF assms(2)]] by blast
  then show ?thesis by (simp add: om_weight_def)
qed

definition call_weight :: "rq_call \<Rightarrow> nat" where
  "call_weight c = (case c of RqEnqueue p d k \<Rightarrow>
     (case ed_class d of Cfs \<Rightarrow> unat (ed_weight d) | _ \<Rightarrow> 0) | _ \<Rightarrow> 0)"

definition load_ok :: "run_queues \<Rightarrow> bool" where
  "load_ok q \<longleftrightarrow> unat (rq_cfs_load q) = om_weight (rq_cfs q)"

lemma load_enqueue_cfs:
  assumes "om_wf (rq_cfs q)" "load_ok q" "om_weight (rq_cfs q) + unat w < 2 ^ 64"
  shows "load_ok (snd (enqueue_cfs p v w k q))
    \<and> om_weight (rq_cfs (snd (enqueue_cfs p v w k q))) \<le> om_weight (rq_cfs q) + unat w"
proof -
  let ?k = "(cfs_placement q v k, pid_raw p)"
  note ins = om_weight_insert [OF assms(1), of ?k w]
  have add: "unat (saturating_add (rq_cfs_load q) w) = om_weight (rq_cfs q) + unat w"
    using assms(2,3) unfolding load_ok_def by (subst unat_saturating_add) (simp add: min_def)
  let ?q = "snd (enqueue_cfs p v w k q)" and ?prev = "map_of (rq_cfs q) ?k"
  have q: "rq_cfs ?q = om_insert ?k w (rq_cfs q)"
    "unat (rq_cfs_load ?q) = om_weight (rq_cfs q) + unat w - (case ?prev of None \<Rightarrow> 0 | Some v \<Rightarrow> unat v)"
    by (simp_all add: enqueue_cfs_def Let_def unat_saturating_sub add split: option.split)
  show ?thesis unfolding load_ok_def q using ins by linarith
qed

lemma load_pick_cfs:
  assumes "load_ok q"
  shows "load_ok (snd (pick_cfs q)) \<and> om_weight (rq_cfs (snd (pick_cfs q))) \<le> om_weight (rq_cfs q)"
proof -
  have "pick_cfs q = (fst (pick_cfs q), snd (pick_cfs q))" by simp
  from pick_cfs_cases [OF this] consider "snd (pick_cfs q) = q"
    | e w rest where "rq_cfs q = (e, w) # rest" "rq_cfs (snd (pick_cfs q)) = rest"
      "rq_cfs_load (snd (pick_cfs q)) = saturating_sub (rq_cfs_load q) w" by blast
  then show ?thesis
  proof cases
    case 2
    then show ?thesis using assms by (simp add: load_ok_def unat_saturating_sub)
  qed (simp add: assms)
qed

lemma load_pick_next:
  assumes "load_ok q"
  shows "load_ok (snd (pick_next rt_ok q)) \<and> om_weight (rq_cfs (snd (pick_next rt_ok q))) \<le> om_weight (rq_cfs q)"
proof (cases "rt_ok \<and> (rq_deadline q \<noteq> [] \<or> pick_rt q \<noteq> None)")
  case False
  then have "pick_next rt_ok q = pick_cfs q" by (cases "pick_rt q") (auto simp: pick_next_def)
  then show ?thesis using load_pick_cfs [OF assms] by simp
next
  case True
  have "rq_cfs (snd (pick_next rt_ok q)) = rq_cfs q \<and> rq_cfs_load (snd (pick_next rt_ok q)) = rq_cfs_load q"
  proof (cases "rq_deadline q")
    case Nil
    then obtain p q' where p: "pick_rt q = Some (p, q')" using True by auto
    then have "pick_next rt_ok q = (Some p, q')" using True Nil by (simp add: pick_next_def)
    then show ?thesis using pick_rt_Some [OF p] by (elim exE conjE) simp
  next
    case (Cons e rest)
    obtain k u where "e = (k, u)" by (cases e)
    then show ?thesis using True Cons by (cases k) (simp add: pick_next_def)
  qed
  then show ?thesis using assms by (simp add: load_ok_def)
qed

lemma load_remove:
  assumes "om_wf (rq_cfs q)" "load_ok q" "remove_pid p q = Some (r, q')"
  shows "load_ok q' \<and> om_weight (rq_cfs q') \<le> om_weight (rq_cfs q)"
proof (cases "om_find_key (\<lambda>k. snd k = pid_raw p) (rq_cfs q)")
  case None
  then show ?thesis using assms(2,3)
    by (auto simp: remove_pid_def Let_def load_ok_def split: if_splits option.splits)
next
  case (Some k)
  then obtain w where w: "map_of (rq_cfs q) k = Some w"
    using om_find_key_Some weak_map_of_SomeI by fastforce
  have "rq_cfs q' = om_remove k (rq_cfs q) \<and> rq_cfs_load q' = saturating_sub (rq_cfs_load q) w"
    using assms(3) Some w by (auto simp: remove_pid_def Let_def split: if_splits option.splits)
  then show ?thesis using om_weight_remove [OF assms(1) w] assms(2)
    by (auto simp: load_ok_def unat_saturating_sub)
qed

lemma load_step:
  assumes "rq_wf q" "load_ok q" "om_weight (rq_cfs q) + call_weight c < 2 ^ 64" "rq_step c q = Some q'"
  shows "load_ok q' \<and> om_weight (rq_cfs q') \<le> om_weight (rq_cfs q) + call_weight c"
proof -
  have wf: "om_wf (rq_cfs q)" using assms(1) by (simp add: rq_wf_def)
  show ?thesis
  proof (cases c)
    case (RqEnqueue p d k)
    show ?thesis
    proof (cases "ed_class d")
      case Cfs
      then show ?thesis
        using assms(3,4) RqEnqueue load_enqueue_cfs [OF wf assms(2)]
        by (auto simp: rq_enqueue_def call_weight_def)
    qed (use assms RqEnqueue in \<open>auto simp: rq_enqueue_def enqueue_rt_def enqueue_deadline_def
        load_ok_def call_weight_def\<close>)
  next
    case (RqPick rt_ok)
    then show ?thesis using assms(4) load_pick_next [OF assms(2), of rt_ok] by (auto simp: call_weight_def)
  next
    case (RqRemove p)
    then show ?thesis using assms(4) load_remove [OF wf assms(2)] by (auto simp: call_weight_def)
  qed (use assms in \<open>auto simp: admit_dl_bandwidth_def release_dl_bandwidth_def load_ok_def
      call_weight_def Let_def split: if_splits\<close>)
qed

lemma load_run:
  "rq_wf q \<Longrightarrow> load_ok q \<Longrightarrow> om_weight (rq_cfs q) + (\<Sum>c\<leftarrow>cs. call_weight c) < 2 ^ 64 \<Longrightarrow>
     rq_run cs q = Some q' \<Longrightarrow> load_ok q'"
proof (induction cs arbitrary: q)
  case (Cons c cs)
  obtain q1 where q1: "rq_step c q = Some q1" "rq_wf q1" using rq_step_wf [OF Cons.prems(1)] by blast
  have l: "load_ok q1 \<and> om_weight (rq_cfs q1) \<le> om_weight (rq_cfs q) + call_weight c"
    using load_step [OF Cons.prems(1,2) _ q1(1)] Cons.prems(3) by simp
  then have "om_weight (rq_cfs q1) + (\<Sum>c\<leftarrow>cs. call_weight c) < 2 ^ 64" using Cons.prems(3) by simp
  then show ?case using Cons.IH [OF q1(2)] l Cons.prems(4) q1(1) by simp
qed simp

text \<open>C10: whatever the sequence of calls on a fresh queue, no call panics and the queue stays well
  formed: keys in order, the real-time counter equal to the number of queued real-time tasks, the
  admitted deadline bandwidth at most 95 percent of the processor, so that admission control cannot
  be overrun, and the load equal to the sum of the weights of the queued fair tasks. The load is
  exact as long as the weights queued by the calls sum to less than \<open>2 ^ 64\<close>; a weight of the
  kernel's table is at most 88761.\<close>

theorem rq_reachable_wf:
  "\<exists>q. rq_run calls rq_new = Some q \<and> om_wf (rq_cfs q) \<and> om_wf (rq_deadline q)
     \<and> rq_rt_count q = size (mset (concat (rq_rt q))) \<and> rq_dl_total_bw q \<le> DL_BW_MAX
     \<and> ((\<Sum>c\<leftarrow>calls. call_weight c) < 2 ^ 64 \<longrightarrow>
          unat (rq_cfs_load q) = (\<Sum>e\<leftarrow>rq_cfs q. unat (snd e)))"
proof -
  obtain q where q: "rq_run calls rq_new = Some q" "rq_wf q"
    using rq_run_wf [OF rq_new_wf, of calls] by blast
  have "load_ok rq_new" by (simp add: load_ok_def rq_new_def)
  then have "load_ok q" if "(\<Sum>c\<leftarrow>calls. call_weight c) < 2 ^ 64"
    using load_run [OF rq_new_wf _ _ q(1)] that by (simp add: rq_new_def)
  then show ?thesis using q by (auto simp: rq_wf_def length_concat_sum load_ok_def om_weight_def)
qed

theorem rq_reachable_wf_witness:
  "let d = \<lparr>ed_class = Cfs, ed_vruntime = 5, ed_weight = 1024, ed_dl_deadline = 0\<rparr>;
       calls = [RqEnqueue (Pid 3) d PlaceNew, RqEnqueue (Pid 4) d PlaceNew, RqRemove (Pid 3)] in
     \<exists>q. rq_run calls rq_new = Some q \<and> unat (rq_cfs_load q) = (\<Sum>e\<leftarrow>rq_cfs q. unat (snd e))"
proof -
  let ?d = "\<lparr>ed_class = Cfs, ed_vruntime = 5, ed_weight = 1024, ed_dl_deadline = 0\<rparr>"
  let ?calls = "[RqEnqueue (Pid 3) ?d PlaceNew, RqEnqueue (Pid 4) ?d PlaceNew, RqRemove (Pid 3)]"
  have "(\<Sum>c\<leftarrow>?calls. call_weight c) < 2 ^ 64" by (simp add: call_weight_def)
  with rq_reachable_wf [of ?calls] show ?thesis unfolding Let_def by blast
qed

section \<open>Time slices\<close>

lemma unat_div_mono: "x \<le> y \<Longrightarrow> x div d \<le> y div (d :: u64)"
  by (simp add: word_le_nat_alt unat_div div_le_mono)

text \<open>The time slice of a fair task lies between the minimum granularity of 3 ms and the
  scheduling latency of 24 ms, whatever the load and the weight.\<close>

lemma cfs_slice_bounds:
  "SCHED_MIN_GRANULARITY_NS \<le> cfs_slice_for q w \<and> cfs_slice_for q w \<le> SCHED_LATENCY_NS"
proof -
  let ?t = "saturating_add (rq_cfs_load q) w"
  have "saturating_mul SCHED_LATENCY_NS w div ?t \<le> SCHED_LATENCY_NS" if "?t \<noteq> 0"
  proof -
    have "unat w \<le> unat ?t" using unat_u64_less [of w] by (simp add: unat_saturating_add)
    then have "unat SCHED_LATENCY_NS * unat w \<le> unat SCHED_LATENCY_NS * unat ?t"
      by (rule mult_le_mono2)
    moreover have "unat (saturating_mul SCHED_LATENCY_NS w) \<le> unat SCHED_LATENCY_NS * unat w"
      unfolding unat_saturating_mul by (rule min.cobounded1)
    ultimately have "unat (saturating_mul SCHED_LATENCY_NS w) div unat ?t
        \<le> unat SCHED_LATENCY_NS * unat ?t div unat ?t"
      by (intro div_le_mono) (rule order_trans)
    also have "\<dots> = unat SCHED_LATENCY_NS"
      using that by (simp add: unat_eq_0)
    finally have "unat (saturating_mul SCHED_LATENCY_NS w) div unat ?t \<le> unat SCHED_LATENCY_NS" .
    then show ?thesis by (simp add: word_le_nat_alt unat_div)
  qed
  then show ?thesis by (simp add: cfs_slice_for_def Let_def)
qed

end
