(* ===== verification/Sched_State.thy ===== *)
theory Sched_State
  imports Kapi
begin

text \<open>
  The process life-cycle automaton (\<open>kernel/src/sched_state.rs\<close>): the state of a process,
  the owner of its scheduling context, and the transitions the kernel asserts.
\<close>

datatype sched_owner =
    OwnNone
  | OwnRunning (own_cpu: u32)
  | OwnRunnable (own_cpu: u32)
  | OwnParked (own_waitq: u64)
  | OwnStopped
  | OwnTraced
  | OwnZombie
  | OwnReaping

datatype process_state =
    StRunnable
  | StRunning
  | StParked
  | StZombie int
  | StKilledByFault u8 u64 u64
  | StStopped
  | StDlThrottled
  | StCgroupThrottled
  | StTraced
  | StKilledBySignal u32

fun sched_owner_transition_ok :: "sched_owner \<Rightarrow> sched_owner \<Rightarrow> bool" where
  "sched_owner_transition_ok OwnNone (OwnRunnable _) = True"
| "sched_owner_transition_ok OwnNone (OwnRunning _) = True"
| "sched_owner_transition_ok (OwnRunnable a) (OwnRunning b) = (a = b)"
| "sched_owner_transition_ok (OwnRunning a) (OwnRunnable b) = (a = b)"
| "sched_owner_transition_ok (OwnRunning _) (OwnParked _) = True"
| "sched_owner_transition_ok (OwnParked _) (OwnRunnable _) = True"
| "sched_owner_transition_ok (OwnParked _) (OwnRunning _) = True"
| "sched_owner_transition_ok (OwnRunnable _) (OwnRunnable _) = True"
| "sched_owner_transition_ok (OwnRunning _) OwnStopped = True"
| "sched_owner_transition_ok (OwnRunning _) OwnTraced = True"
| "sched_owner_transition_ok OwnStopped (OwnRunnable _) = True"
| "sched_owner_transition_ok OwnTraced (OwnRunnable _) = True"
| "sched_owner_transition_ok (OwnRunning _) OwnZombie = True"
| "sched_owner_transition_ok (OwnRunnable _) OwnZombie = True"
| "sched_owner_transition_ok (OwnParked _) OwnZombie = True"
| "sched_owner_transition_ok OwnStopped OwnZombie = True"
| "sched_owner_transition_ok OwnTraced OwnZombie = True"
| "sched_owner_transition_ok OwnZombie OwnReaping = True"
| "sched_owner_transition_ok OwnReaping OwnNone = True"
| "sched_owner_transition_ok a b = (a = b)"

fun state_is_terminal :: "process_state \<Rightarrow> bool" where
  "state_is_terminal (StZombie _) = True"
| "state_is_terminal (StKilledByFault _ _ _) = True"
| "state_is_terminal (StKilledBySignal _) = True"
| "state_is_terminal _ = False"

definition state_transition_ok :: "process_state \<Rightarrow> process_state \<Rightarrow> bool" where
  "state_transition_ok cur new \<longleftrightarrow>
     (if state_is_terminal new then True
      else if state_is_terminal cur then False
      else (case (cur, new) of
          (StRunning, StRunnable) \<Rightarrow> True
        | (StRunnable, StRunning) \<Rightarrow> True
        | (StRunning, StParked) \<Rightarrow> True
        | (StParked, StRunnable) \<Rightarrow> True
        | (StRunning, StStopped) \<Rightarrow> True
        | (StStopped, StRunnable) \<Rightarrow> True
        | (StRunning, StTraced) \<Rightarrow> True
        | (StStopped, StTraced) \<Rightarrow> True
        | (StTraced, StRunnable) \<Rightarrow> True
        | (StRunning, StCgroupThrottled) \<Rightarrow> True
        | (StRunnable, StCgroupThrottled) \<Rightarrow> True
        | (StCgroupThrottled, StRunnable) \<Rightarrow> True
        | (StRunning, StDlThrottled) \<Rightarrow> True
        | (StDlThrottled, StRunnable) \<Rightarrow> True
        | (a, b) \<Rightarrow> a = b))"

fun owner_is_dead :: "sched_owner \<Rightarrow> bool" where
  "owner_is_dead OwnZombie = True"
| "owner_is_dead OwnReaping = True"
| "owner_is_dead _ = False"

definition state_owner_consistent :: "process_state \<Rightarrow> sched_owner \<Rightarrow> bool" where
  "state_owner_consistent state owner \<longleftrightarrow>
     (if state_is_terminal state then True
      else if owner_is_dead owner then True
      else (case (state, owner) of
          (StRunnable, OwnRunnable _) \<Rightarrow> True
        | (StRunnable, OwnNone) \<Rightarrow> True
        | (StRunning, OwnRunning _) \<Rightarrow> True
        | (StRunning, OwnRunnable _) \<Rightarrow> True
        | (StRunnable, OwnRunning _) \<Rightarrow> True
        | (StParked, OwnParked _) \<Rightarrow> True
        | (StStopped, OwnStopped) \<Rightarrow> True
        | (StTraced, OwnTraced) \<Rightarrow> True
        | (StDlThrottled, OwnParked _) \<Rightarrow> True
        | (StDlThrottled, OwnRunning _) \<Rightarrow> True
        | (StDlThrottled, OwnRunnable _) \<Rightarrow> True
        | (StCgroupThrottled, OwnParked _) \<Rightarrow> True
        | (StCgroupThrottled, OwnRunning _) \<Rightarrow> True
        | (StCgroupThrottled, OwnRunnable _) \<Rightarrow> True
        | (StParked, OwnRunning _) \<Rightarrow> True
        | (StStopped, OwnRunning _) \<Rightarrow> True
        | (StTraced, OwnRunning _) \<Rightarrow> True
        | (StRunnable, OwnParked _) \<Rightarrow> True
        | (StRunnable, OwnStopped) \<Rightarrow> True
        | (StRunnable, OwnTraced) \<Rightarrow> True
        | (StTraced, OwnStopped) \<Rightarrow> True
        | _ \<Rightarrow> False))"

section \<open>Histories\<close>

text \<open>A history of state changes, each one allowed.\<close>

inductive state_reach :: "process_state \<Rightarrow> process_state \<Rightarrow> bool" where
  state_reach_refl: "state_reach s s"
| state_reach_step: "state_reach s t \<Longrightarrow> state_transition_ok t u \<Longrightarrow> state_reach s u"

inductive owner_reach :: "sched_owner \<Rightarrow> sched_owner \<Rightarrow> bool" where
  owner_reach_refl: "owner_reach a a"
| owner_reach_step: "owner_reach a b \<Longrightarrow> sched_owner_transition_ok b c \<Longrightarrow> owner_reach a c"

lemma state_terminal_absorbing:
  "state_reach s t \<Longrightarrow> state_is_terminal s \<Longrightarrow> state_is_terminal t"
  by (induction rule: state_reach.induct) (auto simp: state_transition_ok_def split: if_splits)

text \<open>A dead owner can only go on to be reaped and then to be unowned.\<close>

lemma owner_from_zombie:
  "owner_reach OwnZombie c \<Longrightarrow> owner_is_dead c \<or> owner_reach OwnNone c"
proof (induction OwnZombie c rule: owner_reach.induct)
  case (owner_reach_step b c)
  then show ?case
    by (cases b; cases c) (auto intro: owner_reach.intros)
qed simp

end
