(* ===== verification/Timeout.thy ===== *)
theory Timeout
  imports Kapi
begin

text \<open>
  The two deadline tables of \<open>kernel/src/core/timeout.rs\<close>: pids to wake and callbacks to run,
  both kept in order of deadline. \<open>binary_search_by_key\<close> may return any of several equal
  keys, so the search is an argument \<open>bs\<close> and \<open>bsearch_ok\<close> is what its documentation
  promises on sorted input.
\<close>

section \<open>Insertion by binary search\<close>

type_synonym bsearch = "u64 list \<Rightarrow> u64 \<Rightarrow> nat"

definition bsearch_ok :: "bsearch \<Rightarrow> bool" where
  "bsearch_ok bs \<longleftrightarrow> (\<forall>ks k. sorted ks \<longrightarrow> bs ks k \<le> length ks
     \<and> (\<forall>i < bs ks k. ks ! i \<le> k) \<and> (\<forall>i < length ks. bs ks k \<le> i \<longrightarrow> k \<le> ks ! i))"

definition insert_at :: "nat \<Rightarrow> 'a \<Rightarrow> 'a list \<Rightarrow> 'a list" where
  "insert_at i x xs = take i xs @ x # drop i xs"

definition lower_bound :: bsearch where
  "lower_bound ks k = length (takeWhile (\<lambda>x. x < k) ks)"

lemma set_insert_at: "set (insert_at i x xs) = insert x (set xs)"
proof -
  have "set xs = set (take i xs) \<union> set (drop i xs)"
    by (metis append_take_drop_id set_append)
  then show ?thesis by (auto simp: insert_at_def)
qed

lemma sorted_insert_at:
  assumes "sorted ks" "\<forall>i < p. ks ! i \<le> k" "\<forall>i < length ks. p \<le> i \<longrightarrow> k \<le> ks ! i" "p \<le> length ks"
  shows "sorted (insert_at p k ks)"
proof -
  have "x \<le> k" if "x \<in> set (take p ks)" for x
    using that assms(2,4) by (auto simp: in_set_conv_nth)
  moreover have "k \<le> x" if "x \<in> set (drop p ks)" for x
    using that assms(3) by (auto simp: in_set_conv_nth)
  moreover have "sorted (take p ks)" "sorted (drop p ks)"
    using assms(1) by (simp_all add: sorted_wrt_take sorted_wrt_drop)
  ultimately show ?thesis
    by (auto simp: insert_at_def sorted_append intro: order_trans)
qed

lemma map_insert_at: "map f (insert_at i x xs) = insert_at i (f x) (map f xs)"
  by (simp add: insert_at_def take_map drop_map)

lemma lower_bound_ok: "bsearch_ok lower_bound"
  unfolding bsearch_ok_def
proof (intro allI impI conjI)
  fix ks :: "u64 list" and k i
  assume s: "sorted ks"
  let ?n = "length (takeWhile (\<lambda>x. x < k) ks)"
  show "lower_bound ks k \<le> length ks"
    by (simp add: lower_bound_def length_takeWhile_le)
  show "ks ! i \<le> k" if "i < lower_bound ks k"
    using that nth_mem [of i "takeWhile (\<lambda>x. x < k) ks"]
    by (auto simp: lower_bound_def takeWhile_nth dest: set_takeWhileD)
  show "k \<le> ks ! i" if "i < length ks" "lower_bound ks k \<le> i"
  proof -
    have "?n < length ks" using that by (simp add: lower_bound_def)
    then have "\<not> ks ! ?n < k" by (rule nth_length_takeWhile)
    moreover have "ks ! ?n \<le> ks ! i"
      using s that by (intro sorted_nth_mono) (simp_all add: lower_bound_def)
    ultimately show ?thesis by simp
  qed
qed

section \<open>Pids to wake\<close>

type_synonym deadlines = "(u64 \<times> pid) list"

definition timeout_register :: "bsearch \<Rightarrow> u64 \<Rightarrow> pid \<Rightarrow> deadlines \<Rightarrow> deadlines" where
  "timeout_register bs deadline_nanos p g =
     (let g1 = filter (\<lambda>e. snd e \<noteq> p) g;
          pos = bs (map fst g1) deadline_nanos
      in insert_at pos (deadline_nanos, p) g1)"

definition timeout_unregister :: "pid \<Rightarrow> deadlines \<Rightarrow> bool \<times> deadlines" where
  "timeout_unregister p g =
     (let g1 = filter (\<lambda>e. snd e \<noteq> p) g in (length g1 \<noteq> length g, g1))"

definition next_deadline_ns :: "deadlines \<Rightarrow> u64 option" where
  "next_deadline_ns g = (case g of [] \<Rightarrow> None | (d, _) # _ \<Rightarrow> Some d)"

text \<open>The draining loop of \<open>wake_expired\<close>; the caller then wakes the pids in order.\<close>

fun take_expired :: "u64 \<Rightarrow> deadlines \<Rightarrow> pid list \<times> deadlines" where
  "take_expired now [] = ([], [])"
| "take_expired now ((d, p) # g) =
     (if now < d then ([], (d, p) # g)
      else case take_expired now g of (out, g') \<Rightarrow> (p # out, g'))"

definition timeout_drop_pid :: "pid \<Rightarrow> deadlines \<Rightarrow> deadlines" where
  "timeout_drop_pid p g = filter (\<lambda>e. snd e \<noteq> p) g"

section \<open>Callbacks\<close>

text \<open>The callback functions the kernel registers, by name.\<close>

datatype callback_fn = DlReplenish | OtherCallback nat

record callback_entry =
  cb_deadline :: u64
  cb_key :: u64
  cb_callback :: callback_fn

definition register_callback ::
  "bsearch \<Rightarrow> u64 \<Rightarrow> u64 \<Rightarrow> callback_fn \<Rightarrow> callback_entry list \<Rightarrow> callback_entry list" where
  "register_callback bs deadline_nanos key callback g =
     (let g1 = filter (\<lambda>e. cb_key e \<noteq> key) g;
          pos = bs (map cb_deadline g1) deadline_nanos
      in insert_at pos \<lparr>cb_deadline = deadline_nanos, cb_key = key, cb_callback = callback\<rparr> g1)"

definition cancel_callback :: "u64 \<Rightarrow> callback_entry list \<Rightarrow> callback_entry list" where
  "cancel_callback key g = filter (\<lambda>e. cb_key e \<noteq> key) g"

fun take_expired_callbacks ::
  "u64 \<Rightarrow> callback_entry list \<Rightarrow> callback_entry list \<times> callback_entry list" where
  "take_expired_callbacks now [] = ([], [])"
| "take_expired_callbacks now (e # g) =
     (if now < cb_deadline e then ([], e # g)
      else case take_expired_callbacks now g of (out, g') \<Rightarrow> (e # out, g'))"

section \<open>What a deadline table promises\<close>

text \<open>\<open>view\<close> lists the deadlines with their keys. A table is well formed when it is in order
  of deadline and has a key at most once.\<close>

locale deadline_table =
  fixes view :: "'t \<Rightarrow> (u64 \<times> 'k) list"
    and reg :: "u64 \<Rightarrow> 'k \<Rightarrow> 't \<Rightarrow> 't"
    and unreg :: "'k \<Rightarrow> 't \<Rightarrow> 't"
    and expire :: "u64 \<Rightarrow> 't \<Rightarrow> (u64 \<times> 'k) list \<times> 't"
  assumes reg_set: "sorted (map fst (view t)) \<Longrightarrow>
      set (view (reg d k t)) = insert (d, k) {e \<in> set (view t). snd e \<noteq> k}"
    and reg_sorted: "sorted (map fst (view t)) \<Longrightarrow> sorted (map fst (view (reg d k t)))"
    and reg_keys: "sorted (map fst (view t)) \<Longrightarrow> distinct (map snd (view t)) \<Longrightarrow>
      distinct (map snd (view (reg d k t)))"
    and unreg_view: "view (unreg k t) = filter (\<lambda>e. snd e \<noteq> k) (view t)"
    and expire_view: "view t = fst (expire now t) @ view (snd (expire now t))"
    and expire_due: "e \<in> set (fst (expire now t)) \<Longrightarrow> fst e \<le> now"
    and expire_stop: "view (snd (expire now t)) \<noteq> [] \<Longrightarrow> now < fst (hd (view (snd (expire now t))))"
begin

definition table_wf :: "'t \<Rightarrow> bool" where
  "table_wf t \<longleftrightarrow> sorted (map fst (view t)) \<and> distinct (map snd (view t))"

lemma reg_wf: "table_wf t \<Longrightarrow> table_wf (reg d k t)"
  unfolding table_wf_def using reg_sorted reg_keys by blast

lemma unreg_wf: "table_wf t \<Longrightarrow> table_wf (unreg k t)"
  unfolding table_wf_def unreg_view
  by (simp add: sorted_wrt_filter sorted_wrt_map distinct_map_filter)

lemma expire_wf: "table_wf t \<Longrightarrow> table_wf (snd (expire now t))"
proof -
  assume "table_wf t"
  then have "sorted (map fst (fst (expire now t) @ view (snd (expire now t))))"
    "distinct (map snd (fst (expire now t) @ view (snd (expire now t))))"
    using expire_view [of t now] by (simp_all add: table_wf_def)
  then show ?thesis by (simp add: table_wf_def sorted_append)
qed

lemma expire_rest:
  assumes "table_wf t" "e \<in> set (view (snd (expire now t)))"
  shows "now < fst e"
proof -
  let ?v = "view (snd (expire now t))"
  have "?v \<noteq> []" using assms(2) by auto
  then have "now < fst (hd ?v)" by (rule expire_stop)
  moreover have "fst (hd ?v) \<le> fst e"
    using expire_wf [OF assms(1), of now] assms(2) by (cases ?v) (auto simp: table_wf_def)
  ultimately show ?thesis by simp
qed

lemma expire_exact:
  assumes "table_wf t"
  shows "set (fst (expire now t)) = {e \<in> set (view t). fst e \<le> now}"
    and "set (view (snd (expire now t))) = {e \<in> set (view t). now < fst e}"
proof -
  have v: "set (view t) = set (fst (expire now t)) \<union> set (view (snd (expire now t)))"
    using expire_view [of t now] by (metis set_append)
  show "set (fst (expire now t)) = {e \<in> set (view t). fst e \<le> now}"
    using v expire_due expire_rest [OF assms] by fastforce
  show "set (view (snd (expire now t))) = {e \<in> set (view t). now < fst e}"
    using v expire_due expire_rest [OF assms] by fastforce
qed

end

section \<open>Both tables keep the contract\<close>

lemma take_expired_eq:
  "take_expired now g = (map snd (takeWhile (\<lambda>e. fst e \<le> now) g), dropWhile (\<lambda>e. fst e \<le> now) g)"
  by (induction now g rule: take_expired.induct) (auto split: prod.split)

lemma take_expired_callbacks_eq:
  "take_expired_callbacks now g =
     (takeWhile (\<lambda>e. cb_deadline e \<le> now) g, dropWhile (\<lambda>e. cb_deadline e \<le> now) g)"
  by (induction now g rule: take_expired_callbacks.induct) (auto split: prod.split)

definition expire_pids :: "u64 \<Rightarrow> deadlines \<Rightarrow> (u64 \<times> pid) list \<times> deadlines" where
  "expire_pids now g = (takeWhile (\<lambda>e. fst e \<le> now) g, snd (take_expired now g))"

definition cb_view :: "callback_entry list \<Rightarrow> (u64 \<times> u64) list" where
  "cb_view = map (\<lambda>e. (cb_deadline e, cb_key e))"

definition expire_callbacks ::
  "u64 \<Rightarrow> callback_entry list \<Rightarrow> (u64 \<times> u64) list \<times> callback_entry list" where
  "expire_callbacks now g =
     (cb_view (fst (take_expired_callbacks now g)), snd (take_expired_callbacks now g))"

lemma bsearch_sorted_insert:
  assumes "bsearch_ok bs" "sorted ks"
  shows "sorted (insert_at (bs ks k) k ks)"
  using assms unfolding bsearch_ok_def by (intro sorted_insert_at) blast+

lemma distinct_insert_at:
  assumes "distinct xs" "x \<notin> set xs"
  shows "distinct (insert_at i x xs)"
proof -
  have "distinct (take i xs @ drop i xs)" "x \<notin> set (take i xs @ drop i xs)"
    using assms by simp_all
  then show ?thesis by (auto simp: insert_at_def simp del: append_take_drop_id)
qed

locale bsearch_impl =
  fixes bs :: bsearch
  assumes ok: "bsearch_ok bs"

sublocale bsearch_impl \<subseteq> pids: deadline_table "\<lambda>g. g" "timeout_register bs"
  "\<lambda>p g. snd (timeout_unregister p g)" expire_pids
proof unfold_locales
  fix t :: deadlines and d now k e
  show "set (timeout_register bs d k t) = insert (d, k) {e \<in> set t. snd e \<noteq> k}"
    by (auto simp: timeout_register_def Let_def set_insert_at)
  show "sorted (map fst (timeout_register bs d k t))" if "sorted (map fst t)"
  proof -
    have "sorted (map fst (filter (\<lambda>e. snd e \<noteq> k) t))"
      using that by (simp add: sorted_wrt_filter sorted_wrt_map)
    then show ?thesis
      using bsearch_sorted_insert [OF ok] by (simp add: timeout_register_def Let_def map_insert_at)
  qed
  show "distinct (map snd (timeout_register bs d k t))" if "distinct (map snd t)"
    using that unfolding timeout_register_def Let_def map_insert_at
    by (intro distinct_insert_at) (auto simp: distinct_map_filter)
  show "snd (timeout_unregister k t) = filter (\<lambda>e. snd e \<noteq> k) t"
    by (simp add: timeout_unregister_def Let_def)
  show "t = fst (expire_pids now t) @ snd (expire_pids now t)"
    by (simp add: expire_pids_def take_expired_eq)
  show "fst e \<le> now" if "e \<in> set (fst (expire_pids now t))"
    using that by (auto simp: expire_pids_def dest: set_takeWhileD)
  show "now < fst (hd (snd (expire_pids now t)))" if "snd (expire_pids now t) \<noteq> []"
    using that hd_dropWhile [of "\<lambda>e. fst e \<le> now" t] by (simp add: expire_pids_def take_expired_eq)
qed

sublocale bsearch_impl \<subseteq> cbs: deadline_table cb_view
  "\<lambda>d k. register_callback bs d k DlReplenish" cancel_callback expire_callbacks
proof unfold_locales
  fix t :: "callback_entry list" and d now k e
  show "set (cb_view (register_callback bs d k DlReplenish t))
      = insert (d, k) {e \<in> set (cb_view t). snd e \<noteq> k}"
    by (auto simp: register_callback_def Let_def set_insert_at cb_view_def)
  show "sorted (map fst (cb_view (register_callback bs d k DlReplenish t)))"
    if "sorted (map fst (cb_view t))"
  proof -
    have "sorted (map cb_deadline (filter (\<lambda>e. cb_key e \<noteq> k) t))"
      using that by (simp add: cb_view_def sorted_wrt_filter sorted_wrt_map)
    then show ?thesis using bsearch_sorted_insert [OF ok]
      by (simp add: register_callback_def Let_def cb_view_def map_insert_at comp_def)
  qed
  show "distinct (map snd (cb_view (register_callback bs d k DlReplenish t)))"
    if "distinct (map snd (cb_view t))"
    using that unfolding register_callback_def Let_def cb_view_def map_insert_at
    by (intro distinct_insert_at) (auto simp: distinct_map_filter comp_def)
  show "cb_view (cancel_callback k t) = filter (\<lambda>e. snd e \<noteq> k) (cb_view t)"
    by (simp add: cancel_callback_def cb_view_def filter_map comp_def)
  show "cb_view t = fst (expire_callbacks now t) @ cb_view (snd (expire_callbacks now t))"
    by (simp add: expire_callbacks_def take_expired_callbacks_eq cb_view_def flip: map_append)
  show "fst e \<le> now" if "e \<in> set (fst (expire_callbacks now t))"
    using that
    by (auto simp: expire_callbacks_def take_expired_callbacks_eq cb_view_def dest: set_takeWhileD)
  show "now < fst (hd (cb_view (snd (expire_callbacks now t))))"
    if "cb_view (snd (expire_callbacks now t)) \<noteq> []"
    using that hd_dropWhile [of "\<lambda>e. cb_deadline e \<le> now" t]
    by (auto simp: expire_callbacks_def take_expired_callbacks_eq cb_view_def hd_map)
qed

interpretation lb: bsearch_impl lower_bound
  by unfold_locales (rule lower_bound_ok)

section \<open>Timeouts fire exactly when due\<close>

definition deadlines_wf :: "deadlines \<Rightarrow> bool" where
  "deadlines_wf g \<longleftrightarrow> sorted (map fst g) \<and> distinct (map snd g)"

lemma snd_image_due: "q \<in> snd ` {e \<in> A. fst e \<le> now} \<longleftrightarrow> (\<exists>d'. (d', q) \<in> A \<and> d' \<le> now)"
  by (auto simp: image_iff)

context bsearch_impl
begin

lemma pids_wf: "pids.table_wf g \<longleftrightarrow> deadlines_wf g"
  by (simp add: pids.table_wf_def deadlines_wf_def)

lemma register_fires:
  assumes "deadlines_wf g"
  shows "q \<in> set (fst (take_expired now (timeout_register bs d p g))) \<longleftrightarrow>
     (if q = p then d \<le> now else \<exists>d'. (d', q) \<in> set g \<and> d' \<le> now)"
proof -
  have wf: "pids.table_wf (timeout_register bs d p g)"
    using pids.reg_wf [of g d p] assms unfolding pids_wf by blast
  have fst_eq: "fst (take_expired now t) = map snd (fst (expire_pids now t))" for t
    by (simp add: take_expired_eq expire_pids_def)
  have "set (fst (expire_pids now (timeout_register bs d p g)))
      = {e \<in> insert (d, p) {e \<in> set g. snd e \<noteq> p}. fst e \<le> now}"
    unfolding pids.expire_exact(1) [OF wf]
    using assms pids.reg_set [of g d p] by (simp add: deadlines_wf_def)
  then have "q \<in> snd ` set (fst (expire_pids now (timeout_register bs d p g))) \<longleftrightarrow>
     (\<exists>d'. (d', q) \<in> insert (d, p) {e \<in> set g. snd e \<noteq> p} \<and> d' \<le> now)"
    by (simp only: snd_image_due)
  then show ?thesis unfolding fst_eq set_map by (cases "q = p") auto
qed

lemma register_expired_rest:
  assumes "deadlines_wf g"
  shows "deadlines_wf (snd (take_expired now (timeout_register bs d p g)))"
    and "\<forall>e \<in> set (snd (take_expired now (timeout_register bs d p g))). now < fst e"
proof -
  have wf: "pids.table_wf (timeout_register bs d p g)"
    using pids.reg_wf [of g d p] assms unfolding pids_wf by blast
  have snd_eq: "snd (take_expired now t) = snd (expire_pids now t)" for t
    by (simp add: expire_pids_def)
  show "deadlines_wf (snd (take_expired now (timeout_register bs d p g)))"
    using pids.expire_wf [OF wf, of now] by (simp add: snd_eq pids_wf)
  show "\<forall>e \<in> set (snd (take_expired now (timeout_register bs d p g))). now < fst e"
    using pids.expire_exact(2) [OF wf, of now] by (simp add: snd_eq)
qed

lemma register_next:
  assumes "deadlines_wf g"
  shows "\<exists>n. next_deadline_ns (timeout_register bs d p g) = Some n
    \<and> (\<forall>e \<in> set (timeout_register bs d p g). n \<le> fst e)"
proof -
  have wf: "deadlines_wf (timeout_register bs d p g)"
    using pids.reg_wf [of g d p] assms unfolding pids_wf by blast
  have "timeout_register bs d p g \<noteq> []" by (simp add: timeout_register_def insert_at_def Let_def)
  then obtain e g' where "timeout_register bs d p g = e # g'" by (meson neq_Nil_conv)
  with wf show ?thesis
    by (cases e) (auto simp: next_deadline_ns_def deadlines_wf_def)
qed

end

text \<open>C11: after a process registers a deadline, the tick at time \<open>now\<close> takes its pid out of
  the table exactly when the deadline has passed; any other process is woken exactly when its
  own deadline has passed; what stays in the table is not due, the table stays in order, and the
  next deadline reported is the least. The registration replaces an earlier one.\<close>

theorem timeout_fires_when_due:
  fixes d :: u64 and p :: pid
  assumes "bsearch_ok bs" and "deadlines_wf g"
  defines "g' \<equiv> timeout_register bs d p g"
  shows "(p \<in> set (fst (take_expired now g')) \<longleftrightarrow> d \<le> now)
    \<and> (q \<noteq> p \<longrightarrow> (q \<in> set (fst (take_expired now g')) \<longleftrightarrow> (\<exists>d'. (d', q) \<in> set g \<and> d' \<le> now)))
    \<and> deadlines_wf (snd (take_expired now g'))
    \<and> (\<forall>e \<in> set (snd (take_expired now g')). now < fst e)
    \<and> (\<exists>n. next_deadline_ns g' = Some n \<and> (\<forall>e \<in> set g'. n \<le> fst e))"
  using bsearch_impl.register_fires [OF bsearch_impl.intro [OF assms(1)] assms(2)]
    bsearch_impl.register_expired_rest [OF bsearch_impl.intro [OF assms(1)] assms(2)]
    bsearch_impl.register_next [OF bsearch_impl.intro [OF assms(1)] assms(2)]
  unfolding g'_def by simp

theorem timeout_fires_when_due_witness:
  "bsearch_ok lower_bound \<and>
   Pid 2 \<in> set (fst (take_expired 40 (timeout_register lower_bound 30 (Pid 2)
     [(10, Pid 1), (50, Pid 3)])))"
proof -
  have "deadlines_wf [(10, Pid 1), (50, Pid 3)]"
    by (simp add: deadlines_wf_def)
  from timeout_fires_when_due [OF lower_bound_ok this, where p = "Pid 2" and now = 40 and d = 30] lower_bound_ok
  show ?thesis by simp
qed

end
