(* ===== verification/Scheduler.thy ===== *)
theory Scheduler
  imports Runqueue Sched_State Timeout
begin

text \<open>
  The scheduler's operations on processes: state changes with their assertions
  (\<open>kernel/src/core/mod.rs\<close>), accounting (\<open>cfs.rs\<close>), waking and parking (\<open>park.rs\<close>), the
  scheduling-class changes (\<open>sched_class.rs\<close>), throttling and migration (\<open>dispatch.rs\<close>).
  Every operation holds the locks it needs, so it is one function of the kernel state; \<open>None\<close>
  is a panic. Context switching, the enqueue log kept for diagnostics and inter-processor
  interrupts are outside the model, the clock and the online mask are parts of the state.
\<close>

section \<open>State\<close>

abbreviation MAX_CPUS :: nat where "MAX_CPUS \<equiv> 4"

record sched_entity =
  se_home_cpu :: u32
  se_cpu_affinity :: u64
  se_parking_unsaved :: bool
  se_nice :: int
  se_sched_class :: sched_class
  se_vruntime :: u64
  se_weight :: u64
  se_last_run_ns :: u64
  se_dl_runtime_remaining :: u64
  se_dl_absolute_deadline :: u64
  se_dl_next_replenish :: u64
  se_dl_throttled :: bool
  se_pi_orig_class :: "sched_class option"

text \<open>A cgroup as the scheduler sees it, named by its identity.\<close>

record cpu_controller =
  cc_max :: "(u64 \<times> u64) option"
  cc_weight :: u64
  cc_period_start_ns :: u64
  cc_period_runtime_ns :: u64
  cc_throttled :: bool

record process =
  pr_state :: process_state
  pr_owner :: sched_owner
  pr_sched :: sched_entity
  pr_cgroup :: "nat option"

record kernel =
  k_procs :: "pid \<Rightarrow> process option"
  k_queues :: "u32 \<Rightarrow> run_queues"
  k_current :: "u32 \<Rightarrow> pid option"
  k_cgroups :: "nat \<Rightarrow> cpu_controller"
  k_callbacks :: "callback_entry list"
  k_now :: u64
  k_online :: u64
  k_next_home :: u32

definition upd_proc :: "pid \<Rightarrow> process \<Rightarrow> kernel \<Rightarrow> kernel" where
  "upd_proc p pr k = k\<lparr>k_procs := (k_procs k)(p \<mapsto> pr)\<rparr>"

definition upd_queue :: "u32 \<Rightarrow> run_queues \<Rightarrow> kernel \<Rightarrow> kernel" where
  "upd_queue cpu q k = k\<lparr>k_queues := (k_queues k)(cpu := q)\<rparr>"

definition upd_sched :: "(sched_entity \<Rightarrow> sched_entity) \<Rightarrow> process \<Rightarrow> process" where
  "upd_sched f pr = pr\<lparr>pr_sched := f (pr_sched pr)\<rparr>"

section \<open>Guarded state changes\<close>

fun owner_parks :: "sched_owner \<Rightarrow> bool" where
  "owner_parks OwnStopped = True"
| "owner_parks OwnTraced = True"
| "owner_parks (OwnParked _) = True"
| "owner_parks _ = False"

fun owner_runs :: "sched_owner \<Rightarrow> bool" where
  "owner_runs (OwnRunning _) = True"
| "owner_runs _ = False"

definition set_sched_owner :: "sched_owner \<Rightarrow> process \<Rightarrow> process option" where
  "set_sched_owner new pr =
     (if \<not> sched_owner_transition_ok (pr_owner pr) new then None
      else if \<not> state_owner_consistent (pr_state pr) new then None
      else
        (let pr1 = (if owner_parks new then upd_sched (\<lambda>s. s\<lparr>se_parking_unsaved := True\<rparr>) pr
                    else if owner_runs new then upd_sched (\<lambda>s. s\<lparr>se_parking_unsaved := False\<rparr>) pr
                    else pr)
         in Some (pr1\<lparr>pr_owner := new\<rparr>)))"

definition set_state :: "process_state \<Rightarrow> process \<Rightarrow> process option" where
  "set_state new pr =
     (if \<not> state_transition_ok (pr_state pr) new then None
      else if \<not> state_owner_consistent new (pr_owner pr) then None
      else Some (pr\<lparr>pr_state := new\<rparr>))"

section \<open>Processor choice\<close>

definition affinity_allows :: "u64 \<Rightarrow> u32 \<Rightarrow> bool" where
  "affinity_allows affinity cpu \<longleftrightarrow> cpu < 64 \<and> affinity AND push_bit (unat cpu) 1 \<noteq> 0"

text \<open>The loop \<open>for _ in 0..idx { m &= m.wrapping_sub(1); }\<close>.\<close>

fun clear_lowest :: "nat \<Rightarrow> u64 \<Rightarrow> u64" where
  "clear_lowest 0 m = m"
| "clear_lowest (Suc n) m = clear_lowest n (m AND (m - 1))"

text \<open>An empty online mask is a remainder by zero.\<close>

definition pick_home_cpu_in :: "u64 \<Rightarrow> kernel \<Rightarrow> (u32 \<times> kernel) option" where
  "pick_home_cpu_in affinity k =
     (let eff = (if k_online k AND affinity = 0 then k_online k else k_online k AND affinity);
          count = count_ones eff
      in if count = 0 then None
         else
           (let idx = unat (k_next_home k) mod count
            in Some (of_nat (trailing_zeros (clear_lowest idx eff)),
                     k\<lparr>k_next_home := k_next_home k + 1\<rparr>)))"

definition effective_home_cpu :: "process \<Rightarrow> kernel \<Rightarrow> (u32 \<times> process \<times> kernel) option" where
  "effective_home_cpu pr k =
     (if affinity_allows (se_cpu_affinity (pr_sched pr)) (se_home_cpu (pr_sched pr))
      then Some (se_home_cpu (pr_sched pr), pr, k)
      else case pick_home_cpu_in (se_cpu_affinity (pr_sched pr)) k of
        None \<Rightarrow> None
      | Some (h, k') \<Rightarrow> Some (h, upd_sched (\<lambda>s. s\<lparr>se_home_cpu := h\<rparr>) pr, k'))"

section \<open>Accounting\<close>

definition calc_delta_vruntime :: "u64 \<Rightarrow> u64 \<Rightarrow> u64" where
  "calc_delta_vruntime delta_ns weight =
     (if weight = 0 then delta_ns else saturating_mul delta_ns NICE_0_LOAD div weight)"

abbreviation cgroup_weight :: "process \<Rightarrow> kernel \<Rightarrow> u64" where
  "cgroup_weight pr k \<equiv> (case pr_cgroup pr of None \<Rightarrow> 100 | Some cg \<Rightarrow> cc_weight (k_cgroups k cg))"

definition cgroup_scaled_weight :: "process \<Rightarrow> kernel \<Rightarrow> u64" where
  "cgroup_scaled_weight pr k =
     saturating_mul (se_weight (pr_sched pr)) (cgroup_weight pr k) div 100"

definition enqueue_data_from_proc :: "process \<Rightarrow> kernel \<Rightarrow> enqueue_data" where
  "enqueue_data_from_proc pr k =
     \<lparr>ed_class = se_sched_class (pr_sched pr), ed_vruntime = se_vruntime (pr_sched pr),
      ed_weight = cgroup_scaled_weight pr k,
      ed_dl_deadline = se_dl_absolute_deadline (pr_sched pr)\<rparr>"

text \<open>The virtual-runtime part of \<open>charge_runtime\<close>, after the processor-time counters.\<close>

definition charge_vruntime :: "u64 \<Rightarrow> kernel \<Rightarrow> process \<Rightarrow> process" where
  "charge_vruntime delta_ns k pr =
     (if se_sched_class (pr_sched pr) \<noteq> Cfs then pr
      else
        (let raw = (if se_weight (pr_sched pr) = 0 then nice_to_weight (se_nice (pr_sched pr))
                    else se_weight (pr_sched pr));
             weight = saturating_mul raw (cgroup_weight pr k) div 100;
             dv = calc_delta_vruntime delta_ns (max weight 1)
         in upd_sched (\<lambda>s. s\<lparr>se_vruntime := saturating_add (se_vruntime s) dv\<rparr>) pr))"

section \<open>Queueing a process\<close>

text \<open>The common tail \<open>q.runnable.enqueue(...); proc.sched.vruntime = placed\<close>. Indexing
  \<open>CPU_QUEUES\<close> beyond the last processor panics.\<close>

definition enqueue_on :: "u32 \<Rightarrow> pid \<Rightarrow> process \<Rightarrow> cfs_place \<Rightarrow> kernel \<Rightarrow> kernel option" where
  "enqueue_on cpu p pr kind k =
     (if MAX_CPUS \<le> unat cpu then None
      else case rq_enqueue p (enqueue_data_from_proc pr k) kind (k_queues k cpu) of
        (placed, q) \<Rightarrow>
          Some (upd_proc p (upd_sched (\<lambda>s. s\<lparr>se_vruntime := placed\<rparr>) pr) (upd_queue cpu q k)))"

definition admit_runnable_locked :: "pid \<Rightarrow> u32 \<Rightarrow> kernel \<Rightarrow> kernel option" where
  "admit_runnable_locked p home_cpu k =
     (case k_procs k p of
        None \<Rightarrow> Some k
      | Some pr \<Rightarrow>
          (case enqueue_on home_cpu p pr PlaceNew k of
             None \<Rightarrow> None
           | Some k1 \<Rightarrow>
               (case k_procs k1 p of
                  None \<Rightarrow> Some k1
                | Some pr1 \<Rightarrow>
                    map_option (\<lambda>pr2. upd_proc p pr2 k1) (set_sched_owner (OwnRunnable home_cpu) pr1))))"

text \<open>Waking takes two critical sections: the first, under the global lock, makes a parked process
  runnable and chooses its processor; the second, under the lock of that run queue and the global
  lock, queues it if it is still runnable. \<open>wake_pid\<close> is a call whose sections nothing comes
  between.\<close>

definition wake_begin :: "pid \<Rightarrow> kernel \<Rightarrow> (u32 option \<times> kernel) option" where
  "wake_begin p k =
     (case k_procs k p of
        None \<Rightarrow> Some (None, k)
      | Some pr \<Rightarrow>
          if pr_state pr \<noteq> StParked then Some (None, k)
          else case set_state StRunnable pr of
            None \<Rightarrow> None
          | Some pr1 \<Rightarrow>
              (case effective_home_cpu pr1 k of
                 None \<Rightarrow> None
               | Some (home, pr2, k1) \<Rightarrow>
                   map_option (\<lambda>pr3. (Some home, upd_proc p pr3 k1))
                     (set_sched_owner (OwnRunnable home) pr2)))"

definition wake_finish :: "u32 \<Rightarrow> pid \<Rightarrow> kernel \<Rightarrow> kernel option" where
  "wake_finish home p k =
     (if MAX_CPUS \<le> unat home then None
      else case k_procs k p of
        None \<Rightarrow> Some k
      | Some pr \<Rightarrow> if pr_state pr = StRunnable then enqueue_on home p pr PlaceWake k else Some k)"

definition wake_pid :: "pid \<Rightarrow> kernel \<Rightarrow> (bool \<times> kernel) option" where
  "wake_pid p k =
     (case wake_begin p k of
        None \<Rightarrow> None
      | Some (None, k1) \<Rightarrow> Some (False, k1)
      | Some (Some home, k1) \<Rightarrow> map_option (\<lambda>k2. (True, k2)) (wake_finish home p k1))"

definition reenqueue_runnable :: "pid \<Rightarrow> kernel \<Rightarrow> kernel option" where
  "reenqueue_runnable p k =
     (case k_procs k p of
        None \<Rightarrow> Some k
      | Some pr \<Rightarrow>
          if pr_state pr \<noteq> StRunnable then Some k
          else case effective_home_cpu pr k of
            None \<Rightarrow> None
          | Some (home, pr1, k1) \<Rightarrow>
              (case enqueue_on home p pr1 PlaceWake k1 of
                 None \<Rightarrow> None
               | Some k2 \<Rightarrow>
                   (case k_procs k2 p of
                      None \<Rightarrow> Some k2
                    | Some pr2 \<Rightarrow>
                        map_option (\<lambda>pr3. upd_proc p pr3 k2)
                          (set_sched_owner (OwnRunnable home) pr2))))"

text \<open>Where a parked process goes, and what the caller's closure \<open>prep\<close> decides under the
  global lock. The closure may change the kernel state and the data it captured, of type \<open>'w\<close>.\<close>

datatype park_dest = ParkSleep u64 | ParkStopped | ParkTraced

datatype park_arm = ParkAbort | ParkArmed park_dest

type_synonym 'w prep = "pid \<Rightarrow> 'w \<Rightarrow> kernel \<Rightarrow> park_arm \<times> 'w \<times> kernel"

text \<open>The part of \<open>park_current_then\<close> under the locks, up to the context switch. Of the
  processor-time accounting only the time stamp is kept.\<close>

definition park_state :: "park_dest \<Rightarrow> process \<Rightarrow> process option" where
  "park_state dest pr =
     (let (st, ow) = (case dest of
          ParkSleep addr \<Rightarrow> (StParked, OwnParked addr)
        | ParkStopped \<Rightarrow> (StStopped, OwnStopped)
        | ParkTraced \<Rightarrow> (StTraced, OwnTraced))
      in case set_state st pr of None \<Rightarrow> None | Some pr1 \<Rightarrow> set_sched_owner ow pr1)"

definition park_current_then :: "u32 \<Rightarrow> 'w prep \<Rightarrow> 'w \<Rightarrow> kernel \<Rightarrow> ('w \<times> kernel) option" where
  "park_current_then cpu prep w k =
     (case k_current k cpu of
        None \<Rightarrow> Some (w, k)
      | Some cur \<Rightarrow>
          if k_procs k cur = None then Some (w, k\<lparr>k_current := (k_current k)(cpu := None)\<rparr>)
          else case prep cur w k of
            (ParkAbort, w', k') \<Rightarrow> Some (w', k')
          | (ParkArmed dest, w', k') \<Rightarrow>
              (let k1 = k'\<lparr>k_current := (k_current k')(cpu := None)\<rparr> in
               case k_procs k1 cur of
                 None \<Rightarrow> None
               | Some pr \<Rightarrow>
                   map_option (\<lambda>pr'. (w', upd_proc cur pr' k1))
                     (park_state dest (upd_sched (\<lambda>s. s\<lparr>se_last_run_ns := k_now k1\<rparr>) pr))))"

section \<open>Scheduling classes\<close>

definition set_deadline_class ::
  "bsearch \<Rightarrow> pid \<Rightarrow> u64 \<Rightarrow> u64 \<Rightarrow> u64 \<Rightarrow> kernel \<Rightarrow> ((int + unit) \<times> kernel) option" where
  "set_deadline_class bs target runtime_ns deadline_ns period_ns k =
     (case k_procs k target of
        None \<Rightarrow> Some (Inl ESRCH, k)
      | Some pr \<Rightarrow>
          (let home = se_home_cpu (pr_sched pr) in
           if MAX_CPUS \<le> unat home then None
           else
             (let q0 = k_queues k home;
                  q1 = (case se_sched_class (pr_sched pr) of
                          Deadline rt _ pe \<Rightarrow> release_dl_bandwidth rt pe q0 | _ \<Rightarrow> q0)
              in case admit_dl_bandwidth runtime_ns period_ns q1 of
                   (False, q2) \<Rightarrow>
                     (let q3 = (case se_sched_class (pr_sched pr) of
                                  Deadline rt _ pe \<Rightarrow> snd (admit_dl_bandwidth rt pe q2) | _ \<Rightarrow> q2)
                      in Some (Inl EBUSY, upd_queue home q3 k))
                 | (True, q2) \<Rightarrow>
                     (let was_runnable = pr_state pr = StRunnable in
                      case (if was_runnable then map_option snd (remove_pid target q2) else Some q2) of
                        None \<Rightarrow> None
                      | Some q3 \<Rightarrow>
                          (let dl = saturating_add (k_now k) deadline_ns;
                               pr1 = upd_sched (\<lambda>s. s\<lparr>
                                 se_sched_class := Deadline runtime_ns deadline_ns period_ns,
                                 se_dl_runtime_remaining := runtime_ns,
                                 se_dl_absolute_deadline := dl, se_dl_next_replenish := dl,
                                 se_dl_throttled := False\<rparr>) pr;
                               k1 = upd_proc target pr1 (upd_queue home q3 k)
                           in case (if was_runnable then enqueue_on home target pr1 PlaceContinuing k1
                                    else Some k1) of
                                None \<Rightarrow> None
                              | Some k2 \<Rightarrow>
                                  Some (Inr (), k2\<lparr>k_callbacks := register_callback bs dl
                                    (ucast (pid_raw target)) DlReplenish (k_callbacks k2)\<rparr>))))))"

definition is_deadline :: "sched_class \<Rightarrow> bool" where
  "is_deadline c = (case c of Deadline _ _ _ \<Rightarrow> True | _ \<Rightarrow> False)"

definition dl_replenish_callback :: "bsearch \<Rightarrow> u64 \<Rightarrow> kernel \<Rightarrow> kernel option" where
  "dl_replenish_callback bs key k =
     (let p = Pid (ucast key) in
      case k_procs k p of
        None \<Rightarrow> Some k
      | Some pr \<Rightarrow>
          (case se_sched_class (pr_sched pr) of
             Deadline runtime_ns _ period_ns \<Rightarrow>
               (let dl = saturating_add (se_dl_absolute_deadline (pr_sched pr)) period_ns;
                    pr1 = upd_sched (\<lambda>s. s\<lparr>se_dl_runtime_remaining := runtime_ns,
                            se_dl_absolute_deadline := dl, se_dl_next_replenish := dl,
                            se_dl_throttled := False\<rparr>) pr
                in case (if pr_state pr = StDlThrottled then set_state StRunnable pr1 else Some pr1) of
                     None \<Rightarrow> None
                   | Some pr2 \<Rightarrow>
                       (let k1 = upd_proc p pr2 k;
                            home = se_home_cpu (pr_sched pr2);
                            throttled = pr_state pr2 = StRunnable \<and> is_deadline (se_sched_class (pr_sched pr2))
                        in case (if throttled then
                                   (case set_sched_owner (OwnRunnable home) pr2 of
                                      None \<Rightarrow> None
                                    | Some pr3 \<Rightarrow> enqueue_on home p pr3 PlaceContinuing (upd_proc p pr3 k1))
                                 else Some k1) of
                             None \<Rightarrow> None
                           | Some k2 \<Rightarrow>
                               Some (k2\<lparr>k_callbacks := register_callback bs dl key DlReplenish
                                 (k_callbacks k2)\<rparr>)))
           | _ \<Rightarrow> Some k))"

definition set_sched_class ::
  "pid \<Rightarrow> sched_class \<Rightarrow> kernel \<Rightarrow> ((int + unit) \<times> kernel) option" where
  "set_sched_class target new_class k =
     (case k_procs k target of
        None \<Rightarrow> Some (Inl ESRCH, k)
      | Some pr \<Rightarrow>
          (let home = se_home_cpu (pr_sched pr);
               was_queued = pr_state pr = StRunnable;
               leaving_dl = is_deadline (se_sched_class (pr_sched pr)) \<and> \<not> is_deadline new_class
           in if MAX_CPUS \<le> unat home then None
           else case (if was_queued then map_option snd (remove_pid target (k_queues k home))
                      else Some (k_queues k home)) of
             None \<Rightarrow> None
           | Some q1 \<Rightarrow>
               (let q2 = (if leaving_dl then
                            release_dl_bandwidth (dl_runtime_ns (se_sched_class (pr_sched pr)))
                              (dl_period_ns (se_sched_class (pr_sched pr))) q1
                          else q1);
                    pr1 = (if leaving_dl then upd_sched (\<lambda>s. s\<lparr>se_dl_runtime_remaining := 0,
                             se_dl_absolute_deadline := 0, se_dl_next_replenish := 0,
                             se_dl_throttled := False\<rparr>) pr else pr);
                    unthrottled = leaving_dl \<and> pr_state pr = StDlThrottled
                in case (if unthrottled then set_state StRunnable pr1 else Some pr1) of
                     None \<Rightarrow> None
                   | Some pr2 \<Rightarrow>
                       (let pr3 = upd_sched (\<lambda>s. s\<lparr>se_sched_class := new_class\<rparr>) pr2;
                            pr4 = (if new_class = Cfs then upd_sched (\<lambda>s. s\<lparr>se_vruntime :=
                                     max (se_vruntime s) (rq_cfs_min_vruntime q2)\<rparr>) pr3 else pr3);
                            k1 = upd_proc target pr4 (upd_queue home q2 k);
                            k2 = (if unthrottled then
                                    (case set_sched_owner (OwnRunnable home) pr4 of
                                       None \<Rightarrow> None
                                     | Some pr5 \<Rightarrow> enqueue_on home target pr5 PlaceWake (upd_proc target pr5 k1))
                                  else Some k1);
                            k3 = (case k2 of
                                    None \<Rightarrow> None
                                  | Some k2' \<Rightarrow>
                                      if was_queued then
                                        (case k_procs k2' target of
                                           None \<Rightarrow> Some k2'
                                         | Some pr5 \<Rightarrow> enqueue_on home target pr5 PlaceContinuing k2')
                                      else Some k2')
                        in map_option (\<lambda>k4. (Inr (),
                             if leaving_dl then k4\<lparr>k_callbacks :=
                               cancel_callback (ucast (pid_raw target)) (k_callbacks k4)\<rparr>
                             else k4)) k3))))"

definition class_rt_prio :: "sched_class \<Rightarrow> u8" where
  "class_rt_prio c = (case c of Rt priority _ \<Rightarrow> priority | _ \<Rightarrow> 0)"

definition pi_boost :: "pid \<Rightarrow> u8 \<Rightarrow> kernel \<Rightarrow> (bool \<times> kernel) option" where
  "pi_boost holder target_prio k =
     (case k_procs k holder of
        None \<Rightarrow> Some (False, k)
      | Some pr \<Rightarrow>
          if target_prio \<le> class_rt_prio (se_sched_class (pr_sched pr)) then Some (False, k)
          else
            (let pr1 = (if se_pi_orig_class (pr_sched pr) = None then
                          upd_sched (\<lambda>s. s\<lparr>se_pi_orig_class := Some (se_sched_class s)\<rparr>) pr
                        else pr)
             in map_option (\<lambda>(_, k'). (True, k'))
                  (set_sched_class holder (Rt target_prio False) (upd_proc holder pr1 k))))"

definition pi_refresh :: "pid \<Rightarrow> u8 \<Rightarrow> kernel \<Rightarrow> (bool \<times> kernel) option" where
  "pi_refresh holder top_waiter_prio k =
     (case k_procs k holder of
        None \<Rightarrow> Some (False, k)
      | Some pr \<Rightarrow>
          (let orig_class = se_pi_orig_class (pr_sched pr);
               orig_prio = (case orig_class of
                   Some c \<Rightarrow> class_rt_prio c
                 | None \<Rightarrow> class_rt_prio (se_sched_class (pr_sched pr)));
               final_prio = max top_waiter_prio orig_prio
           in if final_prio = orig_prio then
                (case orig_class of
                   None \<Rightarrow> Some (False, k)
                 | Some orig \<Rightarrow>
                     map_option (\<lambda>(_, k'). (True, k')) (set_sched_class holder orig
                       (upd_proc holder (upd_sched (\<lambda>s. s\<lparr>se_pi_orig_class := None\<rparr>) pr) k)))
              else
                (let nc = Rt final_prio False in
                 if nc = se_sched_class (pr_sched pr) then Some (False, k)
                 else map_option (\<lambda>(_, k'). (True, k')) (set_sched_class holder nc k))))"

section \<open>Processor-time control of cgroups\<close>

definition charge_cpu_runtime :: "u64 \<Rightarrow> u64 \<Rightarrow> cpu_controller \<Rightarrow> bool \<times> cpu_controller" where
  "charge_cpu_runtime delta_ns now_ns c =
     (case cc_max c of
        None \<Rightarrow> (False, c)
      | Some (quota_us, period_us) \<Rightarrow>
          (let period_ns = saturating_mul period_us 1000;
               quota_ns = saturating_mul quota_us 1000
           in if period_ns = 0 then (False, c)
           else
             (let c1 = (if period_ns \<le> saturating_sub now_ns (cc_period_start_ns c)
                        then c\<lparr>cc_period_start_ns := now_ns, cc_period_runtime_ns := 0\<rparr> else c);
                  c2 = c1\<lparr>cc_period_runtime_ns := saturating_add (cc_period_runtime_ns c1) delta_ns\<rparr>
              in if quota_ns \<le> cc_period_runtime_ns c2 \<and> \<not> cc_throttled c2
                 then (True, c2\<lparr>cc_throttled := True\<rparr>) else (False, c2))))"

definition period_elapsed :: "u64 \<Rightarrow> cpu_controller \<Rightarrow> bool" where
  "period_elapsed now_ns c =
     (case cc_max c of
        None \<Rightarrow> False
      | Some (_, period_us) \<Rightarrow>
          (let period_ns = saturating_mul period_us 1000 in
           if period_ns = 0 then False
           else period_ns \<le> saturating_sub now_ns (cc_period_start_ns c)))"

definition replenish :: "u64 \<Rightarrow> cpu_controller \<Rightarrow> cpu_controller" where
  "replenish now_ns c =
     c\<lparr>cc_period_start_ns := now_ns, cc_period_runtime_ns := 0, cc_throttled := False\<rparr>"

text \<open>The picking loop of \<open>on_tick\<close>: a picked fair task of a throttled cgroup is set aside
  and the next one is tried. It runs at most once per queued task.\<close>

definition cg_throttled :: "process \<Rightarrow> kernel \<Rightarrow> bool" where
  "cg_throttled pr k \<longleftrightarrow> se_sched_class (pr_sched pr) = Cfs
     \<and> (case pr_cgroup pr of None \<Rightarrow> False | Some cg \<Rightarrow> cc_throttled (k_cgroups k cg))"

fun tick_pick :: "nat \<Rightarrow> bool \<Rightarrow> u32 \<Rightarrow> kernel \<Rightarrow> (pid option \<times> kernel) option" where
  "tick_pick 0 rt_ok cpu k = None"
| "tick_pick (Suc n) rt_ok cpu k =
     (case pick_next rt_ok (k_queues k cpu) of
        (None, q) \<Rightarrow> Some (None, upd_queue cpu q k)
      | (Some p, q) \<Rightarrow>
          (let k1 = upd_queue cpu q k in
           case k_procs k1 p of
             None \<Rightarrow> Some (Some p, k1)
           | Some pr \<Rightarrow>
               if cg_throttled pr k1 then
                 (case set_state StCgroupThrottled pr of
                    None \<Rightarrow> None
                  | Some pr1 \<Rightarrow>
                      (case set_sched_owner (OwnParked 0) pr1 of
                         None \<Rightarrow> None
                       | Some pr2 \<Rightarrow> tick_pick n rt_ok cpu (upd_proc p pr2 k1)))
               else Some (Some p, k1)))"

definition migrate_dispatched_to :: "pid \<Rightarrow> u32 \<Rightarrow> u64 \<Rightarrow> kernel \<Rightarrow> kernel option" where
  "migrate_dispatched_to p target src_min_vr k =
     (if MAX_CPUS \<le> unat target then None
      else case k_procs k p of
        None \<Rightarrow> Some k
      | Some pr \<Rightarrow>
          if state_is_terminal (pr_state pr) then Some k
          else
            (let dst_min_vr = rq_cfs_min_vruntime (k_queues k target);
                 pr1 = upd_sched (\<lambda>s. s\<lparr>se_home_cpu := target\<rparr>) pr
             in case set_sched_owner (OwnRunnable target) pr1 of
                  None \<Rightarrow> None
                | Some pr2 \<Rightarrow>
                    (let pr3 = (if se_sched_class (pr_sched pr2) = Cfs
                        then upd_sched (\<lambda>s. s\<lparr>se_vruntime := saturating_add
                          (saturating_sub (se_vruntime s) src_min_vr) dst_min_vr\<rparr>) pr2 else pr2)
                     in enqueue_on target p pr3 PlaceContinuing (upd_proc p pr3 k))))"

section \<open>Helper facts\<close>

lemma upd_simps [simp]:
  "k_procs (upd_proc p pr k) = (k_procs k)(p \<mapsto> pr)" "k_queues (upd_proc p pr k) = k_queues k"
  "k_callbacks (upd_proc p pr k) = k_callbacks k" "k_cgroups (upd_proc p pr k) = k_cgroups k"
  "k_online (upd_proc p pr k) = k_online k" "k_procs (upd_queue c q k) = k_procs k"
  "k_queues (upd_queue c q k) = (k_queues k)(c := q)" "k_callbacks (upd_queue c q k) = k_callbacks k"
  "k_cgroups (upd_queue c q k) = k_cgroups k" "k_online (upd_queue c q k) = k_online k"
  "k_now (upd_proc p pr k) = k_now k" "k_now (upd_queue c q k) = k_now k"
  "k_current (upd_proc p pr k) = k_current k" "k_current (upd_queue c q k) = k_current k"
  by (simp_all add: upd_proc_def upd_queue_def)

lemma upd_sched_simps [simp]:
  "pr_state (upd_sched f pr) = pr_state pr" "pr_owner (upd_sched f pr) = pr_owner pr"
  "pr_sched (upd_sched f pr) = f (pr_sched pr)" "pr_cgroup (upd_sched f pr) = pr_cgroup pr"
  by (simp_all add: upd_sched_def)

lemma set_sched_owner_SomeD:
  assumes "set_sched_owner new pr = Some pr'"
  shows "pr_owner pr' = new" "pr_state pr' = pr_state pr" "pr_cgroup pr' = pr_cgroup pr"
    "pr_sched pr' = (pr_sched pr)\<lparr>se_parking_unsaved := se_parking_unsaved (pr_sched pr')\<rparr>"
proof -
  from assms have pr': "pr' = (if owner_parks new then upd_sched (\<lambda>s. s\<lparr>se_parking_unsaved := True\<rparr>) pr
                    else if owner_runs new then upd_sched (\<lambda>s. s\<lparr>se_parking_unsaved := False\<rparr>) pr
                    else pr)\<lparr>pr_owner := new\<rparr>"
    by (auto simp: set_sched_owner_def Let_def split: if_splits)
  then show "pr_owner pr' = new" "pr_state pr' = pr_state pr" "pr_cgroup pr' = pr_cgroup pr"
    by simp_all
  show "pr_sched pr' = (pr_sched pr)\<lparr>se_parking_unsaved := se_parking_unsaved (pr_sched pr')\<rparr>"
    unfolding pr' by simp
qed

lemma set_state_SomeD:
  "set_state new pr = Some pr' \<Longrightarrow> pr' = pr\<lparr>pr_state := new\<rparr>"
  by (simp add: set_state_def split: if_splits)

text \<open>What queueing changes: the placed virtual runtime and one queue.\<close>

lemma enqueue_on_SomeD:
  assumes "enqueue_on cpu p pr kind k = Some k'"
  shows "unat cpu < MAX_CPUS"
    "k_procs k' = (k_procs k)(p \<mapsto> upd_sched (\<lambda>s. s\<lparr>se_vruntime :=
        fst (rq_enqueue p (enqueue_data_from_proc pr k) kind (k_queues k cpu))\<rparr>) pr)"
    "k_queues k' = (k_queues k)(cpu :=
        snd (rq_enqueue p (enqueue_data_from_proc pr k) kind (k_queues k cpu)))"
    "k_callbacks k' = k_callbacks k" "k_online k' = k_online k" "k_cgroups k' = k_cgroups k"
  using assms by (auto simp: enqueue_on_def split: if_splits prod.splits)

lemma enqueue_on_eq:
  "unat cpu < MAX_CPUS \<Longrightarrow> \<exists>k'. enqueue_on cpu p pr kind k = Some k'"
  by (auto simp: enqueue_on_def split: prod.split)

section \<open>Processor choice stays in range\<close>

definition online_ok :: "u64 \<Rightarrow> bool" where
  "online_ok m \<longleftrightarrow> m \<noteq> 0 \<and> (\<forall>i. bit m i \<longrightarrow> i < MAX_CPUS)"

lemma set_bits64_clear: "set_bits64 (clear_lowest n m) = drop n (set_bits64 m)"
  by (induction n m rule: clear_lowest.induct) (simp_all add: set_bits64_clear_lowest drop_Suc)

lemma trailing_zeros_clear:
  "n < count_ones m \<Longrightarrow> trailing_zeros (clear_lowest n m) = set_bits64 m ! n"
  by (simp add: trailing_zeros_hd set_bits64_clear count_ones_def hd_drop_conv_nth)

lemma set_bits64_nonempty: "m \<noteq> 0 \<Longrightarrow> set_bits64 m \<noteq> []"
proof -
  assume "m \<noteq> 0"
  then obtain i where "bit m i" using bit_eq_iff [of m 0] by auto
  moreover then have "i < 64" using bit_imp_le_length [of m i] by simp
  ultimately have "i \<in> set (set_bits64 m)" by (simp add: set_bits64_def)
  then show ?thesis by auto
qed

lemma pick_home_cpu_in_ok:
  assumes "online_ok (k_online k)"
  obtains h k' where "pick_home_cpu_in aff k = Some (h, k')" "bit (k_online k) (unat h)"
    "unat h < MAX_CPUS" "k_procs k' = k_procs k" "k_queues k' = k_queues k"
    "k_online k' = k_online k" "k_callbacks k' = k_callbacks k" "k_cgroups k' = k_cgroups k"
    "k_online k AND aff \<noteq> 0 \<Longrightarrow> bit aff (unat h)"
proof -
  let ?eff = "if k_online k AND aff = 0 then k_online k else k_online k AND aff"
  have "?eff \<noteq> 0" using assms by (auto simp: online_ok_def)
  then have ne: "set_bits64 ?eff \<noteq> []" by (rule set_bits64_nonempty)
  let ?i = "set_bits64 ?eff ! (unat (k_next_home k) mod length (set_bits64 ?eff))"
  have "?i \<in> set (set_bits64 ?eff)" using ne by (intro nth_mem) simp
  then have b: "bit ?eff ?i" "?i < 64" by (simp_all add: set_bits64_def)
  have on: "bit (k_online k) ?i" using b(1) by (auto simp: bit_and_iff split: if_splits)
  have lt: "?i < MAX_CPUS" using on assms by (simp add: online_ok_def)
  then have u: "unat (of_nat ?i :: u32) = ?i"
    by (intro unat_of_nat_small) simp
  have aff: "bit aff ?i" if "k_online k AND aff \<noteq> 0" using b(1) that by (simp add: bit_and_iff)
  show ?thesis
    by (rule that [of "of_nat ?i" "k\<lparr>k_next_home := k_next_home k + 1\<rparr>"])
      (use ne on lt u aff in \<open>simp_all add: pick_home_cpu_in_def Let_def trailing_zeros_clear count_ones_def\<close>)
qed

section \<open>Waking\<close>

text \<open>The invariant waking relies on: a parked process is owned by its wait queue and is on no
  run queue; home processors and online processors exist; run queues are well formed.\<close>

definition sched_inv :: "kernel \<Rightarrow> bool" where
  "sched_inv k \<longleftrightarrow> online_ok (k_online k) \<and> (\<forall>cpu. rq_wf (k_queues k cpu))
     \<and> (\<forall>p pr. k_procs k p = Some pr \<longrightarrow> unat (se_home_cpu (pr_sched pr)) < MAX_CPUS
          \<and> (pr_state pr = StParked \<longrightarrow>
               (\<exists>a. pr_owner pr = OwnParked a) \<and> (\<forall>cpu. p \<notin># rq_pids (k_queues k cpu))))"

definition k_parked :: "kernel \<Rightarrow> pid \<Rightarrow> bool" where
  "k_parked k p \<longleftrightarrow> (\<exists>pr. k_procs k p = Some pr \<and> pr_state pr = StParked)"

lemma affinity_allows_bit: "affinity_allows aff cpu \<longleftrightarrow> cpu < 64 \<and> bit aff (unat cpu)"
  by (simp add: affinity_allows_def bit_iff_and_push_bit_not_eq_0)

text \<open>Where a woken process may go: it stays on its home processor if its affinity allows that,
  otherwise it moves to an online processor, one its affinity allows if there is any.\<close>

definition home_choice :: "u64 \<Rightarrow> u64 \<Rightarrow> u32 \<Rightarrow> u32 \<Rightarrow> bool" where
  "home_choice online aff old_home home \<longleftrightarrow>
     unat home < MAX_CPUS \<and> (online AND aff \<noteq> 0 \<longrightarrow> bit aff (unat home)) \<and>
     (if bit aff (unat old_home) then home = old_home else bit online (unat home))"

lemma effective_home_cpu_ok:
  assumes "online_ok (k_online k)" "unat (se_home_cpu (pr_sched pr)) < MAX_CPUS"
  obtains h pr' k' where "effective_home_cpu pr k = Some (h, pr', k')" "unat h < MAX_CPUS"
    "k_procs k' = k_procs k" "k_queues k' = k_queues k" "k_online k' = k_online k"
    "k_cgroups k' = k_cgroups k" "pr_state pr' = pr_state pr" "pr_owner pr' = pr_owner pr"
    "se_home_cpu (pr_sched pr') = h"
    "home_choice (k_online k) (se_cpu_affinity (pr_sched pr)) (se_home_cpu (pr_sched pr)) h"
proof -
  let ?aff = "se_cpu_affinity (pr_sched pr)" and ?home = "se_home_cpu (pr_sched pr)"
  have lt: "?home < 64" using assms(2) by (simp add: word_less_nat_alt)
  show ?thesis
  proof (cases "bit ?aff (unat ?home)")
    case True
    then show ?thesis using that [of ?home pr k] assms lt
      by (simp add: effective_home_cpu_def affinity_allows_bit home_choice_def)
  next
    case False
    obtain h k' where "pick_home_cpu_in ?aff k = Some (h, k')" "bit (k_online k) (unat h)"
      "unat h < MAX_CPUS" "k_procs k' = k_procs k" "k_queues k' = k_queues k"
      "k_online k' = k_online k" "k_cgroups k' = k_cgroups k"
      "k_online k AND ?aff \<noteq> 0 \<Longrightarrow> bit ?aff (unat h)"
      using pick_home_cpu_in_ok [OF assms(1), of ?aff] by metis
    with False show ?thesis
      by (intro that [of h "upd_sched (\<lambda>s. s\<lparr>se_home_cpu := h\<rparr>) pr" k'])
        (simp_all add: effective_home_cpu_def affinity_allows_bit home_choice_def)
  qed
qed

lemma wake_pid_unfold:
  "wake_pid p k =
     (case k_procs k p of
        None \<Rightarrow> Some (False, k)
      | Some pr \<Rightarrow>
          if pr_state pr \<noteq> StParked then Some (False, k)
          else case set_state StRunnable pr of
            None \<Rightarrow> None
          | Some pr1 \<Rightarrow>
              (case effective_home_cpu pr1 k of
                 None \<Rightarrow> None
               | Some (home, pr2, k1) \<Rightarrow>
                   (case set_sched_owner (OwnRunnable home) pr2 of
                      None \<Rightarrow> None
                    | Some pr3 \<Rightarrow>
                        map_option (\<lambda>k2. (True, k2))
                          (enqueue_on home p pr3 PlaceWake (upd_proc p pr3 k1)))))"
proof -
  have run: "pr_state pr3 = StRunnable"
    if "set_state StRunnable pr = Some pr1" "effective_home_cpu pr1 k = Some (home, pr2, k1)"
      "set_sched_owner (OwnRunnable home) pr2 = Some pr3" for pr pr1 home pr2 k1 pr3
  proof -
    have "pr_state pr1 = StRunnable" using that(1) by (auto simp: set_state_def split: if_splits)
    moreover have "pr_state pr2 = pr_state pr1"
      using that(2) by (auto simp: effective_home_cpu_def split: if_splits option.splits)
    moreover have "pr_state pr3 = pr_state pr2"
      using that(3) by (auto simp: set_sched_owner_def split: if_splits)
    ultimately show ?thesis by simp
  qed
  have fin: "wake_finish home p (upd_proc p pr3 k1) = enqueue_on home p pr3 PlaceWake (upd_proc p pr3 k1)"
    if "pr_state pr3 = StRunnable" for home pr3 k1
    using that by (simp add: wake_finish_def enqueue_on_def)
  show ?thesis
  proof (cases "k_procs k p")
    case (Some pr)
    show ?thesis
    proof (cases "pr_state pr \<noteq> StParked \<or> set_state StRunnable pr = None")
      case True
      then show ?thesis using Some by (auto simp: wake_pid_def wake_begin_def)
    next
      case False
      then obtain pr1 where 1: "pr_state pr = StParked" "set_state StRunnable pr = Some pr1" by auto
      show ?thesis
      proof (cases "effective_home_cpu pr1 k")
        case None
        then show ?thesis using Some 1 by (simp add: wake_pid_def wake_begin_def)
      next
        case (Some r)
        obtain home pr2 k1 where r: "r = (home, pr2, k1)" by (cases r)
        show ?thesis
          using run [OF 1(2) Some [unfolded r]] fin \<open>k_procs k p = Some pr\<close> 1 Some r
          by (cases "set_sched_owner (OwnRunnable home) pr2") (simp_all add: wake_pid_def wake_begin_def)
      qed
    qed
  qed (simp add: wake_pid_def wake_begin_def)
qed

lemma wake_pid_parked:
  assumes "sched_inv k" "k_procs k p = Some pr" "pr_state pr = StParked"
  obtains home pr' q k' where "wake_pid p k = Some (True, k')" "unat home < MAX_CPUS"
    "k_procs k' = (k_procs k)(p \<mapsto> pr')" "pr_state pr' = StRunnable" "pr_owner pr' = OwnRunnable home"
    "se_home_cpu (pr_sched pr') = home" "k_queues k' = (k_queues k)(home := q)" "rq_wf q"
    "rq_pids q = add_mset p (rq_pids (k_queues k home))" "k_online k' = k_online k"
    "home_choice (k_online k) (se_cpu_affinity (pr_sched pr)) (se_home_cpu (pr_sched pr)) home"
proof -
  from assms obtain a where own: "pr_owner pr = OwnParked a"
    and nq: "\<forall>cpu. p \<notin># rq_pids (k_queues k cpu)"
    and home: "unat (se_home_cpu (pr_sched pr)) < MAX_CPUS"
    and wf: "\<forall>cpu. rq_wf (k_queues k cpu)" and on: "online_ok (k_online k)"
    unfolding sched_inv_def by blast
  let ?pr1 = "pr\<lparr>pr_state := StRunnable\<rparr>"
  have 1: "set_state StRunnable pr = Some ?pr1"
    using assms(3) own by (simp add: set_state_def state_transition_ok_def state_owner_consistent_def)
  obtain h pr2 k1 where 2: "effective_home_cpu ?pr1 k = Some (h, pr2, k1)" "unat h < MAX_CPUS"
    "k_procs k1 = k_procs k" "k_queues k1 = k_queues k" "k_online k1 = k_online k"
    "k_cgroups k1 = k_cgroups k" "pr_state pr2 = StRunnable" "pr_owner pr2 = OwnParked a"
    "se_home_cpu (pr_sched pr2) = h"
    "home_choice (k_online k) (se_cpu_affinity (pr_sched pr)) (se_home_cpu (pr_sched pr)) h"
    using effective_home_cpu_ok [OF on, of ?pr1] home own by auto
  let ?pr3 = "pr2\<lparr>pr_owner := OwnRunnable h\<rparr>"
  have 3: "set_sched_owner (OwnRunnable h) pr2 = Some ?pr3"
    using 2 by (simp add: set_sched_owner_def state_owner_consistent_def)
  obtain k2 where 4: "enqueue_on h p ?pr3 PlaceWake (upd_proc p ?pr3 k1) = Some k2"
    using enqueue_on_eq [OF 2(2)] by blast
  define d where "d = enqueue_data_from_proc ?pr3 (upd_proc p ?pr3 k1)"
  note e = enqueue_on_SomeD [OF 4, folded d_def]
  have "wake_pid p k = Some (True, k2)"
    using assms(2,3) 1 2(1,7) 3 4 by (simp add: wake_pid_unfold)
  then show ?thesis
    by (rule that [OF _ 2(2), where q = "snd (rq_enqueue p d PlaceWake (k_queues k h))" and pr' =
          "upd_sched (\<lambda>s. s\<lparr>se_vruntime := fst (rq_enqueue p d PlaceWake (k_queues k h))\<rparr>) ?pr3"])
      (use e 2 wf nq in \<open>simp_all add: rq_enqueue_wf rq_enqueue_pids\<close>)
qed

lemma wake_pid_result:
  assumes "sched_inv k"
  shows "\<exists>k'. wake_pid p k = Some (k_parked k p, k') \<and> sched_inv k'
    \<and> (\<forall>q. k_parked k' q \<longleftrightarrow> k_parked k q \<and> q \<noteq> p)
    \<and> (\<forall>q. q \<noteq> p \<longrightarrow> k_procs k' q = k_procs k q)
    \<and> (k_parked k p \<longrightarrow> (\<exists>pr pr' home. k_procs k p = Some pr \<and> k_procs k' p = Some pr' \<and> pr_state pr' = StRunnable
         \<and> pr_owner pr' = OwnRunnable home \<and> se_home_cpu (pr_sched pr') = home
         \<and> home_choice (k_online k) (se_cpu_affinity (pr_sched pr)) (se_home_cpu (pr_sched pr)) home
         \<and> rq_pids (k_queues k' home) = add_mset p (rq_pids (k_queues k home))
         \<and> (\<forall>cpu. cpu \<noteq> home \<longrightarrow> k_queues k' cpu = k_queues k cpu)))
    \<and> (\<not> k_parked k p \<longrightarrow> k' = k)"
proof (cases "k_parked k p")
  case False
  then have "wake_pid p k = Some (False, k)"
    by (auto simp: wake_pid_unfold k_parked_def split: option.split)
  with False assms show ?thesis by auto
next
  case True
  then obtain pr where pr: "k_procs k p = Some pr" "pr_state pr = StParked"
    by (auto simp: k_parked_def)
  obtain home pr' q k' where w: "wake_pid p k = Some (True, k')" "unat home < MAX_CPUS"
    "k_procs k' = (k_procs k)(p \<mapsto> pr')" "pr_state pr' = StRunnable" "pr_owner pr' = OwnRunnable home"
    "se_home_cpu (pr_sched pr') = home" "k_queues k' = (k_queues k)(home := q)" "rq_wf q"
    "rq_pids q = add_mset p (rq_pids (k_queues k home))" "k_online k' = k_online k"
    "home_choice (k_online k) (se_cpu_affinity (pr_sched pr)) (se_home_cpu (pr_sched pr)) home"
    using wake_pid_parked [OF assms pr] by metis
  have inv: "sched_inv k'"
    unfolding sched_inv_def
  proof (intro conjI allI impI)
    show "online_ok (k_online k')" using w(10) assms by (simp add: sched_inv_def)
    show "rq_wf (k_queues k' cpu)" for cpu using w(7,8) assms by (simp add: sched_inv_def)
    fix r prr assume r: "k_procs k' r = Some prr"
    show "unat (se_home_cpu (pr_sched prr)) < MAX_CPUS"
      using r w(2,3,6) assms by (cases "r = p") (auto simp: sched_inv_def)
    assume park: "pr_state prr = StParked"
    then have r': "r \<noteq> p" "k_procs k r = Some prr" using r w(3,4) by (auto split: if_splits)
    then show "\<exists>a. pr_owner prr = OwnParked a" using park assms by (simp add: sched_inv_def)
    show "r \<notin># rq_pids (k_queues k' cpu)" for cpu
      using r' park assms w(7,9) by (auto simp: sched_inv_def split: if_splits)
  qed
  show ?thesis
    using True w inv pr by (intro exI [of _ k']) (auto simp: k_parked_def)
qed


definition demo_sched :: sched_entity where
  "demo_sched = \<lparr>se_home_cpu = 1, se_cpu_affinity = 0xF, se_parking_unsaved = True, se_nice = 0,
     se_sched_class = Cfs, se_vruntime = 5, se_weight = 1024, se_last_run_ns = 0,
     se_dl_runtime_remaining = 0, se_dl_absolute_deadline = 0, se_dl_next_replenish = 0,
     se_dl_throttled = False, se_pi_orig_class = None\<rparr>"

definition demo_proc :: process where
  "demo_proc = \<lparr>pr_state = StParked, pr_owner = OwnParked 64, pr_sched = demo_sched,
     pr_cgroup = None\<rparr>"

definition demo_kernel :: kernel where
  "demo_kernel = \<lparr>k_procs = [Pid 7 \<mapsto> demo_proc], k_queues = \<lambda>_. rq_new, k_current = \<lambda>_. None,
     k_cgroups = \<lambda>_. \<lparr>cc_max = None, cc_weight = 100, cc_period_start_ns = 0,
       cc_period_runtime_ns = 0, cc_throttled = False\<rparr>,
     k_callbacks = [], k_now = 1000, k_online = 3, k_next_home = 0\<rparr>"

lemma online_ok_3: "online_ok 3"
proof -
  have "i < MAX_CPUS" if "bit (3 :: u64) i" for i
  proof -
    have "(3 :: u64) = mask 2" by (simp add: mask_eq_exp_minus_1)
    with that show ?thesis by (simp add: bit_mask_iff)
  qed
  then show ?thesis by (simp add: online_ok_def)
qed

lemma rq_pids_new [simp]: "rq_pids rq_new = {#}"
  by (simp add: rq_pids_def rq_new_def)

lemma demo_kernel_inv: "sched_inv demo_kernel"
  by (auto simp: sched_inv_def demo_kernel_def demo_proc_def demo_sched_def rq_new_wf online_ok_3
      split: if_splits)


section \<open>Throttled groups\<close>

lemma runnable_to_parked_panics:
  "pr_owner pr = OwnRunnable c \<Longrightarrow> set_sched_owner (OwnParked a) pr = None"
  by (simp add: set_sched_owner_def)

text \<open>when the tick picks a fair task whose cgroup is throttled, the kernel panics. The
  state change to throttled is allowed, but the change of owner from the run queue to parked is
  not an allowed transition, so the assertion in \<open>set_sched_owner\<close> fails, however the picking
  loop goes on.\<close>

lemma throttled_peer_panics:
  assumes "pick_next rt_ok (k_queues k cpu) = (Some p, q)"
    and "k_procs k p = Some pr" "pr_state pr = StRunnable" "pr_owner pr = OwnRunnable c"
    and "cg_throttled pr k"
  shows "\<exists>pr1. set_state StCgroupThrottled pr = Some pr1 \<and> set_sched_owner (OwnParked 0) pr1 = None
    \<and> (\<forall>n. tick_pick (Suc n) rt_ok cpu k = None)"
proof -
  let ?pr1 = "pr\<lparr>pr_state := StCgroupThrottled\<rparr>"
  have 1: "set_state StCgroupThrottled pr = Some ?pr1"
    using assms(3,4) by (simp add: set_state_def state_transition_ok_def state_owner_consistent_def)
  have 2: "set_sched_owner (OwnParked 0) ?pr1 = None"
    using assms(4) by (intro runnable_to_parked_panics) simp
  have 3: "cg_throttled pr (upd_queue cpu q k)"
    using assms(5) by (simp add: cg_throttled_def split: option.splits)
  show ?thesis using 1 2 3 assms(1,2) by simp
qed

text \<open>A runnable task of a group with exhausted quota, alone on the run queue.\<close>

definition throttled_kernel :: kernel where
  "throttled_kernel = demo_kernel\<lparr>
     k_procs := [Pid 7 \<mapsto> demo_proc\<lparr>pr_state := StRunnable, pr_owner := OwnRunnable 1,
       pr_cgroup := Some 0\<rparr>],
     k_queues := (\<lambda>_. rq_new)(1 := rq_new\<lparr>rq_cfs := [((5, 7), 1024)], rq_cfs_load := 1024\<rparr>),
     k_cgroups := \<lambda>_. \<lparr>cc_max = Some (1000, 100000), cc_weight = 100, cc_period_start_ns = 0,
       cc_period_runtime_ns = 2000000, cc_throttled = True\<rparr>\<rparr>"

lemma throttled_peer_panics_witness:
  "tick_pick 10 True 1 throttled_kernel = None"
proof -
  let ?q = "k_queues throttled_kernel 1"
  have rt: "pick_rt ?q = None"
    by (simp add: throttled_kernel_def pick_rt_def rq_new_def)
  have "pick_next True ?q = pick_cfs ?q"
    using rt by (simp add: pick_next_def throttled_kernel_def rq_new_def)
  then have p: "pick_next True ?q = (Some (Pid 7), snd (pick_cfs ?q))"
    by (simp add: pick_cfs_def throttled_kernel_def Let_def)
  have "\<forall>n. tick_pick (Suc n) True 1 throttled_kernel = None"
    using throttled_peer_panics [OF p, of _ 1]
    by (auto simp: throttled_kernel_def demo_proc_def demo_sched_def cg_throttled_def)
  then have "tick_pick (Suc 9) True 1 throttled_kernel = None" by blast
  then show ?thesis by simp
qed

section \<open>Replenishment of a deadline task\<close>

lemma ucast_pid_key [simp]: "ucast (ucast (x :: u32) :: u64) = x"
  by (rule bit_word_eqI) (simp add: bit_unsigned_iff)

lemma count_deadline_key:
  assumes "rq_wf q" "(dl, pid_raw p) \<in> fst ` set (rq_deadline q)" "count (rq_pids q) p = 1" "dl' \<noteq> dl"
  shows "(dl', pid_raw p) \<notin> fst ` set (rq_deadline q)"
proof
  assume "(dl', pid_raw p) \<in> fst ` set (rq_deadline q)"
  then have in': "((dl', pid_raw p), ()) \<in> set (om_remove (dl, pid_raw p) (rq_deadline q))"
    using assms(4) by (auto simp: set_om_remove)
  have "((dl, pid_raw p), ()) \<in> set (rq_deadline q)" "om_wf (rq_deadline q)"
    using assms(1,2) by (auto simp: rq_wf_def)
  then have m: "mset (rq_deadline q)
      = add_mset ((dl, pid_raw p), ()) (mset (om_remove (dl, pid_raw p) (rq_deadline q)))"
    by (intro mset_om_remove)
  have "p \<in># image_mset (\<lambda>e. Pid (snd (fst e))) (mset (om_remove (dl, pid_raw p) (rq_deadline q)))"
    using in' by force
  then have "0 < count (image_mset (\<lambda>e. Pid (snd (fst e)))
      (mset (om_remove (dl, pid_raw p) (rq_deadline q)))) p"
    by (simp only: count_greater_zero_iff)
  then show False using assms(3) unfolding rq_pids_def mset_map m
    by (simp del: count_greater_zero_iff)
qed

text \<open>when the replenishment timer of a deadline task fires while the task is runnable and
  queued, the task is queued a second time under its new deadline; the stale entry stays.\<close>

lemma dl_replenish_queues_twice:
  assumes "k_procs k p = Some pr" "se_sched_class (pr_sched pr) = Deadline rt rel pe"
    and "pr_state pr = StRunnable" "pr_owner pr = OwnRunnable c"
    and "home = se_home_cpu (pr_sched pr)" "unat home < MAX_CPUS"
    and "rq_wf (k_queues k home)" "count (rq_pids (k_queues k home)) p = 1"
    and "(se_dl_absolute_deadline (pr_sched pr), pid_raw p) \<in> fst ` set (rq_deadline (k_queues k home))"
    and "saturating_add (se_dl_absolute_deadline (pr_sched pr)) pe \<noteq> se_dl_absolute_deadline (pr_sched pr)"
  shows "\<exists>k'. dl_replenish_callback bs (ucast (pid_raw p)) k = Some k'
    \<and> count (rq_pids (k_queues k' home)) p = 2"
proof -
  define dl' where "dl' = saturating_add (se_dl_absolute_deadline (pr_sched pr)) pe"
  let ?pr1 = "upd_sched (\<lambda>s. s\<lparr>se_dl_runtime_remaining := rt, se_dl_absolute_deadline := dl',
      se_dl_next_replenish := dl', se_dl_throttled := False\<rparr>) pr"
  let ?pr3 = "?pr1\<lparr>pr_owner := OwnRunnable home\<rparr>"
  let ?k = "upd_proc p ?pr3 (upd_proc p ?pr1 k)"
  have own: "set_sched_owner (OwnRunnable home) ?pr1 = Some ?pr3"
    using assms(3,4) by (simp add: set_sched_owner_def state_owner_consistent_def)
  obtain k2 where k2: "enqueue_on home p ?pr3 PlaceContinuing ?k = Some k2"
    using enqueue_on_eq [OF assms(6)] by blast
  have q: "k_queues k2 home = enqueue_deadline p dl' (k_queues k home)"
    using enqueue_on_SomeD(3) [OF k2] assms(2)
    by (simp add: rq_enqueue_def enqueue_data_from_proc_def)
  have "(dl', pid_raw p) \<notin> fst ` set (rq_deadline (k_queues k home))"
    using count_deadline_key [OF assms(7,9,8)] assms(10) by (simp add: dl'_def)
  then have "rq_pids (k_queues k2 home) = add_mset p (rq_pids (k_queues k home))"
    by (simp add: q enqueue_deadline_def rq_pids_def mset_om_insert_absent)
  then have "count (rq_pids (k_queues k2 home)) p = 2" using assms(8) by simp
  moreover have "dl_replenish_callback bs (ucast (pid_raw p)) k
      = Some (k2\<lparr>k_callbacks := register_callback bs dl' (ucast (pid_raw p)) DlReplenish (k_callbacks k2)\<rparr>)"
    using assms(1-3) own k2 assms(5)
    by (simp add: dl_replenish_callback_def Let_def is_deadline_def flip: dl'_def)
  ultimately show ?thesis by simp
qed

definition dl_kernel :: kernel where
  "dl_kernel = demo_kernel\<lparr>
     k_procs := [Pid 7 \<mapsto> demo_proc\<lparr>pr_state := StRunnable, pr_owner := OwnRunnable 1,
       pr_sched := demo_sched\<lparr>se_sched_class := Deadline 10 100 100,
         se_dl_absolute_deadline := 500\<rparr>\<rparr>],
     k_queues := (\<lambda>_. rq_new)(1 := rq_new\<lparr>rq_deadline := [((500, 7), ())]\<rparr>)\<rparr>"

lemma dl_replenish_queues_twice_witness:
  "\<exists>k'. dl_replenish_callback lower_bound 7 dl_kernel = Some k'
    \<and> count (rq_pids (k_queues k' 1)) (Pid 7) = 2"
proof -
  have q: "rq_pids (k_queues dl_kernel 1) = {#Pid 7#}"
    by (simp add: dl_kernel_def rq_pids_def rq_new_def)
  have wf: "rq_wf (k_queues dl_kernel 1)"
    using rq_new_wf by (simp add: dl_kernel_def rq_wf_def)
  let ?pr = "demo_proc\<lparr>pr_state := StRunnable, pr_owner := OwnRunnable 1,
       pr_sched := demo_sched\<lparr>se_sched_class := Deadline 10 100 100,
         se_dl_absolute_deadline := 500\<rparr>\<rparr>"
  have "k_procs dl_kernel (Pid 7) = Some ?pr" by (simp add: dl_kernel_def)
  from dl_replenish_queues_twice [OF this, of 10 100 100 1 1 lower_bound] q wf
  show ?thesis
    by (simp add: dl_kernel_def demo_sched_def saturating_add_def)
qed

section \<open>Priority inheritance\<close>

lemma enqueue_on_procD:
  "enqueue_on cpu p pr kind k = Some k' \<Longrightarrow>
     (\<exists>v. k_procs k' p = Some (upd_sched (\<lambda>s. s\<lparr>se_vruntime := v\<rparr>) pr)) \<and> k_callbacks k' = k_callbacks k"
  by (metis enqueue_on_SomeD(2,4) fun_upd_same)

lemma set_sched_owner_schedD:
  "set_sched_owner new pr = Some pr' \<Longrightarrow> \<exists>b. pr_sched pr' = (pr_sched pr)\<lparr>se_parking_unsaved := b\<rparr>"
  using set_sched_owner_SomeD(4) by blast

lemma set_sched_class_keeps:
  assumes "set_sched_class target c k = Some (Inr (), k')" "k_procs k target = Some pr"
  shows "\<exists>pr'. k_procs k' target = Some pr' \<and> se_sched_class (pr_sched pr') = c
    \<and> se_pi_orig_class (pr_sched pr') = se_pi_orig_class (pr_sched pr)
    \<and> (is_deadline (se_sched_class (pr_sched pr)) \<and> \<not> is_deadline c \<longrightarrow>
         se_dl_runtime_remaining (pr_sched pr') = 0
         \<and> (\<forall>e \<in> set (k_callbacks k'). cb_key e \<noteq> ucast (pid_raw target)))
    \<and> (\<not> (is_deadline (se_sched_class (pr_sched pr)) \<and> \<not> is_deadline c) \<longrightarrow>
         se_dl_runtime_remaining (pr_sched pr') = se_dl_runtime_remaining (pr_sched pr)
         \<and> k_callbacks k' = k_callbacks k)"
  using assms
  by (auto simp: set_sched_class_def Let_def cancel_callback_def
      dest!: set_state_SomeD enqueue_on_procD set_sched_owner_schedD
      split: if_splits option.splits)

text \<open>priority inheritance and deadline tasks. Boosting a holder and then dropping all
  waiters restores the scheduling class the holder had. For a deadline task that is not enough:
  its runtime budget is then zero and the timer that would replenish it is gone.\<close>

lemma pi_boost_refresh:
  assumes "k_procs k h = Some pr" "se_pi_orig_class (pr_sched pr) = None"
    and "class_rt_prio (se_sched_class (pr_sched pr)) < prio"
    and "pi_boost h prio k = Some (True, k1)" "pi_refresh h 0 k1 = Some (b, k2)"
  shows "b \<and> (\<exists>pr2. k_procs k2 h = Some pr2
      \<and> se_sched_class (pr_sched pr2) = se_sched_class (pr_sched pr)
      \<and> se_pi_orig_class (pr_sched pr2) = None
      \<and> (is_deadline (se_sched_class (pr_sched pr)) \<longrightarrow>
           se_dl_runtime_remaining (pr_sched pr2) = 0
           \<and> (\<forall>e \<in> set (k_callbacks k2). cb_key e \<noteq> ucast (pid_raw h))))"
proof -
  let ?c = "se_sched_class (pr_sched pr)"
  let ?pr1 = "upd_sched (\<lambda>s. s\<lparr>se_pi_orig_class := Some (se_sched_class s)\<rparr>) pr"
  have nd: "\<not> is_deadline (Rt prio False)" by (simp add: is_deadline_def)
  from assms(1-4) obtain r where b1: "set_sched_class h (Rt prio False) (upd_proc h ?pr1 k) = Some (r, k1)"
    by (auto simp: pi_boost_def split: if_splits)
  have r: "r = Inr ()"
    using b1 by (auto simp: set_sched_class_def Let_def split: if_splits option.splits)
  obtain pr1' where p1: "k_procs k1 h = Some pr1'" "se_sched_class (pr_sched pr1') = Rt prio False"
    "se_pi_orig_class (pr_sched pr1') = Some ?c"
    and dl1: "is_deadline ?c \<Longrightarrow> se_dl_runtime_remaining (pr_sched pr1') = 0
       \<and> (\<forall>e \<in> set (k_callbacks k1). cb_key e \<noteq> ucast (pid_raw h))"
    using set_sched_class_keeps [OF b1 [unfolded r]] nd by auto
  let ?pr2 = "upd_sched (\<lambda>s. s\<lparr>se_pi_orig_class := None\<rparr>) pr1'"
  from assms(5) p1 obtain r2 where b2: "set_sched_class h ?c (upd_proc h ?pr2 k1) = Some (r2, k2)" "b"
    by (auto simp: pi_refresh_def Let_def max_def split: if_splits)
  have r2: "r2 = Inr ()"
    using b2(1) by (auto simp: set_sched_class_def Let_def split: if_splits option.splits)
  show ?thesis
    using set_sched_class_keeps [OF b2(1) [unfolded r2]] b2(2) dl1 p1(2)
    by (auto simp: is_deadline_def)
qed

lemma set_sched_class_running:
  assumes "k_procs k t = Some pr" "pr_state pr = StRunning" "unat (se_home_cpu (pr_sched pr)) < MAX_CPUS"
  obtains k' pr' where "set_sched_class t c k = Some (Inr (), k')" "k_procs k' t = Some pr'"
    "pr_state pr' = StRunning" "se_home_cpu (pr_sched pr') = se_home_cpu (pr_sched pr)"
    "se_pi_orig_class (pr_sched pr') = se_pi_orig_class (pr_sched pr)"
    "se_sched_class (pr_sched pr') = c"
proof -
  have "\<exists>k' pr'. set_sched_class t c k = Some (Inr (), k') \<and> k_procs k' t = Some pr'
    \<and> pr_state pr' = StRunning \<and> se_home_cpu (pr_sched pr') = se_home_cpu (pr_sched pr)
    \<and> se_pi_orig_class (pr_sched pr') = se_pi_orig_class (pr_sched pr)
    \<and> se_sched_class (pr_sched pr') = c"
    using assms by (simp add: set_sched_class_def Let_def)
  then show ?thesis using that by blast
qed

definition dl_running :: process where
  "dl_running = demo_proc\<lparr>pr_state := StRunning, pr_owner := OwnRunning 1,
     pr_sched := demo_sched\<lparr>se_sched_class := Deadline 10 100 100,
       se_dl_runtime_remaining := 10\<rparr>\<rparr>"

lemma pi_boost_refresh_witness:
  "\<exists>k1 k2 pr2. pi_boost (Pid 7) 50 (demo_kernel\<lparr>k_procs := [Pid 7 \<mapsto> dl_running]\<rparr>) = Some (True, k1)
    \<and> pi_refresh (Pid 7) 0 k1 = Some (True, k2) \<and> k_procs k2 (Pid 7) = Some pr2
    \<and> se_sched_class (pr_sched pr2) = Deadline 10 100 100 \<and> se_dl_runtime_remaining (pr_sched pr2) = 0"
proof -
  let ?k = "demo_kernel\<lparr>k_procs := [Pid 7 \<mapsto> dl_running]\<rparr>"
  let ?pr1 = "upd_sched (\<lambda>s. s\<lparr>se_pi_orig_class := Some (se_sched_class s)\<rparr>) dl_running"
  have d: "se_sched_class (pr_sched dl_running) = Deadline 10 100 100" "pr_state dl_running = StRunning"
    "se_pi_orig_class (pr_sched dl_running) = None" "unat (se_home_cpu (pr_sched dl_running)) < MAX_CPUS"
    by (simp_all add: dl_running_def demo_sched_def)
  obtain k1 p1 where 1: "set_sched_class (Pid 7) (Rt 50 False) (upd_proc (Pid 7) ?pr1 ?k) = Some (Inr (), k1)"
    "k_procs k1 (Pid 7) = Some p1" "pr_state p1 = StRunning"
    "se_home_cpu (pr_sched p1) = se_home_cpu (pr_sched dl_running)"
    "se_pi_orig_class (pr_sched p1) = Some (Deadline 10 100 100)"
    "se_sched_class (pr_sched p1) = Rt 50 False"
    using set_sched_class_running [of "upd_proc (Pid 7) ?pr1 ?k" "Pid 7" ?pr1 "Rt 50 False"] d by auto
  have b: "pi_boost (Pid 7) 50 ?k = Some (True, k1)"
    using 1(1) d by (simp add: pi_boost_def class_rt_prio_def)
  obtain k2 p2 where 2: "set_sched_class (Pid 7) (Deadline 10 100 100)
      (upd_proc (Pid 7) (upd_sched (\<lambda>s. s\<lparr>se_pi_orig_class := None\<rparr>) p1) k1) = Some (Inr (), k2)"
    using set_sched_class_running [of "upd_proc (Pid 7) (upd_sched (\<lambda>s. s\<lparr>se_pi_orig_class := None\<rparr>) p1) k1"
        "Pid 7" "upd_sched (\<lambda>s. s\<lparr>se_pi_orig_class := None\<rparr>) p1" "Deadline 10 100 100"] 1 d by auto
  have r: "pi_refresh (Pid 7) 0 k1 = Some (True, k2)"
    using 1 2 by (simp add: pi_refresh_def Let_def class_rt_prio_def)
  have "k_procs ?k (Pid 7) = Some dl_running" by simp
  from pi_boost_refresh [OF this d(3) _ b r] b r d(1) show ?thesis
    by (auto simp: class_rt_prio_def is_deadline_def)
qed

end
