(* ===== verification/Dispatch.thy ===== *)
theory Dispatch
  imports Scheduler
begin

text \<open>
  Dispatching and stealing (\<open>kernel/src/core/dispatch.rs\<close>): the state change of
  \<open>switch_to_pid\<close>, up to the context switch, and work stealing between processors. Both run
  under the run-queue lock of a processor and the global lock. Loading the address space, the
  restartable-sequence words and the register switch itself are outside the model.
\<close>

section \<open>Operations\<close>

definition switch_to_pid :: "u32 \<Rightarrow> pid \<Rightarrow> kernel \<Rightarrow> kernel option" where
  "switch_to_pid cpu p k =
     (case k_procs k p of
        None \<Rightarrow> None
      | Some pr \<Rightarrow>
          if state_is_terminal (pr_state pr) then Some k
          else case set_state StRunning pr of
            None \<Rightarrow> None
          | Some pr1 \<Rightarrow>
              (case set_sched_owner (OwnRunning cpu) pr1 of
                 None \<Rightarrow> None
               | Some pr2 \<Rightarrow>
                   Some ((upd_proc p (upd_sched (\<lambda>s. s\<lparr>se_last_run_ns := k_now k\<rparr>) pr2) k)
                     \<lparr>k_current := (k_current k)(cpu \<mapsto> p)\<rparr>)))"

text \<open>The first locked section of \<open>try_steal_one_to_local\<close>: take the next task of a peer, or
  put it back where it must not be stolen.\<close>

definition steal_skip :: "u32 \<Rightarrow> pid \<Rightarrow> kernel \<Rightarrow> bool" where
  "steal_skip me p k =
     (case k_procs k p of
        None \<Rightarrow> False
      | Some pr \<Rightarrow> se_parking_unsaved (pr_sched pr)
          \<or> \<not> affinity_allows (se_cpu_affinity (pr_sched pr)) me
          \<or> state_is_terminal (pr_state pr))"

definition steal_from :: "bool \<Rightarrow> u32 \<Rightarrow> u32 \<Rightarrow> kernel \<Rightarrow> (pid option \<times> u64 \<times> kernel) option" where
  "steal_from rt_ok me peer k =
     (let peer_min = rq_cfs_min_vruntime (k_queues k peer) in
      case pick_next rt_ok (k_queues k peer) of
        (None, q) \<Rightarrow> Some (None, peer_min, upd_queue peer q k)
      | (Some p, q) \<Rightarrow>
          (let k1 = upd_queue peer q k in
           if steal_skip me p k1 then
             (case k_procs k1 p of
                None \<Rightarrow> Some (None, peer_min, k1)
              | Some pr \<Rightarrow>
                  map_option (\<lambda>k2. (None, peer_min, k2)) (enqueue_on peer p pr PlaceContinuing k1))
           else Some (Some p, peer_min, k1)))"

text \<open>The second one, on the local queue. It has the same effect as \<open>migrate_dispatched_to\<close>
  apart from the result.\<close>

definition steal_place :: "u32 \<Rightarrow> pid \<Rightarrow> u64 \<Rightarrow> kernel \<Rightarrow> (pid option \<times> kernel) option" where
  "steal_place me p peer_min_vr k =
     (let me_min_vr = rq_cfs_min_vruntime (k_queues k me) in
      case k_procs k p of
        None \<Rightarrow> Some (None, k)
      | Some pr \<Rightarrow>
          if state_is_terminal (pr_state pr) then Some (None, k)
          else case set_sched_owner (OwnRunnable me) (upd_sched (\<lambda>s. s\<lparr>se_home_cpu := me\<rparr>) pr) of
            None \<Rightarrow> None
          | Some pr1 \<Rightarrow>
              (let pr2 = (if se_sched_class (pr_sched pr1) = Cfs
                   then upd_sched (\<lambda>s. s\<lparr>se_vruntime := saturating_add
                     (saturating_sub (se_vruntime s) peer_min_vr) me_min_vr\<rparr>) pr1 else pr1)
               in map_option (\<lambda>k1. (Some p, k1))
                    (enqueue_on me p pr2 PlaceContinuing (upd_proc p pr2 k))))"

fun try_steal_from :: "bool \<Rightarrow> u32 \<Rightarrow> nat list \<Rightarrow> kernel \<Rightarrow> (pid option \<times> kernel) option" where
  "try_steal_from rt_ok me [] k = Some (None, k)"
| "try_steal_from rt_ok me (off # offs) k =
     (case steal_from rt_ok me (of_nat ((unat me + off) mod MAX_CPUS)) k of
        None \<Rightarrow> None
      | Some (None, _, k1) \<Rightarrow> try_steal_from rt_ok me offs k1
      | Some (Some p, peer_min_vr, k1) \<Rightarrow> steal_place me p peer_min_vr k1)"

definition try_steal_one_to_local :: "bool \<Rightarrow> u32 \<Rightarrow> kernel \<Rightarrow> (pid option \<times> kernel) option" where
  "try_steal_one_to_local rt_ok me k = try_steal_from rt_ok me [1..<MAX_CPUS] k"

section \<open>Stealing loses and duplicates no task\<close>

definition queued :: "kernel \<Rightarrow> pid multiset" where
  "queued k = (\<Sum>c<MAX_CPUS. rq_pids (k_queues k (of_nat c)))"

text \<open>What the scheduler state machine sees of a process.\<close>

definition run_state :: "kernel \<Rightarrow> pid \<Rightarrow> (process_state \<times> sched_owner) option" where
  "run_state k p = map_option (\<lambda>pr. (pr_state pr, pr_owner pr)) (k_procs k p)"

fun may_queue :: "process_state \<times> sched_owner \<Rightarrow> bool" where
  "may_queue (st, ow) \<longleftrightarrow> state_is_terminal st \<or> st = StRunnable \<and> (\<exists>c. ow = OwnRunnable c)"

text \<open>Every queued task exists, is queued once, and is runnable or dead.\<close>

definition queued_ok :: "kernel \<Rightarrow> bool" where
  "queued_ok k \<longleftrightarrow> (\<forall>cpu. rq_wf (k_queues k cpu)) \<and> (\<forall>p. count (queued k) p \<le> 1)
     \<and> (\<forall>p. p \<in># queued k \<longrightarrow> (\<exists>s. run_state k p = Some s \<and> may_queue s))"

lemma queued_split:
  assumes "unat cpu < MAX_CPUS"
  shows "queued k = rq_pids (k_queues k cpu)
    + (\<Sum>c\<in>{..<MAX_CPUS} - {unat cpu}. rq_pids (k_queues k (of_nat c)))"
  using assms by (simp add: queued_def sum.remove [of _ "unat cpu"])

lemma queued_update:
  assumes "unat cpu < MAX_CPUS" "k_queues k' = (k_queues k)(cpu := q)"
  shows "queued k' + rq_pids (k_queues k cpu) = queued k + rq_pids q"
proof -
  have "(\<Sum>c\<in>{..<MAX_CPUS} - {unat cpu}. rq_pids (k_queues k' (of_nat c)))
      = (\<Sum>c\<in>{..<MAX_CPUS} - {unat cpu}. rq_pids (k_queues k (of_nat c)))"
  proof (rule sum.cong [OF refl])
    fix c assume "c \<in> {..<MAX_CPUS} - {unat cpu}"
    then have "unat (of_nat c :: u32) = c" "c \<noteq> unat cpu" by (auto intro!: unat_of_nat_small)
    then have "(of_nat c :: u32) \<noteq> cpu" by metis
    then show "rq_pids (k_queues k' (of_nat c)) = rq_pids (k_queues k (of_nat c))"
      using assms(2) by simp
  qed
  then show ?thesis using queued_split [OF assms(1)] assms(2) by (simp add: ac_simps)
qed

lemma queue_subset_queued: "unat cpu < MAX_CPUS \<Longrightarrow> rq_pids (k_queues k cpu) \<subseteq># queued k"
  by (simp add: queued_split)

lemma enqueue_on_queued:
  assumes "enqueue_on cpu p pr kind k = Some k'" "\<forall>c. rq_wf (k_queues k c)" "p \<notin># queued k"
  shows "queued k' = add_mset p (queued k)" "\<forall>c. rq_wf (k_queues k' c)"
    "run_state k' = (run_state k)(p \<mapsto> (pr_state pr, pr_owner pr))"
    "p \<in># rq_pids (k_queues k' cpu)"
    "k_procs k' p = Some (upd_sched (\<lambda>s. s\<lparr>se_vruntime := fst (rq_enqueue p
        (enqueue_data_from_proc pr k) kind (k_queues k cpu))\<rparr>) pr)"
proof -
  note e = enqueue_on_SomeD [OF assms(1)]
  let ?q = "snd (rq_enqueue p (enqueue_data_from_proc pr k) kind (k_queues k cpu))"
  have cpu: "unat cpu < MAX_CPUS" using assms(1) by (auto simp: enqueue_on_def split: if_splits)
  have "p \<notin># rq_pids (k_queues k cpu)"
    using assms(3) queue_subset_queued [OF cpu, of k] by (auto dest: mset_subset_eqD)
  then have q: "rq_pids ?q = add_mset p (rq_pids (k_queues k cpu))"
    using assms(2) rq_enqueue_pids by blast
  then show "queued k' = add_mset p (queued k)"
    using queued_update [OF cpu e(3)] by (simp add: e)
  show "\<forall>c. rq_wf (k_queues k' c)" using assms(2) e by (simp add: rq_enqueue_wf)
  show "run_state k' = (run_state k)(p \<mapsto> (pr_state pr, pr_owner pr))"
    using e by (auto simp: run_state_def)
  show "p \<in># rq_pids (k_queues k' cpu)" using e q by simp
  show "k_procs k' p = Some (upd_sched (\<lambda>s. s\<lparr>se_vruntime := fst (rq_enqueue p
        (enqueue_data_from_proc pr k) kind (k_queues k cpu))\<rparr>) pr)" using e by simp
qed

lemma queued_ok_requeue:
  assumes k: "\<forall>c. rq_wf (k_queues k c)" "\<forall>q. count (queued k) q \<le> 1"
      "\<forall>q. q \<in># queued k \<longrightarrow> (\<exists>s. run_state k q = Some s \<and> may_queue s)"
    and p: "p \<notin># queued k" "may_queue (pr_state pr, pr_owner pr)"
    and e: "enqueue_on cpu p pr kind k = Some k'"
  shows "queued_ok k'"
proof -
  note q = enqueue_on_queued [OF e k(1) p(1)]
  have "count (queued k') x \<le> 1" for x
    using k(2) p(1) q(1) by (cases "x = p") (simp_all add: count_eq_zero_iff)
  moreover have "\<exists>s. run_state k' x = Some s \<and> may_queue s" if "x \<in># queued k'" for x
    using k(3) p(2) q(1,3) that by auto
  ultimately show ?thesis using q(2) by (simp add: queued_ok_def)
qed

lemma steal_from_ok:
  assumes ok: "queued_ok k" and cpu: "unat peer < MAX_CPUS"
  shows "\<exists>r m k1. steal_from rt_ok me peer k = Some (r, m, k1) \<and>
    (case r of
       None \<Rightarrow> queued_ok k1 \<and> queued k1 = queued k
     | Some p \<Rightarrow> queued k = add_mset p (queued k1) \<and> k_procs k1 = k_procs k
         \<and> \<not> steal_skip me p k \<and> (\<forall>c. rq_wf (k_queues k1 c)))"
proof -
  let ?q = "k_queues k peer"
  obtain r q where pn: "pick_next rt_ok ?q = (r, q)" by fastforce
  have wf: "rq_wf ?q" using ok by (simp add: queued_ok_def)
  note pick = pick_next_pids [OF wf pn]
  let ?k1 = "upd_queue peer q k"
  have tot: "queued k = (case r of None \<Rightarrow> {#} | Some p \<Rightarrow> {#p#}) + queued ?k1"
    using queued_update [OF cpu, of ?k1 k q] pick(2) by (simp add: ac_simps)
  have wf1: "\<forall>c. rq_wf (k_queues ?k1 c)" using ok pick(1) by (simp add: queued_ok_def)
  have rs: "run_state ?k1 = run_state k" by (simp add: run_state_def fun_eq_iff)
  show ?thesis
  proof (cases r)
    case None
    then show ?thesis using pn tot ok rs wf1 by (simp add: steal_from_def queued_ok_def)
  next
    case (Some p)
    have add: "queued k = add_mset p (queued ?k1)" using tot Some by simp
    have skip: "steal_skip me p ?k1 = steal_skip me p k" by (simp add: steal_skip_def)
    show ?thesis
    proof (cases "steal_skip me p k")
      case False
      then show ?thesis using pn Some add wf1 skip by (simp add: steal_from_def)
    next
      case True
      have "p \<in># queued k" using add by simp
      then obtain pr where pr: "k_procs k p = Some pr" "may_queue (pr_state pr, pr_owner pr)"
        using ok by (auto simp: queued_ok_def run_state_def)
      have le: "count (queued k) x \<le> 1" for x using ok by (simp add: queued_ok_def)
      have np: "p \<notin># queued ?k1"
        using le [of p] add by (simp add: count_eq_zero_iff [symmetric])
      have le1: "\<forall>x. count (queued ?k1) x \<le> 1"
        using le add by (metis count_add_mset le_Suc_eq nat_le_linear not_less_eq_eq)
      have mq: "\<forall>x. x \<in># queued ?k1 \<longrightarrow> (\<exists>s. run_state ?k1 x = Some s \<and> may_queue s)"
        using ok add rs by (simp add: queued_ok_def)
      obtain k2 where e: "enqueue_on peer p pr PlaceContinuing ?k1 = Some k2"
        using enqueue_on_eq [OF cpu] by blast
      have "queued_ok k2" by (rule queued_ok_requeue [OF wf1 le1 mq np pr(2) e])
      moreover have "queued k2 = queued k" using enqueue_on_queued(1) [OF e wf1 np] add by simp
      ultimately show ?thesis using pn Some True skip e pr(1) by (simp add: steal_from_def)
    qed
  qed
qed

lemma steal_place_ok:
  assumes wf: "\<forall>c. rq_wf (k_queues k1 c)" and ok: "queued_ok k" and add: "queued k = add_mset p (queued k1)"
    and procs: "k_procs k1 = k_procs k" and skip: "\<not> steal_skip me p k" and me: "unat me < MAX_CPUS"
  shows "\<exists>k'. steal_place me p m k1 = Some (Some p, k') \<and> queued_ok k' \<and> queued k' = queued k
    \<and> p \<in># rq_pids (k_queues k' me)
    \<and> (\<exists>pr. k_procs k' p = Some pr \<and> se_home_cpu (pr_sched pr) = me \<and> pr_owner pr = OwnRunnable me
         \<and> affinity_allows (se_cpu_affinity (pr_sched pr)) me)"
proof -
  have "p \<in># queued k" using add by simp
  then obtain pr c where pr: "k_procs k p = Some pr" "pr_state pr = StRunnable"
    "pr_owner pr = OwnRunnable c" "affinity_allows (se_cpu_affinity (pr_sched pr)) me"
    using ok skip by (auto simp: queued_ok_def run_state_def steal_skip_def)
  have le: "count (queued k) x \<le> 1" for x using ok by (simp add: queued_ok_def)
  have np: "p \<notin># queued k1" using le [of p] add by (simp add: count_eq_zero_iff [symmetric])
  have le1: "\<forall>x. count (queued k1) x \<le> 1"
    using le add by (metis count_add_mset le_Suc_eq nat_le_linear not_less_eq_eq)
  let ?pr1 = "(upd_sched (\<lambda>s. s\<lparr>se_home_cpu := me\<rparr>) pr)\<lparr>pr_owner := OwnRunnable me\<rparr>"
  define pr2 where "pr2 = (if se_sched_class (pr_sched ?pr1) = Cfs
      then upd_sched (\<lambda>s. s\<lparr>se_vruntime := saturating_add (saturating_sub (se_vruntime s) m)
        (rq_cfs_min_vruntime (k_queues k1 me))\<rparr>) ?pr1 else ?pr1)"
  have so: "set_sched_owner (OwnRunnable me) (upd_sched (\<lambda>s. s\<lparr>se_home_cpu := me\<rparr>) pr) = Some ?pr1"
    using pr by (simp add: set_sched_owner_def state_owner_consistent_def)
  have pr2: "pr_state pr2 = StRunnable" "pr_owner pr2 = OwnRunnable me"
    "se_home_cpu (pr_sched pr2) = me" "se_cpu_affinity (pr_sched pr2) = se_cpu_affinity (pr_sched pr)"
    using pr by (simp_all add: pr2_def upd_sched_def)
  let ?k2 = "upd_proc p pr2 k1"
  have q2: "queued ?k2 = queued k1" by (simp add: queued_def)
  have mq: "\<forall>x. x \<in># queued ?k2 \<longrightarrow> (\<exists>s. run_state ?k2 x = Some s \<and> may_queue s)"
  proof -
    have "run_state ?k2 x = run_state k x" if "x \<in># queued k1" for x
      using that np procs by (cases "x = p") (simp_all add: run_state_def)
    then show ?thesis using ok add q2 by (simp add: queued_ok_def)
  qed
  obtain k' where e: "enqueue_on me p pr2 PlaceContinuing ?k2 = Some k'"
    using enqueue_on_eq [OF me] by blast
  have wf2: "\<forall>c. rq_wf (k_queues ?k2 c)" and np2: "p \<notin># queued ?k2" using wf np q2 by simp_all
  note q = enqueue_on_queued [OF e wf2 np2]
  have "queued_ok k'"
    using queued_ok_requeue [OF wf2 _ mq np2 _ e] le1 q2 pr2 by simp
  moreover have "steal_place me p m k1 = Some (Some p, k')"
    using pr procs so e by (simp add: steal_place_def Let_def pr2_def)
  ultimately show ?thesis using q q2 add pr2 pr(4) by simp
qed

lemma peer_less: "unat (of_nat ((a + b) mod MAX_CPUS) :: u32) < MAX_CPUS"
proof -
  have "(a + b) mod MAX_CPUS < MAX_CPUS" by simp
  then have "unat (of_nat ((a + b) mod MAX_CPUS) :: u32) = (a + b) mod MAX_CPUS"
    by (intro unat_of_nat_small) simp
  then show ?thesis by simp
qed

definition stolen_ok :: "u32 \<Rightarrow> pid option \<Rightarrow> kernel \<Rightarrow> bool" where
  "stolen_ok me r k = (case r of None \<Rightarrow> True
     | Some p \<Rightarrow> p \<in># rq_pids (k_queues k me) \<and> (\<exists>pr. k_procs k p = Some pr
         \<and> se_home_cpu (pr_sched pr) = me \<and> pr_owner pr = OwnRunnable me
         \<and> affinity_allows (se_cpu_affinity (pr_sched pr)) me))"

lemma try_steal_from_ok:
  assumes "queued_ok k" "unat me < MAX_CPUS"
  shows "\<exists>r k'. try_steal_from rt_ok me offs k = Some (r, k') \<and> queued_ok k' \<and> queued k' = queued k
    \<and> stolen_ok me r k'"
  using assms
proof (induction offs arbitrary: k)
  case (Cons off offs)
  let ?peer = "of_nat ((unat me + off) mod MAX_CPUS) :: u32"
  obtain r m k1 where s: "steal_from rt_ok me ?peer k = Some (r, m, k1)"
    "case r of None \<Rightarrow> queued_ok k1 \<and> queued k1 = queued k
     | Some p \<Rightarrow> queued k = add_mset p (queued k1) \<and> k_procs k1 = k_procs k
         \<and> \<not> steal_skip me p k \<and> (\<forall>c. rq_wf (k_queues k1 c))"
    using steal_from_ok [OF Cons.prems(1) peer_less, of rt_ok me "unat me" off] by blast
  show ?case
  proof (cases r)
    case None
    then show ?thesis using s Cons.IH [of k1] Cons.prems by simp
  next
    case (Some p)
    then show ?thesis
      using s steal_place_ok [of k1 k p me m] Cons.prems by (auto simp: stolen_ok_def)
  qed
qed (simp add: stolen_ok_def)


definition steal_kernel :: kernel where
  "steal_kernel = demo_kernel
     \<lparr>k_procs := [Pid 7 \<mapsto> demo_proc\<lparr>pr_state := StRunnable, pr_owner := OwnRunnable 1,
        pr_sched := demo_sched\<lparr>se_parking_unsaved := False\<rparr>\<rparr>],
      k_queues := (\<lambda>_. rq_new)(1 := rq_new\<lparr>rq_cfs := [((5, 7), 1024)], rq_cfs_load := 1024\<rparr>)\<rparr>"

lemma steal_kernel_queued: "queued steal_kernel = {#Pid 7#}"
proof -
  have "{..<MAX_CPUS} = {0, 1, 2, 3}" by auto
  then show ?thesis by (simp add: queued_def steal_kernel_def rq_pids_def rq_new_def)
qed

lemma steal_kernel_ok: "queued_ok steal_kernel"
  unfolding queued_ok_def steal_kernel_queued
  by (auto simp: steal_kernel_def rq_wf_def rq_new_def om_wf_def run_state_def kconsts)


end
