(* ===== verification/Wait_Queue.thy ===== *)
theory Wait_Queue
  imports Dispatch
begin

text \<open>
  Wait queues (\<open>kernel/src/core/wait.rs\<close>), the parking functions built on them
  (\<open>kernel/src/core/park.rs\<close>) and the timer's waking of sleepers (\<open>timeout.rs\<close>).

  Everything that wakes processes goes through \<open>crate::core::wake_pid\<close>; the \<open>waker\<close> locale is
  that contract. Its clients take the waking function as an argument, and the interpretation at
  the end of the first section discharges the contract for the scheduler's \<open>wake_pid\<close>.
\<close>

section \<open>Queues and waking\<close>

type_synonym wait_queue = "pid list"

type_synonym 's wake_fn = "pid \<Rightarrow> 's \<Rightarrow> (bool \<times> 's) option"

definition wq_enqueue :: "pid \<Rightarrow> wait_queue \<Rightarrow> wait_queue" where
  "wq_enqueue p q = q @ [p]"

definition wq_dequeue :: "pid \<Rightarrow> wait_queue \<Rightarrow> wait_queue" where
  "wq_dequeue p q = filter (\<lambda>x. x \<noteq> p) q"

definition wq_contains :: "pid \<Rightarrow> wait_queue \<Rightarrow> bool" where
  "wq_contains p q \<longleftrightarrow> p \<in> set q"

definition wq_drain :: "wait_queue \<Rightarrow> pid list \<times> wait_queue" where
  "wq_drain q = (q, [])"

fun pop_one_no_wake :: "wait_queue \<Rightarrow> pid option \<times> wait_queue" where
  "pop_one_no_wake [] = (None, [])"
| "pop_one_no_wake (p # q) = (Some p, q)"

fun wake_one_pid :: "'s wake_fn \<Rightarrow> wait_queue \<Rightarrow> 's \<Rightarrow> (pid option \<times> wait_queue \<times> 's) option" where
  "wake_one_pid wake [] s = Some (None, [], s)"
| "wake_one_pid wake (p # q) s =
     (case wake p s of
        None \<Rightarrow> None
      | Some (woken, s') \<Rightarrow> if woken then Some (Some p, q, s') else wake_one_pid wake q s')"

text \<open>The loop \<open>for pid in drained { let _ = wake_pid(pid); }\<close>.\<close>

fun wake_each :: "'s wake_fn \<Rightarrow> pid list \<Rightarrow> 's \<Rightarrow> 's option" where
  "wake_each wake [] s = Some s"
| "wake_each wake (p # ps) s =
     (case wake p s of None \<Rightarrow> None | Some (_, s') \<Rightarrow> wake_each wake ps s')"

definition wake_all :: "'s wake_fn \<Rightarrow> wait_queue \<Rightarrow> 's \<Rightarrow> (wait_queue \<times> 's) option" where
  "wake_all wake q s =
     (let (drained, q') = wq_drain q in map_option (\<lambda>s'. (q', s')) (wake_each wake drained s))"

definition wake_expired :: "'s wake_fn \<Rightarrow> u64 \<Rightarrow> deadlines \<Rightarrow> 's \<Rightarrow> (deadlines \<times> 's) option" where
  "wake_expired wake now g s =
     (let (expired, g') = take_expired now g
      in map_option (\<lambda>s'. (g', s')) (wake_each wake expired s))"

section \<open>Parking on a queue\<close>

definition park_on_pre_enqueued :: "u32 \<Rightarrow> u64 \<Rightarrow> wait_queue \<Rightarrow> kernel \<Rightarrow> (wait_queue \<times> kernel) option" where
  "park_on_pre_enqueued cpu addr =
     park_current_then cpu (\<lambda>cur q k.
       (if wq_contains cur q then ParkArmed (ParkSleep addr) else ParkAbort, q, k))"

definition park_on :: "u32 \<Rightarrow> u64 \<Rightarrow> wait_queue \<Rightarrow> kernel \<Rightarrow> (wait_queue \<times> kernel) option" where
  "park_on cpu addr =
     park_current_then cpu (\<lambda>cur q k.
       let q1 = wq_enqueue cur q
       in (if wq_contains cur q1 then ParkArmed (ParkSleep addr) else ParkAbort, q1, k))"

definition park_on_pi_requeue ::
  "u32 \<Rightarrow> u64 \<Rightarrow> pid \<Rightarrow> wait_queue \<Rightarrow> kernel \<Rightarrow> (wait_queue \<times> kernel) option" where
  "park_on_pi_requeue cpu addr me =
     park_current_then cpu (\<lambda>_ q k.
       let q1 = wq_enqueue me q
       in (if wq_contains me q1 then ParkArmed (ParkSleep addr) else ParkAbort, q1, k))"

definition park_self_at_guarded :: "u32 \<Rightarrow> (kernel \<Rightarrow> bool) \<Rightarrow> kernel \<Rightarrow> kernel option" where
  "park_self_at_guarded cpu still_queued k =
     map_option snd (park_current_then cpu (\<lambda>_ w k.
       (if still_queued k then ParkArmed (ParkSleep 0) else ParkAbort, w, k)) () k)"

definition park_self_at :: "u32 \<Rightarrow> kernel \<Rightarrow> kernel option" where
  "park_self_at cpu k =
     map_option snd (park_current_then cpu (\<lambda>_ w k. (ParkArmed (ParkSleep 0), w, k)) () k)"

datatype wait_outcome = WaitWoken | WaitTimedOut | WaitInterrupted

text \<open>The result of \<open>wait_guarded\<close> once the process runs again, from whether a signal is pending
  and the clock at that time.\<close>

definition wait_result :: "u64 option \<Rightarrow> bool \<Rightarrow> u64 \<Rightarrow> wait_outcome" where
  "wait_result deadline_nanos signal_pending now =
     (if signal_pending then WaitInterrupted
      else case deadline_nanos of
        Some d \<Rightarrow> if d \<le> now then WaitTimedOut else WaitWoken
      | None \<Rightarrow> WaitWoken)"

section \<open>The contract of waking\<close>

locale waker =
  fixes wake :: "'s wake_fn"
    and parked :: "'s \<Rightarrow> pid \<Rightarrow> bool"
    and inv :: "'s \<Rightarrow> bool"
  assumes wake_law: "inv s \<Longrightarrow> \<exists>s'. wake p s = Some (parked s p, s') \<and> inv s'
    \<and> (\<forall>q. parked s' q \<longleftrightarrow> parked s q \<and> q \<noteq> p)"
begin

lemma wake_each_law:
  "inv s \<Longrightarrow> \<exists>s'. wake_each wake ps s = Some s' \<and> inv s'
    \<and> (\<forall>q. parked s' q \<longleftrightarrow> parked s q \<and> q \<notin> set ps)"
proof (induction ps arbitrary: s)
  case (Cons p ps)
  obtain s1 where 1: "wake p s = Some (parked s p, s1)" "inv s1"
    "\<forall>q. parked s1 q \<longleftrightarrow> parked s q \<and> q \<noteq> p"
    using wake_law [OF Cons.prems] by blast
  then show ?case using Cons.IH [OF 1(2)] by auto
qed simp

lemma wake_one_law:
  "inv s \<Longrightarrow> \<exists>s'. wake_one_pid wake q s
      = Some (List.find (parked s) q, tl (dropWhile (\<lambda>p. \<not> parked s p) q), s') \<and> inv s'
    \<and> (\<forall>p. parked s' p \<longleftrightarrow> parked s p \<and> List.find (parked s) q \<noteq> Some p)"
proof (induction q arbitrary: s)
  case (Cons p q)
  obtain s1 where 1: "wake p s = Some (parked s p, s1)" "inv s1"
    "\<forall>q. parked s1 q \<longleftrightarrow> parked s q \<and> q \<noteq> p"
    using wake_law [OF Cons.prems] by blast
  show ?case
  proof (cases "parked s p")
    case False
    then have "parked s1 = parked s" using 1(3) by auto
    then show ?thesis using Cons.IH [OF 1(2)] 1 False by simp
  qed (use 1 in auto)
qed simp

lemma wake_all_law:
  "inv s \<Longrightarrow> \<exists>s'. wake_all wake q s = Some ([], s') \<and> inv s'
    \<and> (\<forall>p. parked s' p \<longleftrightarrow> parked s p \<and> p \<notin> set q)"
  using wake_each_law [of s q] by (auto simp: wake_all_def wq_drain_def)

end

lemma kernel_wake_law:
  assumes "sched_inv k"
  shows "\<exists>k'. wake_pid p k = Some (k_parked k p, k') \<and> sched_inv k'
    \<and> (\<forall>q. k_parked k' q \<longleftrightarrow> k_parked k q \<and> q \<noteq> p)"
  using wake_pid_result [OF assms, of p] by blast

interpretation kw: waker wake_pid k_parked sched_inv
  by unfold_locales (rule kernel_wake_law)

text \<open>C14: on the kernel's state neither way of waking a queue panics. \<open>wake_one_pid\<close> wakes the
  first process of the queue that is asleep, drops the stale entries before it and keeps those
  behind it; \<open>wake_all\<close> empties the queue and leaves none of its processes asleep. Nobody else
  is woken.\<close>

theorem wait_queue_wakes:
  assumes "sched_inv k"
  shows "(\<exists>k'. wake_one_pid wake_pid q k
        = Some (List.find (k_parked k) q, tl (dropWhile (\<lambda>p. \<not> k_parked k p) q), k') \<and> sched_inv k'
      \<and> (\<forall>p. k_parked k' p \<longleftrightarrow> k_parked k p \<and> List.find (k_parked k) q \<noteq> Some p))
    \<and> (\<exists>k'. wake_all wake_pid q k = Some ([], k') \<and> sched_inv k'
      \<and> (\<forall>p. k_parked k' p \<longleftrightarrow> k_parked k p \<and> p \<notin> set q))"
  using kw.wake_one_law [OF assms] kw.wake_all_law [OF assms] by blast

theorem wait_queue_wakes_witness:
  "\<exists>k'. wake_one_pid wake_pid [Pid 9, Pid 7, Pid 8] demo_kernel = Some (Some (Pid 7), [Pid 8], k')
     \<and> \<not> k_parked k' (Pid 7)"
proof -
  have "k_parked demo_kernel p \<longleftrightarrow> p = Pid 7" for p
    by (auto simp: k_parked_def demo_kernel_def demo_proc_def)
  then show ?thesis using wait_queue_wakes [OF demo_kernel_inv, of "[Pid 9, Pid 7, Pid 8]"]
    by simp blast
qed

lemma takeWhile_sorted:
  "sorted (map fst (g :: (u64 \<times> 'a) list)) \<Longrightarrow> takeWhile (\<lambda>e. fst e \<le> now) g = filter (\<lambda>e. fst e \<le> now) g"
proof (induction g)
  case (Cons e g)
  show ?case
  proof (cases "fst e \<le> now")
    case False
    then have "\<forall>x \<in> set g. \<not> fst x \<le> now" using Cons.prems by fastforce
    then show ?thesis using False by (simp add: filter_empty_conv)
  qed (use Cons in simp)
qed simp

lemma dropWhile_sorted:
  "sorted (map fst (g :: (u64 \<times> 'a) list)) \<Longrightarrow> dropWhile (\<lambda>e. fst e \<le> now) g = filter (\<lambda>e. now < fst e) g"
proof (induction g)
  case (Cons e g)
  show ?case
  proof (cases "fst e \<le> now")
    case False
    then have "\<forall>x \<in> set g. now < fst x" using Cons.prems by fastforce
    then show ?thesis using False by (simp add: not_le)
  qed (use Cons in \<open>auto simp: not_less\<close>)
qed simp

text \<open>the timer tick wakes exactly the sleepers whose deadline has passed, leaves every
  other sleeper asleep, and keeps exactly the deadlines still to come.\<close>

lemma wake_expired_exact:
  assumes "sched_inv k" "deadlines_wf g"
  shows "\<exists>k'. wake_expired wake_pid now g k = Some (filter (\<lambda>e. now < fst e) g, k') \<and> sched_inv k'
    \<and> (\<forall>p. k_parked k' p \<longleftrightarrow> k_parked k p \<and> \<not> (\<exists>d\<le>now. (d, p) \<in> set g))"
proof -
  have s: "sorted (map fst g)" using assms(2) by (simp add: deadlines_wf_def)
  define ps where "ps = map snd (filter (\<lambda>e. fst e \<le> now) g)"
  have te: "take_expired now g = (ps, filter (\<lambda>e. now < fst e) g)"
    by (simp add: take_expired_eq ps_def takeWhile_sorted [OF s] dropWhile_sorted [OF s])
  have "p \<in> set ps \<longleftrightarrow> (\<exists>d\<le>now. (d, p) \<in> set g)" for p by (force simp: ps_def)
  then show ?thesis using kw.wake_each_law [OF assms(1), of ps] te by (auto simp: wake_expired_def)
qed

lemma wake_expired_exact_witness:
  "\<exists>k'. wake_expired wake_pid 40 [(30, Pid 7), (50, Pid 8)] demo_kernel = Some ([(50, Pid 8)], k')
     \<and> \<not> k_parked k' (Pid 7)"
proof -
  have "deadlines_wf [(30, Pid 7), (50, Pid 8)]" by (simp add: deadlines_wf_def)
  from wake_expired_exact [OF demo_kernel_inv this, of 40] show ?thesis by auto
qed

end
