(* ===== verification/Sleep_Protocol.thy ===== *)
theory Sleep_Protocol
  imports Wait_Queue
begin

text \<open>
  The protocol by which processes go to sleep on a wait queue and are woken from it, with the
  interleavings the locks allow. A wait queue has its own lock; parking and waking change the
  process table under the global lock, and a waker takes the two locks one after the other
  (\<open>WaitQueue::wake_one_pid\<close>, \<open>wake_all\<close> in \<open>kernel/src/core/wait.rs\<close>), so that a process may be
  taken off the queue before, while or after it falls asleep (\<open>park_on\<close>, \<open>park_on_pre_enqueued\<close>
  in \<open>kernel/src/core/park.rs\<close>). The invariant is that no wake-up is lost.
\<close>

section \<open>The system\<close>

text \<open>\<open>sy_arming\<close> is the process that holds the global lock between the test
  \<open>wq.contains(cur)\<close> and the change of its state; \<open>sy_inflight\<close> are the processes that wakers
  have taken off the queue and not woken yet.\<close>

record sleep_sys =
  sy_queue :: wait_queue
  sy_kernel :: kernel
  sy_arming :: "(u32 \<times> pid) option"
  sy_inflight :: "pid list"

definition sleeps_on :: "u64 \<Rightarrow> kernel \<Rightarrow> pid \<Rightarrow> bool" where
  "sleeps_on addr k p \<longleftrightarrow>
     (\<exists>pr. k_procs k p = Some pr \<and> pr_state pr = StParked \<and> pr_owner pr = OwnParked addr)"

definition is_running :: "kernel \<Rightarrow> pid \<Rightarrow> bool" where
  "is_running k p \<longleftrightarrow> (\<exists>pr. k_procs k p = Some pr \<and> pr_state pr = StRunning)"

text \<open>Parking with a destination already chosen, the tail of \<open>park_current\<close>.\<close>

definition park_to :: "u32 \<Rightarrow> park_dest \<Rightarrow> kernel \<Rightarrow> kernel option" where
  "park_to cpu dest k = map_option snd (park_current_then cpu (\<lambda>_ w k. (ParkArmed dest, w, k)) () k)"

inductive sleep_step :: "u64 \<Rightarrow> sleep_sys \<Rightarrow> sleep_sys \<Rightarrow> bool" for addr where
  Enqueue: "sleep_step addr s (s\<lparr>sy_queue := wq_enqueue p (sy_queue s)\<rparr>)"
    if "is_running (sy_kernel s) p"
| Arm: "sleep_step addr s (s\<lparr>sy_arming := Some (cpu, p)\<rparr>)"
    if "sy_arming s = None" "k_current (sy_kernel s) cpu = Some p" "wq_contains p (sy_queue s)"
| Park: "sleep_step addr s (s\<lparr>sy_kernel := k', sy_arming := None\<rparr>)"
    if "sy_arming s = Some (cpu, p)" "park_to cpu (ParkSleep addr) (sy_kernel s) = Some k'"
| Pop: "sleep_step addr s (s\<lparr>sy_queue := q, sy_inflight := p # sy_inflight s\<rparr>)"
    if "pop_one_no_wake (sy_queue s) = (Some p, q)"
| Drain: "sleep_step addr s (s\<lparr>sy_queue := q, sy_inflight := ps @ sy_inflight s\<rparr>)"
    if "wq_drain (sy_queue s) = (ps, q)"
| Wake: "sleep_step addr s (s\<lparr>sy_kernel := k', sy_inflight := remove1 p (sy_inflight s)\<rparr>)"
    if "sy_arming s = None" "p \<in> set (sy_inflight s)" "wake_pid p (sy_kernel s) = Some (b, k')"
| Wake_Other: "sleep_step addr s (s\<lparr>sy_kernel := k'\<rparr>)"
    if "sy_arming s = None" "wake_pid p (sy_kernel s) = Some (b, k')"
| Switch: "sleep_step addr s (s\<lparr>sy_kernel := k'\<rparr>)"
    if "sy_arming s = None" "switch_to_pid cpu p (sy_kernel s) = Some k'"
| Park_Elsewhere: "sleep_step addr s (s\<lparr>sy_kernel := k'\<rparr>)"
    if "sy_arming s = None" "dest \<noteq> ParkSleep addr" "park_to cpu dest (sy_kernel s) = Some k'"
| Dequeue: "sleep_step addr s (s\<lparr>sy_queue := wq_dequeue p (sy_queue s)\<rparr>)"
    if "is_running (sy_kernel s) p" "\<forall>cpu. sy_arming s \<noteq> Some (cpu, p)"

inductive sleep_reach :: "u64 \<Rightarrow> sleep_sys \<Rightarrow> bool" for addr where
  Init: "sleep_reach addr s"
    if "\<forall>p. \<not> sleeps_on addr (sy_kernel s) p" "sy_arming s = None" "sy_queue s = []" "sy_inflight s = []"
| Step: "sleep_reach addr s'" if "sleep_reach addr s" "sleep_step addr s s'"

section \<open>What the kernel operations do to sleepers\<close>

lemma wake_pid_sleeps:
  assumes "wake_pid p k = Some (b, k')" "sleeps_on a k' q"
  shows "sleeps_on a k q" "q \<noteq> p"
proof -
  have "sleeps_on a k q \<and> q \<noteq> p"
  proof (cases "k_parked k p")
    case False
    then have "k' = k" using assms(1)
      by (auto simp: wake_pid_unfold k_parked_def split: option.splits if_splits)
    then show ?thesis using False assms(2) by (auto simp: sleeps_on_def k_parked_def)
  next
    case True
    then show ?thesis using assms
      by (auto simp: wake_pid_unfold k_parked_def sleeps_on_def set_state_def set_sched_owner_def
          effective_home_cpu_def pick_home_cpu_in_def Let_def dest!: enqueue_on_SomeD(2)
          split: option.splits if_splits)
  qed
  then show "sleeps_on a k q" "q \<noteq> p" by blast+
qed

lemma switch_to_pid_sleeps:
  assumes "switch_to_pid cpu p k = Some k'" "sleeps_on a k' q"
  shows "sleeps_on a k q"
  using assms
  by (auto simp: switch_to_pid_def sleeps_on_def set_state_def set_sched_owner_def Let_def
      split: option.splits if_splits)

lemma park_to_sleeps:
  assumes "park_to cpu dest k = Some k'" "sleeps_on a k' q"
  shows "sleeps_on a k q \<or> k_current k cpu = Some q \<and> dest = ParkSleep a"
  using assms
  by (auto simp: park_to_def park_current_then_def park_state_def sleeps_on_def set_state_def
      set_sched_owner_def Let_def split: option.splits if_splits park_dest.splits)

section \<open>No wake-up is lost\<close>

definition sleep_inv :: "u64 \<Rightarrow> sleep_sys \<Rightarrow> bool" where
  "sleep_inv addr s \<longleftrightarrow>
     (\<forall>p. sleeps_on addr (sy_kernel s) p \<longrightarrow> p \<in> set (sy_queue s) \<union> set (sy_inflight s))
   \<and> (\<forall>cpu p. sy_arming s = Some (cpu, p) \<longrightarrow>
        p \<in> set (sy_queue s) \<union> set (sy_inflight s) \<and> k_current (sy_kernel s) cpu = Some p)"

lemma running_not_sleeping: "is_running k p \<Longrightarrow> \<not> sleeps_on a k p"
  by (auto simp: is_running_def sleeps_on_def)

lemma sleep_step_inv:
  assumes "sleep_step addr s s'" "sleep_inv addr s"
  shows "sleep_inv addr s'"
  using assms
proof cases
  case (Enqueue p)
  then show ?thesis using assms(2) by (auto simp: sleep_inv_def wq_enqueue_def)
next
  case (Arm cpu p)
  then show ?thesis using assms(2) by (simp add: sleep_inv_def wq_contains_def)
next
  case (Park cpu p k')
  then show ?thesis using assms(2)
    by (auto simp: sleep_inv_def dest!: park_to_sleeps [OF Park(3)])
next
  case (Pop p q)
  then show ?thesis using assms(2) by (cases "sy_queue s") (auto simp: sleep_inv_def)
next
  case (Drain ps q)
  then show ?thesis using assms(2) by (auto simp: sleep_inv_def wq_drain_def)
next
  case (Wake p b k')
  then show ?thesis using assms(2) wake_pid_sleeps [OF Wake(4)]
    by (auto simp: sleep_inv_def)
next
  case (Wake_Other p b k')
  then show ?thesis using assms(2) wake_pid_sleeps [OF Wake_Other(3)] by (auto simp: sleep_inv_def)
next
  case (Switch cpu p k')
  then show ?thesis using assms(2) switch_to_pid_sleeps [OF Switch(3)] by (auto simp: sleep_inv_def)
next
  case (Park_Elsewhere dest cpu k')
  then show ?thesis using assms(2)
    by (auto simp: sleep_inv_def dest!: park_to_sleeps [OF Park_Elsewhere(4)])
next
  case (Dequeue p)
  then show ?thesis using assms(2) running_not_sleeping [OF Dequeue(2)]
    by (auto simp: sleep_inv_def wq_dequeue_def)
qed

lemma sleep_reach_inv: "sleep_reach addr s \<Longrightarrow> sleep_inv addr s"
proof (induction rule: sleep_reach.induct)
  case (Init s)
  then show ?case by (simp add: sleep_inv_def)
qed (rule sleep_step_inv)

text \<open>A waker at work: what it took off the queue is woken one by one.\<close>

lemma wake_inflight:
  assumes "sy_arming s = None" "sched_inv (sy_kernel s)"
  shows "\<exists>s'. (sleep_step addr)\<^sup>*\<^sup>* s s' \<and> sy_inflight s' = [] \<and> sy_queue s' = sy_queue s
    \<and> sched_inv (sy_kernel s')"
  using assms
proof (induction "sy_inflight s" arbitrary: s)
  case (Cons p ps)
  obtain b k' where w: "wake_pid p (sy_kernel s) = Some (b, k')" "sched_inv k'"
    using kernel_wake_law [OF Cons.prems(2)] by blast
  let ?s = "s\<lparr>sy_kernel := k', sy_inflight := remove1 p (sy_inflight s)\<rparr>"
  have infl: "sy_inflight ?s = ps" "p \<in> set (sy_inflight s)" using Cons.hyps(2) [symmetric] by simp_all
  have step: "sleep_step addr s ?s" by (rule sleep_step.Wake [OF Cons.prems(1) infl(2) w(1)])
  have "sy_arming ?s = None" "sched_inv (sy_kernel ?s)" using Cons.prems(1) w(2) by simp_all
  from Cons.hyps(1) [OF infl(1) [symmetric] this] obtain s' where
    "(sleep_step addr)\<^sup>*\<^sup>* ?s s'" "sy_inflight s' = []" "sy_queue s' = sy_queue ?s" "sched_inv (sy_kernel s')"
    by blast
  then show ?case using step by (intro exI [of _ s']) (auto intro: converse_rtranclp_into_rtranclp)
qed auto

text \<open>C15: however enqueueing, the check before sleeping, falling asleep, taking processes off
  the queue and waking them interleave, a process asleep on the queue is still on it or in the
  hands of a waker that is about to wake it. So when the queue is empty and no waker is active,
  nobody sleeps there; and from every reachable state in which the global lock is free, a waker
  that drains the queue reaches such a state.\<close>

theorem no_lost_wakeup:
  assumes "sleep_reach addr s"
  shows "(sleeps_on addr (sy_kernel s) p \<longrightarrow> p \<in> set (sy_queue s) \<or> p \<in> set (sy_inflight s))
    \<and> (sy_arming s = None \<and> sched_inv (sy_kernel s) \<longrightarrow>
        (\<exists>s'. (sleep_step addr)\<^sup>*\<^sup>* s s' \<and> (\<forall>p. \<not> sleeps_on addr (sy_kernel s') p)))"
proof (intro conjI impI)
  show "p \<in> set (sy_queue s) \<or> p \<in> set (sy_inflight s)" if "sleeps_on addr (sy_kernel s) p"
    using sleep_reach_inv [OF assms] that by (auto simp: sleep_inv_def)
next
  assume a: "sy_arming s = None \<and> sched_inv (sy_kernel s)"
  let ?s = "s\<lparr>sy_queue := [], sy_inflight := sy_queue s @ sy_inflight s\<rparr>"
  have d: "sleep_step addr s ?s" by (rule sleep_step.Drain) (simp add: wq_drain_def)
  obtain s' where s': "(sleep_step addr)\<^sup>*\<^sup>* ?s s'" "sy_inflight s' = []" "sy_queue s' = []"
    using wake_inflight [of ?s addr] a by auto
  have r: "sleep_reach addr ?s" using assms d by (rule sleep_reach.Step)
  have "sleep_reach addr s'" using s'(1) r
    by (induction rule: rtranclp_induct) (auto intro: sleep_reach.Step)
  then have "\<forall>p. \<not> sleeps_on addr (sy_kernel s') p"
    using sleep_reach_inv s'(2,3) by (fastforce simp: sleep_inv_def)
  then show "\<exists>s'. (sleep_step addr)\<^sup>*\<^sup>* s s' \<and> (\<forall>p. \<not> sleeps_on addr (sy_kernel s') p)"
    using s'(1) d by (blast intro: converse_rtranclp_into_rtranclp)
qed

definition run_proc :: process where
  "run_proc = demo_proc\<lparr>pr_state := StRunning, pr_owner := OwnRunning 1\<rparr>"

definition run_sys :: sleep_sys where
  "run_sys = \<lparr>sy_queue = [], sy_kernel = demo_kernel\<lparr>k_procs := [Pid 7 \<mapsto> run_proc],
     k_current := [1 \<mapsto> Pid 7]\<rparr>, sy_arming = None, sy_inflight = []\<rparr>"

theorem no_lost_wakeup_witness:
  "\<exists>s. sleep_reach 64 s \<and> sleeps_on 64 (sy_kernel s) (Pid 7)
     \<and> (Pid 7 \<in> set (sy_queue s) \<or> Pid 7 \<in> set (sy_inflight s))"
proof -
  let ?s1 = "run_sys\<lparr>sy_queue := wq_enqueue (Pid 7) (sy_queue run_sys)\<rparr>"
  let ?s2 = "?s1\<lparr>sy_arming := Some (1, Pid 7)\<rparr>"
  have "\<not> sleeps_on 64 (sy_kernel run_sys) p" for p
    by (simp add: sleeps_on_def run_sys_def run_proc_def)
  then have 0: "sleep_reach 64 run_sys" by (intro sleep_reach.Init) (simp_all add: run_sys_def)
  have 1: "sleep_step 64 run_sys ?s1"
    by (rule sleep_step.Enqueue) (simp add: is_running_def run_sys_def run_proc_def)
  have 2: "sleep_step 64 ?s1 ?s2"
    by (rule sleep_step.Arm) (simp_all add: run_sys_def wq_contains_def wq_enqueue_def)
  obtain k' where k: "park_to 1 (ParkSleep 64) (sy_kernel ?s2) = Some k'" "sleeps_on 64 k' (Pid 7)"
    by (auto simp: park_to_def park_current_then_def park_state_def set_state_def set_sched_owner_def
        state_transition_ok_def state_owner_consistent_def sleeps_on_def run_sys_def run_proc_def)
  have 3: "sleep_step 64 ?s2 (?s2\<lparr>sy_kernel := k', sy_arming := None\<rparr>)"
    by (rule sleep_step.Park [OF _ k(1)]) simp
  have r: "sleep_reach 64 (?s2\<lparr>sy_kernel := k', sy_arming := None\<rparr>)"
    using 0 1 2 3 by (blast intro: sleep_reach.Step)
  from no_lost_wakeup [OF r, of "Pid 7"] show ?thesis using r k(2) by force
qed

end
