(* ===== verification/Posix_Locks.thy ===== *)
theory Posix_Locks
  imports Wait_Queue Ordered_Map Kapi
begin

text \<open>
  POSIX record locks (\<open>kernel/src/vfs/locks/posix.rs\<close>) and the \<open>fcntl\<close> handler that sets and
  queries them (\<open>kernel/src/syscall/fs/locks.rs\<close>). The lock table keeps for every inode a list
  of locked ranges and a wait queue; the specification is the kind of lock each process holds on
  each byte, and the table operations are shown to implement it.
\<close>

section \<open>State and operations\<close>

abbreviation F_RDLCK :: u16 where "F_RDLCK \<equiv> 0"
abbreviation F_WRLCK :: u16 where "F_WRLCK \<equiv> 1"
abbreviation F_UNLCK :: u16 where "F_UNLCK \<equiv> 2"

record file_lock =
  fl_kind :: u16
  fl_start :: u64
  fl_end :: u64
  fl_owner :: pid

record inode_locks =
  il_locks :: "file_lock list"
  il_waiters :: wait_queue

type_synonym lock_table = "(u64, inode_locks) omap"

definition overlaps :: "file_lock \<Rightarrow> u64 \<Rightarrow> u64 \<Rightarrow> bool" where
  "overlaps lk s e \<longleftrightarrow> fl_start lk < e \<and> s < fl_end lk"

definition conflicts :: "file_lock \<Rightarrow> file_lock \<Rightarrow> bool" where
  "conflicts a b =
     (if fl_owner a = fl_owner b then False
      else if \<not> overlaps a (fl_start b) (fl_end b) then False
      else fl_kind a = F_WRLCK \<or> fl_kind b = F_WRLCK)"

definition empty_inode :: inode_locks where
  "empty_inode = \<lparr>il_locks = [], il_waiters = []\<rparr>"

text \<open>\<open>with_inode\<close>: the entry, created empty when absent.\<close>

definition inode_entry :: "u64 \<Rightarrow> lock_table \<Rightarrow> inode_locks" where
  "inode_entry inode t = (case map_of t inode of Some e \<Rightarrow> e | None \<Rightarrow> empty_inode)"

definition find_conflict :: "u64 \<Rightarrow> u16 \<Rightarrow> u64 \<Rightarrow> u64 \<Rightarrow> pid \<Rightarrow> lock_table \<Rightarrow> file_lock option" where
  "find_conflict inode kind s e owner t =
     (case map_of t inode of
        None \<Rightarrow> None
      | Some en \<Rightarrow>
          find (\<lambda>lk. conflicts lk \<lparr>fl_kind = kind, fl_start = s, fl_end = e, fl_owner = owner\<rparr>)
            (il_locks en))"

definition split_pieces :: "u64 \<Rightarrow> u64 \<Rightarrow> pid \<Rightarrow> file_lock \<Rightarrow> file_lock list" where
  "split_pieces s e owner lk =
     (if fl_start lk < s
      then [\<lparr>fl_kind = fl_kind lk, fl_start = fl_start lk, fl_end = s, fl_owner = owner\<rparr>] else [])
   @ (if e < fl_end lk
      then [\<lparr>fl_kind = fl_kind lk, fl_start = e, fl_end = fl_end lk, fl_owner = owner\<rparr>] else [])"

definition split_keeps :: "u64 \<Rightarrow> u64 \<Rightarrow> pid \<Rightarrow> file_lock \<Rightarrow> bool" where
  "split_keeps s e owner lk \<longleftrightarrow> fl_owner lk \<noteq> owner \<or> \<not> overlaps lk s e"

definition split_owner_range :: "u64 \<Rightarrow> u64 \<Rightarrow> pid \<Rightarrow> file_lock list \<Rightarrow> file_lock list" where
  "split_owner_range s e owner locks =
     filter (split_keeps s e owner) locks
     @ concat (map (split_pieces s e owner) (filter (\<lambda>lk. \<not> split_keeps s e owner lk) locks))"

text \<open>Waking the waiters of an inode, after the table lock is released.\<close>

definition wake_inode :: "'s wake_fn \<Rightarrow> u64 \<Rightarrow> lock_table \<Rightarrow> 's \<Rightarrow> (lock_table \<times> 's) option" where
  "wake_inode wake inode t st =
     (case wake_all wake (il_waiters (inode_entry inode t)) st of
        None \<Rightarrow> None
      | Some (q, st') \<Rightarrow> Some (om_insert inode ((inode_entry inode t)\<lparr>il_waiters := q\<rparr>) t, st'))"

definition unlock_range ::
  "'s wake_fn \<Rightarrow> u64 \<Rightarrow> u64 \<Rightarrow> u64 \<Rightarrow> pid \<Rightarrow> lock_table \<Rightarrow> 's \<Rightarrow> (lock_table \<times> 's) option" where
  "unlock_range wake inode s e owner t st =
     (let en = inode_entry inode t;
          t1 = om_insert inode (en\<lparr>il_locks := split_owner_range s e owner (il_locks en)\<rparr>) t
      in wake_inode wake inode t1 st)"

definition try_set_lock ::
  "'s wake_fn \<Rightarrow> u64 \<Rightarrow> u16 \<Rightarrow> u64 \<Rightarrow> u64 \<Rightarrow> pid \<Rightarrow> lock_table \<Rightarrow> 's
     \<Rightarrow> ((file_lock + unit) \<times> lock_table \<times> 's) option" where
  "try_set_lock wake inode kind s e owner t st =
     (if kind = F_UNLCK
      then map_option (\<lambda>(t', st'). (Inr (), t', st')) (unlock_range wake inode s e owner t st)
      else
        (let en = inode_entry inode t;
             probe = \<lparr>fl_kind = kind, fl_start = s, fl_end = e, fl_owner = owner\<rparr>
         in case find (\<lambda>lk. conflicts lk probe) (il_locks en) of
              Some lk \<Rightarrow> Some (Inl lk, om_insert inode en t, st)
            | None \<Rightarrow>
                Some (Inr (),
                  om_insert inode (en\<lparr>il_locks := split_owner_range s e owner (il_locks en) @ [probe]\<rparr>) t,
                  st)))"

definition drop_owner_inode ::
  "'s wake_fn \<Rightarrow> pid \<Rightarrow> u64 \<Rightarrow> lock_table \<Rightarrow> 's \<Rightarrow> (lock_table \<times> 's) option" where
  "drop_owner_inode wake p inode t st =
     (case map_of t inode of
        None \<Rightarrow> Some (t, st)
      | Some en \<Rightarrow>
          (let kept = filter (\<lambda>lk. fl_owner lk \<noteq> p) (il_locks en);
               t1 = om_insert inode (en\<lparr>il_locks := kept\<rparr>) t
           in if length kept = length (il_locks en) then Some (t1, st)
              else wake_inode wake inode t1 st))"

fun wake_inodes :: "'s wake_fn \<Rightarrow> u64 list \<Rightarrow> lock_table \<Rightarrow> 's \<Rightarrow> (lock_table \<times> 's) option" where
  "wake_inodes wake [] t st = Some (t, st)"
| "wake_inodes wake (i # is) t st =
     (case wake_inode wake i t st of None \<Rightarrow> None | Some (t', st') \<Rightarrow> wake_inodes wake is t' st')"

definition drop_owner :: "'s wake_fn \<Rightarrow> pid \<Rightarrow> lock_table \<Rightarrow> 's \<Rightarrow> (lock_table \<times> 's) option" where
  "drop_owner wake p t st =
     (let keep = (\<lambda>en. en\<lparr>il_locks := filter (\<lambda>lk. fl_owner lk \<noteq> p) (il_locks en)\<rparr>);
          changed = map fst (filter (\<lambda>(i, en). length (il_locks (keep en)) \<noteq> length (il_locks en)) t)
      in wake_inodes wake changed (map (\<lambda>(i, en). (i, keep en)) t) st)"

section \<open>The fcntl handler\<close>

abbreviation F_GETLK :: u64 where "F_GETLK \<equiv> 5"
abbreviation F_SETLK :: u64 where "F_SETLK \<equiv> 6"
abbreviation F_SETLKW :: u64 where "F_SETLKW \<equiv> 7"

definition sat_i64 :: "int \<Rightarrow> int" where
  "sat_i64 x = max (- (2 ^ 63)) (min (2 ^ 63 - 1) x)"

text \<open>The byte range of a request, \<open>None\<close> for EINVAL. Offset and size of the file are read as
  signed numbers.\<close>

definition lock_range :: "u16 \<Rightarrow> int \<Rightarrow> int \<Rightarrow> u64 \<Rightarrow> u64 \<Rightarrow> (u64 \<times> u64) option" where
  "lock_range l_whence l_start l_len cur_offset file_size =
     (case (if l_whence = 0 then Some 0
            else if l_whence = 1 then Some (sint cur_offset)
            else if l_whence = 2 then Some (sint file_size)
            else None) of
        None \<Rightarrow> None
      | Some base \<Rightarrow>
          (let resolved = sat_i64 (base + l_start) in
           if resolved < 0 then None
           else
             (let s = (of_int resolved :: u64) in
              if l_len = 0 then Some (s, - 1)
              else if l_len < 0 then None
              else map_option (\<lambda>e. (s, e)) (checked_add s (of_int l_len)))))"

datatype lock_reply = LockRet int bytes | LockWait

text \<open>The reply of F_GETLK in the user's buffer.\<close>

definition getlk_reply :: "file_lock option \<Rightarrow> bytes \<Rightarrow> bytes" where
  "getlk_reply conf buf =
     (case conf of
        None \<Rightarrow> splice 0 (to_le 2 F_UNLCK) buf
      | Some c \<Rightarrow>
          (let len_field = (if fl_end c = - 1 then 0 else fl_end c - fl_start c)
           in splice 24 (to_le 4 (pid_raw (fl_owner c)))
               (splice 16 (to_le 8 len_field)
                 (splice 8 (to_le 8 (fl_start c))
                   (splice 2 (to_le 2 (0 :: u16)) (splice 0 (to_le 2 (fl_kind c)) buf))))))"

text \<open>The handler between the copy of the request from the user and the copy of the reply to it;
  \<open>LockWait\<close> is a blocking request whose first attempt found a conflict.\<close>

definition lock_inner ::
  "'s wake_fn \<Rightarrow> u64 \<Rightarrow> u64 \<Rightarrow> bytes \<Rightarrow> u64 \<Rightarrow> u64 \<Rightarrow> pid \<Rightarrow> lock_table \<Rightarrow> 's
     \<Rightarrow> (lock_reply \<times> lock_table \<times> 's) option" where
  "lock_inner wake cmd inode buf cur_offset file_size owner t st =
     (let l_type = from_le (slice 0 2 buf); l_whence = from_le (slice 2 2 buf);
          l_start = sint (from_le (slice 8 8 buf) :: u64);
          l_len = sint (from_le (slice 16 8 buf) :: u64)
      in case lock_range l_whence l_start l_len cur_offset file_size of
           None \<Rightarrow> Some (LockRet EINVAL buf, t, st)
         | Some (s, e) \<Rightarrow>
             if cmd = F_GETLK
             then Some (LockRet 0 (getlk_reply (find_conflict inode l_type s e owner t) buf), t, st)
             else if l_type \<noteq> F_RDLCK \<and> l_type \<noteq> F_WRLCK \<and> l_type \<noteq> F_UNLCK
             then Some (LockRet EINVAL buf, t, st)
             else case try_set_lock wake inode l_type s e owner t st of
               None \<Rightarrow> None
             | Some (Inr _, t', st') \<Rightarrow> Some (LockRet 0 buf, t', st')
             | Some (Inl _, t', st') \<Rightarrow>
                 Some (if cmd = F_SETLK then LockRet EAGAIN buf else LockWait, t', st'))"

text \<open>The lock commands of \<open>sys_fcntl\<close> run the handler inside \<open>with_current_fds\<close>, whose closure is
  called with the global lock held. \<open>wake_pid\<close> and the parking of a blocking request take that
  lock, which is a spin lock and not reentrant: they never return, which is \<open>None\<close> here.\<close>

definition wake_under_global :: "'s wake_fn" where
  "wake_under_global p st = None"

definition fcntl_lock_call ::
  "u64 \<Rightarrow> u64 \<Rightarrow> bytes \<Rightarrow> u64 \<Rightarrow> u64 \<Rightarrow> pid \<Rightarrow> lock_table \<Rightarrow> 's \<Rightarrow> (int \<times> bytes \<times> lock_table \<times> 's) option" where
  "fcntl_lock_call cmd inode buf cur_offset file_size owner t st =
     (case lock_inner wake_under_global cmd inode buf cur_offset file_size owner t st of
        Some (LockRet r buf', t', st') \<Rightarrow> Some (r, buf', t', st')
      | _ \<Rightarrow> None)"

section \<open>The byte-wise specification\<close>

text \<open>The kind of lock a process holds on a byte of an inode.\<close>

definition covers :: "file_lock \<Rightarrow> u64 \<Rightarrow> bool" where
  "covers lk b \<longleftrightarrow> fl_start lk \<le> b \<and> b < fl_end lk"

definition lock_at :: "file_lock list \<Rightarrow> pid \<Rightarrow> u64 \<Rightarrow> u16 option" where
  "lock_at locks p b = map_option fl_kind (find (\<lambda>lk. fl_owner lk = p \<and> covers lk b) locks)"

definition table_at :: "lock_table \<Rightarrow> u64 \<Rightarrow> pid \<Rightarrow> u64 \<Rightarrow> u16 option" where
  "table_at t inode = lock_at (il_locks (inode_entry inode t))"

text \<open>Well-formed: ranges are not empty, and two overlapping locks of the list are read locks of
  different owners.\<close>

definition locks_wf :: "file_lock list \<Rightarrow> bool" where
  "locks_wf locks \<longleftrightarrow>
     (\<forall>lk \<in> set locks. fl_start lk < fl_end lk \<and> (fl_kind lk = F_RDLCK \<or> fl_kind lk = F_WRLCK))
   \<and> (\<forall>a \<in> set locks. \<forall>b \<in> set locks. overlaps a (fl_start b) (fl_end b) \<longrightarrow>
        a = b \<or> fl_owner a \<noteq> fl_owner b \<and> fl_kind a = F_RDLCK \<and> fl_kind b = F_RDLCK)"

definition ltable_wf :: "lock_table \<Rightarrow> bool" where
  "ltable_wf t \<longleftrightarrow> om_wf t \<and> (\<forall>inode. locks_wf (il_locks (inode_entry inode t)))"

lemma locks_wfD:
  "locks_wf locks \<Longrightarrow> a \<in> set locks \<Longrightarrow> b \<in> set locks \<Longrightarrow> overlaps a (fl_start b) (fl_end b) \<Longrightarrow>
     a = b \<or> fl_owner a \<noteq> fl_owner b \<and> fl_kind a = F_RDLCK \<and> fl_kind b = F_RDLCK"
  unfolding locks_wf_def by blast

lemma lock_at_iff:
  assumes "locks_wf locks"
  shows "lock_at locks p b = Some k \<longleftrightarrow> (\<exists>lk \<in> set locks. fl_owner lk = p \<and> covers lk b \<and> fl_kind lk = k)"
proof
  assume "lock_at locks p b = Some k"
  then show "\<exists>lk \<in> set locks. fl_owner lk = p \<and> covers lk b \<and> fl_kind lk = k"
    by (auto simp: lock_at_def dest: find_SomeD)
next
  assume "\<exists>lk \<in> set locks. fl_owner lk = p \<and> covers lk b \<and> fl_kind lk = k"
  then obtain lk where lk: "lk \<in> set locks" "fl_owner lk = p" "covers lk b" "fl_kind lk = k" by blast
  then obtain m where m: "find (\<lambda>lk. fl_owner lk = p \<and> covers lk b) locks = Some m"
    by (metis (mono_tags, lifting) find_None_iff option.exhaust)
  then have "m \<in> set locks" "fl_owner m = p" "covers m b" by (auto dest: find_SomeD)
  moreover from this lk have "overlaps m (fl_start lk) (fl_end lk)"
    by (auto simp: covers_def overlaps_def)
  ultimately have "m = lk" using locks_wfD [OF assms, of m lk] lk by metis
  then show "lock_at locks p b = Some k" using m lk by (simp add: lock_at_def)
qed

lemma lock_at_eqI:
  assumes "locks_wf xs" "locks_wf ys" "\<And>k. (\<exists>lk \<in> set xs. fl_owner lk = p \<and> covers lk b \<and> fl_kind lk = k)
      \<longleftrightarrow> (\<exists>lk \<in> set ys. fl_owner lk = q \<and> covers lk c \<and> fl_kind lk = k)"
  shows "lock_at xs p b = lock_at ys q c"
  using assms(3) lock_at_iff [OF assms(1), of p b] lock_at_iff [OF assms(2), of q c]
  by (metis not_None_eq)

text \<open>The handler only asks for ranges that are not empty.\<close>

lemma lock_range_less:
  assumes "lock_range w l_start l_len cur fsize = Some (s, e)" "l_len < 2 ^ 63"
  shows "s < e"
proof -
  define r where "r = sat_i64 ((if w = 0 then 0 else if w = 1 then sint cur else sint fsize) + l_start)"
  have r: "0 \<le> r" "r \<le> 2 ^ 63 - 1" "s = of_int r"
    "if l_len = 0 then e = - 1 else 0 < l_len \<and> checked_add s (of_int l_len) = Some e"
    using assms(1) by (auto simp: lock_range_def Let_def r_def sat_i64_def split: option.splits if_splits)
  have ur: "uint s = r" using r by (simp add: unsigned_of_int take_bit_int_eq_self)
  show ?thesis
  proof (cases "l_len = 0")
    case True
    then have "uint e = 2 ^ 64 - 1" using r(4)
      by (simp add: unsigned_minus_1_eq_mask mask_eq_exp_minus_1)
    then show ?thesis using ur r(2) by (simp add: word_less_def)
  next
    case False
    then have c: "0 < l_len" "checked_add s (of_int l_len) = Some e" using r(4) by simp_all
    then have "uint (of_int l_len :: u64) = l_len" using assms(2) by (simp add: unsigned_of_int take_bit_int_eq_self)
    then have "0 < unat (of_int l_len :: u64)" using c(1) by (auto simp: unat_gt_0)
    then show ?thesis using checked_add_SomeD [OF c(2)] by (simp add: word_less_nat_alt)
  qed
qed

section \<open>Splitting\<close>

lemma set_split_owner_range:
  "set (split_owner_range s e p locks) = {lk \<in> set locks. split_keeps s e p lk}
     \<union> {m. \<exists>lk \<in> set locks. \<not> split_keeps s e p lk \<and> m \<in> set (split_pieces s e p lk)}"
  by (auto simp: split_owner_range_def)

lemma split_piecesD:
  assumes "m \<in> set (split_pieces s e p lk)" "s < e"
  shows "fl_kind m = fl_kind lk" "fl_owner m = p" "fl_start lk \<le> fl_start m \<or> e \<le> fl_start m"
    "fl_end m \<le> fl_end lk \<or> fl_end m \<le> s" "fl_start m < fl_end m" "fl_end m \<le> s \<or> e \<le> fl_start m"
  using assms by (auto simp: split_pieces_def split: if_splits)

text \<open>Every lock after the split lies inside a lock before it of the same kind and owner.\<close>

lemma split_parent:
  assumes "m \<in> set (split_owner_range s e p locks)" "s < e" "locks_wf locks"
  obtains lk where "lk \<in> set locks" "fl_kind lk = fl_kind m" "fl_owner lk = fl_owner m"
    "fl_start lk \<le> fl_start m" "fl_end m \<le> fl_end lk" "fl_start m < fl_end m"
    "m = lk \<and> split_keeps s e p lk \<or> \<not> split_keeps s e p lk \<and> m \<in> set (split_pieces s e p lk)"
proof -
  from assms(1) consider "m \<in> set locks" "split_keeps s e p m"
    | lk where "lk \<in> set locks" "\<not> split_keeps s e p lk" "m \<in> set (split_pieces s e p lk)"
    unfolding set_split_owner_range by blast
  then show ?thesis
  proof cases
    case 1
    then show ?thesis using assms(3) that [of m] by (simp add: locks_wf_def)
  next
    case (2 lk)
    then have "fl_owner lk = p" "overlaps lk s e" by (simp_all add: split_keeps_def)
    then show ?thesis using 2 that [of lk] assms(2)
      by (auto simp: split_pieces_def overlaps_def split: if_splits)
  qed
qed

lemma split_pieces_disjoint:
  assumes "a \<in> set (split_pieces s e p lk)" "b \<in> set (split_pieces s e p lk)" "s < e"
    "overlaps a (fl_start b) (fl_end b)"
  shows "a = b"
  using assms by (auto simp: split_pieces_def overlaps_def split: if_splits)

lemma split_wf:
  assumes wf: "locks_wf locks" and se: "s < e"
  shows "locks_wf (split_owner_range s e p locks)"
  unfolding locks_wf_def
proof (intro conjI ballI impI)
  fix m assume m: "m \<in> set (split_owner_range s e p locks)"
  then show "fl_start m < fl_end m" by (rule split_parent [OF _ se wf]) auto
  from m show "fl_kind m = F_RDLCK \<or> fl_kind m = F_WRLCK"
    by (rule split_parent [OF _ se wf]) (use wf in \<open>auto simp: locks_wf_def\<close>)
next
  fix a b
  assume a: "a \<in> set (split_owner_range s e p locks)" and b: "b \<in> set (split_owner_range s e p locks)"
    and ov: "overlaps a (fl_start b) (fl_end b)"
  obtain la where la: "la \<in> set locks" "fl_kind la = fl_kind a" "fl_owner la = fl_owner a"
    "fl_start la \<le> fl_start a" "fl_end a \<le> fl_end la"
    "a = la \<and> split_keeps s e p la \<or> \<not> split_keeps s e p la \<and> a \<in> set (split_pieces s e p la)"
    using split_parent [OF a se wf] by metis
  obtain lb where lb: "lb \<in> set locks" "fl_kind lb = fl_kind b" "fl_owner lb = fl_owner b"
    "fl_start lb \<le> fl_start b" "fl_end b \<le> fl_end lb"
    "b = lb \<and> split_keeps s e p lb \<or> \<not> split_keeps s e p lb \<and> b \<in> set (split_pieces s e p lb)"
    using split_parent [OF b se wf] by metis
  have "overlaps la (fl_start lb) (fl_end lb)" using ov la lb by (auto simp: overlaps_def)
  from locks_wfD [OF wf la(1) lb(1) this]
  show "a = b \<or> fl_owner a \<noteq> fl_owner b \<and> fl_kind a = F_RDLCK \<and> fl_kind b = F_RDLCK"
  proof
    assume "la = lb"
    then show ?thesis using la(6) lb(6) split_pieces_disjoint [OF _ _ se ov] by auto
  qed (use la lb in auto)
qed

lemma split_covers:
  assumes "s < e"
  shows "(\<exists>lk \<in> set (split_owner_range s e p locks). fl_owner lk = q \<and> covers lk b \<and> fl_kind lk = k)
    \<longleftrightarrow> (\<exists>lk \<in> set locks. fl_owner lk = q \<and> covers lk b \<and> fl_kind lk = k) \<and> \<not> (q = p \<and> s \<le> b \<and> b < e)"
    (is "?L \<longleftrightarrow> ?R")
proof
  assume ?L
  then obtain m where m: "m \<in> set (split_owner_range s e p locks)" "fl_owner m = q" "covers m b" "fl_kind m = k"
    by blast
  then show ?R
    by (auto simp: set_split_owner_range split_keeps_def split_pieces_def covers_def overlaps_def
        split: if_splits intro: bexI)
next
  assume ?R
  then obtain lk where lk: "lk \<in> set locks" "fl_owner lk = q" "covers lk b" "fl_kind lk = k"
    and out: "\<not> (q = p \<and> s \<le> b \<and> b < e)" by blast
  show ?L
  proof (cases "split_keeps s e p lk")
    case True
    then show ?thesis using lk by (auto simp: set_split_owner_range)
  next
    case False
    then have own: "q = p" "overlaps lk s e" using lk by (auto simp: split_keeps_def)
    then have "\<exists>m \<in> set (split_pieces s e p lk). covers m b \<and> fl_kind m = k \<and> fl_owner m = p"
    proof (cases "b < s")
      case True
      then have "fl_start lk < s" using lk(3) by (auto simp: covers_def)
      then show ?thesis using True lk by (auto simp: split_pieces_def covers_def)
    next
      case False
      then have "e \<le> b" "e < fl_end lk" using out own lk(3) by (auto simp: covers_def)
      then show ?thesis using lk by (auto simp: split_pieces_def covers_def)
    qed
    then show ?thesis using False lk own unfolding set_split_owner_range by blast
  qed
qed

lemma split_lock_at:
  assumes "locks_wf locks" "s < e"
  shows "lock_at (split_owner_range s e p locks) q b
    = (if q = p \<and> s \<le> b \<and> b < e then None else lock_at locks q b)"
proof -
  have wf: "locks_wf (split_owner_range s e p locks)" by (rule split_wf [OF assms])
  have "lock_at (split_owner_range s e p locks) q b = Some k \<longleftrightarrow>
      lock_at locks q b = Some k \<and> \<not> (q = p \<and> s \<le> b \<and> b < e)" for k
    unfolding lock_at_iff [OF wf] lock_at_iff [OF assms(1)] by (rule split_covers [OF assms(2)])
  then show ?thesis by (metis not_None_eq)
qed

section \<open>Setting a lock\<close>

lemma split_clear:
  assumes "a \<in> set (split_owner_range s e p locks)" "s < e" "fl_owner a = p"
  shows "\<not> overlaps a s e"
  using assms(1,3) split_piecesD(6) [OF _ assms(2)]
  by (fastforce simp: set_split_owner_range split_keeps_def overlaps_def)

lemma split_other:
  assumes "a \<in> set (split_owner_range s e p locks)" "fl_owner a \<noteq> p"
  shows "a \<in> set locks"
  using assms by (auto simp: set_split_owner_range split_pieces_def split: if_splits)

lemma overlaps_sym: "overlaps a (fl_start b) (fl_end b) \<longleftrightarrow> overlaps b (fl_start a) (fl_end a)"
  by (auto simp: overlaps_def)

lemma conflict_blocked:
  assumes "locks_wf locks" "s < e"
  shows "(\<exists>lk \<in> set locks. conflicts lk \<lparr>fl_kind = kind, fl_start = s, fl_end = e, fl_owner = p\<rparr>)
    \<longleftrightarrow> (\<exists>q b k. q \<noteq> p \<and> s \<le> b \<and> b < e \<and> lock_at locks q b = Some k \<and> (k = F_WRLCK \<or> kind = F_WRLCK))"
    (is "?L \<longleftrightarrow> ?R")
proof
  assume ?L
  then obtain lk where lk: "lk \<in> set locks" "fl_owner lk \<noteq> p" "overlaps lk s e"
    "fl_kind lk = F_WRLCK \<or> kind = F_WRLCK" by (auto simp: conflicts_def split: if_splits)
  let ?b = "max (fl_start lk) s"
  have "covers lk ?b" "s \<le> ?b" "?b < e"
    using lk assms by (auto simp: covers_def overlaps_def locks_wf_def)
  moreover from this have "lock_at locks (fl_owner lk) ?b = Some (fl_kind lk)"
    using lk(1) by (auto simp: lock_at_iff [OF assms(1)])
  ultimately show ?R using lk by blast
next
  assume ?R
  then obtain lk b where "lk \<in> set locks" "fl_owner lk \<noteq> p" "covers lk b" "s \<le> b" "b < e"
    "fl_kind lk = F_WRLCK \<or> kind = F_WRLCK" by (auto simp: lock_at_iff [OF assms(1)])
  then show ?L by (intro bexI [of _ lk]) (auto simp: conflicts_def overlaps_def covers_def)
qed

lemma set_lock_wf:
  assumes wf: "locks_wf locks" and se: "s < e" and kind: "kind = F_RDLCK \<or> kind = F_WRLCK"
    and free: "\<forall>lk \<in> set locks. \<not> conflicts lk \<lparr>fl_kind = kind, fl_start = s, fl_end = e, fl_owner = p\<rparr>"
  shows "locks_wf (split_owner_range s e p locks @ [\<lparr>fl_kind = kind, fl_start = s, fl_end = e, fl_owner = p\<rparr>])"
proof -
  let ?new = "\<lparr>fl_kind = kind, fl_start = s, fl_end = e, fl_owner = p\<rparr>"
  have wf': "locks_wf (split_owner_range s e p locks)" by (rule split_wf [OF wf se])
  have new: "fl_owner a \<noteq> p \<and> fl_kind a = F_RDLCK \<and> kind = F_RDLCK"
    if "a \<in> set (split_owner_range s e p locks)" "overlaps a s e" for a
  proof -
    have np: "fl_owner a \<noteq> p" using split_clear [OF that(1) se] that(2) by blast
    have "\<not> conflicts a ?new" using free split_other [OF that(1) np] by blast
    then show ?thesis using np that wf' kind by (auto simp: conflicts_def locks_wf_def)
  qed
  then show ?thesis using wf' se kind overlaps_sym [of ?new]
    unfolding locks_wf_def by auto
qed

lemma set_lock_at:
  assumes wf: "locks_wf locks" and se: "s < e" and kind: "kind = F_RDLCK \<or> kind = F_WRLCK"
    and free: "\<forall>lk \<in> set locks. \<not> conflicts lk \<lparr>fl_kind = kind, fl_start = s, fl_end = e, fl_owner = p\<rparr>"
  shows "lock_at (split_owner_range s e p locks @ [\<lparr>fl_kind = kind, fl_start = s, fl_end = e, fl_owner = p\<rparr>]) q b
    = (if q = p \<and> s \<le> b \<and> b < e then Some kind else lock_at locks q b)"
proof -
  note wf' = set_lock_wf [OF assms]
  have "lock_at (split_owner_range s e p locks @ [\<lparr>fl_kind = kind, fl_start = s, fl_end = e, fl_owner = p\<rparr>]) q b = Some k
      \<longleftrightarrow> lock_at (split_owner_range s e p locks) q b = Some k \<or> (q = p \<and> s \<le> b \<and> b < e \<and> k = kind)" for k
    unfolding lock_at_iff [OF wf'] lock_at_iff [OF split_wf [OF wf se]] by (auto simp: covers_def)
  then show ?thesis unfolding split_lock_at [OF wf se] by (metis not_None_eq)
qed

section \<open>The table\<close>

lemma inode_entry_insert:
  "om_wf t \<Longrightarrow> inode_entry j (om_insert i en t) = (if j = i then en else inode_entry j t)"
  by (simp add: inode_entry_def map_of_om_insert)

lemma ltable_insert:
  "ltable_wf t \<Longrightarrow> locks_wf (il_locks en) \<Longrightarrow> ltable_wf (om_insert i en t)"
  by (simp add: ltable_wf_def inode_entry_insert)

lemma table_at_insert:
  "ltable_wf t \<Longrightarrow> table_at (om_insert i en t) j = (if j = i then lock_at (il_locks en) else table_at t j)"
  by (simp add: table_at_def inode_entry_insert ltable_wf_def)

lemma table_at_same:
  "ltable_wf t \<Longrightarrow> il_locks en = il_locks (inode_entry i t) \<Longrightarrow> table_at (om_insert i en t) = table_at t"
  by (simp add: table_at_insert fun_eq_iff) (simp add: table_at_def)

lemma wake_inode_law:
  assumes "ltable_wf t" "sched_inv k"
  shows "\<exists>t' k'. wake_inode wake_pid i t k = Some (t', k') \<and> ltable_wf t' \<and> table_at t' = table_at t \<and> sched_inv k'
    \<and> il_waiters (inode_entry i t') = []
    \<and> (\<forall>q. k_parked k' q \<longleftrightarrow> k_parked k q \<and> q \<notin> set (il_waiters (inode_entry i t)))"
proof -
  let ?en = "inode_entry i t"
  obtain k' where k': "wake_all wake_pid (il_waiters ?en) k = Some ([], k')" "sched_inv k'"
    "\<forall>q. k_parked k' q \<longleftrightarrow> k_parked k q \<and> q \<notin> set (il_waiters ?en)"
    using kw.wake_all_law [OF assms(2)] by blast
  have "locks_wf (il_locks ?en)" using assms(1) by (simp add: ltable_wf_def)
  then show ?thesis using k' assms(1)
    by (auto simp: wake_inode_def ltable_insert table_at_same inode_entry_insert ltable_wf_def)
qed

section \<open>Refinement\<close>

text \<open>The specification: who holds what, byte by byte.\<close>

type_synonym lock_spec = "u64 \<Rightarrow> pid \<Rightarrow> u64 \<Rightarrow> u16 option"

definition spec_blocked :: "lock_spec \<Rightarrow> u64 \<Rightarrow> u16 \<Rightarrow> u64 \<Rightarrow> u64 \<Rightarrow> pid \<Rightarrow> bool" where
  "spec_blocked A inode kind s e p \<longleftrightarrow>
     (\<exists>q b k. q \<noteq> p \<and> s \<le> b \<and> b < e \<and> A inode q b = Some k \<and> (k = F_WRLCK \<or> kind = F_WRLCK))"

definition spec_set :: "lock_spec \<Rightarrow> u64 \<Rightarrow> u16 option \<Rightarrow> u64 \<Rightarrow> u64 \<Rightarrow> pid \<Rightarrow> lock_spec" where
  "spec_set A inode kind s e p =
     A(inode := \<lambda>q b. if q = p \<and> s \<le> b \<and> b < e then kind else A inode q b)"

lemma try_set_lock_sets:
  assumes wf: "ltable_wf t" and se: "s < e" and kind: "kind = F_RDLCK \<or> kind = F_WRLCK"
  shows "try_set_lock wake i kind s e p t st \<noteq> None"
    "spec_blocked (table_at t) i kind s e p \<Longrightarrow>
       \<exists>c t'. try_set_lock wake i kind s e p t st = Some (Inl c, t', st) \<and> ltable_wf t' \<and> table_at t' = table_at t"
    "\<not> spec_blocked (table_at t) i kind s e p \<Longrightarrow>
       \<exists>t'. try_set_lock wake i kind s e p t st = Some (Inr (), t', st) \<and> ltable_wf t'
         \<and> table_at t' = spec_set (table_at t) i (Some kind) s e p"
proof -
  let ?en = "inode_entry i t"
  let ?pr = "\<lparr>fl_kind = kind, fl_start = s, fl_end = e, fl_owner = p\<rparr>"
  have nu: "kind \<noteq> F_UNLCK" using kind by (auto simp: kconsts)
  have lwf: "locks_wf (il_locks ?en)" using wf by (simp add: ltable_wf_def)
  have blocked: "spec_blocked (table_at t) i kind s e p \<longleftrightarrow> (\<exists>lk \<in> set (il_locks ?en). conflicts lk ?pr)"
    unfolding conflict_blocked [OF lwf se] spec_blocked_def table_at_def ..
  show "try_set_lock wake i kind s e p t st \<noteq> None"
    using nu by (simp add: try_set_lock_def Let_def split: option.split)
  {
    assume "spec_blocked (table_at t) i kind s e p"
    then obtain c where "find (\<lambda>lk. conflicts lk ?pr) (il_locks ?en) = Some c"
      unfolding blocked by (metis (mono_tags, lifting) find_None_iff option.exhaust)
    then show "\<exists>c t'. try_set_lock wake i kind s e p t st = Some (Inl c, t', st) \<and> ltable_wf t'
        \<and> table_at t' = table_at t"
      using nu wf lwf
      by (auto simp: try_set_lock_def Let_def ltable_insert table_at_same)
  }
  assume "\<not> spec_blocked (table_at t) i kind s e p"
  then have free: "\<forall>lk \<in> set (il_locks ?en). \<not> conflicts lk ?pr" unfolding blocked by blast
  then have "find (\<lambda>lk. conflicts lk ?pr) (il_locks ?en) = None" by (simp add: find_None_iff)
  then show "\<exists>t'. try_set_lock wake i kind s e p t st = Some (Inr (), t', st) \<and> ltable_wf t'
      \<and> table_at t' = spec_set (table_at t) i (Some kind) s e p"
    using nu wf set_lock_wf [OF lwf se kind free]
    by (auto simp: try_set_lock_def Let_def ltable_insert table_at_insert fun_eq_iff spec_set_def
        set_lock_at [OF lwf se kind free]) (simp_all add: table_at_def)
qed

lemma unlock_range_clears:
  assumes wf: "ltable_wf t" and se: "s < e" and inv: "sched_inv k"
  shows "\<exists>t' k'. unlock_range wake_pid i s e p t k = Some (t', k') \<and> ltable_wf t' \<and> sched_inv k'
    \<and> table_at t' = spec_set (table_at t) i None s e p
    \<and> (\<forall>q. k_parked k' q \<longleftrightarrow> k_parked k q \<and> q \<notin> set (il_waiters (inode_entry i t)))"
proof -
  let ?en = "inode_entry i t"
  let ?t1 = "om_insert i (?en\<lparr>il_locks := split_owner_range s e p (il_locks ?en)\<rparr>) t"
  have lwf: "locks_wf (il_locks ?en)" and om: "om_wf t" using wf by (simp_all add: ltable_wf_def)
  have t1: "ltable_wf ?t1" using wf split_wf [OF lwf se] by (simp add: ltable_insert)
  have "table_at ?t1 = spec_set (table_at t) i None s e p"
    using wf by (auto simp: table_at_insert fun_eq_iff spec_set_def split_lock_at [OF lwf se])
      (simp_all add: table_at_def)
  then show ?thesis using wake_inode_law [OF t1 inv, of i] om
    by (auto simp: unlock_range_def Let_def inode_entry_insert)
qed

text \<open>C16: the lock table implements the byte-wise specification. A request for a read or write
  lock fails exactly when another process holds a lock on one of its bytes and one of the two is
  a write lock; it then changes no lock and wakes nobody. Otherwise the caller holds the new kind
  on every byte of the range and nothing else changes. An unlock clears the caller's locks on the
  range and wakes the waiters of the inode. The table stays well formed: two locks that share a
  byte are read locks of different processes.\<close>

theorem posix_lock_refines:
  assumes "ltable_wf t" "s < e" "sched_inv k"
  shows "(kind \<in> {F_RDLCK, F_WRLCK} \<and> spec_blocked (table_at t) i kind s e p \<longrightarrow>
      (\<exists>c t'. try_set_lock wake_pid i kind s e p t k = Some (Inl c, t', k)
        \<and> ltable_wf t' \<and> table_at t' = table_at t))
   \<and> (kind \<in> {F_RDLCK, F_WRLCK} \<and> \<not> spec_blocked (table_at t) i kind s e p \<longrightarrow>
      (\<exists>t'. try_set_lock wake_pid i kind s e p t k = Some (Inr (), t', k)
        \<and> ltable_wf t' \<and> table_at t' = spec_set (table_at t) i (Some kind) s e p))
   \<and> (\<exists>t' k'. try_set_lock wake_pid i F_UNLCK s e p t k = Some (Inr (), t', k')
        \<and> ltable_wf t' \<and> table_at t' = spec_set (table_at t) i None s e p \<and> sched_inv k'
        \<and> (\<forall>q. k_parked k' q \<longleftrightarrow> k_parked k q \<and> q \<notin> set (il_waiters (inode_entry i t))))"
  using try_set_lock_sets(2,3) [OF assms(1,2), of kind i p wake_pid k] unlock_range_clears [OF assms, of i p]
  by (auto simp: try_set_lock_def)

definition demo_locks :: lock_table where
  "demo_locks = [(5, \<lparr>il_locks = [\<lparr>fl_kind = F_WRLCK, fl_start = 0, fl_end = 10, fl_owner = Pid 1\<rparr>],
     il_waiters = [Pid 7]\<rparr>)]"

lemma demo_locks_at:
  "table_at demo_locks 5 q b = (if q = Pid 1 \<and> b < 10 then Some F_WRLCK else None)"
  by (auto simp: table_at_def inode_entry_def demo_locks_def lock_at_def covers_def)

lemma demo_locks_wf: "ltable_wf demo_locks"
  by (simp add: ltable_wf_def demo_locks_def inode_entry_def empty_inode_def locks_wf_def kconsts)

theorem posix_lock_refines_witness:
  "\<exists>t' k'. try_set_lock wake_pid 5 F_UNLCK 0 4 (Pid 1) demo_locks demo_kernel = Some (Inr (), t', k')
     \<and> table_at t' 5 (Pid 1) 3 = None \<and> table_at t' 5 (Pid 1) 4 = Some F_WRLCK \<and> \<not> k_parked k' (Pid 7)"
proof -
  have "(0 :: u64) < 4" by simp
  from posix_lock_refines [OF demo_locks_wf this demo_kernel_inv, of F_RDLCK 5 "Pid 1"] obtain t' k' where
    "try_set_lock wake_pid 5 F_UNLCK 0 4 (Pid 1) demo_locks demo_kernel = Some (Inr (), t', k')"
    "table_at t' = spec_set (table_at demo_locks) 5 None 0 4 (Pid 1)"
    "\<forall>q. k_parked k' q \<longleftrightarrow> k_parked demo_kernel q \<and> q \<notin> set (il_waiters (inode_entry 5 demo_locks))"
    by blast
  moreover have "Pid 7 \<in> set (il_waiters (inode_entry 5 demo_locks))"
    by (simp add: inode_entry_def demo_locks_def)
  ultimately show ?thesis by (simp add: spec_set_def demo_locks_at)
qed

section \<open>Releasing on close and exit\<close>

lemma filter_owner_wf: "locks_wf locks \<Longrightarrow> locks_wf (filter P locks)"
  by (auto simp: locks_wf_def)

lemma filter_owner_at:
  "lock_at (filter (\<lambda>lk. fl_owner lk \<noteq> p) locks) q b = (if q = p then None else lock_at locks q b)"
  by (induction locks) (auto simp: lock_at_def)

lemma drop_owner_inode_law:
  assumes wf: "ltable_wf t" and inv: "sched_inv k"
  shows "\<exists>t' k'. drop_owner_inode wake_pid p i t k = Some (t', k') \<and> ltable_wf t' \<and> sched_inv k'
    \<and> table_at t' = (table_at t)(i := (table_at t i)(p := \<lambda>_. None))"
proof (cases "map_of t i")
  case None
  then have "table_at t i = (\<lambda>_ _. None)" by (simp add: table_at_def inode_entry_def empty_inode_def lock_at_def fun_eq_iff)
  then show ?thesis using None assms by (simp add: drop_owner_inode_def fun_upd_idem fun_eq_iff)
next
  case (Some en)
  then have en: "inode_entry i t = en" by (simp add: inode_entry_def)
  then have lwf: "locks_wf (il_locks en)" using wf by (auto simp: ltable_wf_def)
  let ?t1 = "om_insert i (en\<lparr>il_locks := filter (\<lambda>lk. fl_owner lk \<noteq> p) (il_locks en)\<rparr>) t"
  have t1: "ltable_wf ?t1" using wf lwf by (simp add: ltable_insert filter_owner_wf)
  have "table_at ?t1 = (table_at t)(i := (table_at t i)(p := \<lambda>_. None))"
    using wf en by (auto simp: table_at_insert fun_eq_iff filter_owner_at) (simp_all add: table_at_def)
  then show ?thesis using Some wake_inode_law [OF t1 inv, of i] t1 inv
    by (auto simp: drop_owner_inode_def Let_def)
qed

lemma wake_inodes_law:
  "ltable_wf t \<Longrightarrow> sched_inv k \<Longrightarrow>
     \<exists>t' k'. wake_inodes wake_pid is t k = Some (t', k') \<and> ltable_wf t' \<and> sched_inv k' \<and> table_at t' = table_at t"
proof (induction "is" arbitrary: t k)
  case (Cons i "is")
  obtain t1 k1 where 1: "wake_inode wake_pid i t k = Some (t1, k1)" "ltable_wf t1" "table_at t1 = table_at t" "sched_inv k1"
    using wake_inode_law [OF Cons.prems] by blast
  then show ?case using Cons.IH [OF 1(2,4)] by auto
qed simp

lemma drop_owner_law:
  assumes wf: "ltable_wf t" and inv: "sched_inv k"
  shows "\<exists>t' k'. drop_owner wake_pid p t k = Some (t', k') \<and> ltable_wf t' \<and> sched_inv k'
    \<and> table_at t' = (\<lambda>i. (table_at t i)(p := \<lambda>_. None))"
proof -
  let ?keep = "\<lambda>en. en\<lparr>il_locks := filter (\<lambda>lk. fl_owner lk \<noteq> p) (il_locks en)\<rparr>"
  let ?t1 = "map (\<lambda>(i, en). (i, ?keep en)) t"
  have m: "map_of ?t1 i = map_option ?keep (map_of t i)" for i by (induction t) auto
  have en: "il_locks (inode_entry i ?t1) = filter (\<lambda>lk. fl_owner lk \<noteq> p) (il_locks (inode_entry i t))" for i
    by (simp add: inode_entry_def m empty_inode_def split: option.split)
  have "om_wf ?t1" using wf by (simp add: ltable_wf_def om_wf_def case_prod_unfold comp_def)
  then have t1: "ltable_wf ?t1" using wf by (simp add: ltable_wf_def en filter_owner_wf)
  have "table_at ?t1 = (\<lambda>i. (table_at t i)(p := \<lambda>_. None))"
    by (auto simp: table_at_def en filter_owner_at fun_eq_iff)
  then show ?thesis using wake_inodes_law [OF t1 inv] by (auto simp: drop_owner_def Let_def)
qed

text \<open>Replacing a write lock by a read lock makes the range available to readers, but wakes
  no one: a reader that waits for the range sleeps on although nothing blocks it any more.\<close>

lemma posix_downgrade_wakes_nobody:
  assumes "ltable_wf t" "s < e" "q \<noteq> p" "sched_inv k"
    and "\<forall>r b. s \<le> b \<and> b < e \<and> table_at t i r b = Some F_WRLCK \<longrightarrow> r = p"
    and "q \<in> set (il_waiters (inode_entry i t))" "k_parked k q"
  shows "\<exists>t'. try_set_lock wake_pid i F_RDLCK s e p t k = Some (Inr (), t', k) \<and> k_parked k q
    \<and> \<not> spec_blocked (table_at t') i F_RDLCK s e q \<and> il_waiters (inode_entry i t') = il_waiters (inode_entry i t)"
proof -
  have ne: "F_RDLCK \<noteq> F_WRLCK" "F_RDLCK \<noteq> F_UNLCK" by (simp_all add: kconsts)
  have "\<not> spec_blocked (table_at t) i F_RDLCK s e p"
    using assms(5) ne by (auto simp: spec_blocked_def)
  then obtain t' where t': "try_set_lock wake_pid i F_RDLCK s e p t k = Some (Inr (), t', k)" "ltable_wf t'"
    "table_at t' = spec_set (table_at t) i (Some F_RDLCK) s e p"
    using try_set_lock_sets(3) [OF assms(1,2), of F_RDLCK i p wake_pid k] by blast
  have "\<not> spec_blocked (table_at t') i F_RDLCK s e q"
    using t'(3) assms(5) ne by (auto simp: spec_blocked_def spec_set_def split: if_splits)
  moreover have "il_waiters (inode_entry i t') = il_waiters (inode_entry i t)"
    using t'(1) ne assms(1)
    by (auto simp: try_set_lock_def Let_def inode_entry_insert ltable_wf_def split: option.splits)
  ultimately show ?thesis using t'(1) assms(7) by blast
qed

lemma posix_downgrade_wakes_nobody_witness:
  "\<exists>t'. try_set_lock wake_pid 5 F_RDLCK 0 10 (Pid 1) demo_locks demo_kernel = Some (Inr (), t', demo_kernel)
     \<and> k_parked demo_kernel (Pid 7) \<and> \<not> spec_blocked (table_at t') 5 F_RDLCK 0 10 (Pid 7)"
proof -
  have 1: "(0 :: u64) < 10" "Pid 7 \<noteq> Pid 1" by simp_all
  have 2: "\<forall>r b. 0 \<le> b \<and> b < 10 \<and> table_at demo_locks 5 r b = Some F_WRLCK \<longrightarrow> r = Pid 1"
    by (simp add: demo_locks_at)
  have 3: "Pid 7 \<in> set (il_waiters (inode_entry 5 demo_locks))" "k_parked demo_kernel (Pid 7)"
    by (simp_all add: inode_entry_def demo_locks_def k_parked_def demo_kernel_def demo_proc_def)
  from posix_downgrade_wakes_nobody [OF demo_locks_wf 1 demo_kernel_inv 2 3] show ?thesis by blast
qed

section \<open>Blocking under the global lock\<close>

text \<open>a blocking lock request (F_SETLKW) never returns when another process holds a
  conflicting lock: it would have to park while its own call chain holds the global lock. The
  same request with F_SETLK returns EAGAIN.\<close>

lemma fcntl_setlkw_hangs:
  fixes buf :: bytes
  defines "l_type \<equiv> from_le (slice 0 2 buf)"
  assumes "ltable_wf t" "l_type \<in> {F_RDLCK, F_WRLCK}"
    and "lock_range (from_le (slice 2 2 buf)) (sint (from_le (slice 8 8 buf) :: u64))
      (sint (from_le (slice 16 8 buf) :: u64)) off fsize = Some (s, e)" "s < e"
    and "spec_blocked (table_at t) i l_type s e p"
  shows "fcntl_lock_call F_SETLKW i buf off fsize p t st = None
    \<and> (\<exists>t'. fcntl_lock_call F_SETLK i buf off fsize p t st = Some (EAGAIN, buf, t', st))"
proof -
  have kind: "l_type = F_RDLCK \<or> l_type = F_WRLCK" using assms(3) by blast
  obtain c t' where "try_set_lock wake_under_global i l_type s e p t st = Some (Inl c, t', st)"
    using try_set_lock_sets(2) [OF assms(2,5) kind assms(6), of wake_under_global st] by blast
  moreover have "F_SETLKW \<noteq> F_GETLK" "F_SETLK \<noteq> F_GETLK" "F_SETLKW \<noteq> F_SETLK" by (simp_all add: kconsts)
  ultimately show ?thesis using assms(3,4)
    by (auto simp: fcntl_lock_call_def lock_inner_def Let_def l_type_def [symmetric])
qed

definition demo_setlkw :: bytes where
  "demo_setlkw = to_le 2 F_WRLCK @ to_le 2 (0 :: u16) @ replicate 4 0
     @ to_le 8 (0 :: u64) @ to_le 8 (5 :: u64) @ replicate 8 0"

lemma fcntl_setlkw_hangs_witness:
  "fcntl_lock_call F_SETLKW 5 demo_setlkw 0 0 (Pid 2) demo_locks () = None"
proof -
  have 1: "from_le (slice 0 2 demo_setlkw) = F_WRLCK" "from_le (slice 2 2 demo_setlkw) = (0 :: u16)"
    "from_le (slice 8 8 demo_setlkw) = (0 :: u64)" "from_le (slice 16 8 demo_setlkw) = (5 :: u64)"
    by (simp_all add: demo_setlkw_def slice_def)
  have 2: "lock_range 0 0 5 0 0 = Some (0, 5)"
    by (simp add: lock_range_def sat_i64_def checked_add_def)
  have 3: "spec_blocked (table_at demo_locks) 5 F_WRLCK 0 5 (Pid 2)"
    unfolding spec_blocked_def by (rule exI [of _ "Pid 1"], rule exI [of _ 0]) (simp add: demo_locks_at)
  show ?thesis
    using fcntl_setlkw_hangs [OF demo_locks_wf, of demo_setlkw 0 0 0 5 5 "Pid 2" "()"] 1 2 3 by simp
qed

end
