(* ===== verification/Flock.thy ===== *)
theory Flock
  imports Wait_Queue
begin

unbundle bit_operations_syntax

text \<open>
  Whole-file locks of \<open>flock\<close> (\<open>kernel/src/vfs/locks/bsd.rs\<close>): per inode a lock state and a wait
  queue, and for every open file description the inode it holds a lock on. An open file
  description is named by the address of its \<open>OpenFile\<close>.
\<close>

section \<open>State and operations\<close>

abbreviation LOCK_SH :: u32 where "LOCK_SH \<equiv> 1"
abbreviation LOCK_EX :: u32 where "LOCK_EX \<equiv> 2"
abbreviation LOCK_UN :: u32 where "LOCK_UN \<equiv> 8"
abbreviation LOCK_NB :: u32 where "LOCK_NB \<equiv> 4"

datatype flock_state = Unlocked | Shared "u64 set" | Exclusive u64

record flock_entry =
  fe_state :: flock_state
  fe_waiters :: wait_queue

record flock_sys =
  fs_table :: "u64 \<Rightarrow> flock_entry option"
  fs_owned :: "u64 \<Rightarrow> u64 option"

datatype flock_outcome = Acquired | Conflict | Released

definition flock_entry_of :: "u64 \<Rightarrow> flock_sys \<Rightarrow> flock_entry" where
  "flock_entry_of inode sys = (case fs_table sys inode of
     Some e \<Rightarrow> e | None \<Rightarrow> \<lparr>fe_state = Unlocked, fe_waiters = []\<rparr>)"

text \<open>The entry operations return the outcome, the new lock state, the new owner map, and whether
  the wait queue is drained.\<close>

type_synonym owned = "u64 \<Rightarrow> u64 option"

definition acquire_shared :: "u64 \<Rightarrow> u64 \<Rightarrow> flock_state \<Rightarrow> owned \<Rightarrow> flock_outcome \<times> flock_state \<times> owned \<times> bool" where
  "acquire_shared inode ofd st ow =
     (case st of
        Unlocked \<Rightarrow> (Acquired, Shared {ofd}, ow(ofd \<mapsto> inode), False)
      | Shared S \<Rightarrow> (Acquired, Shared (insert ofd S), ow(ofd \<mapsto> inode), False)
      | Exclusive holder \<Rightarrow>
          if holder = ofd then (Acquired, Shared {ofd}, ow, True) else (Conflict, st, ow, False))"

definition acquire_exclusive ::
  "u64 \<Rightarrow> u64 \<Rightarrow> bool \<Rightarrow> flock_state \<Rightarrow> owned \<Rightarrow> flock_outcome \<times> flock_state \<times> owned \<times> bool" where
  "acquire_exclusive inode ofd blocking st ow =
     (case st of
        Unlocked \<Rightarrow> (Acquired, Exclusive ofd, ow(ofd \<mapsto> inode), False)
      | Shared S \<Rightarrow>
          if card S = 1 \<and> ofd \<in> S then (Acquired, Exclusive ofd, ow, False)
          else if blocking \<and> ofd \<in> S
          then (Conflict, if S - {ofd} = {} then Unlocked else Shared (S - {ofd}), ow(ofd := None), True)
          else (Conflict, st, ow, False)
      | Exclusive holder \<Rightarrow>
          if holder = ofd then (Acquired, st, ow, False) else (Conflict, st, ow, False))"

definition release_in_entry :: "u64 \<Rightarrow> flock_state \<Rightarrow> flock_state \<times> bool" where
  "release_in_entry ofd st =
     (case st of
        Unlocked \<Rightarrow> (Unlocked, False)
      | Shared S \<Rightarrow> (if S - {ofd} = {} then Unlocked else Shared (S - {ofd}), ofd \<in> S)
      | Exclusive holder \<Rightarrow> if holder = ofd then (Unlocked, True) else (st, False))"

definition set_entry :: "u64 \<Rightarrow> flock_state \<Rightarrow> wait_queue \<Rightarrow> owned \<Rightarrow> flock_sys \<Rightarrow> flock_sys" where
  "set_entry inode st q ow sys =
     \<lparr>fs_table = (fs_table sys)(inode \<mapsto> \<lparr>fe_state = st, fe_waiters = q\<rparr>), fs_owned = ow\<rparr>"

text \<open>Storing an entry; a drained wait queue is woken after the table lock is released.\<close>

definition finish_entry ::
  "'s wake_fn \<Rightarrow> u64 \<Rightarrow> flock_state \<Rightarrow> owned \<Rightarrow> bool \<Rightarrow> flock_sys \<Rightarrow> 's \<Rightarrow> (flock_sys \<times> 's) option" where
  "finish_entry wake inode st ow drain sys s =
     (let q = fe_waiters (flock_entry_of inode sys) in
      if drain then map_option (\<lambda>s'. (set_entry inode st [] ow sys, s')) (wake_each wake q s)
      else Some (set_entry inode st q ow sys, s))"

definition try_op ::
  "'s wake_fn \<Rightarrow> u64 \<Rightarrow> u64 \<Rightarrow> u32 \<Rightarrow> flock_sys \<Rightarrow> 's \<Rightarrow> (flock_outcome \<times> flock_sys \<times> 's) option" where
  "try_op wake inode ofd op sys s =
     (let kind = op AND NOT LOCK_NB; blocking = (op AND LOCK_NB = 0);
          st = fe_state (flock_entry_of inode sys); ow = fs_owned sys;
          (outcome, st', ow', drain) =
            (if kind = LOCK_UN then
               (case release_in_entry ofd st of (st', woke) \<Rightarrow> (Released, st', ow(ofd := None), woke))
             else if kind = LOCK_SH then acquire_shared inode ofd st ow
             else if kind = LOCK_EX then acquire_exclusive inode ofd blocking st ow
             else (Conflict, st, ow, False))
      in map_option (\<lambda>(sys', s'). (outcome, sys', s')) (finish_entry wake inode st' ow' drain sys s))"

definition drop_ofd :: "'s wake_fn \<Rightarrow> u64 \<Rightarrow> flock_sys \<Rightarrow> 's \<Rightarrow> (flock_sys \<times> 's) option" where
  "drop_ofd wake ofd sys s =
     (case fs_owned sys ofd of
        None \<Rightarrow> Some (sys, s)
      | Some inode \<Rightarrow>
          (case release_in_entry ofd (fe_state (flock_entry_of inode sys)) of
             (st', woke) \<Rightarrow> finish_entry wake inode st' ((fs_owned sys)(ofd := None)) woke sys s))"

definition held_kind :: "u64 \<Rightarrow> flock_sys \<Rightarrow> u32 option" where
  "held_kind ofd sys =
     (case fs_owned sys ofd of
        None \<Rightarrow> None
      | Some inode \<Rightarrow>
          (case fe_state (flock_entry_of inode sys) of
             Exclusive h \<Rightarrow> if h = ofd then Some LOCK_EX else None
           | Shared S \<Rightarrow> if ofd \<in> S then Some LOCK_SH else None
           | Unlocked \<Rightarrow> None))"

section \<open>What the operations do\<close>

definition flock_state_of :: "u64 \<Rightarrow> flock_sys \<Rightarrow> flock_state" where
  "flock_state_of inode sys = fe_state (flock_entry_of inode sys)"

definition flock_kind :: "flock_state \<Rightarrow> u64 \<Rightarrow> u32 option" where
  "flock_kind st ofd = (case st of
     Unlocked \<Rightarrow> None
   | Shared S \<Rightarrow> if ofd \<in> S then Some LOCK_SH else None
   | Exclusive h \<Rightarrow> if h = ofd then Some LOCK_EX else None)"

text \<open>The owner map names exactly the inode on which a description holds a lock, which is the
  inode it is open on; shared states are finite and not empty.\<close>

definition flock_inv :: "(u64 \<Rightarrow> u64) \<Rightarrow> flock_sys \<Rightarrow> bool" where
  "flock_inv inode_of sys \<longleftrightarrow>
     (\<forall>i ofd. flock_kind (flock_state_of i sys) ofd \<noteq> None \<longleftrightarrow> fs_owned sys ofd = Some i)
   \<and> (\<forall>ofd i. fs_owned sys ofd = Some i \<longrightarrow> i = inode_of ofd)
   \<and> (\<forall>i S. flock_state_of i sys = Shared S \<longrightarrow> finite S \<and> S \<noteq> {})"

definition flock_op :: "u32 \<Rightarrow> bool \<Rightarrow> u32" where
  "flock_op kind nonblock = (if nonblock then kind OR LOCK_NB else kind)"

text \<open>A request that another holder stands in the way of.\<close>

definition flock_blocked :: "flock_state \<Rightarrow> u64 \<Rightarrow> u32 \<Rightarrow> bool" where
  "flock_blocked st a kind \<longleftrightarrow> (\<exists>b k. b \<noteq> a \<and> flock_kind st b = Some k \<and> (k = LOCK_EX \<or> kind = LOCK_EX))"

lemma flock_op_decode:
  assumes "kind \<in> {LOCK_SH, LOCK_EX, LOCK_UN}"
  shows "flock_op kind nb AND NOT LOCK_NB = kind" "flock_op kind nb AND LOCK_NB = 0 \<longleftrightarrow> \<not> nb"
  using assms by (auto simp: flock_op_def kconsts)

lemma flock_consts [simp]:
  "LOCK_SH \<noteq> LOCK_EX" "LOCK_EX \<noteq> LOCK_SH" "LOCK_SH \<noteq> LOCK_UN" "LOCK_EX \<noteq> LOCK_UN"
  "LOCK_UN \<noteq> LOCK_SH" "LOCK_UN \<noteq> LOCK_EX"
  by (simp_all add: kconsts)

lemma flock_state_of_set [simp]:
  "flock_state_of j (set_entry i st q ow sys) = (if j = i then st else flock_state_of j sys)"
  "fs_owned (set_entry i st q ow sys) = ow"
  "fe_waiters (flock_entry_of i (set_entry i st q ow sys)) = q"
  by (simp_all add: flock_state_of_def flock_entry_of_def set_entry_def)

text \<open>The transition on one entry: outcome, new state, and whether waiters are drained.\<close>

definition flock_trans :: "u64 \<Rightarrow> u32 \<Rightarrow> bool \<Rightarrow> flock_state \<Rightarrow> flock_outcome \<times> flock_state \<times> bool" where
  "flock_trans a kind nb st =
     (if kind = LOCK_UN then (case release_in_entry a st of (st', woke) \<Rightarrow> (Released, st', woke))
      else if kind = LOCK_SH then
        (case acquire_shared 0 a st (\<lambda>_. None) of (out, st', _, d) \<Rightarrow> (out, st', d))
      else (case acquire_exclusive 0 a (\<not> nb) st (\<lambda>_. None) of (out, st', _, d) \<Rightarrow> (out, st', d)))"

definition shared_ok :: "flock_state \<Rightarrow> bool" where
  "shared_ok st \<longleftrightarrow> (\<forall>S. st = Shared S \<longrightarrow> finite S \<and> S \<noteq> {})"

lemma card_one_member: "finite S \<Longrightarrow> a \<in> S \<Longrightarrow> card S = 1 \<longleftrightarrow> S = {a}"
  by (auto simp: card_1_singleton_iff)

lemma flock_trans_Unlocked:
  "kind \<in> {LOCK_SH, LOCK_EX, LOCK_UN} \<Longrightarrow> flock_trans a kind nb Unlocked =
     (if kind = LOCK_UN then (Released, Unlocked, False)
      else if kind = LOCK_SH then (Acquired, Shared {a}, False) else (Acquired, Exclusive a, False))"
  by (auto simp: flock_trans_def release_in_entry_def acquire_shared_def acquire_exclusive_def)

lemma flock_trans_Exclusive:
  "kind \<in> {LOCK_SH, LOCK_EX, LOCK_UN} \<Longrightarrow> flock_trans a kind nb (Exclusive h) =
     (if kind = LOCK_UN then (if h = a then (Released, Unlocked, True) else (Released, Exclusive h, False))
      else if h \<noteq> a then (Conflict, Exclusive h, False)
      else if kind = LOCK_SH then (Acquired, Shared {a}, True) else (Acquired, Exclusive h, False))"
  by (auto simp: flock_trans_def release_in_entry_def acquire_shared_def acquire_exclusive_def)

lemma flock_trans_Shared:
  assumes "kind \<in> {LOCK_SH, LOCK_EX, LOCK_UN}" "finite S"
  shows "flock_trans a kind nb (Shared S) =
     (let rest = (if S - {a} = {} then Unlocked else Shared (S - {a})) in
      if kind = LOCK_UN then (Released, rest, a \<in> S)
      else if kind = LOCK_SH then (Acquired, Shared (insert a S), False)
      else if S = {a} then (Acquired, Exclusive a, False)
      else if \<not> nb \<and> a \<in> S then (Conflict, rest, True) else (Conflict, Shared S, False))"
  using assms card_one_member [OF assms(2), of a]
  by (auto simp: flock_trans_def release_in_entry_def acquire_shared_def acquire_exclusive_def Let_def)

lemma flock_kind_simps [simp]:
  "flock_kind Unlocked b = None" "flock_kind (Shared S) b = (if b \<in> S then Some LOCK_SH else None)"
  "flock_kind (Exclusive h) b = (if h = b then Some LOCK_EX else None)"
  by (simp_all add: flock_kind_def)

lemma flock_blocked_simps [simp]:
  "flock_blocked Unlocked b kind \<longleftrightarrow> False"
  "flock_blocked (Shared S) b kind \<longleftrightarrow> kind = LOCK_EX \<and> \<not> S \<subseteq> {b}"
  "flock_blocked (Exclusive h) b kind \<longleftrightarrow> h \<noteq> b"
  by (auto simp: flock_blocked_def)

lemma flock_trans_spec:
  assumes "shared_ok st" "kind \<in> {LOCK_SH, LOCK_EX, LOCK_UN}" "flock_trans a kind nb st = (out, st', d)"
  shows "shared_ok st'"
    "out = (if kind = LOCK_UN then Released else if flock_blocked st a kind then Conflict else Acquired)"
    "flock_kind st' a = (if out = Released then None else if out = Acquired then Some kind
       else if kind = LOCK_EX \<and> \<not> nb \<and> flock_kind st a = Some LOCK_SH then None else flock_kind st a)"
    "b \<noteq> a \<Longrightarrow> flock_kind st' b = flock_kind st b"
    "b \<noteq> a \<Longrightarrow> flock_blocked st b kind' \<Longrightarrow> \<not> flock_blocked st' b kind' \<Longrightarrow> d"
proof -
  let ?P = "shared_ok st'
    \<and> out = (if kind = LOCK_UN then Released else if flock_blocked st a kind then Conflict else Acquired)
    \<and> flock_kind st' a = (if out = Released then None else if out = Acquired then Some kind
       else if kind = LOCK_EX \<and> \<not> nb \<and> flock_kind st a = Some LOCK_SH then None else flock_kind st a)
    \<and> (b \<noteq> a \<longrightarrow> flock_kind st' b = flock_kind st b)
    \<and> (b \<noteq> a \<longrightarrow> flock_blocked st b kind' \<longrightarrow> \<not> flock_blocked st' b kind' \<longrightarrow> d)"
  have ?P
  proof (cases st)
    case Unlocked
    then show ?thesis using assms(2,3) flock_trans_Unlocked [OF assms(2), of a nb]
      by (auto simp: shared_ok_def)
  next
    case (Exclusive h)
    then show ?thesis using assms(2,3) flock_trans_Exclusive [OF assms(2), of a nb h]
      by (auto simp: shared_ok_def split: if_splits)
  next
    case (Shared S)
    then have S: "finite S" "S \<noteq> {}" using assms(1) by (simp_all add: shared_ok_def)
    then show ?thesis using Shared assms(2,3) flock_trans_Shared [OF assms(2) S(1), of a nb]
      by (auto simp: shared_ok_def Let_def split: if_splits)
  qed
  then show "shared_ok st'"
    "out = (if kind = LOCK_UN then Released else if flock_blocked st a kind then Conflict else Acquired)"
    "flock_kind st' a = (if out = Released then None else if out = Acquired then Some kind
       else if kind = LOCK_EX \<and> \<not> nb \<and> flock_kind st a = Some LOCK_SH then None else flock_kind st a)"
    "b \<noteq> a \<Longrightarrow> flock_kind st' b = flock_kind st b"
    "b \<noteq> a \<Longrightarrow> flock_blocked st b kind' \<Longrightarrow> \<not> flock_blocked st' b kind' \<Longrightarrow> d"
    by blast+
qed

section \<open>The system of locks\<close>

definition owned_after :: "u64 \<Rightarrow> u64 \<Rightarrow> flock_state \<Rightarrow> owned \<Rightarrow> owned" where
  "owned_after i a st ow = ow(a := if flock_kind st a = None then None else Some i)"

lemma flock_owned_self:
  assumes "flock_inv inode_of sys"
  shows "fs_owned sys a = (if flock_kind (flock_state_of (inode_of a) sys) a = None then None else Some (inode_of a))"
  using assms unfolding flock_inv_def by (metis not_Some_eq)

lemma fun_upd_self: "f a = v \<Longrightarrow> f = f(a := v)"
  by auto

lemma try_op_eq:
  assumes inv: "flock_inv inode_of sys" and kind: "kind \<in> {LOCK_SH, LOCK_EX, LOCK_UN}"
    and tr: "flock_trans a kind nb (flock_state_of (inode_of a) sys) = (out, st', d)"
  shows "try_op wake (inode_of a) a (flock_op kind nb) sys s =
    map_option (\<lambda>(sys', s'). (out, sys', s'))
      (finish_entry wake (inode_of a) st' (owned_after (inode_of a) a st' (fs_owned sys)) d sys s)"
proof -
  obtain st where st: "fe_state (flock_entry_of (inode_of a) sys) = st" by blast
  then have st': "flock_state_of (inode_of a) sys = st" by (simp add: flock_state_of_def)
  have ok: "shared_ok st" using inv st' by (auto simp: flock_inv_def shared_ok_def)
  note tr = tr [unfolded st']
  note spec = flock_trans_spec(2,3) [OF ok kind tr]
  have own: "fs_owned sys a = (if flock_kind st a = None then None else Some (inode_of a))"
    using flock_owned_self [OF inv, of a] st' by simp
  consider (un) "kind = LOCK_UN" | (sh) "kind = LOCK_SH" | (ex) "kind = LOCK_EX" using kind by blast
  then show ?thesis
  proof cases
    case un
    then show ?thesis using tr spec flock_op_decode [OF kind, of nb]
      by (auto simp: try_op_def flock_trans_def owned_after_def st Let_def split: prod.splits)
  next
    case sh
    then show ?thesis using tr own flock_op_decode [OF kind, of nb] fun_upd_self [of "fs_owned sys" a]
      by (cases st) (auto simp: try_op_def flock_trans_def acquire_shared_def owned_after_def
          st Let_def split: if_splits)
  next
    case ex
    then show ?thesis using tr own flock_op_decode [OF kind, of nb] fun_upd_self [of "fs_owned sys" a]
      by (cases st) (auto simp: try_op_def flock_trans_def acquire_exclusive_def owned_after_def
          st Let_def split: if_splits)
  qed
qed

lemma held_kind_eq:
  assumes "flock_inv inode_of sys"
  shows "held_kind a sys = flock_kind (flock_state_of (inode_of a) sys) a"
  using flock_owned_self [OF assms, of a]
  by (auto simp: held_kind_def flock_state_of_def flock_kind_def split: flock_state.splits if_splits)

lemma flock_inv_set:
  assumes inv: "flock_inv inode_of sys" and ok: "shared_ok st'"
    and other: "\<And>b. b \<noteq> a \<Longrightarrow> flock_kind st' b = flock_kind (flock_state_of (inode_of a) sys) b"
  shows "flock_inv inode_of (set_entry (inode_of a) st' q (owned_after (inode_of a) a st' (fs_owned sys)) sys)"
proof -
  have own: "flock_kind (flock_state_of i sys) b \<noteq> None \<longleftrightarrow> fs_owned sys b = Some i" for i b
    using inv by (simp add: flock_inv_def)
  have io: "fs_owned sys b = Some i \<Longrightarrow> i = inode_of b" for b i using inv by (simp add: flock_inv_def)
  show ?thesis
    unfolding flock_inv_def
  proof (intro conjI allI)
    fix i b
    show "(flock_kind (flock_state_of i (set_entry (inode_of a) st' q
          (owned_after (inode_of a) a st' (fs_owned sys)) sys)) b \<noteq> None) =
        (fs_owned (set_entry (inode_of a) st' q (owned_after (inode_of a) a st' (fs_owned sys)) sys) b = Some i)"
      using own [of i b] io [of b i] other [of b] by (cases "b = a") (auto simp: owned_after_def)
  next
    fix b i
    show "fs_owned (set_entry (inode_of a) st' q (owned_after (inode_of a) a st' (fs_owned sys)) sys) b = Some i
        \<longrightarrow> i = inode_of b"
      using io by (auto simp: owned_after_def split: if_splits)
  next
    fix i S
    show "flock_state_of i (set_entry (inode_of a) st' q (owned_after (inode_of a) a st' (fs_owned sys)) sys) = Shared S
        \<longrightarrow> finite S \<and> S \<noteq> {}"
      using inv ok by (auto simp: flock_inv_def shared_ok_def split: if_splits)
  qed
qed

lemma finish_entry_law:
  assumes "sched_inv k"
  shows "\<exists>k'. finish_entry wake_pid i st ow d sys k
      = Some (set_entry i st (if d then [] else fe_waiters (flock_entry_of i sys)) ow sys, k') \<and> sched_inv k'
    \<and> (\<forall>p. k_parked k' p \<longleftrightarrow> k_parked k p \<and> \<not> (d \<and> p \<in> set (fe_waiters (flock_entry_of i sys))))"
  using kw.wake_each_law [OF assms, of "fe_waiters (flock_entry_of i sys)"] assms
  by (auto simp: finish_entry_def Let_def)

text \<open>C17: a \<open>flock\<close> call on an open file description succeeds exactly when no other description
  holds a lock on the same inode that excludes the request. It then holds the requested kind;
  a failed blocking upgrade gives up the shared lock it had, and no other description's lock
  changes. Whenever a call makes a request of another description possible that was blocked
  before, every process waiting on the inode is woken, so no waiter is left behind.\<close>

theorem flock_exclusion:
  assumes "flock_inv inode_of sys" "sched_inv k" "kind \<in> {LOCK_SH, LOCK_EX, LOCK_UN}"
  shows "\<exists>out sys' k'. try_op wake_pid (inode_of a) a (flock_op kind nb) sys k = Some (out, sys', k')
    \<and> flock_inv inode_of sys' \<and> sched_inv k'
    \<and> out = (if kind = LOCK_UN then Released
             else if \<exists>b h. b \<noteq> a \<and> inode_of b = inode_of a \<and> held_kind b sys = Some h
               \<and> (h = LOCK_EX \<or> kind = LOCK_EX) then Conflict else Acquired)
    \<and> held_kind a sys' = (if out = Released then None else if out = Acquired then Some kind
         else if kind = LOCK_EX \<and> \<not> nb \<and> held_kind a sys = Some LOCK_SH then None else held_kind a sys)
    \<and> (\<forall>b. b \<noteq> a \<longrightarrow> held_kind b sys' = held_kind b sys)
    \<and> (\<forall>b kind'. b \<noteq> a \<and> flock_blocked (flock_state_of (inode_of a) sys) b kind'
         \<and> \<not> flock_blocked (flock_state_of (inode_of a) sys') b kind' \<longrightarrow>
         (\<forall>p \<in> set (fe_waiters (flock_entry_of (inode_of a) sys)). \<not> k_parked k' p))"
proof -
  let ?i = "inode_of a"
  let ?st = "flock_state_of ?i sys"
  obtain out st' d where tr: "flock_trans a kind nb ?st = (out, st', d)" by (metis surj_pair)
  have ok: "shared_ok ?st" using assms(1) by (auto simp: flock_inv_def shared_ok_def)
  note spec = flock_trans_spec [OF ok assms(3) tr]
  let ?q = "if d then [] else fe_waiters (flock_entry_of ?i sys)"
  define sys' where "sys' = set_entry ?i st' ?q (owned_after ?i a st' (fs_owned sys)) sys"
  obtain k' where k': "finish_entry wake_pid ?i st' (owned_after ?i a st' (fs_owned sys)) d sys k = Some (sys', k')"
    "sched_inv k'" "\<forall>p. k_parked k' p \<longleftrightarrow> k_parked k p \<and> \<not> (d \<and> p \<in> set (fe_waiters (flock_entry_of ?i sys)))"
    using finish_entry_law [OF assms(2)] unfolding sys'_def by blast
  have inv': "flock_inv inode_of sys'" unfolding sys'_def by (rule flock_inv_set [OF assms(1) spec(1,4)])
  have st': "flock_state_of ?i sys' = st'" "\<And>j. j \<noteq> ?i \<Longrightarrow> flock_state_of j sys' = flock_state_of j sys"
    by (simp_all add: sys'_def)
  note held = held_kind_eq [OF assms(1)] held_kind_eq [OF inv']
  have in_inode: "inode_of b = ?i" if "flock_kind ?st b \<noteq> None" for b
    using that assms(1) unfolding flock_inv_def by metis
  have blk: "flock_blocked ?st a kind \<longleftrightarrow> (\<exists>b h. b \<noteq> a \<and> inode_of b = ?i \<and> held_kind b sys = Some h
       \<and> (h = LOCK_EX \<or> kind = LOCK_EX))"
    unfolding flock_blocked_def held using in_inode by (metis option.distinct(1))
  have "held_kind b sys' = held_kind b sys" if "b \<noteq> a" for b
    using spec(4) [OF that] st' by (cases "inode_of b = ?i") (simp_all add: held)
  moreover have "try_op wake_pid ?i a (flock_op kind nb) sys k = Some (out, sys', k')"
    by (simp add: try_op_eq [OF assms(1,3) tr] k'(1))
  moreover have "held_kind a sys' = (if out = Released then None else if out = Acquired then Some kind
         else if kind = LOCK_EX \<and> \<not> nb \<and> held_kind a sys = Some LOCK_SH then None else held_kind a sys)"
    using spec(3) st'(1) by (simp add: held)
  moreover have "\<not> k_parked k' p" if "b \<noteq> a" "flock_blocked ?st b kind'" "\<not> flock_blocked (flock_state_of ?i sys') b kind'"
      "p \<in> set (fe_waiters (flock_entry_of ?i sys))" for b kind' p
    using spec(5) [OF that(1,2)] that(3,4) st'(1) k'(3) by simp
  ultimately show ?thesis using inv' k'(2) spec(2) [unfolded blk]
    by (intro exI [of _ out] exI [of _ sys'] exI [of _ k'] conjI allI impI ballI) (assumption | blast)+
qed

lemma flock_inv_empty: "flock_inv inode_of \<lparr>fs_table = \<lambda>_. None, fs_owned = \<lambda>_. None\<rparr>"
  by (simp add: flock_inv_def flock_state_of_def flock_entry_of_def)

theorem flock_exclusion_witness:
  "\<exists>out sys' k'. try_op wake_pid 5 64 (flock_op LOCK_EX False) \<lparr>fs_table = \<lambda>_. None, fs_owned = \<lambda>_. None\<rparr> demo_kernel
     = Some (out, sys', k') \<and> out = Acquired \<and> held_kind 64 sys' = Some LOCK_EX"
proof -
  let ?s = "\<lparr>fs_table = \<lambda>_. None, fs_owned = \<lambda>_. None\<rparr>"
  have "LOCK_EX \<in> {LOCK_SH, LOCK_EX, LOCK_UN}" by simp
  from flock_exclusion [OF flock_inv_empty [of "\<lambda>_. 5"] demo_kernel_inv this, of 64 False]
  show ?thesis by (force simp: held_kind_def)
qed

end
