(* ===== verification/Fd_Table.thy ===== *)
theory Fd_Table
  imports Kapi
begin

unbundle bit_operations_syntax

text \<open>
  Descriptor tables (\<open>kernel/src/vfs/fd.rs\<close>) with the calls that duplicate and close descriptors
  (\<open>syscall/fs/file_io.rs\<close>, \<open>locks.rs\<close>), and the file offset of an open file
  (\<open>OpenFile\<close> in \<open>vfs/mod.rs\<close>). A table is a list of slots and a limit; the specification is the
  partial function from descriptors to open files. Open files are of any type \<open>'f\<close>.
\<close>

section \<open>Descriptor tables\<close>

abbreviation MAX_FDS :: nat where "MAX_FDS \<equiv> 1024"
abbreviation HARD_MAX_FDS :: nat where "HARD_MAX_FDS \<equiv> 65536"
abbreviation FD_CLOEXEC :: u8 where "FD_CLOEXEC \<equiv> 1"

record 'f slot =
  sl_file :: "'f option"
  sl_fd_flags :: u8

record 'f fd_table =
  ft_slots :: "'f slot list"
  ft_soft_cap :: nat

text \<open>\<open>i as i32\<close> of an index.\<close>

definition as_i32 :: "nat \<Rightarrow> int" where
  "as_i32 i = sint (of_nat i :: 32 word)"

definition slot_empty :: "'f slot" where
  "slot_empty = \<lparr>sl_file = None, sl_fd_flags = 0\<rparr>"

definition fdt_new :: "'f fd_table" where
  "fdt_new = \<lparr>ft_slots = [], ft_soft_cap = MAX_FDS\<rparr>"

definition set_soft_cap :: "nat \<Rightarrow> 'f fd_table \<Rightarrow> nat \<times> 'f fd_table" where
  "set_soft_cap n t = (min n HARD_MAX_FDS, t\<lparr>ft_soft_cap := min n HARD_MAX_FDS\<rparr>)"

definition ensure_len :: "nat \<Rightarrow> 'f slot list \<Rightarrow> 'f slot list" where
  "ensure_len n slots = slots @ replicate (n - length slots) slot_empty"

definition put_slot :: "nat \<Rightarrow> 'f \<Rightarrow> u8 \<Rightarrow> 'f slot list \<Rightarrow> 'f slot list" where
  "put_slot i file fl slots = slots[i := \<lparr>sl_file = Some file, sl_fd_flags = fl\<rparr>]"

definition install_from :: "'f \<Rightarrow> int \<Rightarrow> u8 \<Rightarrow> 'f fd_table \<Rightarrow> (int + int) \<times> 'f fd_table" where
  "install_from file min_fd fl t =
     (if min_fd < 0 \<or> int (ft_soft_cap t) \<le> min_fd then (Inl EINVAL, t)
      else
        (let start = nat min_fd; slots = ft_slots t in
         case find (\<lambda>i. sl_file (slots ! i) = None) [start..<length slots] of
           Some i \<Rightarrow> (Inr (as_i32 i), t\<lparr>ft_slots := put_slot i file fl slots\<rparr>)
         | None \<Rightarrow>
             (let i = max (length slots) start in
              if ft_soft_cap t \<le> i then (Inl EMFILE, t)
              else (Inr (as_i32 i), t\<lparr>ft_slots := put_slot i file fl (ensure_len (i + 1) slots)\<rparr>))))"

definition install :: "'f \<Rightarrow> 'f fd_table \<Rightarrow> (int + int) \<times> 'f fd_table" where
  "install file t = install_from file 0 0 t"

definition install_at_with :: "int \<Rightarrow> 'f \<Rightarrow> u8 \<Rightarrow> 'f fd_table \<Rightarrow> 'f fd_table" where
  "install_at_with fd file fl t =
     (if fd < 0 \<or> int (ft_soft_cap t) \<le> fd then t
      else t\<lparr>ft_slots := put_slot (nat fd) file fl (ensure_len (nat fd + 1) (ft_slots t))\<rparr>)"

definition fdt_get :: "int \<Rightarrow> 'f fd_table \<Rightarrow> 'f option" where
  "fdt_get fd t =
     (if fd < 0 then None
      else if nat fd < length (ft_slots t) then sl_file (ft_slots t ! nat fd) else None)"

definition fdt_remove :: "int \<Rightarrow> 'f fd_table \<Rightarrow> 'f option \<times> 'f fd_table" where
  "fdt_remove fd t =
     (if fd < 0 then (None, t)
      else if nat fd < length (ft_slots t)
      then (sl_file (ft_slots t ! nat fd), t\<lparr>ft_slots := (ft_slots t)[nat fd := slot_empty]\<rparr>)
      else (None, t))"

definition dup_to ::
  "int \<Rightarrow> int \<Rightarrow> u8 \<Rightarrow> 'f fd_table \<Rightarrow> (int + int \<times> 'f option) \<times> 'f fd_table" where
  "dup_to src dst fl t =
     (let cap = int (ft_soft_cap t) in
      if src < 0 \<or> cap \<le> src \<or> dst < 0 \<or> cap \<le> dst then (Inl EBADF, t)
      else case fdt_get src t of
        None \<Rightarrow> (Inl EBADF, t)
      | Some file \<Rightarrow>
          if src \<noteq> dst
          then (let slots = ensure_len (nat dst + 1) (ft_slots t)
                in (Inr (dst, sl_file (slots ! nat dst)),
                    t\<lparr>ft_slots := put_slot (nat dst) file fl slots\<rparr>))
          else (Inr (dst, None), t))"

definition fdt_fd_flags :: "int \<Rightarrow> 'f fd_table \<Rightarrow> u8 option" where
  "fdt_fd_flags fd t =
     (if fd < 0 then None
      else if nat fd < length (ft_slots t) \<and> sl_file (ft_slots t ! nat fd) \<noteq> None
      then Some (sl_fd_flags (ft_slots t ! nat fd)) else None)"

definition set_fd_flags :: "int \<Rightarrow> u8 \<Rightarrow> 'f fd_table \<Rightarrow> (int + unit) \<times> 'f fd_table" where
  "set_fd_flags fd fl t =
     (if fd < 0 then (Inl EBADF, t)
      else if length (ft_slots t) \<le> nat fd \<or> sl_file (ft_slots t ! nat fd) = None then (Inl EBADF, t)
      else (Inr (), t\<lparr>ft_slots := (ft_slots t)[nat fd := (ft_slots t ! nat fd)\<lparr>sl_fd_flags := fl\<rparr>]\<rparr>))"

abbreviation is_cloexec :: "'f slot \<Rightarrow> bool" where
  "is_cloexec s \<equiv> sl_fd_flags s AND FD_CLOEXEC \<noteq> 0"

definition close_cloexec :: "'f fd_table \<Rightarrow> 'f list \<times> 'f fd_table" where
  "close_cloexec t =
     (List.map_filter sl_file (filter is_cloexec (ft_slots t)),
      t\<lparr>ft_slots := map (\<lambda>s. if is_cloexec s then slot_empty else s) (ft_slots t)\<rparr>)"

definition close_all :: "'f fd_table \<Rightarrow> 'f fd_table" where
  "close_all t = t\<lparr>ft_slots := map (\<lambda>_. slot_empty) (ft_slots t)\<rparr>"

definition clone_for_child :: "'f fd_table \<Rightarrow> 'f fd_table" where
  "clone_for_child t = \<lparr>ft_slots = map (\<lambda>s. \<lparr>sl_file = sl_file s, sl_fd_flags = sl_fd_flags s\<rparr>) (ft_slots t),
     ft_soft_cap = ft_soft_cap t\<rparr>"

section \<open>System calls on descriptors\<close>

definition as_i32_u64 :: "u64 \<Rightarrow> int" where
  "as_i32_u64 w = sint (ucast w :: 32 word)"

definition sys_dup :: "u64 \<Rightarrow> 'f fd_table \<Rightarrow> int \<times> 'f fd_table" where
  "sys_dup fd t =
     (case fdt_get (as_i32_u64 fd) t of
        None \<Rightarrow> (EBADF, t)
      | Some file \<Rightarrow>
          (case install file t of (Inr n, t') \<Rightarrow> (n, t') | (Inl _, t') \<Rightarrow> (EMFILE, t')))"

definition sys_dup2 :: "u64 \<Rightarrow> u64 \<Rightarrow> 'f fd_table \<Rightarrow> int \<times> 'f fd_table" where
  "sys_dup2 oldfd newfd t =
     (case dup_to (as_i32_u64 oldfd) (as_i32_u64 newfd) 0 t of
        (Inr (fd, _), t') \<Rightarrow> (fd, t') | (Inl e, t') \<Rightarrow> (e, t'))"

definition sys_dup3 :: "u64 \<Rightarrow> u64 \<Rightarrow> u64 \<Rightarrow> 'f fd_table \<Rightarrow> int \<times> 'f fd_table" where
  "sys_dup3 oldfd newfd fl t =
     (if oldfd = newfd then (EINVAL, t)
      else case dup_to (as_i32_u64 oldfd) (as_i32_u64 newfd)
          (if fl AND 0x80000 \<noteq> 0 then FD_CLOEXEC else 0) t of
        (Inr (fd, _), t') \<Rightarrow> (fd, t') | (Inl e, t') \<Rightarrow> (e, t'))"

section \<open>Offsets of open files\<close>

datatype whence = SeekSet | SeekCur | SeekEnd

text \<open>Signed 64-bit addition; an overflow panics.\<close>

definition i64_add :: "int \<Rightarrow> int \<Rightarrow> int option" where
  "i64_add a b = (if - (2 ^ 63) \<le> a + b \<and> a + b < 2 ^ 63 then Some (a + b) else None)"

definition seek :: "whence \<Rightarrow> int \<Rightarrow> u64 \<Rightarrow> u64 \<Rightarrow> u64 option" where
  "seek wh pos cur fsize =
     (case wh of
        SeekSet \<Rightarrow> Some (of_int (max pos 0))
      | SeekCur \<Rightarrow> map_option (\<lambda>n. of_int (max n 0)) (i64_add (sint cur) pos)
      | SeekEnd \<Rightarrow> map_option (\<lambda>n. of_int (max n 0)) (i64_add (sint fsize) pos))"

text \<open>\<open>sys_lseek\<close> on an open descriptor: result and new offset.\<close>

definition sys_lseek :: "u64 \<Rightarrow> u64 \<Rightarrow> u64 \<Rightarrow> u64 \<Rightarrow> (int \<times> u64) option" where
  "sys_lseek offset wh cur fsize =
     (if wh = 0 then map_option (\<lambda>p. (sint p, p)) (seek SeekSet (sint offset) cur fsize)
      else if wh = 1 then map_option (\<lambda>p. (sint p, p)) (seek SeekCur (sint offset) cur fsize)
      else if wh = 2 then map_option (\<lambda>p. (sint p, p)) (seek SeekEnd (sint offset) cur fsize)
      else Some (EINVAL, cur))"

text \<open>Reading and writing move the offset; the inode is a parameter, its result a byte count.\<close>

definition of_read ::
  "(u64 \<Rightarrow> open_flags \<Rightarrow> errno + u64) \<Rightarrow> open_flags \<Rightarrow> u64 \<Rightarrow> (errno + u64) \<times> u64" where
  "of_read read_at fl off =
     (if \<not> is_readable fl then (Inl Errno_ACCES, off)
      else case read_at off fl of
        Inl e \<Rightarrow> (Inl e, off) | Inr n \<Rightarrow> (Inr n, saturating_add off n))"

definition of_write ::
  "(u64 \<Rightarrow> open_flags \<Rightarrow> errno + u64) \<Rightarrow> u64 \<Rightarrow> open_flags \<Rightarrow> u64 \<Rightarrow> (errno + u64) \<times> u64" where
  "of_write write_at fsize fl cur =
     (if \<not> is_writable fl then (Inl Errno_ACCES, cur)
      else
        (let off = (if flags_contains fl O_APPEND then fsize else cur) in
         case write_at off fl of
           Inl e \<Rightarrow> (Inl e, cur) | Inr n \<Rightarrow> (Inr n, saturating_add off n)))"

definition set_flags_subset :: "open_flags \<Rightarrow> open_flags \<Rightarrow> open_flags" where
  "set_flags_subset new_flags cur =
     (let mutable = O_APPEND OR O_NONBLOCK
      in (cur AND NOT mutable) OR (new_flags AND mutable))"

section \<open>The specification\<close>

definition fd_at :: "'f fd_table \<Rightarrow> nat \<Rightarrow> ('f \<times> u8) option" where
  "fd_at t fd =
     (if fd < length (ft_slots t)
      then map_option (\<lambda>f. (f, sl_fd_flags (ft_slots t ! fd))) (sl_file (ft_slots t ! fd)) else None)"

definition fd_wf :: "'f fd_table \<Rightarrow> bool" where
  "fd_wf t \<longleftrightarrow> length (ft_slots t) \<le> HARD_MAX_FDS \<and> ft_soft_cap t \<le> HARD_MAX_FDS"

definition lowest_free :: "nat \<Rightarrow> 'f fd_table \<Rightarrow> nat" where
  "lowest_free m t = (LEAST fd. m \<le> fd \<and> fd_at t fd = None)"

lemma as_i32_small: "i < HARD_MAX_FDS \<Longrightarrow> as_i32 i = int i"
  by (simp add: as_i32_def sint_uint signed_take_bit_int_eq_self unsigned_of_nat
      take_bit_nat_eq_self)

lemma fd_at_put:
  assumes "i < length slots"
  shows "fd_at (t\<lparr>ft_slots := put_slot i f fl slots\<rparr>) = (fd_at (t\<lparr>ft_slots := slots\<rparr>))(i \<mapsto> (f, fl))"
  using assms by (auto simp: fd_at_def put_slot_def nth_list_update fun_eq_iff)

lemma fd_at_ensure: "fd_at (t\<lparr>ft_slots := ensure_len n (ft_slots t)\<rparr>) = fd_at t"
  by (auto simp: fd_at_def ensure_len_def nth_append slot_empty_def fun_eq_iff)

lemma length_ensure [simp]: "length (ensure_len n slots) = max n (length slots)"
  by (simp add: ensure_len_def)

lemma lowest_free_eqI:
  "m \<le> i \<Longrightarrow> fd_at t i = None \<Longrightarrow> (\<And>j. m \<le> j \<Longrightarrow> j < i \<Longrightarrow> fd_at t j \<noteq> None) \<Longrightarrow> lowest_free m t = i"
  unfolding lowest_free_def by (rule Least_equality) (blast, meson not_le)

lemma find_upt_least:
  assumes "find P [a..<b] = Some i"
  shows "a \<le> i" "i < b" "P i" "\<And>j. a \<le> j \<Longrightarrow> j < i \<Longrightarrow> \<not> P j"
proof -
  obtain n where n: "n < b - a" "P (a + n)" "i = a + n" "\<forall>j<n. \<not> P (a + j)"
    using assms by (auto simp: find_Some_iff)
  then show "a \<le> i" "i < b" "P i" by auto
  show "\<not> P j" if "a \<le> j" "j < i" for j
    using n(3,4) that by (metis add_diff_inverse_nat less_diff_conv2 not_less add.commute)
qed

text \<open>Installing takes the lowest free descriptor from the minimum on, if it is inside the table
  or below the limit.\<close>

lemma install_from_spec:
  assumes wf: "fd_wf t" and m: "0 \<le> m" "m < int (ft_soft_cap t)"
    and i: "i = lowest_free (nat m) t"
  shows "if i < length (ft_slots t) \<or> i < ft_soft_cap t
    then \<exists>t'. install_from f m fl t = (Inr (int i), t') \<and> fd_at t' = (fd_at t)(i \<mapsto> (f, fl)) \<and> fd_wf t'
    else install_from f m fl t = (Inl EMFILE, t)"
proof (cases "find (\<lambda>i. sl_file (ft_slots t ! i) = None) [nat m..<length (ft_slots t)]")
  case (Some j)
  note least = find_upt_least [OF Some]
  have "fd_at t j = None" "\<And>n. nat m \<le> n \<Longrightarrow> n < j \<Longrightarrow> fd_at t n \<noteq> None"
    using least by (auto simp: fd_at_def)
  then have ij: "i = j" using i lowest_free_eqI [OF least(1)] by blast
  have "j < HARD_MAX_FDS" using wf least(2) by (simp add: fd_wf_def)
  then show ?thesis using m Some ij least(2) wf fd_at_put [OF least(2), where t = t and f = f and fl = fl]
    by (auto simp: install_from_def Let_def as_i32_small fd_wf_def put_slot_def)
next
  case None
  let ?j = "max (length (ft_slots t)) (nat m)"
  have occ: "fd_at t n \<noteq> None" if "nat m \<le> n" "n < length (ft_slots t)" for n
    using None that by (simp add: find_None_iff fd_at_def)
  then have ij: "i = ?j" using i lowest_free_eqI [of "nat m" ?j t] by (auto simp: fd_at_def)
  show ?thesis
  proof (cases "?j < ft_soft_cap t")
    case True
    then have small: "?j < HARD_MAX_FDS" using wf by (simp add: fd_wf_def)
    have "?j < length (ensure_len (?j + 1) (ft_slots t))" by simp
    then show ?thesis using m None ij True small wf fd_at_put [of ?j "ensure_len (?j + 1) (ft_slots t)", where t = t and f = f and fl = fl]
      by (auto simp: install_from_def Let_def as_i32_small fd_wf_def put_slot_def fd_at_ensure)
  next
    case False
    then show ?thesis using m None ij by (auto simp: install_from_def Let_def)
  qed
qed

lemma fd_at_update:
  "n < length (ft_slots t) \<Longrightarrow>
     fd_at (t\<lparr>ft_slots := (ft_slots t)[n := s]\<rparr>) = (fd_at t)(n := map_option (\<lambda>f. (f, sl_fd_flags s)) (sl_file s))"
  by (auto simp: fd_at_def nth_list_update fun_eq_iff)

lemma fd_at_none: "length (ft_slots t) \<le> n \<Longrightarrow> fd_at t n = None"
  by (simp add: fd_at_def)

lemma fdt_get_spec: "fdt_get fd t = (if fd < 0 then None else map_option fst (fd_at t (nat fd)))"
  by (simp add: fdt_get_def fd_at_def option.map_comp comp_def option.map_ident)

lemma fdt_remove_spec:
  "0 \<le> fd \<Longrightarrow> fst (fdt_remove fd t) = map_option fst (fd_at t (nat fd))
     \<and> fd_at (snd (fdt_remove fd t)) = (fd_at t)(nat fd := None)"
  by (auto simp: fdt_remove_def fd_at_update fd_at_none slot_empty_def fun_eq_iff fd_at_def
      option.map_comp comp_def option.map_ident)

lemma set_fd_flags_spec:
  "0 \<le> fd \<Longrightarrow> (case fd_at t (nat fd) of
     None \<Rightarrow> set_fd_flags fd fl t = (Inl EBADF, t)
   | Some (f, _) \<Rightarrow> fst (set_fd_flags fd fl t) = Inr () \<and> fd_at (snd (set_fd_flags fd fl t)) = (fd_at t)(nat fd \<mapsto> (f, fl)))"
  by (auto simp: set_fd_flags_def fd_at_update fd_at_def split: option.splits)

lemma dup_to_spec:
  assumes "0 \<le> src" "src < int (ft_soft_cap t)" "0 \<le> dst" "dst < int (ft_soft_cap t)" "fd_wf t"
  shows "case fd_at t (nat src) of
     None \<Rightarrow> dup_to src dst fl t = (Inl EBADF, t)
   | Some (f, _) \<Rightarrow>
       if src = dst then dup_to src dst fl t = (Inr (dst, None), t)
       else \<exists>t'. dup_to src dst fl t = (Inr (dst, map_option fst (fd_at t (nat dst))), t')
         \<and> fd_at t' = (fd_at t)(nat dst \<mapsto> (f, fl)) \<and> fd_wf t'"
proof (cases "fd_at t (nat src)")
  case None
  then show ?thesis using assms by (simp add: dup_to_def fdt_get_spec)
next
  case (Some e)
  let ?slots = "ensure_len (nat dst + 1) (ft_slots t)"
  have len: "nat dst < length ?slots" by simp
  have old: "sl_file (?slots ! nat dst) = map_option fst (fd_at t (nat dst))"
    using len by (auto simp: fd_at_def ensure_len_def nth_append slot_empty_def option.map_comp comp_def
        option.map_ident)
  have "nat dst < ft_soft_cap t" using assms(3,4) by simp
  then have wf: "fd_wf (t\<lparr>ft_slots := put_slot (nat dst) f fl ?slots\<rparr>)" for f
    using assms(5) by (simp add: fd_wf_def put_slot_def)
  have at: "fd_at (t\<lparr>ft_slots := put_slot (nat dst) f fl ?slots\<rparr>) = (fd_at t)(nat dst \<mapsto> (f, fl))" for f
    using fd_at_put [OF len] by (simp add: fd_at_ensure)
  show ?thesis using Some assms old wf at
    by (auto simp: dup_to_def fdt_get_spec Let_def split: prod.split)
qed

lemma close_cloexec_spec:
  "fd_at (snd (close_cloexec t)) n = (case fd_at t n of
     Some (f, fl) \<Rightarrow> if fl AND FD_CLOEXEC \<noteq> 0 then None else Some (f, fl) | None \<Rightarrow> None)"
  by (auto simp: close_cloexec_def fd_at_def slot_empty_def split: option.splits)

lemma clone_for_child_spec: "fd_at (clone_for_child t) = fd_at t"
  by (simp add: clone_for_child_def fd_at_def fun_eq_iff)

lemma dup_to_table:
  assumes "0 \<le> src" "src < int (ft_soft_cap t)" "0 \<le> dst" "dst < int (ft_soft_cap t)"
    "dup_to src dst fl t = (r, t')" "length (ft_slots t) \<le> ft_soft_cap t"
  shows "length (ft_slots t') \<le> ft_soft_cap t' \<and> ft_soft_cap t' = ft_soft_cap t"
  using assms by (auto simp: dup_to_def Let_def put_slot_def split: option.splits if_splits)

lemma install_from_table:
  assumes "install_from f m fl t = (r, t')" "length (ft_slots t) \<le> ft_soft_cap t"
  shows "length (ft_slots t') \<le> ft_soft_cap t' \<and> ft_soft_cap t' = ft_soft_cap t"
  using assms by (auto simp: install_from_def Let_def put_slot_def split: option.splits if_splits)

text \<open>C18: a descriptor table that has not outgrown its limit implements a partial function from
  descriptors to open files with their flags. Installing chooses the lowest free descriptor that
  is at least the minimum, and reports EMFILE exactly when that one is not below the limit.
  Closing forgets exactly the given descriptor and hands its file back. Duplicating an open
  descriptor onto another makes the target refer to the same file with the given flags and hands
  back what it replaced; onto itself it changes nothing; of a closed one it is EBADF. Setting
  flags changes exactly those. The table does not outgrow its limit through these calls. Exec
  closes exactly the close-on-exec descriptors, and a child starts with the same descriptors.\<close>

theorem fd_table_refines:
  assumes "fd_wf t" "length (ft_slots t) \<le> ft_soft_cap t" "0 \<le> m" "m < int (ft_soft_cap t)"
  shows "(let i = lowest_free (nat m) t in
      if i < ft_soft_cap t
      then \<exists>t'. install_from f m fl t = (Inr (int i), t') \<and> fd_at t' = (fd_at t)(i \<mapsto> (f, fl)) \<and>
        fd_wf t' \<and> length (ft_slots t') \<le> ft_soft_cap t' \<and> ft_soft_cap t' = ft_soft_cap t
      else install_from f m fl t = (Inl EMFILE, t))
    \<and> fst (fdt_remove m t) = map_option fst (fd_at t (nat m))
    \<and> fd_at (snd (fdt_remove m t)) = (fd_at t)(nat m := None)
    \<and> (\<forall>src. 0 \<le> src \<and> src < int (ft_soft_cap t) \<longrightarrow> (case fd_at t (nat src) of
         None \<Rightarrow> dup_to src m fl t = (Inl EBADF, t) \<and> set_fd_flags src fl t = (Inl EBADF, t)
       | Some (g, gfl) \<Rightarrow>
           (if src = m then dup_to src m fl t = (Inr (m, None), t)
            else \<exists>t'. dup_to src m fl t = (Inr (m, map_option fst (fd_at t (nat m))), t') \<and>
              fd_at t' = (fd_at t)(nat m \<mapsto> (g, fl)) \<and>
              fd_wf t' \<and> length (ft_slots t') \<le> ft_soft_cap t' \<and> ft_soft_cap t' = ft_soft_cap t) \<and>
           fst (set_fd_flags src fl t) = Inr () \<and>
           fd_at (snd (set_fd_flags src fl t)) = (fd_at t)(nat src \<mapsto> (g, fl))))
    \<and> fd_at (snd (close_cloexec t)) n = (case fd_at t n of
         Some (h, hfl) \<Rightarrow> if hfl AND FD_CLOEXEC \<noteq> 0 then None else Some (h, hfl) | None \<Rightarrow> None)
    \<and> fd_at (clone_for_child t) = fd_at t"
proof -
  have inst: "let i = lowest_free (nat m) t in
      if i < ft_soft_cap t
      then \<exists>t'. install_from f m fl t = (Inr (int i), t') \<and> fd_at t' = (fd_at t)(i \<mapsto> (f, fl)) \<and>
        fd_wf t' \<and> length (ft_slots t') \<le> ft_soft_cap t' \<and> ft_soft_cap t' = ft_soft_cap t
      else install_from f m fl t = (Inl EMFILE, t)"
  proof (cases "lowest_free (nat m) t < ft_soft_cap t")
    case True
    then obtain t' where "install_from f m fl t = (Inr (int (lowest_free (nat m) t)), t')"
      "fd_at t' = (fd_at t)(lowest_free (nat m) t \<mapsto> (f, fl))" "fd_wf t'"
      using install_from_spec [OF assms(1,3,4) refl, of f fl] by auto
    then show ?thesis using True install_from_table [OF _ assms(2), of f m fl] unfolding Let_def by auto
  next
    case False
    then show ?thesis
      using install_from_spec [OF assms(1,3,4) refl, of f fl] assms(2) by (simp add: Let_def)
  qed
  have "case fd_at t (nat src) of
         None \<Rightarrow> dup_to src m fl t = (Inl EBADF, t) \<and> set_fd_flags src fl t = (Inl EBADF, t)
       | Some (g, gfl) \<Rightarrow>
           (if src = m then dup_to src m fl t = (Inr (m, None), t)
            else \<exists>t'. dup_to src m fl t = (Inr (m, map_option fst (fd_at t (nat m))), t') \<and>
              fd_at t' = (fd_at t)(nat m \<mapsto> (g, fl)) \<and>
              fd_wf t' \<and> length (ft_slots t') \<le> ft_soft_cap t' \<and> ft_soft_cap t' = ft_soft_cap t) \<and>
           fst (set_fd_flags src fl t) = Inr () \<and>
           fd_at (snd (set_fd_flags src fl t)) = (fd_at t)(nat src \<mapsto> (g, fl))"
    if src: "0 \<le> src" "src < int (ft_soft_cap t)" for src
  proof (cases "fd_at t (nat src)")
    case None
    then show ?thesis
      using dup_to_spec [OF src assms(3,4,1), of fl] set_fd_flags_spec [OF src(1), where t = t and fl = fl]
      by simp
  next
    case (Some e)
    obtain g gfl where e: "fd_at t (nat src) = Some (g, gfl)" using Some by (cases e) simp
    show ?thesis
      using dup_to_spec [OF src assms(3,4,1), of fl] set_fd_flags_spec [OF src(1), where t = t and fl = fl]
        dup_to_table [OF src assms(3,4) _ assms(2), of fl]
      unfolding e option.case prod.case by metis
  qed
  then show ?thesis
    using inst fdt_remove_spec [OF assms(3), of t] close_cloexec_spec [of t n] clone_for_child_spec [of t]
    by blast
qed

text \<open>Three open descriptors under a limit of four, then descriptor one is closed.\<close>

definition demo_table :: "nat fd_table" where
  "demo_table = \<lparr>ft_slots = map (\<lambda>n. \<lparr>sl_file = if n = 1 then None else Some n, sl_fd_flags = 0\<rparr>) [0..<3],
     ft_soft_cap = 4\<rparr>"

theorem fd_table_refines_witness:
  "\<exists>t'. install_from 9 0 0 demo_table = (Inr 1, t') \<and> fd_at t' 1 = Some (9, 0)"
proof -
  have wf: "fd_wf demo_table" "length (ft_slots demo_table) \<le> ft_soft_cap demo_table"
    by (simp_all add: fd_wf_def demo_table_def)
  have "lowest_free (nat 0) demo_table = 1"
    by (rule lowest_free_eqI) (auto simp: fd_at_def demo_table_def)
  moreover have "ft_soft_cap demo_table = 4" by (simp add: demo_table_def)
  ultimately show ?thesis
    using fd_table_refines [OF wf, of 0 9 0 0] by (auto simp: Let_def)
qed

text \<open>A limit that is lowered below the length of the table is not honoured by installing: slots
  inside the table are reused whatever the limit. Here seven descriptors were open when the limit
  was lowered to three; descriptor five, closed since, is handed out again.\<close>

definition lowered :: "nat fd_table" where
  "lowered = \<lparr>ft_slots = map (\<lambda>n. \<lparr>sl_file = if n = 5 then None else Some n, sl_fd_flags = 0\<rparr>) [0..<7],
     ft_soft_cap = 3\<rparr>"

lemma lowered_limit_not_honoured:
  "\<exists>t'. install_from 9 1 0 lowered = (Inr 5, t') \<and> fd_at t' 5 = Some (9, 0) \<and> ft_soft_cap t' = 3"
proof -
  have wf: "fd_wf lowered" by (simp add: fd_wf_def lowered_def)
  have "lowest_free (nat 1) lowered = 5"
    by (rule lowest_free_eqI) (auto simp: fd_at_def lowered_def)
  moreover have "length (ft_slots lowered) = 7" "ft_soft_cap lowered = 3" by (simp_all add: lowered_def)
  ultimately obtain t' where "install_from 9 1 0 lowered = (Inr 5, t')" "fd_at t' 5 = Some (9, 0)"
    using install_from_spec [OF wf, of 1 5 9 0] by auto
  then show ?thesis
    by (auto simp: install_from_def Let_def lowered_def split: option.splits if_splits)
qed

text \<open>\<open>lseek\<close> relative to the current offset or to the end of the file panics exactly when
  the sum leaves the range of signed 64-bit numbers, which a caller can force with the largest
  offset; otherwise it stores the sum, and negative results become zero instead of an error.\<close>

lemma lseek_overflow_panics:
  "sys_lseek offset 1 cur fsize = (if - (2 ^ 63) \<le> sint cur + sint offset \<and> sint cur + sint offset < 2 ^ 63
     then (let p = of_int (max (sint cur + sint offset) 0) in Some (sint p, p)) else None)
   \<and> sys_lseek offset 2 cur fsize = (if - (2 ^ 63) \<le> sint fsize + sint offset \<and> sint fsize + sint offset < 2 ^ 63
     then (let p = of_int (max (sint fsize + sint offset) 0) in Some (sint p, p)) else None)
   \<and> sys_lseek (2 ^ 63 - 1) 1 1 fsize = None"
proof -
  have "sint (9223372036854775807 :: u64) = 2 ^ 63 - 1" by simp
  then show ?thesis by (simp add: sys_lseek_def seek_def i64_add_def Let_def)
qed

end
