(* ===== verification/Pipe.thy ===== *)
theory Pipe
  imports Wait_Queue Kapi
begin

unbundle bit_operations_syntax

text \<open>
  Pipes (\<open>kernel/src/vfs/pipe.rs\<close>) and the blocking loop shared by file operations
  (\<open>kernel/src/vfs/blocking.rs\<close>). A blocking call is a sequence of attempts with sleeps in
  between; the model has the attempts, each with its effect on the wait queues.
\<close>

section \<open>State\<close>

abbreviation PIPE_CAPACITY :: nat where "PIPE_CAPACITY \<equiv> 65536"
definition PIPE_MIN_CAPACITY :: nat where [kconsts]: "PIPE_MIN_CAPACITY = 4096"
definition PIPE_MAX_CAPACITY :: nat where [kconsts]: "PIPE_MAX_CAPACITY = 2 ^ 20"

record pipe =
  pi_buf :: bytes
  pi_readers :: u32
  pi_writers :: u32
  pi_cap :: nat
  pi_read_waiters :: wait_queue
  pi_write_waiters :: wait_queue

definition pipe_new :: pipe where
  "pipe_new = \<lparr>pi_buf = [], pi_readers = 0, pi_writers = 0, pi_cap = PIPE_CAPACITY,
     pi_read_waiters = [], pi_write_waiters = []\<rparr>"

section \<open>Operations on the state\<close>

text \<open>The counters are incremented with overflow checks.\<close>

definition bump :: "bool \<Rightarrow> u32 \<Rightarrow> u32 option" where
  "bump b n = (if b then checked_add n 1 else Some n)"

definition bump_open :: "bool \<Rightarrow> bool \<Rightarrow> pipe \<Rightarrow> pipe option" where
  "bump_open readable writable p =
     (case bump writable (pi_writers p) of
        None \<Rightarrow> None
      | Some w \<Rightarrow> map_option (\<lambda>r. p\<lparr>pi_writers := w, pi_readers := r\<rparr>) (bump readable (pi_readers p)))"

definition drop_close :: "bool \<Rightarrow> bool \<Rightarrow> pipe \<Rightarrow> (bool \<times> bool) \<times> pipe" where
  "drop_close readable writable p =
     (let w = (if writable then saturating_sub (pi_writers p) 1 else pi_writers p);
          r = (if readable then saturating_sub (pi_readers p) 1 else pi_readers p)
      in ((writable \<and> w = 0, readable \<and> r = 0), p\<lparr>pi_writers := w, pi_readers := r\<rparr>))"

definition peek_inner :: "nat \<Rightarrow> pipe \<Rightarrow> bytes" where
  "peek_inner len p = take len (pi_buf p)"

datatype read_step = Drained bytes | Eof | ReadWouldPark

definition read_step_of :: "nat \<Rightarrow> pipe \<Rightarrow> read_step \<times> pipe" where
  "read_step_of len p =
     (if pi_buf p \<noteq> [] then (Drained (take len (pi_buf p)), p\<lparr>pi_buf := drop len (pi_buf p)\<rparr>)
      else if pi_writers p = 0 then (Eof, p)
      else (ReadWouldPark, p))"

datatype write_step = Wrote nat | BrokenPipe | WriteWouldPark

definition write_step_of :: "bytes \<Rightarrow> pipe \<Rightarrow> write_step \<times> pipe" where
  "write_step_of bs p =
     (if pi_readers p = 0 then (BrokenPipe, p)
      else
        (let room = pi_cap p - length (pi_buf p) in
         if 0 < room
         then (let n = min (length bs) room in (Wrote n, p\<lparr>pi_buf := pi_buf p @ take n bs\<rparr>))
         else (WriteWouldPark, p)))"

definition poll_in_out_hup :: "pipe \<Rightarrow> bool \<times> bool \<times> bool" where
  "poll_in_out_hup p =
     (pi_buf p \<noteq> [] \<or> pi_writers p = 0, length (pi_buf p) < pi_cap p \<or> pi_readers p = 0,
      pi_writers p = 0 \<and> pi_buf p = [])"

definition pipe_poll :: "pipe \<Rightarrow> u32" where
  "pipe_poll p = (case poll_in_out_hup p of (i, out, hup) \<Rightarrow>
     (if i then PollMask_IN else 0) OR (if out then PollMask_OUT else 0) OR (if hup then PollMask_HUP else 0))"

text \<open>\<open>next_multiple_of\<close>.\<close>

definition next_multiple :: "nat \<Rightarrow> nat \<Rightarrow> nat" where
  "next_multiple n d = (if n mod d = 0 then n else n + (d - n mod d))"

definition set_capacity :: "nat \<Rightarrow> pipe \<Rightarrow> nat option \<times> pipe" where
  "set_capacity want p =
     (let rounded = next_multiple (max PIPE_MIN_CAPACITY (min PIPE_MAX_CAPACITY want)) PIPE_MIN_CAPACITY
      in if rounded < length (pi_buf p) then (None, p)
         else (Some rounded, p\<lparr>pi_cap := rounded\<rparr>))"

section \<open>Attempts of blocking calls\<close>

datatype 'r attempt = Ready 'r | WouldBlock | IoErr errno

text \<open>One round of \<open>block_io\<close> up to the sleep: the caller enqueues itself before trying, and
  leaves the queue unless it is going to sleep.\<close>

definition block_io_round ::
  "wait_queue \<Rightarrow> bool \<Rightarrow> pid \<Rightarrow> (wait_queue \<Rightarrow> ('r attempt \<times> wait_queue \<times> 's) option)
     \<Rightarrow> ('r attempt \<times> wait_queue \<times> 's) option" where
  "block_io_round wq nonblock cur att =
     (case att (wq_enqueue cur wq) of
        None \<Rightarrow> None
      | Some (Ready r, q, s) \<Rightarrow> Some (Ready r, wq_dequeue cur q, s)
      | Some (IoErr e, q, s) \<Rightarrow> Some (IoErr e, wq_dequeue cur q, s)
      | Some (WouldBlock, q, s) \<Rightarrow>
          if nonblock then Some (IoErr Errno_AGAIN, wq_dequeue cur q, s) else Some (WouldBlock, q, s))"

text \<open>A round of \<open>read_at_with_flags\<close>.\<close>

definition pipe_read_round ::
  "'s wake_fn \<Rightarrow> bool \<Rightarrow> pid \<Rightarrow> nat \<Rightarrow> pipe \<Rightarrow> 's \<Rightarrow> (bytes attempt \<times> pipe \<times> 's) option" where
  "pipe_read_round wake nonblock cur len p s =
     (let p0 = p\<lparr>pi_read_waiters := wq_enqueue cur (pi_read_waiters p)\<rparr>;
          leave = (\<lambda>p. p\<lparr>pi_read_waiters := wq_dequeue cur (pi_read_waiters p)\<rparr>)
      in case read_step_of len p0 of
           (Drained bs, p1) \<Rightarrow>
             map_option (\<lambda>(_, q, s'). (Ready bs, (leave p1)\<lparr>pi_write_waiters := q\<rparr>, s'))
               (wake_one_pid wake (pi_write_waiters p1) s)
         | (Eof, p1) \<Rightarrow> Some (Ready [], leave p1, s)
         | (ReadWouldPark, p1) \<Rightarrow>
             if nonblock then Some (IoErr Errno_AGAIN, leave p1, s) else Some (WouldBlock, p1, s))"

text \<open>A round of \<open>write_at_with_flags\<close>, by \<open>block_io\<close> on the write queue.\<close>

definition pipe_write_attempt ::
  "'s wake_fn \<Rightarrow> bytes \<Rightarrow> pipe \<Rightarrow> 's \<Rightarrow> wait_queue \<Rightarrow> (nat attempt \<times> wait_queue \<times> pipe \<times> 's) option" where
  "pipe_write_attempt wake bs p s wq =
     (case write_step_of bs p of
        (Wrote n, p1) \<Rightarrow>
          map_option (\<lambda>(_, q, s'). (Ready n, wq, p1\<lparr>pi_read_waiters := q\<rparr>, s'))
            (wake_one_pid wake (pi_read_waiters p1) s)
      | (BrokenPipe, p1) \<Rightarrow> Some (IoErr Errno_PIPE, wq, p1, s)
      | (WriteWouldPark, p1) \<Rightarrow> Some (WouldBlock, wq, p1, s))"

definition pipe_write_round ::
  "'s wake_fn \<Rightarrow> bool \<Rightarrow> pid \<Rightarrow> bytes \<Rightarrow> pipe \<Rightarrow> 's \<Rightarrow> (nat attempt \<times> pipe \<times> 's) option" where
  "pipe_write_round wake nonblock cur bs p s =
     map_option (\<lambda>(r, q, p', s'). (r, p'\<lparr>pi_write_waiters := q\<rparr>, s'))
       (block_io_round (pi_write_waiters p) nonblock cur (pipe_write_attempt wake bs p s))"

definition pipe_on_close ::
  "'s wake_fn \<Rightarrow> open_flags \<Rightarrow> pipe \<Rightarrow> 's \<Rightarrow> (pipe \<times> 's) option" where
  "pipe_on_close wake fl p s =
     (case drop_close (is_readable fl) (is_writable fl) p of
        ((wake_readers, wake_writers), p1) \<Rightarrow>
          (case (if wake_readers then map_option (\<lambda>(q, s'). (p1\<lparr>pi_read_waiters := q\<rparr>, s'))
                   (wake_all wake (pi_read_waiters p1) s) else Some (p1, s)) of
             None \<Rightarrow> None
           | Some (p2, s2) \<Rightarrow>
               if wake_writers then map_option (\<lambda>(q, s'). (p2\<lparr>pi_write_waiters := q\<rparr>, s'))
                 (wake_all wake (pi_write_waiters p2) s2)
               else Some (p2, s2)))"

section \<open>The byte stream\<close>

datatype pipe_call =
    PcOpen bool bool
  | PcClose bool bool
  | PcRead nat
  | PcWrite bytes
  | PcSetCap nat

text \<open>A sequence of calls by any processes, with the bytes written and the bytes read so far.\<close>

fun pipe_step :: "pipe_call \<Rightarrow> bytes \<times> bytes \<times> pipe \<Rightarrow> (bytes \<times> bytes \<times> pipe) option" where
  "pipe_step (PcOpen r w) (ws, rs, p) = map_option (\<lambda>p'. (ws, rs, p')) (bump_open r w p)"
| "pipe_step (PcClose r w) (ws, rs, p) = Some (ws, rs, snd (drop_close r w p))"
| "pipe_step (PcRead len) (ws, rs, p) =
     (case read_step_of len p of (Drained bs, p') \<Rightarrow> Some (ws, rs @ bs, p') | (_, p') \<Rightarrow> Some (ws, rs, p'))"
| "pipe_step (PcWrite bs) (ws, rs, p) =
     (case write_step_of bs p of (Wrote n, p') \<Rightarrow> Some (ws @ take n bs, rs, p') | (_, p') \<Rightarrow> Some (ws, rs, p'))"
| "pipe_step (PcSetCap n) (ws, rs, p) = Some (ws, rs, snd (set_capacity n p))"

fun pipe_run :: "pipe_call list \<Rightarrow> bytes \<times> bytes \<times> pipe \<Rightarrow> (bytes \<times> bytes \<times> pipe) option" where
  "pipe_run [] st = Some st"
| "pipe_run (c # cs) st = (case pipe_step c st of None \<Rightarrow> None | Some st' \<Rightarrow> pipe_run cs st')"

definition pipe_wf :: "pipe \<Rightarrow> bool" where
  "pipe_wf p \<longleftrightarrow> length (pi_buf p) \<le> pi_cap p \<and> PIPE_MIN_CAPACITY \<le> pi_cap p
     \<and> pi_cap p \<le> PIPE_MAX_CAPACITY \<and> pi_cap p mod PIPE_MIN_CAPACITY = 0"

fun stream_ok :: "bytes \<times> bytes \<times> pipe \<Rightarrow> bool" where
  "stream_ok (ws, rs, p) \<longleftrightarrow> ws = rs @ pi_buf p \<and> pipe_wf p"

lemma next_multiple_bounds:
  assumes "PIPE_MIN_CAPACITY \<le> n" "n \<le> PIPE_MAX_CAPACITY"
  shows "n \<le> next_multiple n PIPE_MIN_CAPACITY" "next_multiple n PIPE_MIN_CAPACITY \<le> PIPE_MAX_CAPACITY"
    "next_multiple n PIPE_MIN_CAPACITY mod PIPE_MIN_CAPACITY = 0"
proof -
  let ?d = PIPE_MIN_CAPACITY
  have d: "0 < ?d" "PIPE_MAX_CAPACITY = 256 * ?d" by (simp_all add: kconsts)
  have eq: "n + (?d - n mod ?d) = ?d * Suc (n div ?d)"
  proof -
    have "?d * (n div ?d) + n mod ?d = n" by simp
    then show ?thesis using mod_less_divisor [OF d(1), of n] unfolding mult_Suc_right by linarith
  qed
  show "n \<le> next_multiple n ?d" by (simp add: next_multiple_def)
  show "next_multiple n ?d mod ?d = 0" unfolding next_multiple_def eq by simp
  show "next_multiple n ?d \<le> PIPE_MAX_CAPACITY"
  proof (cases "n mod ?d = 0")
    case False
    then have "n < 256 * ?d" using assms(2) d(2) by (metis le_neq_implies_less mod_mult_self2_is_0)
    then have "n div ?d < 256" using d(1) by (simp add: div_less_iff_less_mult mult.commute)
    then have "?d * Suc (n div ?d) \<le> ?d * 256" by (intro mult_le_mono2) simp
    moreover have "next_multiple n ?d = ?d * Suc (n div ?d)"
      unfolding next_multiple_def eq using False by simp
    ultimately show ?thesis unfolding d(2) by linarith
  qed (use assms(2) in \<open>simp add: next_multiple_def\<close>)
qed

lemma pipe_step_ok:
  assumes "stream_ok st" "pipe_step c st = Some st'"
  shows "stream_ok st'"
proof -
  obtain ws rs p where st: "st = (ws, rs, p)" by (cases st)
  show ?thesis
  proof (cases c)
    case (PcSetCap n)
    let ?w = "max PIPE_MIN_CAPACITY (min PIPE_MAX_CAPACITY n)"
    have "PIPE_MIN_CAPACITY \<le> ?w" "?w \<le> PIPE_MAX_CAPACITY" by (simp_all add: kconsts)
    note b = next_multiple_bounds [OF this] order_trans [OF this(1) next_multiple_bounds(1) [OF this]]
    have "pipe_wf (snd (set_capacity n p))" "pi_buf (snd (set_capacity n p)) = pi_buf p"
      using b(2-) assms(1) st by (auto simp: set_capacity_def Let_def pipe_wf_def)
    then show ?thesis using assms PcSetCap st by auto
  next
    case (PcOpen r w)
    then show ?thesis using assms st by (auto simp: bump_open_def pipe_wf_def split: option.splits)
  next
    case (PcClose r w)
    then show ?thesis using assms st by (auto simp: drop_close_def Let_def pipe_wf_def)
  next
    case (PcRead n)
    then show ?thesis using assms st by (auto simp: read_step_of_def pipe_wf_def split: if_splits)
  next
    case (PcWrite bs)
    then show ?thesis using assms st by (auto simp: write_step_of_def Let_def pipe_wf_def split: if_splits)
  qed
qed

lemma pipe_run_ok: "stream_ok st \<Longrightarrow> pipe_run cs st = Some st' \<Longrightarrow> stream_ok st'"
proof (induction cs arbitrary: st)
  case (Cons c cs)
  from Cons.prems(2) obtain st1 where "pipe_step c st = Some st1" "pipe_run cs st1 = Some st'"
    by (auto split: option.splits)
  with pipe_step_ok [OF Cons.prems(1)] show ?case using Cons.IH by blast
qed simp

text \<open>C19: a pipe is a byte stream: whatever calls are made on it, in whatever order, the bytes
  read so far followed by the bytes in the buffer are the bytes written; the buffer never
  exceeds the capacity, which stays a multiple of 4096 between one page and a megabyte.\<close>

theorem pipe_stream:
  "case pipe_run cs ([], [], pipe_new) of
     Some (ws, rs, p) \<Rightarrow> ws = rs @ pi_buf p \<and> pipe_wf p
   | None \<Rightarrow> True"
proof -
  have "stream_ok ([], [], pipe_new)" by (simp add: pipe_wf_def pipe_new_def kconsts)
  from pipe_run_ok [OF this, of cs] show ?thesis by (auto split: option.split)
qed

section \<open>A reader left asleep\<close>

text \<open>Two readers sleep on an empty pipe and a writer writes at least two bytes, which wakes
  the first. When that reader takes one byte, data is left in the pipe, but the second reader is
  still asleep: neither the write nor the read wakes it.\<close>

lemma pipe_second_reader_asleep:
  assumes "sched_inv k" "k_parked k a" "k_parked k b" "a \<noteq> b"
    and "pi_read_waiters p = [a, b]" "pi_write_waiters p = []" "pi_buf p = []" "pi_readers p \<noteq> 0"
    and "2 \<le> length bs" "length bs \<le> pi_cap p"
  shows "\<exists>p1 k1 p2 k2. pipe_write_round wake_pid nb w bs p k = Some (Ready (length bs), p1, k1)
    \<and> \<not> k_parked k1 a
    \<and> pipe_read_round wake_pid nb a 1 p1 k1 = Some (Ready [hd bs], p2, k2)
    \<and> pi_buf p2 \<noteq> [] \<and> k_parked k2 b \<and> pi_read_waiters p2 = [b]"
proof -
  have "List.find (k_parked k) [a, b] = Some a" "tl (dropWhile (\<lambda>p. \<not> k_parked k p) [a, b]) = [b]"
    using assms(2) by simp_all
  then obtain k1 where k1: "wake_one_pid wake_pid [a, b] k = Some (Some a, [b], k1)" "sched_inv k1"
    "\<forall>q. k_parked k1 q \<longleftrightarrow> k_parked k q \<and> q \<noteq> a"
    using kw.wake_one_law [OF assms(1), of "[a, b]"] by auto
  define p1 where "p1 = p\<lparr>pi_buf := bs, pi_read_waiters := [b], pi_write_waiters := []\<rparr>"
  have cap: "0 < pi_cap p" "min (length bs) (pi_cap p) = length bs" using assms(9,10) by linarith+
  have "pipe_write_attempt wake_pid bs p k wq = Some (Ready (length bs), wq, p1\<lparr>pi_write_waiters := pi_write_waiters p\<rparr>, k1)"
    for wq using assms(5,7,8) cap
    by (simp add: pipe_write_attempt_def write_step_of_def k1(1) p1_def del: wake_one_pid.simps)
  then have w: "pipe_write_round wake_pid nb w bs p k = Some (Ready (length bs), p1, k1)"
    using assms(6) by (simp add: pipe_write_round_def block_io_round_def wq_enqueue_def wq_dequeue_def p1_def)
  obtain x y ys where "bs = x # y # ys" using assms(9) by (metis Suc_le_length_iff numeral_2_eq_2)
  then obtain xs where bs: "bs = x # xs" "xs \<noteq> []" by blast
  have r: "pipe_read_round wake_pid nb a 1 p1 k1
      = Some (Ready [hd bs], p1\<lparr>pi_buf := xs, pi_read_waiters := [b]\<rparr>, k1)"
    using assms(4) bs by (simp add: pipe_read_round_def read_step_of_def p1_def wq_enqueue_def wq_dequeue_def)
  have "\<not> k_parked k1 a" "k_parked k1 b" using k1(3) assms(3,4) by auto
  then show ?thesis using w r bs(2)
    by (intro exI [of _ p1] exI [of _ k1] exI [of _ "p1\<lparr>pi_buf := xs, pi_read_waiters := [b]\<rparr>"]) simp
qed

definition two_readers :: kernel where
  "two_readers = demo_kernel\<lparr>k_procs := [Pid 7 \<mapsto> demo_proc, Pid 8 \<mapsto> demo_proc]\<rparr>"

definition two_reader_pipe :: pipe where
  "two_reader_pipe = pipe_new\<lparr>pi_readers := 2, pi_writers := 1, pi_read_waiters := [Pid 7, Pid 8]\<rparr>"

lemma two_readers_inv: "sched_inv two_readers"
  using demo_kernel_inv by (auto simp: sched_inv_def two_readers_def demo_kernel_def)

lemma pipe_second_reader_asleep_witness:
  "\<exists>p1 k1 p2 k2. pipe_write_round wake_pid False (Pid 9) [1, 2] two_reader_pipe two_readers = Some (Ready 2, p1, k1)
    \<and> pipe_read_round wake_pid False (Pid 7) 1 p1 k1 = Some (Ready [1], p2, k2)
    \<and> pi_buf p2 \<noteq> [] \<and> k_parked k2 (Pid 8)"
proof -
  have "k_parked two_readers (Pid 7)" "k_parked two_readers (Pid 8)" "Pid 7 \<noteq> Pid 8"
    by (simp_all add: k_parked_def two_readers_def demo_proc_def)
  moreover have "pi_read_waiters two_reader_pipe = [Pid 7, Pid 8]" "pi_write_waiters two_reader_pipe = []"
    "pi_buf two_reader_pipe = []" "pi_readers two_reader_pipe \<noteq> 0" "2 \<le> length [1, 2 :: u8]"
    "length [1, 2 :: u8] \<le> pi_cap two_reader_pipe"
    by (simp_all add: two_reader_pipe_def pipe_new_def)
  ultimately obtain p1 k1 p2 k2 where
    "pipe_write_round wake_pid False (Pid 9) [1, 2] two_reader_pipe two_readers = Some (Ready (length [1, 2 :: u8]), p1, k1)"
    "pipe_read_round wake_pid False (Pid 7) 1 p1 k1 = Some (Ready [hd [1, 2 :: u8]], p2, k2)"
    "pi_buf p2 \<noteq> []" "k_parked k2 (Pid 8)"
    using pipe_second_reader_asleep [OF two_readers_inv] by meson
  then show ?thesis by (auto simp: numeral_2_eq_2)
qed

end
