(* ===== verification/Memory_Map.thy ===== *)
theory Memory_Map
  imports Timeout User_Mem
begin

unbundle bit_operations_syntax

text \<open>
  The bookkeeping of a process's mappings (\<open>kernel/src/process_model/memory_map.rs\<close>) with the choice
  of addresses in \<open>sys_mmap\<close> and the break (\<open>kernel/src/syscall/mm.rs\<close>). A map is the list of its
  areas sorted by start address; the specification is the partial function from addresses to
  permissions, flags and the place of the address in its backing object. Inodes are of any type
  \<open>'i\<close>. Shared segments are named by a number, and the attachment counters of all segments are
  a function that the operations thread through. Overflow of a plain addition is \<open>None\<close>.
\<close>

section \<open>Saved registers and the break\<close>

record saved_regs =
  sr_rax :: u64
  sr_rdi :: u64
  sr_rsi :: u64
  sr_rdx :: u64
  sr_r10 :: u64
  sr_r8 :: u64
  sr_r9 :: u64
  sr_rip :: u64
  sr_rflags :: u64
  sr_rsp :: u64

definition fresh_regs :: "u64 \<Rightarrow> u64 \<Rightarrow> saved_regs" where
  "fresh_regs entry user_stack_top = \<lparr>sr_rax = 0, sr_rdi = 0, sr_rsi = 0, sr_rdx = 0, sr_r10 = 0,
     sr_r8 = 0, sr_r9 = 0, sr_rip = entry, sr_rflags = 0x202, sr_rsp = user_stack_top\<rparr>"

definition from_trap_frame :: "trap_frame \<Rightarrow> saved_regs" where
  "from_trap_frame tf = \<lparr>sr_rax = tf_rax tf, sr_rdi = tf_rdi tf, sr_rsi = tf_rsi tf,
     sr_rdx = tf_rdx tf, sr_r10 = tf_r10 tf, sr_r8 = tf_r8 tf, sr_r9 = tf_r9 tf,
     sr_rip = tf_rip_user tf, sr_rflags = tf_rflags_user tf, sr_rsp = tf_rsp_user tf\<rparr>"

definition write_to_trap_frame :: "saved_regs \<Rightarrow> trap_frame \<Rightarrow> trap_frame" where
  "write_to_trap_frame r tf = tf\<lparr>tf_rax := sr_rax r, tf_rdi := sr_rdi r, tf_rsi := sr_rsi r,
     tf_rdx := sr_rdx r, tf_r10 := sr_r10 r, tf_r8 := sr_r8 r, tf_r9 := sr_r9 r,
     tf_rip_user := sr_rip r, tf_rflags_user := sr_rflags r, tf_rsp_user := sr_rsp r\<rparr>"

lemma saved_regs_roundtrip:
  "from_trap_frame (write_to_trap_frame r tf) = r" "write_to_trap_frame (from_trap_frame tf) tf = tf"
  by (simp_all add: from_trap_frame_def write_to_trap_frame_def)

record brk_state =
  brk_start :: u64
  brk_current :: u64
  brk_max :: u64

definition brk_new :: "u64 \<Rightarrow> brk_state option" where
  "brk_new st = (case checked_add st (256 * 1024 * 1024) of None \<Rightarrow> None
     | Some mx \<Rightarrow> Some \<lparr>brk_start = st, brk_current = st, brk_max = mx\<rparr>)"

text \<open>\<open>clamp\<close> panics when its bounds are the wrong way round, which \<open>brk_new\<close> excludes.\<close>

definition set_current_brk :: "u64 \<Rightarrow> brk_state \<Rightarrow> u64 \<times> brk_state" where
  "set_current_brk a b = (let n = max (brk_start b) (min a (brk_max b)) in (n, b\<lparr>brk_current := n\<rparr>))"

definition brk_ok :: "brk_state \<Rightarrow> bool" where
  "brk_ok b \<longleftrightarrow> brk_start b \<le> brk_current b \<and> brk_current b \<le> brk_max b"

lemma brk_new_ok: "brk_new st = Some b \<Longrightarrow> brk_ok b"
  by (auto simp: brk_new_def brk_ok_def word_le_nat_alt dest!: checked_add_SomeD split: option.splits)

lemma set_current_brk_ok: "brk_ok b \<Longrightarrow> brk_ok (snd (set_current_brk a b))"
  by (auto simp: set_current_brk_def brk_ok_def Let_def max_def min_def)

section \<open>Areas\<close>

abbreviation VmaFlags_SHARED :: u32 where "VmaFlags_SHARED \<equiv> 0x1"
abbreviation VmaFlags_ANON :: u32 where "VmaFlags_ANON \<equiv> 0x2"
abbreviation VmaFlags_GROWSDOWN :: u32 where "VmaFlags_GROWSDOWN \<equiv> 0x4"
abbreviation VmaFlags_LOCKED :: u32 where "VmaFlags_LOCKED \<equiv> 0x8"
abbreviation VmaFlags_RESERVED :: u32 where "VmaFlags_RESERVED \<equiv> 0x10"

abbreviation Perms_USER :: u32 where "Perms_USER \<equiv> 8"

datatype 'i vma_backing =
    Anonymous
  | File 'i u64
  | Shm nat u64

record 'i vma =
  va_start :: u64
  va_end :: u64
  va_prot :: u32
  va_flags :: u32
  va_backing :: "'i vma_backing"

record 'i mmap_state =
  mm_vmas :: "'i vma list"
  mm_last_end :: u64
  mm_arena_lo :: u64
  mm_arena_hi :: u64
  mm_generation :: u64
  mm_mlockall_flags :: u32

type_synonym attached = "nat \<Rightarrow> u32"

abbreviation MMAP_HINT_BASE :: u64 where "MMAP_HINT_BASE \<equiv> 0x8000000000"
abbreviation MMAP_PER_PID_STRIDE :: u64 where "MMAP_PER_PID_STRIDE \<equiv> 4 * 1024 * 1024 * 1024"

text \<open>The product is below \<open>2 ^ 64\<close>, so only the subtraction and the two sums can overflow.\<close>

definition for_pid :: "pid \<Rightarrow> 'i mmap_state option" where
  "for_pid p =
    (case checked_sub (ucast (pid_raw p)) 1 of None \<Rightarrow> None | Some n \<Rightarrow>
     (case checked_add MMAP_HINT_BASE (n * MMAP_PER_PID_STRIDE) of None \<Rightarrow> None | Some base \<Rightarrow>
     (case checked_add base MMAP_PER_PID_STRIDE of None \<Rightarrow> None | Some hi \<Rightarrow>
        Some \<lparr>mm_vmas = [], mm_last_end = base, mm_arena_lo = base, mm_arena_hi = hi,
              mm_generation = 0, mm_mlockall_flags = 0\<rparr>)))"

definition clone_for_fork :: "'i mmap_state \<Rightarrow> 'i mmap_state" where
  "clone_for_fork m = m\<lparr>mm_generation := 0, mm_mlockall_flags := 0\<rparr>"

definition set_mlockall :: "u32 \<Rightarrow> 'i mmap_state \<Rightarrow> 'i mmap_state" where
  "set_mlockall fl m = m\<lparr>mm_mlockall_flags := fl\<rparr>"

definition bump_generation :: "'i mmap_state \<Rightarrow> 'i mmap_state" where
  "bump_generation m = m\<lparr>mm_generation := mm_generation m + 1\<rparr>"

definition bump_last_end :: "u64 \<Rightarrow> 'i mmap_state \<Rightarrow> 'i mmap_state" where
  "bump_last_end e m = (if e > mm_last_end m then m\<lparr>mm_last_end := e\<rparr> else m)"

definition vma_overlaps :: "u64 \<Rightarrow> u64 \<Rightarrow> 'i vma list \<Rightarrow> bool" where
  "vma_overlaps lo hi vs \<longleftrightarrow> list_ex (\<lambda>v. va_start v < hi \<and> va_end v > lo) vs"

definition find_containing :: "u64 \<Rightarrow> 'i vma list \<Rightarrow> 'i vma option" where
  "find_containing a vs = find (\<lambda>v. a \<ge> va_start v \<and> a < va_end v) vs"

text \<open>The first area that starts at the given address, updated in place.\<close>

fun update_at :: "u64 \<Rightarrow> ('i vma \<Rightarrow> 'i vma) \<Rightarrow> 'i vma list \<Rightarrow> 'i vma list" where
  "update_at s f [] = []"
| "update_at s f (v # vs) = (if va_start v = s then f v # vs else v # update_at s f vs)"

definition extend_vma_end :: "u64 \<Rightarrow> u64 \<Rightarrow> 'i mmap_state \<Rightarrow> bool \<times> 'i mmap_state" where
  "extend_vma_end s e m =
    (case find (\<lambda>v. va_start v = s) (mm_vmas m) of
       None \<Rightarrow> (False, m)
     | Some v \<Rightarrow>
         if e \<le> va_end v \<or> e > mm_arena_hi m then (False, m)
         else if vma_overlaps (va_end v) e (mm_vmas m) then (False, m)
         else (True, bump_generation (bump_last_end e
                (m\<lparr>mm_vmas := update_at s (\<lambda>v. v\<lparr>va_end := e\<rparr>) (mm_vmas m)\<rparr>))))"

definition truncate_vma_end :: "u64 \<Rightarrow> u64 \<Rightarrow> 'i mmap_state \<Rightarrow> bool \<times> 'i mmap_state" where
  "truncate_vma_end s e m =
    (case find (\<lambda>v. va_start v = s) (mm_vmas m) of
       None \<Rightarrow> (False, m)
     | Some v \<Rightarrow>
         if e > va_start v \<and> e < va_end v
         then (True, bump_generation
                (m\<lparr>mm_vmas := update_at s (\<lambda>v. v\<lparr>va_end := e\<rparr>) (mm_vmas m)\<rparr>))
         else (False, m))"

fun remove_first_at :: "u64 \<Rightarrow> 'i vma list \<Rightarrow> 'i vma list" where
  "remove_first_at s [] = []"
| "remove_first_at s (v # vs) = (if va_start v = s then vs else v # remove_first_at s vs)"

definition remove_vma_at :: "u64 \<Rightarrow> 'i mmap_state \<Rightarrow> 'i vma option \<times> 'i mmap_state" where
  "remove_vma_at s m =
    (case find (\<lambda>v. va_start v = s) (mm_vmas m) of
       None \<Rightarrow> (None, m)
     | Some v \<Rightarrow> (Some v, bump_generation (m\<lparr>mm_vmas := remove_first_at s (mm_vmas m)\<rparr>)))"

definition drain_vmas_where ::
  "('i vma \<Rightarrow> bool) \<Rightarrow> 'i mmap_state \<Rightarrow> 'i vma list \<times> 'i mmap_state" where
  "drain_vmas_where P m =
    (let removed = filter P (mm_vmas m);
         m1 = m\<lparr>mm_vmas := filter (\<lambda>v. \<not> P v) (mm_vmas m)\<rparr>
      in (removed, if removed \<noteq> [] then bump_generation m1 else m1))"

subsection \<open>Finding room\<close>

fun try_find :: "u64 \<Rightarrow> u64 \<Rightarrow> u64 \<Rightarrow> 'i vma list \<Rightarrow> u64 option" where
  "try_find hi len prev_end [] =
    (if saturating_add prev_end len \<le> hi then Some prev_end else None)"
| "try_find hi len prev_end (v # vs) =
    (if va_end v \<le> prev_end then try_find hi len prev_end vs
     else if va_start v \<ge> saturating_add prev_end len then Some prev_end
     else try_find hi len (max prev_end (va_end v)) vs)"

definition find_gap :: "u64 \<Rightarrow> 'i mmap_state \<Rightarrow> u64 option" where
  "find_gap len m =
    (case try_find (mm_arena_hi m) len (max (mm_last_end m) (mm_arena_lo m)) (mm_vmas m) of
       Some a \<Rightarrow> Some a
     | None \<Rightarrow> try_find (mm_arena_hi m) len (mm_arena_lo m) (mm_vmas m))"

subsection \<open>Inserting and reserving\<close>

definition mm_insert :: "bsearch \<Rightarrow> 'i vma \<Rightarrow> 'i mmap_state \<Rightarrow> 'i mmap_state" where
  "mm_insert bs v m =
    bump_generation (m\<lparr>mm_last_end := va_end v,
      mm_vmas := insert_at (bs (map va_start (mm_vmas m)) (va_start v)) v (mm_vmas m)\<rparr>)"

definition reservation :: "u64 \<Rightarrow> u64 \<Rightarrow> 'i vma" where
  "reservation lo hi = \<lparr>va_start = lo, va_end = hi, va_prot = Perms_USER,
     va_flags = VmaFlags_RESERVED, va_backing = Anonymous\<rparr>"

definition reserve :: "bsearch \<Rightarrow> u64 \<Rightarrow> u64 \<Rightarrow> 'i mmap_state \<Rightarrow> 'i mmap_state" where
  "reserve bs lo hi m =
    bump_generation (bump_last_end hi (m\<lparr>mm_vmas :=
      insert_at (bs (map va_start (mm_vmas m)) lo) (reservation lo hi) (mm_vmas m)\<rparr>))"

definition release_reservation :: "u64 \<Rightarrow> u64 \<Rightarrow> 'i mmap_state \<Rightarrow> 'i mmap_state" where
  "release_reservation lo hi m =
    bump_generation (m\<lparr>mm_vmas := filter (\<lambda>v. \<not> (va_start v = lo \<and> va_end v = hi
      \<and> flags_contains (va_flags v) VmaFlags_RESERVED)) (mm_vmas m)\<rparr>)"

subsection \<open>Cutting areas\<close>

definition shift_backing :: "'i vma_backing \<Rightarrow> u64 \<Rightarrow> 'i vma_backing option" where
  "shift_backing b delta =
    (case b of
       Anonymous \<Rightarrow> Some Anonymous
     | Shm seg off \<Rightarrow> map_option (Shm seg) (checked_add off delta)
     | File inode off \<Rightarrow> map_option (File inode) (checked_add off delta))"

definition attach_more :: "'i vma_backing \<Rightarrow> u32 \<Rightarrow> attached \<Rightarrow> attached" where
  "attach_more b n att = (case b of Shm seg _ \<Rightarrow> att(seg := att seg + n) | _ \<Rightarrow> att)"

definition piece :: "'i vma \<Rightarrow> u64 \<Rightarrow> u64 \<Rightarrow> 'i vma_backing \<Rightarrow> 'i vma" where
  "piece v lo hi b = v\<lparr>va_start := lo, va_end := hi, va_backing := b\<rparr>"

text \<open>What one area leaves in the map and what it loses.\<close>

definition unmap_one ::
  "u64 \<Rightarrow> u64 \<Rightarrow> 'i vma \<Rightarrow> attached \<Rightarrow> ('i vma list \<times> 'i vma list \<times> attached) option" where
  "unmap_one lo hi v att =
    (let b = va_backing v in
     if va_end v \<le> lo \<or> va_start v \<ge> hi then Some ([v], [], att)
     else if va_start v \<ge> lo \<and> va_end v \<le> hi then Some ([], [v], att)
     else if va_start v < lo \<and> va_end v > hi then
       (case shift_backing b (lo - va_start v) of None \<Rightarrow> None | Some bm \<Rightarrow>
       (case shift_backing b (hi - va_start v) of None \<Rightarrow> None | Some br \<Rightarrow>
          Some ([piece v (va_start v) lo b, piece v hi (va_end v) br], [piece v lo hi bm],
                attach_more b 2 att)))
     else if va_start v < lo then
       (case shift_backing b (lo - va_start v) of None \<Rightarrow> None | Some bd \<Rightarrow>
          Some ([piece v (va_start v) lo b], [piece v lo (va_end v) bd], attach_more b 1 att))
     else
       (case shift_backing b (hi - va_start v) of None \<Rightarrow> None | Some bk \<Rightarrow>
          Some ([piece v hi (va_end v) bk], [piece v (va_start v) hi b], attach_more b 1 att)))"

fun unmap_vmas ::
  "u64 \<Rightarrow> u64 \<Rightarrow> 'i vma list \<Rightarrow> attached \<Rightarrow> ('i vma list \<times> 'i vma list \<times> attached) option" where
  "unmap_vmas lo hi [] att = Some ([], [], att)"
| "unmap_vmas lo hi (v # vs) att =
    (case unmap_one lo hi v att of None \<Rightarrow> None | Some (n, r, att1) \<Rightarrow>
    (case unmap_vmas lo hi vs att1 of None \<Rightarrow> None | Some (ns, rs, att2) \<Rightarrow>
       Some (n @ ns, r @ rs, att2)))"

definition unmap_range ::
  "u64 \<Rightarrow> u64 \<Rightarrow> 'i mmap_state \<Rightarrow> attached \<Rightarrow> ('i vma list \<times> 'i mmap_state \<times> attached) option" where
  "unmap_range lo hi m att =
    (case unmap_vmas lo hi (mm_vmas m) att of None \<Rightarrow> None | Some (ns, rs, att1) \<Rightarrow>
       Some (rs, bump_generation (m\<lparr>mm_vmas := sort_key va_start ns\<rparr>), att1))"

definition unmap_range_reserve ::
  "bsearch \<Rightarrow> u64 \<Rightarrow> u64 \<Rightarrow> 'i mmap_state \<Rightarrow> attached
    \<Rightarrow> ('i vma list \<times> 'i mmap_state \<times> attached) option" where
  "unmap_range_reserve bs lo hi m att =
    (case unmap_range lo hi m att of None \<Rightarrow> None | Some (rs, m1, att1) \<Rightarrow>
       Some (rs, reserve bs lo hi m1, att1))"

text \<open>\<open>protect_range\<close> and \<open>lock_range\<close> share their loop: they differ in the permissions and
  flags \<open>upd v\<close> of the middle piece.\<close>

definition recut_one ::
  "u64 \<Rightarrow> u64 \<Rightarrow> ('i vma \<Rightarrow> u32 \<times> u32) \<Rightarrow> 'i vma \<Rightarrow> attached \<Rightarrow> ('i vma list \<times> attached) option" where
  "recut_one lo hi upd v att =
    (let mid_lo = max (va_start v) lo;
         mid_hi = min (va_end v) hi;
         b = va_backing v;
         extra = (if va_start v < mid_lo then 1 else 0) + (if mid_hi < va_end v then 1 else 0);
         (pr, fl) = upd v
      in case shift_backing b (mid_lo - va_start v) of None \<Rightarrow> None | Some bm \<Rightarrow>
         (case (if mid_hi < va_end v
                then map_option (\<lambda>br. [piece v mid_hi (va_end v) br])
                       (shift_backing b (mid_hi - va_start v))
                else Some []) of None \<Rightarrow> None | Some right \<Rightarrow>
            Some ((if va_start v < mid_lo then [piece v (va_start v) mid_lo b] else [])
                  @ [(piece v mid_lo mid_hi bm)\<lparr>va_prot := pr, va_flags := fl\<rparr>] @ right,
                  attach_more b extra att)))"

fun recut_vmas ::
  "u64 \<Rightarrow> u64 \<Rightarrow> ('i vma \<Rightarrow> u32 \<times> u32) \<Rightarrow> u64 \<Rightarrow> 'i vma list \<Rightarrow> attached
    \<Rightarrow> ('i vma list \<times> (u64 \<times> u64) list \<times> attached) option" where
  "recut_vmas lo hi upd covered_to [] att =
    Some ([], (if covered_to < hi then [(covered_to, hi)] else []), att)"
| "recut_vmas lo hi upd covered_to (v # vs) att =
    (if va_end v \<le> lo \<or> va_start v \<ge> hi then
       (case recut_vmas lo hi upd covered_to vs att of None \<Rightarrow> None | Some (ns, gaps, att1) \<Rightarrow>
          Some (v # ns, gaps, att1))
     else
       (case recut_one lo hi upd v att of None \<Rightarrow> None | Some (n, att1) \<Rightarrow>
       (case recut_vmas lo hi upd (max covered_to (min (va_end v) hi)) vs att1 of
          None \<Rightarrow> None
        | Some (ns, gaps, att2) \<Rightarrow>
            Some (n @ ns,
                  (if va_start v > covered_to then [(covered_to, va_start v)] else []) @ gaps,
                  att2))))"

definition recut_range ::
  "u64 \<Rightarrow> u64 \<Rightarrow> ('i vma \<Rightarrow> u32 \<times> u32) \<Rightarrow> 'i mmap_state \<Rightarrow> attached
    \<Rightarrow> ((u64 \<times> u64) list \<times> 'i mmap_state \<times> attached) option" where
  "recut_range lo hi upd m att =
    (case recut_vmas lo hi upd lo (mm_vmas m) att of None \<Rightarrow> None | Some (ns, gaps, att1) \<Rightarrow>
       Some (gaps, bump_generation (m\<lparr>mm_vmas := sort_key va_start ns\<rparr>), att1))"

definition protect_range ::
  "u64 \<Rightarrow> u64 \<Rightarrow> u32 \<Rightarrow> 'i mmap_state \<Rightarrow> attached
    \<Rightarrow> ((u64 \<times> u64) list \<times> 'i mmap_state \<times> attached) option" where
  "protect_range lo hi new_prot = recut_range lo hi (\<lambda>v. (new_prot, va_flags v))"

definition mm_lock_range ::
  "u64 \<Rightarrow> u64 \<Rightarrow> bool \<Rightarrow> 'i mmap_state \<Rightarrow> attached
    \<Rightarrow> ((u64 \<times> u64) list \<times> 'i mmap_state \<times> attached) option" where
  "mm_lock_range lo hi st = recut_range lo hi
    (\<lambda>v. (va_prot v, if st then va_flags v OR VmaFlags_LOCKED
                      else va_flags v AND NOT VmaFlags_LOCKED))"

section \<open>Choosing an address in \<open>sys_mmap\<close>\<close>

definition MAP_FIXED :: u64 where [kconsts]: "MAP_FIXED = 0x10"
definition MAP_FIXED_NOREPLACE :: u64 where [kconsts]: "MAP_FIXED_NOREPLACE = 0x100000"
abbreviation USER_VA_END :: u64 where "USER_VA_END \<equiv> 0x800000000000"

definition is_fixed :: "u64 \<Rightarrow> bool" where
  "is_fixed flags \<longleftrightarrow> flags AND (MAP_FIXED OR MAP_FIXED_NOREPLACE) \<noteq> 0"

text \<open>The checks of the arguments up to the choice: the aligned address and length.\<close>

definition mmap_args :: "bool \<Rightarrow> u64 \<Rightarrow> u64 \<Rightarrow> u64 \<Rightarrow> int + (u64 \<times> u64)" where
  "mmap_args vfork_borrower addr len0 flags =
    (if vfork_borrower then Inl ENOMEM
     else if len0 = 0 then Inl EINVAL
     else if addr AND 0xfff \<noteq> 0 \<and> is_fixed flags then Inl EINVAL
     else case checked_add len0 0xfff of
       None \<Rightarrow> Inl ENOMEM
     | Some l \<Rightarrow>
         let len = l AND NOT 0xfff in
         if len > USER_VA_END then Inl ENOMEM
         else Inr (if is_fixed flags then addr else addr AND NOT 0xfff, len))"

definition fixed_in_range :: "u64 \<Rightarrow> u64 \<Rightarrow> u64 \<Rightarrow> bool" where
  "fixed_in_range addr len flags \<longleftrightarrow> \<not> is_fixed flags
     \<or> (case checked_add addr len of Some e \<Rightarrow> e \<le> USER_VA_END | None \<Rightarrow> False)"

text \<open>The closure that runs under the lock of the map: it chooses the address, takes what a fixed
  mapping replaces out of the map, and reserves the range.\<close>

definition mmap_choose ::
  "u64 \<Rightarrow> u64 \<Rightarrow> u64 \<Rightarrow> 'i mmap_state \<Rightarrow> attached
    \<Rightarrow> (int + (u64 \<times> 'i vma list \<times> 'i mmap_state \<times> attached)) option" where
  "mmap_choose addr len flags m att =
    (if flags AND MAP_FIXED_NOREPLACE \<noteq> 0 then
       (case checked_add addr len of None \<Rightarrow> None | Some e \<Rightarrow>
          if vma_overlaps addr e (mm_vmas m) then Some (Inl EEXIST)
          else Some (Inr (addr, [], m, att)))
     else if flags AND MAP_FIXED \<noteq> 0 then
       (case checked_add addr len of None \<Rightarrow> None | Some e \<Rightarrow>
       (case unmap_range addr e m att of None \<Rightarrow> None | Some (dropped, m1, att1) \<Rightarrow>
          Some (Inr (addr, dropped, m1, att1))))
     else if addr \<noteq> 0 \<and> addr \<ge> mm_arena_lo m
         \<and> (case checked_add addr len of Some e \<Rightarrow> e \<le> mm_arena_hi m
               \<and> \<not> vma_overlaps addr e (mm_vmas m)
             | None \<Rightarrow> False) then
       Some (Inr (addr, [], m, att))
     else (case find_gap len m of
             None \<Rightarrow> Some (Inl ENOMEM)
           | Some a \<Rightarrow> Some (Inr (a, [], m, att))))"

definition mmap_pick ::
  "bsearch \<Rightarrow> u64 \<Rightarrow> u64 \<Rightarrow> u64 \<Rightarrow> 'i mmap_state \<Rightarrow> attached
    \<Rightarrow> ((int + (u64 \<times> 'i vma list)) \<times> 'i mmap_state \<times> attached) option" where
  "mmap_pick bs addr len flags m att =
    (case mmap_choose addr len flags m att of
       None \<Rightarrow> None
     | Some (Inl e) \<Rightarrow> Some (Inl e, m, att)
     | Some (Inr (va, dropped, m1, att1)) \<Rightarrow>
         (case checked_add va len of None \<Rightarrow> None | Some e \<Rightarrow>
            Some (Inr (va, dropped), reserve bs va e m1, att1)))"

text \<open>The last step for a private or file mapping.\<close>

definition mmap_commit ::
  "bsearch \<Rightarrow> u64 \<Rightarrow> u64 \<Rightarrow> u32 \<Rightarrow> u32 \<Rightarrow> 'i vma_backing \<Rightarrow> 'i mmap_state \<Rightarrow> 'i mmap_state option" where
  "mmap_commit bs va len perms fl b m =
    (case checked_add va len of None \<Rightarrow> None | Some e \<Rightarrow>
       Some (mm_insert bs \<lparr>va_start = va, va_end = e, va_prot = perms, va_flags = fl,
         va_backing = b\<rparr> (release_reservation va e m)))"

section \<open>The specification\<close>

definition backing_at :: "'i vma_backing \<Rightarrow> u64 \<Rightarrow> 'i vma_backing" where
  "backing_at b d = (case b of Anonymous \<Rightarrow> Anonymous
     | Shm seg off \<Rightarrow> Shm seg (off + d) | File inode off \<Rightarrow> File inode (off + d))"

text \<open>What the map says of an address.\<close>

definition content :: "'i vma list \<Rightarrow> u64 \<Rightarrow> (u32 \<times> u32 \<times> 'i vma_backing) option" where
  "content vs a = map_option (\<lambda>v. (va_prot v, va_flags v, backing_at (va_backing v) (a - va_start v)))
     (find_containing a vs)"

text \<open>Areas are not empty, sorted and disjoint.\<close>

definition vmas_ok :: "'i vma list \<Rightarrow> bool" where
  "vmas_ok vs \<longleftrightarrow> (\<forall>v\<in>set vs. va_start v < va_end v)
     \<and> sorted_wrt (\<lambda>u v. va_end u \<le> va_start v) vs"

text \<open>No backing offset wraps inside its area.\<close>

definition offsets_ok :: "'i vma list \<Rightarrow> bool" where
  "offsets_ok vs \<longleftrightarrow> (\<forall>v\<in>set vs. case va_backing v of Anonymous \<Rightarrow> True
     | Shm _ off \<Rightarrow> unat off + unat (va_end v - va_start v) < 2 ^ 64
     | File _ off \<Rightarrow> unat off + unat (va_end v - va_start v) < 2 ^ 64)"

definition shm_count :: "nat \<Rightarrow> 'i vma list \<Rightarrow> nat" where
  "shm_count seg vs = length (filter (\<lambda>v. case va_backing v of Shm s _ \<Rightarrow> s = seg | _ \<Rightarrow> False) vs)"

lemma content_Nil [simp]: "content [] a = None"
  by (simp add: content_def find_containing_def)

lemma content_Cons: "content (v # vs) a = (if va_start v \<le> a \<and> a < va_end v
    then Some (va_prot v, va_flags v, backing_at (va_backing v) (a - va_start v))
    else content vs a)"
  by (simp add: content_def find_containing_def)

lemma content_past: "va_end v \<le> a \<Longrightarrow> content (v # vs) a = content vs a"
  using leD [of "va_end v" a] by (simp add: content_Cons)

lemma content_append:
  "content (xs @ ys) a = (case content xs a of None \<Rightarrow> content ys a | Some c \<Rightarrow> Some c)"
  by (induction xs) (simp_all add: content_Cons)

lemma content_None_iff: "content vs a = None \<longleftrightarrow> (\<forall>v\<in>set vs. \<not> (va_start v \<le> a \<and> a < va_end v))"
  by (induction vs) (auto simp: content_Cons)

lemma piece_simps [simp]:
  "va_start (piece v lo hi b) = lo" "va_end (piece v lo hi b) = hi"
  "va_prot (piece v lo hi b) = va_prot v" "va_flags (piece v lo hi b) = va_flags v"
  "va_backing (piece v lo hi b) = b"
  by (simp_all add: piece_def)

lemma offset_cut: "off + (c - s) + (a - c) = off + (a - s :: u64)"
  by simp

lemma shift_backing_cut:
  assumes "shift_backing b (c - s) = Some b'"
  shows "backing_at b' (a - c) = backing_at b (a - s)"
  using assms
  by (cases b) (auto simp: shift_backing_def backing_at_def checked_add_eq_Some offset_cut)

text \<open>The five ways in which an area and a range meet.\<close>

lemma unmap_one_cases:
  assumes "unmap_one lo hi v att = Some (n, r, att')"
  obtains (apart) "va_end v \<le> lo \<or> hi \<le> va_start v" "n = [v]" "r = []" "att' = att"
  | (within) "lo \<le> va_start v" "va_end v \<le> hi" "n = []" "r = [v]" "att' = att"
  | (around) bm br where "va_start v < lo" "hi < va_end v"
      "shift_backing (va_backing v) (lo - va_start v) = Some bm"
      "shift_backing (va_backing v) (hi - va_start v) = Some br"
      "n = [piece v (va_start v) lo (va_backing v), piece v hi (va_end v) br]"
      "r = [piece v lo hi bm]" "att' = attach_more (va_backing v) 2 att"
  | (left) bd where "va_start v < lo" "lo < va_end v" "va_end v \<le> hi"
      "shift_backing (va_backing v) (lo - va_start v) = Some bd"
      "n = [piece v (va_start v) lo (va_backing v)]" "r = [piece v lo (va_end v) bd]"
      "att' = attach_more (va_backing v) 1 att"
  | (right) bk where "lo \<le> va_start v" "va_start v < hi" "hi < va_end v"
      "shift_backing (va_backing v) (hi - va_start v) = Some bk"
      "n = [piece v hi (va_end v) bk]" "r = [piece v (va_start v) hi (va_backing v)]"
      "att' = attach_more (va_backing v) 1 att"
  using assms unfolding unmap_one_def Let_def
  by (auto simp: not_le not_less split: if_splits option.splits)

lemma unmap_one_content:
  assumes "unmap_one lo hi v att = Some (n, r, att')" and "lo \<le> hi"
  shows "content n a = (if lo \<le> a \<and> a < hi then None else content [v] a) \<and>
    content r a = (if lo \<le> a \<and> a < hi then content [v] a else None)"
  using assms(1)
proof (cases rule: unmap_one_cases)
  case apart then show ?thesis by (auto simp: content_Cons)
next
  case within then show ?thesis by (auto simp: content_Cons)
next
  case (around bm br)
  then show ?thesis using assms(2)
    by (auto simp: content_Cons shift_backing_cut [OF around(3)] shift_backing_cut [OF around(4)])
next
  case (left bd)
  then show ?thesis by (auto simp: content_Cons shift_backing_cut [OF left(4)])
next
  case (right bk)
  then show ?thesis by (auto simp: content_Cons shift_backing_cut [OF right(4)])
qed

lemma unmap_vmas_SomeE:
  assumes "unmap_vmas lo hi (v # vs) att = Some (ns, rs, att')"
  obtains n r att1 ns1 rs1 where "unmap_one lo hi v att = Some (n, r, att1)"
    "unmap_vmas lo hi vs att1 = Some (ns1, rs1, att')" "ns = n @ ns1" "rs = r @ rs1"
  using assms by (auto split: option.splits prod.splits)

lemma unmap_vmas_content:
  assumes "unmap_vmas lo hi vs att = Some (ns, rs, att')" and "lo \<le> hi"
  shows "content ns a = (if lo \<le> a \<and> a < hi then None else content vs a) \<and>
    content rs a = (if lo \<le> a \<and> a < hi then content vs a else None)"
  using assms
proof (induction vs arbitrary: att ns rs)
  case (Cons v vs)
  from Cons.prems(1) obtain n r att1 ns1 rs1 where
    one: "unmap_one lo hi v att = Some (n, r, att1)" and
    rest: "unmap_vmas lo hi vs att1 = Some (ns1, rs1, att')" and
    eq: "ns = n @ ns1" "rs = r @ rs1"
    by (rule unmap_vmas_SomeE)
  show ?case
    using unmap_one_content [OF one \<open>lo \<le> hi\<close>, of a] Cons.IH [OF rest \<open>lo \<le> hi\<close>]
      content_append [of "[v]" vs a]
    by (simp add: eq content_append split: option.splits)
qed simp

text \<open>Cutting keeps the pieces inside their area, in order.\<close>

definition cut_of :: "'i vma \<Rightarrow> 'i vma list \<Rightarrow> bool" where
  "cut_of v ps \<longleftrightarrow> vmas_ok ps \<and> (\<forall>q\<in>set ps. va_start v \<le> va_start q \<and> va_end q \<le> va_end v)"

lemma vmas_ok_Cons: "vmas_ok (v # vs) \<longleftrightarrow> va_start v < va_end v
    \<and> (\<forall>w\<in>set vs. va_end v \<le> va_start w) \<and> vmas_ok vs"
  by (auto simp: vmas_ok_def)

lemma vmas_ok_Nil [simp]: "vmas_ok []"
  by (simp add: vmas_ok_def)

lemma vmas_ok_append: "vmas_ok (xs @ ys) \<longleftrightarrow> vmas_ok xs \<and> vmas_ok ys
    \<and> (\<forall>x\<in>set xs. \<forall>y\<in>set ys. va_end x \<le> va_start y)"
  by (auto simp: vmas_ok_def sorted_wrt_append)

lemma vmas_ok_cuts:
  assumes "cut_of v n" "vmas_ok ns" "\<forall>w\<in>set ns. va_end v \<le> va_start w"
  shows "vmas_ok (n @ ns)"
  using assms by (fastforce simp: vmas_ok_append cut_of_def intro: order_trans)

lemma unmap_one_cut:
  assumes "unmap_one lo hi v att = Some (n, r, att')" "lo < hi" "va_start v < va_end v"
  shows "cut_of v n \<and> cut_of v r"
  using assms(1)
  by (cases rule: unmap_one_cases) (use assms in \<open>auto simp: cut_of_def vmas_ok_Cons\<close>)

lemma unmap_vmas_ok:
  assumes "unmap_vmas lo hi vs att = Some (ns, rs, att')" "lo < hi" "vmas_ok vs"
    and "\<forall>w\<in>set vs. b \<le> va_start w"
  shows "vmas_ok ns \<and> vmas_ok rs \<and> (\<forall>w\<in>set ns \<union> set rs. b \<le> va_start w)"
  using assms
proof (induction vs arbitrary: att ns rs b)
  case (Cons v vs)
  from Cons.prems(1) obtain n r att1 ns1 rs1 where
    one: "unmap_one lo hi v att = Some (n, r, att1)" and
    rest: "unmap_vmas lo hi vs att1 = Some (ns1, rs1, att')" and
    eq: "ns = n @ ns1" "rs = r @ rs1"
    by (rule unmap_vmas_SomeE)
  have v: "va_start v < va_end v" "vmas_ok vs" "\<forall>w\<in>set vs. va_end v \<le> va_start w" "b \<le> va_start v"
    using Cons.prems by (auto simp: vmas_ok_Cons)
  note cut = unmap_one_cut [OF one \<open>lo < hi\<close> v(1)]
  note ih = Cons.IH [OF rest \<open>lo < hi\<close> v(2) v(3)]
  have "b \<le> va_end v" using v by simp
  then show ?case
    using cut ih v(4) by (auto simp: eq cut_of_def intro!: vmas_ok_cuts intro: order_trans)
qed simp

lemma sort_key_vmas: "vmas_ok vs \<Longrightarrow> sort_key va_start vs = vs"
proof (rule sort_key_id_if_sorted)
  show "sorted (map va_start vs)" if "vmas_ok vs"
    using that by (induction vs) (auto simp: vmas_ok_Cons intro: order_trans less_imp_le)
qed

lemma shm_count_simps [simp]:
  "shm_count seg [] = 0"
  "shm_count seg (v # vs) =
    (case va_backing v of Shm s _ \<Rightarrow> if s = seg then 1 else 0 | _ \<Rightarrow> 0) + shm_count seg vs"
  "shm_count seg (xs @ ys) = shm_count seg xs + shm_count seg ys"
  by (auto simp: shm_count_def split: vma_backing.splits)

lemma shift_backing_seg:
  assumes "shift_backing b d = Some b'"
  shows "(case b' of Shm s _ \<Rightarrow> if s = seg then 1 else (0::nat) | _ \<Rightarrow> 0)
    = (case b of Shm s _ \<Rightarrow> if s = seg then 1 else 0 | _ \<Rightarrow> 0)"
  using assms by (cases b) (auto simp: shift_backing_def)

text \<open>The counters grow by the number of pieces less the number of areas.\<close>

lemma unmap_one_attached:
  assumes "unmap_one lo hi v att = Some (n, r, att')"
  shows "att' seg + of_nat (shm_count seg [v]) = att seg + of_nat (shm_count seg n + shm_count seg r)"
  using assms
  by (cases rule: unmap_one_cases)
     (auto simp: attach_more_def shift_backing_seg split: vma_backing.splits)

lemma unmap_vmas_attached:
  assumes "unmap_vmas lo hi vs att = Some (ns, rs, att')"
  shows "att' seg + of_nat (shm_count seg vs) = att seg + of_nat (shm_count seg ns + shm_count seg rs)"
  using assms
proof (induction vs arbitrary: att ns rs)
  case (Cons v vs)
  from Cons.prems(1) obtain n r att1 ns1 rs1 where
    one: "unmap_one lo hi v att = Some (n, r, att1)" and
    rest: "unmap_vmas lo hi vs att1 = Some (ns1, rs1, att')" and
    eq: "ns = n @ ns1" "rs = r @ rs1"
    by (rule unmap_vmas_SomeE)
  have "att' seg + of_nat (shm_count seg (v # vs))
      = (att' seg + of_nat (shm_count seg vs)) + of_nat (shm_count seg [v])"
    by simp
  also have "\<dots> = (att1 seg + of_nat (shm_count seg [v])) + of_nat (shm_count seg ns1 + shm_count seg rs1)"
    unfolding Cons.IH [OF rest] by simp
  also have "\<dots> = att seg + of_nat (shm_count seg ns + shm_count seg rs)"
    unfolding unmap_one_attached [OF one] by (simp add: eq)
  finally show ?case .
qed simp

text \<open>Cutting inside an area does not overflow when its last offset does not.\<close>

definition offset_ok :: "'i vma \<Rightarrow> bool" where
  "offset_ok v \<longleftrightarrow> (case va_backing v of Anonymous \<Rightarrow> True
     | Shm _ off \<Rightarrow> unat off + unat (va_end v - va_start v) < 2 ^ 64
     | File _ off \<Rightarrow> unat off + unat (va_end v - va_start v) < 2 ^ 64)"

lemma offsets_ok_iff: "offsets_ok vs \<longleftrightarrow> (\<forall>v\<in>set vs. offset_ok v)"
  by (simp add: offsets_ok_def offset_ok_def)

lemma shift_backing_Some:
  assumes "offset_ok v" "va_start v \<le> c" "c \<le> va_end v"
  shows "\<exists>b. shift_backing (va_backing v) (c - va_start v) = Some b"
proof -
  have "unat (c - va_start v) \<le> unat (va_end v - va_start v)"
    using assms(2,3) by (simp add: unat_sub word_le_nat_alt)
  then show ?thesis
    using assms(1)
    by (auto simp: offset_ok_def shift_backing_def checked_add_def split: vma_backing.splits)
qed

lemma unmap_one_Some:
  assumes "offset_ok v" "lo \<le> hi"
  shows "\<exists>r. unmap_one lo hi v att = Some r"
proof -
  have *: "\<exists>b. shift_backing (va_backing v) (c - va_start v) = Some b"
    if "va_start v < c" "c < va_end v" for c
    using shift_backing_Some [OF assms(1)] that by simp
  show ?thesis
    using assms(2) * [of lo] * [of hi]
    by (cases "va_start v < lo"; cases "va_end v \<le> hi"; cases "lo < va_end v";
        cases "va_start v < hi")
       (auto simp: unmap_one_def Let_def not_le not_less split: option.splits)
qed

lemma unmap_vmas_Some:
  assumes "offsets_ok vs" "lo \<le> hi"
  shows "\<exists>r. unmap_vmas lo hi vs att = Some r"
  using assms(1)
proof (induction vs arbitrary: att)
  case (Cons v vs)
  then have "offset_ok v" "offsets_ok vs" by (auto simp: offsets_ok_iff)
  with unmap_one_Some [OF _ assms(2), of v att] Cons.IH show ?case
    by (fastforce split: option.splits prod.splits)
qed simp

subsection \<open>Changing permissions and flags\<close>

lemma recut_one_SomeE:
  assumes "recut_one lo hi upd v att = Some (n, att')"
  obtains bm left right where
    "shift_backing (va_backing v) (max (va_start v) lo - va_start v) = Some bm"
    "left = (if va_start v < lo then [piece v (va_start v) lo (va_backing v)] else [])"
    "n = left @ [(piece v (max (va_start v) lo) (min (va_end v) hi) bm)
          \<lparr>va_prot := fst (upd v), va_flags := snd (upd v)\<rparr>] @ right"
    "hi < va_end v \<Longrightarrow> \<exists>br. shift_backing (va_backing v) (hi - va_start v) = Some br
        \<and> right = [piece v hi (va_end v) br]"
    "\<not> hi < va_end v \<Longrightarrow> right = []"
    "att' = attach_more (va_backing v)
       ((if va_start v < lo then 1 else 0) + (if hi < va_end v then 1 else 0)) att"
proof -
  have l: "va_start v < max (va_start v) lo \<longleftrightarrow> va_start v < lo" by (auto simp: max_def)
  have r: "min (va_end v) hi < va_end v \<longleftrightarrow> hi < va_end v" by (auto simp: min_def)
  have eqs: "va_start v < lo \<Longrightarrow> max (va_start v) lo = lo" "hi < va_end v \<Longrightarrow> min (va_end v) hi = hi"
    by (auto simp: max_def min_def)
  show thesis
    using assms that
    unfolding recut_one_def Let_def l r
    by (cases "upd v"; cases "hi < va_end v"; cases "va_start v < lo")
       (auto simp: eqs split: option.splits)
qed

lemma recut_one_content:
  assumes "recut_one lo hi upd v att = Some (n, att')" "lo < hi" "va_start v < hi" "lo < va_end v"
  shows "content n a = (if lo \<le> a \<and> a < hi
    then map_option (\<lambda>(_, _, b). (fst (upd v), snd (upd v), b)) (content [v] a) else content [v] a)"
  using assms(1)
proof (cases rule: recut_one_SomeE)
  case (1 bm left right)
  note cut = shift_backing_cut [OF 1(1), of a]
  show ?thesis
  proof (cases "hi < va_end v")
    case True
    with 1(4) obtain br where br: "shift_backing (va_backing v) (hi - va_start v) = Some br"
      "right = [piece v hi (va_end v) br]" by blast
    show ?thesis
      using assms(2-4) True 1(2) cut shift_backing_cut [OF br(1), of a] unfolding 1(3) br(2)
      by (cases "va_start v < lo") (auto simp: content_Cons max_def min_def)
  next
    case False
    show ?thesis
      using assms(2-4) False 1(2) cut unfolding 1(3) 1(5) [OF False]
      by (cases "va_start v < lo") (auto simp: content_Cons max_def min_def)
  qed
qed

lemma recut_one_cut:
  assumes "recut_one lo hi upd v att = Some (n, att')" "lo < hi" "va_start v < hi" "lo < va_end v"
    "va_start v < va_end v"
  shows "cut_of v n"
  using assms(1)
proof (cases rule: recut_one_SomeE)
  case (1 bm left right)
  then show ?thesis
    using assms(2-5)
    by (cases "va_start v < lo"; cases "hi < va_end v")
       (auto simp: cut_of_def vmas_ok_Cons max_def min_def)
qed

lemma recut_one_attached:
  assumes "recut_one lo hi upd v att = Some (n, att')"
  shows "att' seg + of_nat (shm_count seg [v]) = att seg + of_nat (shm_count seg n)"
  using assms
proof (cases rule: recut_one_SomeE)
  case (1 bm left right)
  note seg = shift_backing_seg [OF 1(1), of seg]
  show ?thesis
  proof (cases "hi < va_end v")
    case True
    with 1(4) obtain br where br: "shift_backing (va_backing v) (hi - va_start v) = Some br"
      "right = [piece v hi (va_end v) br]" by blast
    then show ?thesis using 1 True seg shift_backing_seg [OF br(1), of seg]
      by (auto simp: attach_more_def split: vma_backing.splits)
  next
    case False
    then show ?thesis using 1 seg
      by (auto simp: attach_more_def split: vma_backing.splits)
  qed
qed

lemma recut_vmas_SomeE:
  assumes "recut_vmas lo hi upd c (v # vs) att = Some (ns, gaps, att')"
  obtains (apart) ns1 where "va_end v \<le> lo \<or> hi \<le> va_start v" "ns = v # ns1"
      "recut_vmas lo hi upd c vs att = Some (ns1, gaps, att')"
  | (meet) n att1 ns1 gaps1 where "lo < va_end v" "va_start v < hi"
      "recut_one lo hi upd v att = Some (n, att1)"
      "recut_vmas lo hi upd (max c (min (va_end v) hi)) vs att1 = Some (ns1, gaps1, att')"
      "ns = n @ ns1" "gaps = (if c < va_start v then [(c, va_start v)] else []) @ gaps1"
  using assms
  by (cases "va_end v \<le> lo \<or> hi \<le> va_start v")
     (auto simp: not_le split: option.splits prod.splits)

text \<open>The update as a function of the content: both callers compute the new permissions and flags
  from the old ones.\<close>

definition upd_content ::
  "(u32 \<Rightarrow> u32 \<Rightarrow> u32 \<times> u32) \<Rightarrow> u32 \<times> u32 \<times> 'i vma_backing \<Rightarrow> u32 \<times> u32 \<times> 'i vma_backing" where
  "upd_content f = (\<lambda>(pr, fl, b). (fst (f pr fl), snd (f pr fl), b))"

lemma recut_one_upd:
  assumes "recut_one lo hi (\<lambda>v. f (va_prot v) (va_flags v)) v att = Some (n, att')"
    "lo < hi" "va_start v < hi" "lo < va_end v"
  shows "content n a = (if lo \<le> a \<and> a < hi then map_option (upd_content f) (content [v] a)
    else content [v] a)"
  using recut_one_content [OF assms, of a] by (auto simp: content_Cons upd_content_def)

lemma recut_vmas_content:
  assumes "recut_vmas lo hi (\<lambda>v. f (va_prot v) (va_flags v)) c vs att = Some (ns, gaps, att')" "lo < hi"
  shows "content ns a = (if lo \<le> a \<and> a < hi then map_option (upd_content f) (content vs a)
    else content vs a)"
  using assms(1)
proof (induction vs arbitrary: c att ns gaps)
  case (Cons v vs)
  from Cons.prems show ?case
  proof (cases rule: recut_vmas_SomeE)
    case (apart ns1)
    with Cons.IH [OF apart(3)] show ?thesis by (auto simp: content_Cons)
  next
    case (meet n att1 ns1 gaps1)
    show ?thesis
      using recut_one_upd [OF meet(3) \<open>lo < hi\<close> meet(2,1), of a] Cons.IH [OF meet(4)]
        content_append [of "[v]" vs a]
      by (simp add: meet(5) content_append split: option.splits)
  qed
qed simp

lemma recut_vmas_ok:
  assumes "recut_vmas lo hi upd c vs att = Some (ns, gaps, att')" "lo < hi" "vmas_ok vs"
    and "\<forall>w\<in>set vs. b \<le> va_start w"
  shows "vmas_ok ns \<and> (\<forall>w\<in>set ns. b \<le> va_start w)"
  using assms
proof (induction vs arbitrary: c att ns gaps b)
  case (Cons v vs)
  have v: "va_start v < va_end v" "vmas_ok vs" "\<forall>w\<in>set vs. va_end v \<le> va_start w" "b \<le> va_start v"
    using Cons.prems by (auto simp: vmas_ok_Cons)
  then have "b \<le> va_end v" by simp
  from Cons.prems(1) show ?case
  proof (cases rule: recut_vmas_SomeE)
    case (apart ns1)
    with Cons.IH [OF apart(3) \<open>lo < hi\<close> v(2,3)] v \<open>b \<le> va_end v\<close> show ?thesis
      by (auto simp: vmas_ok_Cons intro: order_trans)
  next
    case (meet n att1 ns1 gaps1)
    from recut_one_cut [OF meet(3) \<open>lo < hi\<close> meet(2,1) v(1)] Cons.IH [OF meet(4) \<open>lo < hi\<close> v(2,3)]
    show ?thesis using v \<open>b \<le> va_end v\<close>
      by (auto simp: meet(5) cut_of_def intro!: vmas_ok_cuts intro: order_trans)
  qed
qed simp

lemma recut_vmas_attached:
  assumes "recut_vmas lo hi upd c vs att = Some (ns, gaps, att')"
  shows "att' seg + of_nat (shm_count seg vs) = att seg + of_nat (shm_count seg ns)"
  using assms
proof (induction vs arbitrary: c att ns gaps)
  case (Cons v vs)
  from Cons.prems show ?case
  proof (cases rule: recut_vmas_SomeE)
    case (apart ns1)
    have "att' seg + of_nat (shm_count seg (v # vs))
        = (att' seg + of_nat (shm_count seg vs)) + of_nat (shm_count seg [v])" by simp
    also have "\<dots> = att seg + of_nat (shm_count seg ns)"
      unfolding Cons.IH [OF apart(3)] by (simp add: apart(2))
    finally show ?thesis .
  next
    case (meet n att1 ns1 gaps1)
    have "att' seg + of_nat (shm_count seg (v # vs))
        = (att' seg + of_nat (shm_count seg vs)) + of_nat (shm_count seg [v])" by simp
    also have "\<dots> = (att1 seg + of_nat (shm_count seg [v])) + of_nat (shm_count seg ns1)"
      unfolding Cons.IH [OF meet(4)] by simp
    also have "\<dots> = att seg + of_nat (shm_count seg ns)"
      unfolding recut_one_attached [OF meet(3)] by (simp add: meet(5))
    finally show ?thesis .
  qed
qed simp

text \<open>The gaps are the addresses of the range that no area holds.\<close>

lemma recut_vmas_gaps:
  assumes "recut_vmas lo hi upd c vs att = Some (ns, gaps, att')" "vmas_ok vs" "lo \<le> c"
  shows "(\<exists>(g, h)\<in>set gaps. g \<le> a \<and> a < h) \<longleftrightarrow> c \<le> a \<and> a < hi \<and> content vs a = None"
  using assms
proof (induction vs arbitrary: c att ns gaps)
  case (Cons v vs)
  have v: "va_start v < va_end v" "vmas_ok vs" "\<forall>w\<in>set vs. va_end v \<le> va_start w"
    using Cons.prems by (auto simp: vmas_ok_Cons)
  have below: "content vs a = None" if "a < va_end v"
    unfolding content_None_iff using that v(3) by fastforce
  from Cons.prems(1) show ?case
  proof (cases rule: recut_vmas_SomeE)
    case (apart ns1)
    from Cons.IH [OF apart(3) v(2) \<open>lo \<le> c\<close>] apart(1) \<open>lo \<le> c\<close> show ?thesis
      by (auto simp: content_Cons)
  next
    case (meet n att1 ns1 gaps1)
    have "lo \<le> max c (min (va_end v) hi)" using \<open>lo \<le> c\<close> by (simp add: le_max_iff_disj)
    note ih = Cons.IH [OF meet(4) v(2) this]
    have "(\<exists>(g, h)\<in>set gaps. g \<le> a \<and> a < h) \<longleftrightarrow> (c \<le> a \<and> a < va_start v)
        \<or> (\<exists>(g, h)\<in>set gaps1. g \<le> a \<and> a < h)"
      by (auto simp: meet(6))
    then show ?thesis unfolding ih
      using below meet(1,2) v(1) by (auto simp: content_Cons max_def min_def)
  qed
qed auto

lemma recut_one_Some:
  assumes "offset_ok v" "va_start v < hi" "lo < va_end v" "va_start v < va_end v"
  shows "\<exists>r. recut_one lo hi upd v att = Some r"
proof -
  have 1: "\<exists>b. shift_backing (va_backing v) (max (va_start v) lo - va_start v) = Some b"
    using assms by (intro shift_backing_Some) (auto simp: max_def)
  have 2: "\<exists>b. shift_backing (va_backing v) (min (va_end v) hi - va_start v) = Some b"
    using assms by (intro shift_backing_Some) (auto simp: min_def)
  from 1 2 show ?thesis
    by (auto simp: recut_one_def Let_def split: prod.splits)
qed

lemma recut_vmas_Some:
  assumes "offsets_ok vs" "vmas_ok vs"
  shows "\<exists>r. recut_vmas lo hi upd c vs att = Some r"
  using assms
proof (induction vs arbitrary: c att)
  case (Cons v vs)
  then have v: "offset_ok v" "offsets_ok vs" "va_start v < va_end v" "vmas_ok vs"
    by (auto simp: offsets_ok_iff vmas_ok_Cons)
  show ?case
  proof (cases "va_end v \<le> lo \<or> hi \<le> va_start v")
    case True
    with Cons.IH [OF v(2,4), of c att] show ?thesis by auto
  next
    case False
    with recut_one_Some [OF v(1) _ _ v(3), of hi lo upd att] obtain n att1 where
      one: "recut_one lo hi upd v att = Some (n, att1)" by (auto simp: not_le)
    with Cons.IH [OF v(2,4), of "max c (min (va_end v) hi)" att1] False show ?thesis by auto
  qed
qed simp

subsection \<open>Inserting\<close>

lemma vma_overlaps_iff:
  "vma_overlaps lo hi vs \<longleftrightarrow> (\<exists>v\<in>set vs. va_start v < hi \<and> lo < va_end v)"
  by (simp add: vma_overlaps_def list_ex_iff)

lemma insert_vma:
  assumes bs: "bsearch_ok bs" and ok: "vmas_ok vs" and ne: "va_start v < va_end v"
    and free: "\<not> vma_overlaps (va_start v) (va_end v) vs"
  defines "p \<equiv> bs (map va_start vs) (va_start v)"
  shows "vmas_ok (insert_at p v vs)"
    and "content (insert_at p v vs) a = (if va_start v \<le> a \<and> a < va_end v then content [v] a
      else content vs a)"
proof -
  have srt: "sorted (map va_start vs)"
    using ok by (induction vs) (auto simp: vmas_ok_Cons intro: order_trans less_imp_le)
  have apart: "va_end w \<le> va_start v \<or> va_end v \<le> va_start w" "va_start w < va_end w"
    if "w \<in> set vs" for w
    using that free ok by (auto simp: vma_overlaps_iff vmas_ok_def not_less)
  have p: "p \<le> length vs" "\<And>i. i < p \<Longrightarrow> va_start (vs ! i) \<le> va_start v"
    "\<And>i. i < length vs \<Longrightarrow> p \<le> i \<Longrightarrow> va_start v \<le> va_start (vs ! i)"
    using bs srt unfolding bsearch_ok_def p_def by fastforce+
  have l: "va_end w \<le> va_start v" if "w \<in> set (take p vs)" for w
  proof -
    from that obtain i where i: "i < p" "i < length vs" "w = vs ! i" by (auto simp: in_set_conv_nth)
    then have "va_start w \<le> va_start v" using p(2) by simp
    moreover have "w \<in> set vs" using that by (rule in_set_takeD)
    ultimately show ?thesis using apart [of w] ne by auto
  qed
  have r: "va_end v \<le> va_start w" if "w \<in> set (drop p vs)" for w
  proof -
    from that obtain i where "i < length vs - p" "w = vs ! (p + i)"
      by (auto simp: in_set_conv_nth)
    then have i: "p + i < length vs" "w = vs ! (p + i)" by simp_all
    then have "va_start v \<le> va_start w" using p(3) [of "p + i"] by simp
    moreover have "w \<in> set vs" using that by (rule in_set_dropD)
    ultimately show ?thesis using apart [of w] ne by auto
  qed
  have "vmas_ok (take p vs @ drop p vs)" using ok by simp
  then show "vmas_ok (insert_at p v vs)"
    using l r ne unfolding insert_at_def vmas_ok_append by (auto simp: vmas_ok_Cons)
  have "content (take p vs) a = None" if "va_start v \<le> a"
    unfolding content_None_iff using that l by fastforce
  moreover have "content vs a = (case content (take p vs) a of None \<Rightarrow> content (drop p vs) a
      | Some c \<Rightarrow> Some c)"
    using content_append [of "take p vs" "drop p vs" a] by simp
  ultimately show "content (insert_at p v vs) a = (if va_start v \<le> a \<and> a < va_end v
      then content [v] a else content vs a)"
    by (auto simp: insert_at_def content_append content_Cons split: option.splits)
qed

lemma reserve_release:
  fixes m :: "'i mmap_state"
  assumes "bsearch_ok bs" "vmas_ok (mm_vmas m)" "lo < hi" "\<not> vma_overlaps lo hi (mm_vmas m)"
  shows "mm_vmas (release_reservation lo hi (reserve bs lo hi m)) = mm_vmas m"
proof -
  define P :: "'i vma \<Rightarrow> bool" where "P v \<longleftrightarrow> \<not> (va_start v = lo \<and> va_end v = hi
      \<and> flags_contains (va_flags v) VmaFlags_RESERVED)" for v
  have "P v" if "v \<in> set (mm_vmas m)" for v
    using that assms(3,4) by (auto simp: P_def vma_overlaps_iff)
  then have keep: "filter P (take n (mm_vmas m)) = take n (mm_vmas m)"
    "filter P (drop n (mm_vmas m)) = drop n (mm_vmas m)" for n
    by (auto simp: filter_id_conv dest: in_set_takeD in_set_dropD)
  have "\<not> P (reservation lo hi)"
    by (simp add: P_def reservation_def flags_contains_def)
  with keep show ?thesis
    unfolding release_reservation_def P_def [symmetric]
    by (simp add: reserve_def bump_generation_def bump_last_end_def insert_at_def)
qed

subsection \<open>Finding room\<close>

lemma try_find_sound:
  assumes "try_find hi len c vs = Some a" "vmas_ok vs"
  shows "c \<le> a \<and> (\<forall>x. a \<le> x \<and> x < saturating_add a len \<longrightarrow> content vs x = None)
    \<and> (saturating_add a len \<le> hi \<or> (\<exists>v\<in>set vs. saturating_add a len \<le> va_start v))"
  using assms
proof (induction vs arbitrary: c)
  case (Cons v vs)
  have v: "va_start v < va_end v" "vmas_ok vs" "\<forall>w\<in>set vs. va_end v \<le> va_start w"
    using Cons.prems(2) by (auto simp: vmas_ok_Cons)
  show ?case
  proof (cases "va_end v \<le> c")
    case True
    with Cons.prems(1) have "try_find hi len c vs = Some a" by simp
    note ih = Cons.IH [OF this v(2)]
    have "va_end v \<le> a" using True conjunct1 [OF ih] by (rule order_trans)
    then have "content (v # vs) x = content vs x" if "a \<le> x" for x
      using \<open>va_end v \<le> a\<close> that by (intro content_past) (rule order_trans)
    with ih show ?thesis by auto
  next
    case past: False
    show ?thesis
    proof (cases "saturating_add c len \<le> va_start v")
      case True
      then have "a = c" using past Cons.prems(1) by simp
      have "content (v # vs) x = None" if "x < va_start v" for x
        unfolding content_None_iff using that v(1,3) by fastforce
      then show ?thesis using True \<open>a = c\<close> less_le_trans [OF _ True] by auto
    next
      case False
      moreover have "max c (va_end v) = va_end v" using past by (metis linear max_absorb2)
      ultimately have "try_find hi len (va_end v) vs = Some a" using past Cons.prems(1) by simp
      note ih = Cons.IH [OF this v(2)]
      have "content (v # vs) x = content vs x" if "a \<le> x" for x
        using conjunct1 [OF ih] that by (intro content_past) (rule order_trans)
      moreover have "c \<le> a" using past conjunct1 [OF ih] by (simp add: not_le)
      ultimately show ?thesis using ih by auto
    qed
  qed
qed (auto split: if_splits)

lemma try_find_complete:
  assumes "vmas_ok vs" "0 < len" "c \<le> b" "unat b + unat len \<le> unat hi"
    and "\<And>x. b \<le> x \<Longrightarrow> unat x < unat b + unat len \<Longrightarrow> content vs x = None"
  shows "try_find hi len c vs \<noteq> None"
  using assms(1,3,5)
proof (induction vs arbitrary: c)
  case Nil
  have "saturating_add c len \<le> hi"
    using Nil(2) assms(4) unat_u64_less [of hi]
    by (simp add: saturating_add_def word_le_nat_alt unat_add_in_range)
  then show ?case by simp
next
  case (Cons v vs)
  have v: "va_start v < va_end v" "vmas_ok vs" using Cons.prems(1) by (auto simp: vmas_ok_Cons)
  have free: "content vs x = None" "\<not> (va_start v \<le> x \<and> x < va_end v)"
    if "b \<le> x" "unat x < unat b + unat len" for x
    using Cons.prems(3) [OF that] by (auto simp: content_Cons split: if_splits)
  note ih = Cons.IH [OF v(2) _ free(1)]
  have "va_end v \<le> b" if "c < va_end v" "va_start v < saturating_add c len"
  proof (rule ccontr)
    assume n: "\<not> va_end v \<le> b"
    have "unat (saturating_add c len) \<le> unat b + unat len"
      using Cons.prems(2) assms(4) unat_u64_less [of hi]
      by (simp add: saturating_add_def word_le_nat_alt unat_add_in_range)
    then have "unat (va_start v) < unat b + unat len" using that(2) by (simp add: word_less_nat_alt)
    moreover have "0 < unat len" using assms(2) by (simp add: word_less_nat_alt)
    ultimately have "unat (max b (va_start v)) < unat b + unat len" by (simp add: max_def)
    from free(2) [OF _ this] n v(1) show False
      by (cases "b \<le> va_start v") (auto simp: max_def not_le)
  qed
  then show ?case using ih Cons.prems(2) by (auto simp: not_le max_def)
qed

section \<open>Properties\<close>

text \<open>What an operation leaves of the attachment counters: every area of a segment counts once.\<close>

definition attached_for :: "attached \<Rightarrow> 'i vma list \<Rightarrow> attached \<Rightarrow> 'i vma list \<Rightarrow> bool" where
  "attached_for att vs att' ws \<longleftrightarrow>
    (\<forall>seg. att' seg + of_nat (shm_count seg vs) = att seg + of_nat (shm_count seg ws))"

definition in_range :: "u64 \<Rightarrow> u64 \<Rightarrow> u64 \<Rightarrow> bool" where
  "in_range lo hi a \<longleftrightarrow> lo \<le> a \<and> a < hi"

lemma unmap_range_spec:
  assumes "vmas_ok (mm_vmas m)" "offsets_ok (mm_vmas m)" "lo < hi"
  obtains rs m' att' where "unmap_range lo hi m att = Some (rs, m', att')" "vmas_ok (mm_vmas m')"
    "\<And>a. content (mm_vmas m') a = (if in_range lo hi a then None else content (mm_vmas m) a)"
    "\<And>a. content rs a = (if in_range lo hi a then content (mm_vmas m) a else None)"
    "attached_for att (mm_vmas m) att' (mm_vmas m' @ rs)"
proof -
  from unmap_vmas_Some [OF assms(2) less_imp_le [OF assms(3)], of att] obtain ns rs att' where
    u: "unmap_vmas lo hi (mm_vmas m) att = Some (ns, rs, att')" by (auto simp: split_paired_Ex)
  let ?m = "bump_generation (m\<lparr>mm_vmas := ns\<rparr>)"
  have ok: "vmas_ok ns" using unmap_vmas_ok [OF u assms(3,1), of 0] by simp
  show thesis
  proof (rule that [of rs ?m att'])
    show "unmap_range lo hi m att = Some (rs, ?m, att')"
      by (simp add: unmap_range_def u sort_key_vmas [OF ok])
    show "attached_for att (mm_vmas m) att' (mm_vmas ?m @ rs)"
      using unmap_vmas_attached [OF u] by (simp add: attached_for_def bump_generation_def)
  qed (use ok unmap_vmas_content [OF u less_imp_le [OF assms(3)]] in
      \<open>simp_all add: bump_generation_def in_range_def\<close>)
qed

lemma recut_range_spec:
  assumes "vmas_ok (mm_vmas m)" "offsets_ok (mm_vmas m)" "lo < hi"
  shows "\<exists>gaps m' att'. recut_range lo hi (\<lambda>v. f (va_prot v) (va_flags v)) m att = Some (gaps, m', att')
    \<and> vmas_ok (mm_vmas m')
    \<and> (\<forall>a. content (mm_vmas m') a = (if in_range lo hi a
          then map_option (upd_content f) (content (mm_vmas m) a) else content (mm_vmas m) a))
    \<and> (\<forall>a. (\<exists>(g, h)\<in>set gaps. in_range g h a) \<longleftrightarrow> in_range lo hi a \<and> content (mm_vmas m) a = None)
    \<and> attached_for att (mm_vmas m) att' (mm_vmas m')"
proof -
  from recut_vmas_Some [OF assms(2,1), of lo hi "\<lambda>v. f (va_prot v) (va_flags v)" lo att]
  obtain ns gaps att' where
    u: "recut_vmas lo hi (\<lambda>v. f (va_prot v) (va_flags v)) lo (mm_vmas m) att = Some (ns, gaps, att')"
    by (auto simp: split_paired_Ex)
  let ?m = "bump_generation (m\<lparr>mm_vmas := ns\<rparr>)"
  have ok: "vmas_ok ns" using recut_vmas_ok [OF u assms(3,1), of 0] by simp
  have "recut_range lo hi (\<lambda>v. f (va_prot v) (va_flags v)) m att = Some (gaps, ?m, att')"
    by (simp add: recut_range_def u sort_key_vmas [OF ok])
  moreover have "attached_for att (mm_vmas m) att' (mm_vmas ?m)"
    using recut_vmas_attached [OF u] by (simp add: attached_for_def bump_generation_def)
  ultimately show ?thesis
    using ok recut_vmas_content [OF u assms(3)] recut_vmas_gaps [OF u assms(1) order_refl]
    by (intro exI [of _ gaps] exI [of _ ?m] exI [of _ att'])
       (simp add: bump_generation_def in_range_def)
qed

text \<open>C20: The list of areas implements a partial function from addresses to permissions, flags and
  a place in a backing object. On a sorted, disjoint map whose file offsets do not wrap, unmapping
  a range removes exactly its addresses and returns what they held; changing permissions or the
  lock flag changes exactly the mapped addresses of the range and reports exactly the unmapped
  ones; every address keeps its place in its backing object although areas are cut; the map stays
  sorted and disjoint, and the attachment counters follow the number of areas of each segment.\<close>

theorem mmap_state_refines:
  assumes "vmas_ok (mm_vmas m)" "offsets_ok (mm_vmas m)" "lo < hi"
  shows "(\<exists>rs m' att'. unmap_range lo hi m att = Some (rs, m', att') \<and> vmas_ok (mm_vmas m')
      \<and> (\<forall>a. content (mm_vmas m') a = (if in_range lo hi a then None else content (mm_vmas m) a))
      \<and> (\<forall>a. content rs a = (if in_range lo hi a then content (mm_vmas m) a else None))
      \<and> attached_for att (mm_vmas m) att' (mm_vmas m' @ rs)) \<and>
    (\<exists>gaps m' att'. protect_range lo hi pr m att = Some (gaps, m', att') \<and> vmas_ok (mm_vmas m')
      \<and> (\<forall>a. content (mm_vmas m') a = (if in_range lo hi a
            then map_option (upd_content (\<lambda>_ fl. (pr, fl))) (content (mm_vmas m) a)
            else content (mm_vmas m) a))
      \<and> (\<forall>a. (\<exists>(g, h)\<in>set gaps. in_range g h a) \<longleftrightarrow> in_range lo hi a \<and> content (mm_vmas m) a = None)
      \<and> attached_for att (mm_vmas m) att' (mm_vmas m')) \<and>
    (\<exists>gaps m' att'. mm_lock_range lo hi st m att = Some (gaps, m', att') \<and> vmas_ok (mm_vmas m')
      \<and> (\<forall>a. content (mm_vmas m') a = (if in_range lo hi a
            then map_option (upd_content (\<lambda>p fl. (p, if st then fl OR VmaFlags_LOCKED
                   else fl AND NOT VmaFlags_LOCKED))) (content (mm_vmas m) a)
            else content (mm_vmas m) a))
      \<and> (\<forall>a. (\<exists>(g, h)\<in>set gaps. in_range g h a) \<longleftrightarrow> in_range lo hi a \<and> content (mm_vmas m) a = None)
      \<and> attached_for att (mm_vmas m) att' (mm_vmas m'))"
  unfolding protect_range_def mm_lock_range_def
  by (intro conjI; (rule recut_range_spec [OF assms])?) (rule unmap_range_spec [OF assms, of att], blast)

text \<open>A map with a file area, a gap and a shared segment.\<close>

definition demo_map :: "nat mmap_state" where
  "demo_map = \<lparr>mm_vmas = [\<lparr>va_start = 0x8000000000, va_end = 0x8000004000, va_prot = 11, va_flags = 1,
       va_backing = File 7 0x10000\<rparr>, \<lparr>va_start = 0x8000005000, va_end = 0x8000007000, va_prot = 11,
       va_flags = 1, va_backing = Shm 3 0\<rparr>], mm_last_end = 0x8000007000, mm_arena_lo = 0x8000000000,
     mm_arena_hi = 0x8100000000, mm_generation = 2, mm_mlockall_flags = 0\<rparr>"

lemma demo_map_ok: "vmas_ok (mm_vmas demo_map)" "offsets_ok (mm_vmas demo_map)"
  by (simp_all add: demo_map_def vmas_ok_Cons offsets_ok_def)

theorem mmap_state_refines_witness:
  "\<exists>rs m' att'. unmap_range 0x8000001000 0x8000006000 demo_map (\<lambda>_. 1) = Some (rs, m', att')
    \<and> content (mm_vmas m') 0x8000006000 = Some (11, 1, Shm 3 0x1000)
    \<and> content (mm_vmas m') 0x8000001000 = None"
proof -
  have "(0x8000001000 :: u64) < 0x8000006000" by simp
  from mmap_state_refines [OF demo_map_ok this, of "\<lambda>_. 1" 0 False] obtain rs m' att' where
    u: "unmap_range 0x8000001000 0x8000006000 demo_map (\<lambda>_. 1) = Some (rs, m', att')"
    and c: "\<And>a. content (mm_vmas m') a = (if in_range 0x8000001000 0x8000006000 a then None
      else content (mm_vmas demo_map) a)" by blast
  have "content (mm_vmas m') 0x8000006000 = Some (11, 1, Shm 3 0x1000)"
    unfolding c by (simp add: in_range_def demo_map_def content_Cons backing_at_def)
  moreover have "content (mm_vmas m') 0x8000001000 = None"
    unfolding c by (simp add: in_range_def)
  ultimately show ?thesis using u by blast
qed

subsection \<open>Placing a mapping\<close>

lemma overlaps_content:
  assumes "vmas_ok vs" "lo < hi"
  shows "vma_overlaps lo hi vs \<longleftrightarrow> (\<exists>a. in_range lo hi a \<and> content vs a \<noteq> None)"
proof
  assume "vma_overlaps lo hi vs"
  then obtain v where v: "v \<in> set vs" "va_start v < hi" "lo < va_end v" by (auto simp: vma_overlaps_iff)
  then have "in_range lo hi (max lo (va_start v))" "va_start v \<le> max lo (va_start v)"
    "max lo (va_start v) < va_end v"
    using assms by (auto simp: in_range_def vmas_ok_def)
  then show "\<exists>a. in_range lo hi a \<and> content vs a \<noteq> None"
    using v(1) unfolding content_None_iff by blast
next
  assume "\<exists>a. in_range lo hi a \<and> content vs a \<noteq> None"
  then obtain a v where "in_range lo hi a" "v \<in> set vs" "va_start v \<le> a" "a < va_end v"
    unfolding content_None_iff by blast
  then show "vma_overlaps lo hi vs"
    unfolding vma_overlaps_iff in_range_def by (meson le_less_trans)
qed

definition room_at :: "u64 \<Rightarrow> u64 \<Rightarrow> 'i vma list \<Rightarrow> bool" where
  "room_at b len vs \<longleftrightarrow> (\<forall>a. b \<le> a \<and> unat a < unat b + unat len \<longrightarrow> content vs a = None)"

lemma find_gap_sound:
  assumes "find_gap len m = Some a" "vmas_ok (mm_vmas m)" "mm_arena_hi m < - 1"
  shows "unat a + unat len < 2 ^ 64" "room_at a len (mm_vmas m)" "mm_arena_lo m \<le> a"
    "a + len \<le> mm_arena_hi m \<or>
     (\<exists>v\<in>set (mm_vmas m). mm_arena_hi m < va_start v \<and> a + len \<le> va_start v)"
proof -
  have "try_find (mm_arena_hi m) len (max (mm_last_end m) (mm_arena_lo m)) (mm_vmas m) = Some a
      \<or> try_find (mm_arena_hi m) len (mm_arena_lo m) (mm_vmas m) = Some a"
    using assms(1) by (simp add: find_gap_def split: option.splits)
  then obtain c where c: "try_find (mm_arena_hi m) len c (mm_vmas m) = Some a" "mm_arena_lo m \<le> c"
    using max.cobounded2 order_refl by blast
  note tf = try_find_sound [OF c(1) assms(2)]
  have top: "x < - 1" if "x < y" for x y :: u64
    using that word_order.extremum by (rule less_le_trans)
  from tf consider "saturating_add a len \<le> mm_arena_hi m"
    | v where "v \<in> set (mm_vmas m)" "saturating_add a len \<le> va_start v" by blast
  then have "saturating_add a len < - 1"
  proof cases
    case 1 then show ?thesis using assms(3) by (rule le_less_trans)
  next
    case 2
    then have "va_start v < va_end v" using assms(2) by (simp add: vmas_ok_def)
    with 2(2) show ?thesis by (intro top) (rule le_less_trans)
  qed
  then show nowrap: "unat a + unat len < 2 ^ 64"
    by (auto simp: saturating_add_def split: if_splits)
  then have sat: "saturating_add a len = a + len" "unat (a + len) = unat a + unat len"
    by (simp_all add: saturating_add_def unat_add_in_range)
  show "room_at a len (mm_vmas m)"
    using tf unfolding room_at_def sat(1) by (simp add: word_less_nat_alt sat(2))
  show "mm_arena_lo m \<le> a" using c(2) conjunct1 [OF tf] by (rule order_trans)
  show "a + len \<le> mm_arena_hi m \<or>
     (\<exists>v\<in>set (mm_vmas m). mm_arena_hi m < va_start v \<and> a + len \<le> va_start v)"
    using tf order_trans [of "a + len" _ "mm_arena_hi m"] unfolding sat(1) not_le [symmetric] by blast
qed

lemma find_gap_complete:
  assumes "find_gap len m = None" "vmas_ok (mm_vmas m)" "0 < len"
    "mm_arena_lo m \<le> b" "unat b + unat len \<le> unat (mm_arena_hi m)"
  shows "\<not> room_at b len (mm_vmas m)"
proof
  assume "room_at b len (mm_vmas m)"
  then have "try_find (mm_arena_hi m) len (mm_arena_lo m) (mm_vmas m) \<noteq> None"
    by (intro try_find_complete [OF assms(2-5)]) (simp add: room_at_def)
  with assms(1) show False by (simp add: find_gap_def split: option.splits)
qed

lemma commit_reserved:
  assumes "bsearch_ok bs" "vmas_ok (mm_vmas m)" "unat va + unat len < 2 ^ 64" "0 < len"
    "\<not> vma_overlaps va (va + len) (mm_vmas m)"
  shows "\<exists>m2. mmap_commit bs va len perms fl b (reserve bs va (va + len) m) = Some m2
    \<and> vmas_ok (mm_vmas m2)
    \<and> (\<forall>a. content (mm_vmas m2) a = (if in_range va (va + len) a
          then Some (perms, fl, backing_at b (a - va)) else content (mm_vmas m) a))"
proof -
  let ?v = "\<lparr>va_start = va, va_end = va + len, va_prot = perms, va_flags = fl, va_backing = b\<rparr>"
  have lt: "va < va + len"
    using assms(3,4) by (simp add: word_less_nat_alt unat_add_in_range)
  note vs = reserve_release [OF assms(1,2) lt assms(5)]
  have *: "va_start ?v < va_end ?v" "\<not> vma_overlaps (va_start ?v) (va_end ?v) (mm_vmas m)"
    using lt assms(5) by simp_all
  note ins = insert_vma [OF assms(1,2) *]
  have "checked_add va len = Some (va + len)" using assms(3) by (simp add: checked_add_def)
  then show ?thesis
    using ins by (simp add: mmap_commit_def mm_insert_def bump_generation_def vs in_range_def content_Cons)
qed

lemma not_overlaps_room:
  assumes "vmas_ok vs" "unat va + unat len < 2 ^ 64" "0 < len"
  shows "vma_overlaps va (va + len) vs \<longleftrightarrow> \<not> room_at va len vs"
proof -
  have u: "unat (va + len) = unat va + unat len" using assms(2) by (simp add: unat_add_in_range)
  then have "va < va + len" using assms(3) by (simp add: word_less_nat_alt)
  from overlaps_content [OF assms(1) this] show ?thesis
    by (auto simp: room_at_def in_range_def word_less_nat_alt u)
qed

definition replaces :: "u64 \<Rightarrow> bool" where
  "replaces flags \<longleftrightarrow> flags AND MAP_FIXED_NOREPLACE = 0 \<and> flags AND MAP_FIXED \<noteq> 0"

text \<open>Where a mapping without a fixed address goes: to the hint if that lies in the arena and is
  free, otherwise above the lower end of the arena and below its upper end or below an area that
  starts above the upper end.\<close>

definition placed_ok :: "u64 \<Rightarrow> u64 \<Rightarrow> 'i mmap_state \<Rightarrow> u64 \<Rightarrow> bool" where
  "placed_ok addr len m va \<longleftrightarrow>
     mm_arena_lo m \<le> va \<and>
     (va + len \<le> mm_arena_hi m \<or>
      (\<exists>v\<in>set (mm_vmas m). mm_arena_hi m < va_start v \<and> va + len \<le> va_start v)) \<and>
     (addr \<noteq> 0 \<and> mm_arena_lo m \<le> addr \<and> unat addr + unat len \<le> unat (mm_arena_hi m) \<and>
      room_at addr len (mm_vmas m) \<longrightarrow> va = addr)"

definition chosen_ok ::
  "u64 \<Rightarrow> u64 \<Rightarrow> u64 \<Rightarrow> 'i mmap_state \<Rightarrow> u64 \<Rightarrow> 'i mmap_state \<Rightarrow> bool" where
  "chosen_ok addr len flags m va m1 \<longleftrightarrow> unat va + unat len < 2 ^ 64 \<and> vmas_ok (mm_vmas m1)
    \<and> room_at va len (mm_vmas m1)
    \<and> (if is_fixed flags then va = addr else placed_ok addr len m va)
    \<and> (\<forall>a. content (mm_vmas m1) a = (if replaces flags \<and> in_range va (va + len) a then None
          else content (mm_vmas m) a))"

definition no_room :: "u64 \<Rightarrow> 'i mmap_state \<Rightarrow> bool" where
  "no_room len m \<longleftrightarrow> (\<forall>b. mm_arena_lo m \<le> b \<and> unat b + unat len \<le> unat (mm_arena_hi m)
     \<longrightarrow> \<not> room_at b len (mm_vmas m))"

lemma is_fixed_iff:
  "is_fixed flags \<longleftrightarrow> flags AND MAP_FIXED_NOREPLACE \<noteq> 0 \<or> flags AND MAP_FIXED \<noteq> 0"
  by (auto simp: is_fixed_def bit.conj_disj_distrib or_eq_0_iff)

lemma fixed_in_range_add:
  assumes "fixed_in_range addr len flags" "is_fixed flags"
  shows "unat addr + unat len < 2 ^ 64" "checked_add addr len = Some (addr + len)"
  using assms by (auto simp: fixed_in_range_def checked_add_eq_Some split: option.splits)

lemma mmap_choose_fixed:
  assumes ok: "vmas_ok (mm_vmas m)" "offsets_ok (mm_vmas m)" and len: "0 < len"
    and range: "fixed_in_range addr len flags" and fixed: "is_fixed flags"
  shows "\<exists>r. mmap_choose addr len flags m att = Some r \<and>
    (case r of Inl e \<Rightarrow> e = EEXIST \<and> \<not> replaces flags \<and> \<not> room_at addr len (mm_vmas m)
     | Inr (va, _, m1, _) \<Rightarrow> chosen_ok addr len flags m va m1)"
proof (cases "replaces flags")
  case True
  note add = fixed_in_range_add [OF range fixed]
  have "addr < addr + len" using add(1) len by (simp add: word_less_nat_alt unat_add_in_range)
  then obtain rs m' att' where
    u: "unmap_range addr (addr + len) m att = Some (rs, m', att')" "vmas_ok (mm_vmas m')" and
    c: "\<And>a. content (mm_vmas m') a = (if in_range addr (addr + len) a then None
        else content (mm_vmas m) a)" and
    "\<And>a. content rs a = (if in_range addr (addr + len) a then content (mm_vmas m) a else None)"
    "attached_for att (mm_vmas m) att' (mm_vmas m' @ rs)"
    by (rule unmap_range_spec [OF ok, of _ _ att]) (rule that)
  have "room_at addr len (mm_vmas m')"
    using add(1) by (simp add: room_at_def c in_range_def word_less_nat_alt unat_add_in_range)
  then have "chosen_ok addr len flags m addr m'"
    using add(1) u(2) c True fixed by (simp add: chosen_ok_def)
  then show ?thesis using True u(1) add(2) by (simp add: mmap_choose_def replaces_def)
next
  case False
  note add = fixed_in_range_add [OF range fixed]
  have "flags AND MAP_FIXED_NOREPLACE \<noteq> 0" using False fixed by (auto simp: replaces_def is_fixed_iff)
  then show ?thesis
    using add ok False fixed not_overlaps_room [OF ok(1) add(1) len]
    by (auto simp: mmap_choose_def chosen_ok_def)
qed

lemma mmap_choose_free:
  assumes ok: "vmas_ok (mm_vmas m)" and len: "0 < len" and hi: "mm_arena_hi m < - 1"
    and free: "\<not> is_fixed flags"
  shows "\<exists>r. mmap_choose addr len flags m att = Some r \<and>
    (case r of Inl e \<Rightarrow> e = ENOMEM \<and> no_room len m
     | Inr (va, _, m1, _) \<Rightarrow> chosen_ok addr len flags m va m1)"
proof -
  have fl: "flags AND MAP_FIXED_NOREPLACE = 0" "flags AND MAP_FIXED = 0" "\<not> replaces flags"
    using free by (auto simp: is_fixed_iff replaces_def)
  have same: "chosen_ok addr len flags m va m"
    if "unat va + unat len < 2 ^ 64" "room_at va len (mm_vmas m)" "placed_ok addr len m va" for va
    using that ok free fl(3) by (simp add: chosen_ok_def)
  have hint: "chosen_ok addr len flags m addr m"
    if "checked_add addr len = Some e" "\<not> vma_overlaps addr e (mm_vmas m)"
      "mm_arena_lo m \<le> addr" "e \<le> mm_arena_hi m" for e
    using that same not_overlaps_room [OF ok _ len]
    by (auto simp: checked_add_eq_Some placed_ok_def)
  have gap: "chosen_ok addr len flags m a m"
    if a: "find_gap len m = Some a" and no: "\<not> (addr \<noteq> 0 \<and> addr \<ge> mm_arena_lo m
         \<and> (case checked_add addr len of Some e \<Rightarrow> e \<le> mm_arena_hi m
               \<and> \<not> vma_overlaps addr e (mm_vmas m)
             | None \<Rightarrow> False))" for a
  proof -
    have "\<not> room_at addr len (mm_vmas m)"
      if "addr \<noteq> 0" "mm_arena_lo m \<le> addr" "unat addr + unat len \<le> unat (mm_arena_hi m)"
    proof -
      have lt: "unat addr + unat len < 2 ^ 64" using that(3) unat_u64_less by (rule le_less_trans)
      then have "addr + len \<le> mm_arena_hi m"
        using that(3) by (simp add: word_le_nat_alt unat_add_in_range)
      then show ?thesis
        using no that(1,2) lt not_overlaps_room [OF ok lt len] by (simp add: checked_add_def)
    qed
    then show ?thesis
      using find_gap_sound [OF a ok hi] by (intro same) (auto simp: placed_ok_def)
  qed
  have none: "no_room len m" if "find_gap len m = None"
    using find_gap_complete [OF that ok len] by (simp add: no_room_def)
  show ?thesis
  proof (cases "addr \<noteq> 0 \<and> addr \<ge> mm_arena_lo m
         \<and> (case checked_add addr len of Some e \<Rightarrow> e \<le> mm_arena_hi m
               \<and> \<not> vma_overlaps addr e (mm_vmas m)
             | None \<Rightarrow> False)")
    case True
    then show ?thesis using hint by (simp add: mmap_choose_def fl split: option.splits)
  next
    case False
    show ?thesis
      using gap [OF _ False] none
      by (simp only: mmap_choose_def fl False if_False simp_thms) (auto split: option.splits)
  qed
qed

text \<open>C21: Choosing an address and entering the new area, as \<open>sys_mmap\<close> does, ends with the new
  mapping at every address of its range and the old contents everywhere else. Only a mapping with
  the replacing flag covers addresses that were mapped. A fixed mapping is where the caller asked.
  Any other is at the hint if the hint lies in the arena and is free, and otherwise starts above
  the lower end of the arena and ends below its upper end or, if there are areas above the arena,
  below one of them.
  The call fails only with EEXIST, when a mapping that may not replace would, or with ENOMEM, when
  no range of the length is free in the arena, and then leaves the map alone.\<close>

theorem mmap_places:
  assumes "bsearch_ok bs" "vmas_ok (mm_vmas m)" "offsets_ok (mm_vmas m)" "0 < len"
    "mm_arena_hi m < - 1" "fixed_in_range addr len flags"
  shows "\<exists>r m' att'. mmap_pick bs addr len flags m att = Some (r, m', att') \<and>
    (case r of
       Inl e \<Rightarrow> m' = m \<and> att' = att \<and>
         (e = EEXIST \<and> is_fixed flags \<and> \<not> replaces flags \<and> \<not> room_at addr len (mm_vmas m) \<or>
          e = ENOMEM \<and> \<not> is_fixed flags \<and> no_room len m)
     | Inr (va, _) \<Rightarrow> (if is_fixed flags then va = addr else placed_ok addr len m va) \<and>
         (replaces flags \<or> room_at va len (mm_vmas m)) \<and>
         (\<exists>m2. mmap_commit bs va len perms fl b m' = Some m2 \<and> vmas_ok (mm_vmas m2) \<and>
           (\<forall>a. content (mm_vmas m2) a = (if in_range va (va + len) a
                then Some (perms, fl, backing_at b (a - va)) else content (mm_vmas m) a))))"
proof -
  have "\<exists>r. mmap_choose addr len flags m att = Some r \<and>
    (case r of Inl e \<Rightarrow>
         (e = EEXIST \<and> is_fixed flags \<and> \<not> replaces flags \<and> \<not> room_at addr len (mm_vmas m) \<or>
          e = ENOMEM \<and> \<not> is_fixed flags \<and> no_room len m)
     | Inr (va, _, m1, _) \<Rightarrow> chosen_ok addr len flags m va m1)"
    using mmap_choose_fixed [OF assms(2-4,6), of att] mmap_choose_free [OF assms(2,4,5), of flags addr att]
    by (cases "is_fixed flags") (auto split: sum.splits)
  then obtain r where r: "mmap_choose addr len flags m att = Some r" and spec:
    "case r of Inl e \<Rightarrow>
         (e = EEXIST \<and> is_fixed flags \<and> \<not> replaces flags \<and> \<not> room_at addr len (mm_vmas m) \<or>
          e = ENOMEM \<and> \<not> is_fixed flags \<and> no_room len m)
     | Inr (va, _, m1, _) \<Rightarrow> chosen_ok addr len flags m va m1" by blast
  show ?thesis
  proof (cases r)
    case (Inl e) then show ?thesis using r spec by (simp add: mmap_pick_def)
  next
    case (Inr x)
    then obtain va d m1 att1 where ok: "mmap_choose addr len flags m att = Some (Inr (va, d, m1, att1))"
      "chosen_ok addr len flags m va m1"
      using r spec by (cases x) simp
    note c = ok(2) [unfolded chosen_ok_def]
    then have nov: "\<not> vma_overlaps va (va + len) (mm_vmas m1)"
      using not_overlaps_room [of "mm_vmas m1" va len] assms(4) by simp
    have "mmap_pick bs addr len flags m att = Some (Inr (va, d), reserve bs va (va + len) m1, att1)"
      using ok(1) c by (simp add: mmap_pick_def checked_add_def)
    moreover have "replaces flags \<or> room_at va len (mm_vmas m)"
      using c by (auto simp: room_at_def)
    ultimately show ?thesis
      using commit_reserved [OF assms(1) _ _ assms(4) nov, of perms fl b] c by auto
  qed
qed

theorem mmap_places_witness:
  "\<exists>va d m' att' m2. mmap_pick lower_bound 0x8000003000 0x3000 MAP_FIXED demo_map (\<lambda>_. 1)
      = Some (Inr (va, d), m', att')
    \<and> mmap_commit lower_bound va 0x3000 11 2 Anonymous m' = Some m2
    \<and> content (mm_vmas m2) 0x8000005000 = Some (11, 2, Anonymous)
    \<and> content (mm_vmas m2) 0x8000006000 = Some (11, 1, Shm 3 0x1000)"
proof -
  have fl: "is_fixed MAP_FIXED" "replaces MAP_FIXED"
    by (simp_all add: is_fixed_iff replaces_def kconsts)
  have hyps: "(0 :: u64) < 0x3000" "mm_arena_hi demo_map < - 1"
    "fixed_in_range 0x8000003000 0x3000 MAP_FIXED"
    by (simp_all add: demo_map_def fixed_in_range_def checked_add_def)
  from mmap_places [OF lower_bound_ok demo_map_ok hyps, of "\<lambda>_. 1" 11 2 Anonymous]
  obtain r m' att' where "mmap_pick lower_bound 0x8000003000 0x3000 MAP_FIXED demo_map (\<lambda>_. 1)
      = Some (r, m', att')" and
    r: "case r of
       Inl e \<Rightarrow> m' = demo_map \<and> att' = (\<lambda>_. 1) \<and>
         (e = EEXIST \<and> is_fixed MAP_FIXED \<and> \<not> replaces MAP_FIXED
            \<and> \<not> room_at 0x8000003000 0x3000 (mm_vmas demo_map) \<or>
          e = ENOMEM \<and> \<not> is_fixed MAP_FIXED \<and> no_room 0x3000 demo_map)
     | Inr (va, _) \<Rightarrow> (if is_fixed MAP_FIXED then va = 0x8000003000
           else placed_ok 0x8000003000 0x3000 demo_map va) \<and>
         (replaces MAP_FIXED \<or> room_at va 0x3000 (mm_vmas demo_map)) \<and>
         (\<exists>m2. mmap_commit lower_bound va 0x3000 11 2 Anonymous m' = Some m2 \<and> vmas_ok (mm_vmas m2) \<and>
           (\<forall>a. content (mm_vmas m2) a = (if in_range va (va + 0x3000) a
                then Some (11, 2, backing_at Anonymous (a - va)) else content (mm_vmas demo_map) a)))"
    by blast
  with fl obtain va d m2 where
    p: "mmap_pick lower_bound 0x8000003000 0x3000 MAP_FIXED demo_map (\<lambda>_. 1) = Some (Inr (va, d), m', att')"
      "va = 0x8000003000" "mmap_commit lower_bound va 0x3000 11 2 Anonymous m' = Some m2" and
    c: "\<forall>a. content (mm_vmas m2) a = (if in_range va (va + 0x3000) a
                then Some (11, 2, backing_at Anonymous (a - va)) else content (mm_vmas demo_map) a)"
    by (cases r) (auto split: prod.splits)
  have "content (mm_vmas m2) 0x8000005000 = Some (11, 2, Anonymous)"
    "content (mm_vmas m2) 0x8000006000 = Some (11, 1, Shm 3 0x1000)"
    using c p(2) by (simp_all add: in_range_def backing_at_def demo_map_def content_Cons)
  with p show ?thesis by blast
qed

subsection \<open>Overflow\<close>

text \<open>A cut inside an area whose offset at the cut does not fit.\<close>

definition cut_overflows :: "'i vma \<Rightarrow> u64 \<Rightarrow> bool" where
  "cut_overflows v c \<longleftrightarrow> va_start v < c \<and> c < va_end v \<and>
    (case va_backing v of Anonymous \<Rightarrow> False
     | Shm _ off \<Rightarrow> 2 ^ 64 \<le> unat off + unat (c - va_start v)
     | File _ off \<Rightarrow> 2 ^ 64 \<le> unat off + unat (c - va_start v))"

lemma shift_backing_None:
  "va_start v < c \<Longrightarrow> c < va_end v \<Longrightarrow>
    shift_backing (va_backing v) (c - va_start v) = None \<longleftrightarrow> cut_overflows v c"
  by (auto simp: shift_backing_def checked_add_def cut_overflows_def not_less split: vma_backing.splits)

lemma unmap_one_None:
  assumes "lo < hi"
  shows "unmap_one lo hi v att = None \<longleftrightarrow> cut_overflows v lo \<or> cut_overflows v hi"
proof -
  have out: "\<not> cut_overflows v c" if "\<not> (va_start v < c \<and> c < va_end v)" for c
    using that by (auto simp: cut_overflows_def)
  show ?thesis
  proof (cases "va_start v < lo \<and> lo < va_end v"; cases "va_start v < hi \<and> hi < va_end v")
    assume a: "va_start v < lo \<and> lo < va_end v" "va_start v < hi \<and> hi < va_end v"
    then show ?thesis
      using shift_backing_None [of v lo] shift_backing_None [of v hi]
      by (auto simp: unmap_one_def Let_def not_le not_less split: option.splits)
  next
    assume a: "va_start v < lo \<and> lo < va_end v" "\<not> (va_start v < hi \<and> hi < va_end v)"
    then have "va_end v \<le> hi" using assms by (auto simp: not_less)
    then show ?thesis
      using a out [of hi] shift_backing_None [of v lo] assms
      by (auto simp: unmap_one_def Let_def not_le not_less split: option.splits)
  next
    assume a: "\<not> (va_start v < lo \<and> lo < va_end v)" "va_start v < hi \<and> hi < va_end v"
    then have "lo \<le> va_start v" using assms by (auto simp: not_less)
    then show ?thesis
      using a out [of lo] shift_backing_None [of v hi] assms
      by (auto simp: unmap_one_def Let_def not_le not_less split: option.splits)
  next
    assume a: "\<not> (va_start v < lo \<and> lo < va_end v)" "\<not> (va_start v < hi \<and> hi < va_end v)"
    then have "va_end v \<le> lo \<or> va_start v \<ge> hi \<or> va_start v \<ge> lo \<and> va_end v \<le> hi"
      using assms by (auto simp: not_less)
    then show ?thesis
      using out [OF a(1)] out [OF a(2)] by (auto simp: unmap_one_def Let_def)
  qed
qed

lemma unmap_vmas_None:
  assumes "lo < hi"
  shows "unmap_vmas lo hi vs att = None \<longleftrightarrow> (\<exists>v\<in>set vs. cut_overflows v lo \<or> cut_overflows v hi)"
proof (induction vs arbitrary: att)
  case (Cons v vs)
  show ?case
  proof (cases "unmap_one lo hi v att")
    case None
    then show ?thesis using unmap_one_None [OF assms, of v att] by simp
  next
    case (Some x)
    obtain n r att1 where x: "x = (n, r, att1)" by (cases x)
    have "unmap_vmas lo hi (v # vs) att = None \<longleftrightarrow> unmap_vmas lo hi vs att1 = None"
      using Some x by (simp split: option.splits prod.splits)
    then show ?thesis using Cons.IH [of att1] unmap_one_None [OF assms, of v att] Some by simp
  qed
qed simp

text \<open>Unmapping panics exactly when it cuts an area at a place whose file offset does not fit 64
  bits. The offset that a caller passes to \<open>sys_mmap\<close> is not checked, so a caller can create such
  an area: two pages mapped at file offset \<open>2 ^ 64 - 4096\<close>, of which the first is then unmapped.\<close>

lemma unmap_offset_overflow_panics:
  assumes "lo < hi"
  shows "(unmap_range lo hi m att = None
      \<longleftrightarrow> (\<exists>v\<in>set (mm_vmas m). cut_overflows v lo \<or> cut_overflows v hi)) \<and>
    (\<exists>m2. mmap_commit lower_bound 0x8000000000 0x2000 perms 0 (File inode (- 0x1000))
        (\<lparr>mm_vmas = [], mm_last_end = 0x8000000000, mm_arena_lo = 0x8000000000,
          mm_arena_hi = 0x8100000000, mm_generation = 0, mm_mlockall_flags = 0\<rparr>) = Some m2
      \<and> unmap_range 0x8000000000 0x8000001000 m2 att = None)"
proof -
  have "unmap_range lo hi m att = None \<longleftrightarrow> unmap_vmas lo hi (mm_vmas m) att = None"
    by (auto simp: unmap_range_def split: option.splits)
  moreover have "unat (- 0x1000 :: u64) = 2 ^ 64 - 0x1000"
    by simp
  ultimately show ?thesis
    using unmap_vmas_None [OF assms]
    by (simp add: mmap_commit_def mm_insert_def release_reservation_def bump_generation_def
        insert_at_def lower_bound_def checked_add_def unmap_range_def unmap_one_def shift_backing_def)
qed

lemma unmap_offset_overflow_panics_witness:
  "unmap_range 0x8000001000 0x8000002000 demo_map (\<lambda>_. 1) \<noteq> None"
proof -
  have "(0x8000001000 :: u64) < 0x8000002000" by simp
  from conjunct1 [OF unmap_offset_overflow_panics [OF this, of demo_map "\<lambda>_. 1" 0 0]] show ?thesis
    by (simp add: demo_map_def cut_overflows_def)
qed

subsection \<open>The arena of a process\<close>

lemma for_pid_arena:
  assumes "for_pid p = Some (m :: 'i mmap_state)"
  shows "unat (mm_arena_lo m) = 0x8000000000 + (unat (pid_raw p) - 1) * 0x100000000"
    and "1 \<le> unat (pid_raw p)" "mm_vmas m = []" "mm_last_end m = mm_arena_lo m"
    "unat (mm_arena_hi m) = unat (mm_arena_lo m) + 0x100000000"
proof -
  let ?n = "ucast (pid_raw p) :: u64"
  have n: "unat ?n = unat (pid_raw p)" by (simp add: unat_ucast_up)
  from assms obtain k b h where
    k: "checked_sub ?n 1 = Some k" "checked_add MMAP_HINT_BASE (k * MMAP_PER_PID_STRIDE) = Some b"
      "checked_add b MMAP_PER_PID_STRIDE = Some h" and
    m: "m = \<lparr>mm_vmas = [], mm_last_end = b, mm_arena_lo = b, mm_arena_hi = h,
              mm_generation = 0, mm_mlockall_flags = 0\<rparr>"
    unfolding for_pid_def by (auto split: option.splits)
  have kn: "unat k = unat (pid_raw p) - 1" "1 \<le> ?n"
    using checked_sub_SomeD [OF k(1)] n by simp_all
  have "unat (pid_raw p) < 2 ^ LENGTH(32)" by (rule unsigned_less)
  then have "unat k < 2 ^ 32" using kn(1) by simp
  then have "unat (k * MMAP_PER_PID_STRIDE) = unat k * 0x100000000"
    by (subst unat_mult_in_range) simp_all
  then show "unat (mm_arena_lo m) = 0x8000000000 + (unat (pid_raw p) - 1) * 0x100000000"
    using checked_add_SomeD [OF k(2)] kn(1) by (simp add: m)
  show "1 \<le> unat (pid_raw p)" using kn(2) n by (simp add: word_le_nat_alt)
  show "unat (mm_arena_hi m) = unat (mm_arena_lo m) + 0x100000000"
    using checked_add_SomeD [OF k(3)] by (simp add: m)
  show "mm_vmas m = []" "mm_last_end m = mm_arena_lo m" by (simp_all add: m)
qed



end
