(* ===== verification/Frame_Alloc.thy ===== *)
theory Frame_Alloc
  imports Prelude
begin

unbundle bit_operations_syntax

text \<open>
  Physical frames (\<open>frame/src/mm/frame_alloc.rs\<close>): the memory map at boot, allocation, reference
  counts and release. Frames are named by their number. The buddy allocator is a third-party crate;
  its three operations are the argument \<open>bd\<close>, and the locale \<open>buddy\<close> states what its
  documentation promises in terms of the set of free frames. The compare-and-swap loops on a count
  are atomic updates. Before \<open>init_refcounts\<close> the table of counts is empty.
\<close>

abbreviation RESERVED_LOW_END :: u64 where "RESERVED_LOW_END \<equiv> 0x100000"
abbreviation LOW_LIMIT :: u64 where "LOW_LIMIT \<equiv> 1024 * 1024 * 1024"
abbreviation LOW_POOL_CAP :: nat where "LOW_POOL_CAP \<equiv> 520"

record 'b buddy_ops =
  bd_alloc :: "nat \<Rightarrow> 'b \<Rightarrow> (nat \<times> 'b) option"
  bd_dealloc :: "nat \<Rightarrow> nat \<Rightarrow> 'b \<Rightarrow> 'b"
  bd_add :: "nat \<Rightarrow> nat \<Rightarrow> 'b \<Rightarrow> 'b"

record 'b frame_alloc =
  fa_buddy :: 'b
  fa_total :: u64
  fa_in_use :: u64
  fa_refcounts :: "u16 list"
  fa_max_frame :: nat
  fa_low_pool :: "u64 list"

section \<open>The memory map\<close>

definition fa_align_up :: "u64 \<Rightarrow> u64 option" where
  "fa_align_up a = map_option (\<lambda>s. (s - 1) AND NOT 0xfff) (checked_add a 4096)"

definition fa_align_down :: "u64 \<Rightarrow> u64" where
  "fa_align_down a = a AND NOT 0xfff"

definition cut_reserved :: "u64 \<times> u64 \<Rightarrow> u64 \<times> u64 \<Rightarrow> (u64 \<times> u64) list" where
  "cut_reserved r x =
    (case (r, x) of ((rs, re), (s, e)) \<Rightarrow>
       if re \<le> s \<or> rs \<ge> e then [(s, e)]
       else (if s < rs then [(s, rs)] else []) @ (if re < e then [(re, e)] else []))"

fun subtract_all :: "(u64 \<times> u64) list \<Rightarrow> (u64 \<times> u64) list \<Rightarrow> (u64 \<times> u64) list" where
  "subtract_all [] surviving = surviving"
| "subtract_all ((rs, re) # rest) surviving =
    (if re \<le> rs then subtract_all rest surviving
     else subtract_all rest (concat (map (cut_reserved (rs, re)) surviving)))"

definition subtract_reserved :: "u64 \<times> u64 \<Rightarrow> (u64 \<times> u64) list \<Rightarrow> (u64 \<times> u64) list" where
  "subtract_reserved region reserved =
    (let r0 = max (fst region) RESERVED_LOW_END
      in subtract_all reserved (if snd region > r0 then [(r0, snd region)] else []))"

text \<open>One surviving range at boot: the first frames below one gigabyte fill the low pool, the rest
  goes to the buddy allocator.\<close>

function fill_low_pool :: "u64 \<Rightarrow> u64 \<Rightarrow> u64 list \<Rightarrow> u64 \<times> u64 list" where
  "fill_low_pool start e pool =
    (if length pool < LOW_POOL_CAP \<and> start < LOW_LIMIT \<and> start + 4096 \<le> e
     then fill_low_pool (start + 4096) e (pool @ [start])
     else (start, pool))"
  by pat_completeness auto
termination by (relation "measure (\<lambda>(_, _, pool). LOW_POOL_CAP - length pool)") auto

declare fill_low_pool.simps [simp del]

definition donate ::
  "'b buddy_ops \<Rightarrow> u64 \<times> u64 \<Rightarrow> 'b frame_alloc \<Rightarrow> 'b frame_alloc option" where
  "donate bd x fa =
    (case fa_align_up (fst x) of None \<Rightarrow> None | Some start \<Rightarrow>
       let e = fa_align_down (snd x) in
       if e \<le> start then Some fa
       else let (start1, pool) = fill_low_pool start e (fa_low_pool fa);
                fa1 = fa\<lparr>fa_low_pool := pool\<rparr> in
            if e \<le> start1 then Some fa1
            else let sf = unat (start1 div 4096); ef = unat (e div 4096) in
              Some (fa1\<lparr>fa_buddy := bd_add bd sf ef (fa_buddy fa1),
                        fa_total := fa_total fa1 + of_nat (ef - sf)\<rparr>))"

fun donate_all ::
  "'b buddy_ops \<Rightarrow> (u64 \<times> u64) list \<Rightarrow> 'b frame_alloc \<Rightarrow> 'b frame_alloc option" where
  "donate_all bd [] fa = Some fa"
| "donate_all bd (x # xs) fa = (case donate bd x fa of None \<Rightarrow> None | Some fa1 \<Rightarrow> donate_all bd xs fa1)"

text \<open>Regions are start, end and whether the firmware calls them usable.\<close>

fun init_regions ::
  "'b buddy_ops \<Rightarrow> (u64 \<times> u64) list \<Rightarrow> (u64 \<times> u64 \<times> bool) list \<Rightarrow> 'b frame_alloc
    \<Rightarrow> 'b frame_alloc option" where
  "init_regions bd reserved [] fa = Some fa"
| "init_regions bd reserved ((s, e, usable) # rs) fa =
    (if \<not> usable then init_regions bd reserved rs fa
     else let fa1 = fa\<lparr>fa_max_frame := max (fa_max_frame fa) (unat (fa_align_down e div 4096))\<rparr>
       in case donate_all bd (subtract_reserved (s, e) reserved) fa1 of
            None \<Rightarrow> None
          | Some fa2 \<Rightarrow> init_regions bd reserved rs fa2)"

section \<open>Allocation and counts\<close>

definition refcount_slot :: "'b frame_alloc \<Rightarrow> nat \<Rightarrow> u16 option" where
  "refcount_slot fa f = (if f < length (fa_refcounts fa) then Some (fa_refcounts fa ! f) else None)"

definition set_count :: "nat \<Rightarrow> u16 \<Rightarrow> 'b frame_alloc \<Rightarrow> 'b frame_alloc" where
  "set_count f n fa = fa\<lparr>fa_refcounts := (fa_refcounts fa)[f := n]\<rparr>"

text \<open>The address of a frame above \<open>2 ^ 40\<close> is refused by the address type; the memory map has
  none.\<close>

definition alloc_frame :: "'b buddy_ops \<Rightarrow> 'b frame_alloc \<Rightarrow> (nat \<times> 'b frame_alloc) option" where
  "alloc_frame bd fa =
    (case bd_alloc bd 1 (fa_buddy fa) of
       None \<Rightarrow> None
     | Some (f, b) \<Rightarrow>
         let fa1 = fa\<lparr>fa_buddy := b\<rparr>;
             fa2 = (case refcount_slot fa1 f of Some _ \<Rightarrow> set_count f 1 fa1 | None \<Rightarrow> fa1)
          in Some (f, fa2\<lparr>fa_in_use := fa_in_use fa2 + 1\<rparr>))"

definition alloc_low_frame :: "'b frame_alloc \<Rightarrow> u64 option \<times> 'b frame_alloc" where
  "alloc_low_frame fa =
    (if fa_low_pool fa = [] then (None, fa)
     else (Some (last (fa_low_pool fa)), fa\<lparr>fa_low_pool := butlast (fa_low_pool fa)\<rparr>))"

definition release_low_pool :: "'b buddy_ops \<Rightarrow> 'b frame_alloc \<Rightarrow> 'b frame_alloc" where
  "release_low_pool bd fa =
    fa\<lparr>fa_buddy := fold (\<lambda>a. let f = unat (a div 4096) in bd_add bd f (f + 1)) (fa_low_pool fa)
                    (fa_buddy fa),
       fa_low_pool := [], fa_total := fa_total fa + of_nat (length (fa_low_pool fa))\<rparr>"

definition frame_ref_inc :: "nat \<Rightarrow> 'b frame_alloc \<Rightarrow> 'b frame_alloc" where
  "frame_ref_inc f fa =
    (case refcount_slot fa f of
       None \<Rightarrow> fa
     | Some cur \<Rightarrow> if cur = - 1 then fa else set_count f (cur + 1) fa)"

definition frame_ref_count :: "'b frame_alloc \<Rightarrow> nat \<Rightarrow> u32" where
  "frame_ref_count fa f = (case refcount_slot fa f of None \<Rightarrow> 0 | Some c \<Rightarrow> ucast c)"

fun next_power_of_two :: "nat \<Rightarrow> nat" where
  "next_power_of_two n = (if n \<le> 1 then 1 else 2 * next_power_of_two ((n + 1) div 2))"

declare next_power_of_two.simps [simp del]

definition alloc_contiguous ::
  "'b buddy_ops \<Rightarrow> nat \<Rightarrow> 'b frame_alloc \<Rightarrow> (nat \<times> 'b frame_alloc) option" where
  "alloc_contiguous bd n fa =
    (if n = 0 then None
     else case bd_alloc bd n (fa_buddy fa) of
       None \<Rightarrow> None
     | Some (f, b) \<Rightarrow>
         let fa1 = fa\<lparr>fa_buddy := b\<rparr>;
             fa2 = (case refcount_slot fa1 f of Some _ \<Rightarrow> set_count f 1 fa1 | None \<Rightarrow> fa1)
          in Some (f, fa2\<lparr>fa_in_use := fa_in_use fa2 + of_nat (next_power_of_two n)\<rparr>))"

definition dealloc_frames :: "'b buddy_ops \<Rightarrow> nat \<Rightarrow> nat \<Rightarrow> nat \<Rightarrow> 'b frame_alloc \<Rightarrow> 'b frame_alloc" where
  "dealloc_frames bd f n used fa =
    fa\<lparr>fa_buddy := bd_dealloc bd f n (fa_buddy fa), fa_in_use := fa_in_use fa - of_nat used\<rparr>"

definition free_frame :: "'b buddy_ops \<Rightarrow> nat \<Rightarrow> 'b frame_alloc \<Rightarrow> 'b frame_alloc" where
  "free_frame bd f fa =
    (case refcount_slot fa f of
       None \<Rightarrow> dealloc_frames bd f 1 1 fa
     | Some cur \<Rightarrow>
         if cur = 0 \<or> cur = - 1 then fa
         else if cur = 1 then dealloc_frames bd f 1 1 (set_count f 0 fa)
         else set_count f (cur - 1) fa)"

definition free_contiguous :: "'b buddy_ops \<Rightarrow> nat \<Rightarrow> nat \<Rightarrow> 'b frame_alloc \<Rightarrow> 'b frame_alloc" where
  "free_contiguous bd f n fa =
    (case refcount_slot fa f of
       None \<Rightarrow> dealloc_frames bd f n (next_power_of_two n) fa
     | Some cur \<Rightarrow>
         if cur = - 1 \<or> cur = 0 then fa
         else dealloc_frames bd f n (next_power_of_two n) (set_count f 0 fa))"

definition reclaim_module ::
  "'b buddy_ops \<Rightarrow> u64 \<Rightarrow> u64 \<Rightarrow> 'b frame_alloc \<Rightarrow> (nat \<times> 'b frame_alloc) option" where
  "reclaim_module bd paddr sz fa =
    (case fa_align_up paddr of None \<Rightarrow> None | Some start \<Rightarrow>
       let e = fa_align_down (saturating_add paddr sz) in
       if e \<le> start then Some (0, fa)
       else let sf = unat (start div 4096); ef = unat (e div 4096) in
         Some (ef - sf, fa\<lparr>fa_buddy := bd_add bd sf ef (fa_buddy fa),
                           fa_total := fa_total fa + of_nat (ef - sf)\<rparr>))"

text \<open>The table is made of frames of its own, whose contents the counts are.\<close>

definition init_refcounts :: "'b buddy_ops \<Rightarrow> 'b frame_alloc \<Rightarrow> 'b frame_alloc option" where
  "init_refcounts bd fa =
    (if fa_max_frame fa = 0 then Some fa
     else case alloc_contiguous bd ((fa_max_frame fa * 2 + 4095) div 4096) fa of
       None \<Rightarrow> None
     | Some (_, fa1) \<Rightarrow> Some (fa1\<lparr>fa_refcounts := replicate (fa_max_frame fa) 0\<rparr>))"

section \<open>The reserved ranges\<close>

text \<open>An address is in a range, and the number of ranges of a list that contain it.\<close>

definition range_has :: "u64 \<Rightarrow> u64 \<times> u64 \<Rightarrow> bool" where
  "range_has a x \<longleftrightarrow> fst x \<le> a \<and> a < snd x"

definition cover_count :: "(u64 \<times> u64) list \<Rightarrow> u64 \<Rightarrow> nat" where
  "cover_count xs a = length (filter (range_has a) xs)"

lemma cover_count_simps [simp]:
  "cover_count [] a = 0"
  "cover_count (x # xs) a = (if range_has a x then 1 else 0) + cover_count xs a"
  "cover_count (xs @ ys) a = cover_count xs a + cover_count ys a"
  by (simp_all add: cover_count_def)

lemma cover_cut:
  assumes "rs < re"
  shows "cover_count (cut_reserved (rs, re) x) a = (if range_has a x \<and> \<not> range_has a (rs, re) then 1 else 0)"
proof (cases x)
  case (Pair s e)
  show ?thesis
  proof (cases "re \<le> s \<or> rs \<ge> e")
    case True
    then show ?thesis by (auto simp: Pair cut_reserved_def range_has_def)
  next
    case False
    then have "rs < e" "s < re" by (simp_all add: not_le)
    then show ?thesis
      using assms by (cases "s < rs"; cases "re < e") (auto simp: Pair cut_reserved_def range_has_def)
  qed
qed

lemma cover_concat:
  "rs < re \<Longrightarrow> cover_count (concat (map (cut_reserved (rs, re)) xs)) a
     = (if range_has a (rs, re) then 0 else cover_count xs a)"
  by (induction xs) (simp_all add: cover_cut)

lemma cover_subtract_all:
  "cover_count (subtract_all rs xs) a = (if \<exists>r\<in>set rs. range_has a r then 0 else cover_count xs a)"
proof (induction rs xs rule: subtract_all.induct)
  case (2 r e rest xs)
  show ?case
  proof (cases "e \<le> r")
    case True
    then have "\<not> range_has a (r, e)" by (auto simp: range_has_def)
    then show ?thesis using 2(1) [OF True] True by simp
  next
    case False
    then show ?thesis using 2(2) [OF False] cover_concat [of r e xs a] by simp
  qed
qed simp

text \<open>C24: The ranges donated at boot are a partition of the usable memory: cutting the reserved ranges
  out of a region of the memory map one after the other gives the set difference, computed so that
  an address of the region above the first megabyte that no reserved range contains lies in exactly
  one of the surviving ranges, and every other address in none.\<close>

theorem subtract_reserved_partitions:
  "cover_count (subtract_reserved region reserved) a =
    (if RESERVED_LOW_END \<le> a \<and> range_has a region \<and> \<not> (\<exists>r\<in>set reserved. range_has a r) then 1 else 0)"
proof -
  have "cover_count (if snd region > max (fst region) RESERVED_LOW_END
      then [(max (fst region) RESERVED_LOW_END, snd region)] else []) a
    = (if RESERVED_LOW_END \<le> a \<and> range_has a region then 1 else 0)"
    by (auto simp: range_has_def)
  then show ?thesis by (simp add: subtract_reserved_def cover_subtract_all Let_def)
qed

section \<open>The allocator's contract\<close>

text \<open>What the documentation of the buddy allocator promises for single frames: a frame it hands
  out was free and is not any more, a frame given back is free.\<close>

locale buddy =
  fixes bd :: "'b buddy_ops" and free :: "'b \<Rightarrow> nat set"
  assumes alloc_one: "bd_alloc bd 1 b = Some (f, b') \<Longrightarrow> f \<in> free b \<and> free b' = free b - {f}"
    and dealloc_one: "free (bd_dealloc bd f 1 b) = insert f (free b)"
begin

lemma alloc_frame_law:
  assumes "alloc_frame bd fa = Some (f, fa')"
  shows "f \<in> free (fa_buddy fa)" "free (fa_buddy fa') = free (fa_buddy fa) - {f}"
    "fa_refcounts fa' = (fa_refcounts fa)[f := 1]"
proof -
  from assms obtain b where b: "bd_alloc bd 1 (fa_buddy fa) = Some (f, b)"
    unfolding alloc_frame_def by (auto simp: Let_def split: option.splits)
  note law = alloc_one [OF b]
  have fa': "fa_buddy fa' = b" "fa_refcounts fa' = (fa_refcounts fa)[f := 1]"
    using assms unfolding alloc_frame_def b
    by (auto simp: Let_def refcount_slot_def set_count_def list_update_beyond split: if_splits)
  show "f \<in> free (fa_buddy fa)" using law by blast
  show "free (fa_buddy fa') = free (fa_buddy fa) - {f}" using law fa'(1) by simp
  show "fa_refcounts fa' = (fa_refcounts fa)[f := 1]" by (rule fa'(2))
qed

lemma free_frame_cases:
  assumes "f < length (fa_refcounts fa)" "fa_refcounts fa ! f \<noteq> 0"
  obtains (pinned) "fa_refcounts fa ! f = - 1" "free_frame bd f fa = fa"
  | (last) "fa_refcounts fa ! f = 1" "fa_refcounts (free_frame bd f fa) = (fa_refcounts fa)[f := 0]"
      "free (fa_buddy (free_frame bd f fa)) = insert f (free (fa_buddy fa))"
  | (shared) "fa_refcounts fa ! f \<noteq> - 1" "fa_refcounts fa ! f \<noteq> 1"
      "fa_refcounts (free_frame bd f fa) = (fa_refcounts fa)[f := fa_refcounts fa ! f - 1]"
      "free (fa_buddy (free_frame bd f fa)) = free (fa_buddy fa)"
proof (cases "fa_refcounts fa ! f = - 1")
  case True
  then show thesis using assms by (intro pinned) (simp_all add: free_frame_def refcount_slot_def)
next
  case n: False
  show thesis
  proof (cases "fa_refcounts fa ! f = 1")
    case True
    have "(1 :: u16) \<noteq> - 1" by simp
    then have "free_frame bd f fa = dealloc_frames bd f 1 1 (set_count f 0 fa)"
      using True assms by (simp add: free_frame_def refcount_slot_def)
    then show thesis using True
      by (intro last) (simp_all add: dealloc_frames_def set_count_def dealloc_one [unfolded One_nat_def])
  next
    case False
    then have "free_frame bd f fa = set_count f (fa_refcounts fa ! f - 1) fa"
      using n assms by (simp add: free_frame_def refcount_slot_def)
    then show thesis using n False by (intro shared) (simp_all add: set_count_def)
  qed
qed

end

text \<open>A list of free frames as an allocator.\<close>

definition flist_ops :: "nat list buddy_ops" where
  "flist_ops = \<lparr>
     bd_alloc = (\<lambda>n b. case find (\<lambda>i. \<forall>j\<in>set [0..<n]. i + j \<in> set b) b of
        None \<Rightarrow> None
      | Some f \<Rightarrow> Some (f, filter (\<lambda>x. \<not> (f \<le> x \<and> x < f + n)) b)),
     bd_dealloc = (\<lambda>f n b. [f..<f + n] @ b),
     bd_add = (\<lambda>s e b. [s..<e] @ b)\<rparr>"

interpretation fl: buddy flist_ops set
proof
  show "f \<in> set b \<and> set b' = set b - {f}" if "bd_alloc flist_ops 1 b = Some (f, b')" for f b b'
    using that by (auto simp: flist_ops_def split: option.splits dest!: find_SomeD)
  show "set (bd_dealloc flist_ops f 1 b) = insert f (set b)" for f b
    by (simp add: flist_ops_def)
qed

end
