(* ===== verification/Vm_Space.thy ===== *)
theory Vm_Space
  imports Memory_Map Frame_Alloc Ordered_Map
begin

unbundle bit_operations_syntax

text \<open>
  Address spaces and copy-on-write (\<open>frame/src/mm/vm.rs\<close>, \<open>try_break_cow\<close> in
  \<open>kernel/src/mm/mmap_fault.rs\<close>). An address space is the ordered map from page addresses to the
  present leaf entries of its user half, which is what the four-level walks of the source read and
  write. Installing and removing a leaf is done by a third-party crate: the argument \<open>mp\<close>, with the
  locale \<open>page_mapper\<close> for what its documentation promises. The memory contents of frames are part of
  the state, except for page-table frames. TLB flushes have no effect here: translations are always
  read from the tables.
\<close>

section \<open>Entries\<close>

definition PTE_PRESENT :: u64 where "PTE_PRESENT = 1"
definition PTE_WRITABLE :: u64 where "PTE_WRITABLE = 2"
definition PTE_USER :: u64 where "PTE_USER = 4"
definition COW_PTE :: u64 where "COW_PTE = 0x200"
definition PTE_NX :: u64 where "PTE_NX = 0x8000000000000000"
definition PTE_FRAME_MASK :: u64 where "PTE_FRAME_MASK = 0x000ffffffffff000"

abbreviation Perms_READ :: u32 where "Perms_READ \<equiv> 1"
abbreviation Perms_WRITE :: u32 where "Perms_WRITE \<equiv> 2"
abbreviation Perms_EXECUTE :: u32 where "Perms_EXECUTE \<equiv> 4"

definition to_pte_flags :: "u32 \<Rightarrow> u64" where
  "to_pte_flags p =
    PTE_PRESENT
    OR (if flags_contains p Perms_WRITE then PTE_WRITABLE else 0)
    OR (if \<not> flags_contains p Perms_EXECUTE then PTE_NX else 0)
    OR (if flags_contains p Perms_USER
           \<and> p AND (Perms_READ OR Perms_WRITE OR Perms_EXECUTE) \<noteq> 0 then PTE_USER else 0)"

definition frame_of :: "u64 \<Rightarrow> nat" where
  "frame_of e = unat ((e AND PTE_FRAME_MASK) div 4096)"

definition pte :: "nat \<Rightarrow> u64 \<Rightarrow> u64" where
  "pte f fl = of_nat (f * 4096) OR fl"

definition writable :: "u64 \<Rightarrow> bool" where
  "writable e \<longleftrightarrow> e AND PTE_WRITABLE \<noteq> 0"

definition is_cow :: "u64 \<Rightarrow> bool" where
  "is_cow e \<longleftrightarrow> e AND COW_PTE \<noteq> 0"

datatype map_error = OutOfFrames | Misaligned | AlreadyMapped | ParentTableHugePage | OutOfUserRange

datatype cow_break = Broken nat | BrokenInPlace | AlreadyWritable | NotCow | NotPresent

definition user_mapping_in_range :: "u64 \<Rightarrow> u64 \<Rightarrow> u32 \<Rightarrow> bool" where
  "user_mapping_in_range start pages perms \<longleftrightarrow> \<not> flags_contains perms Perms_USER
    \<or> (case checked_add start (saturating_mul pages 4096) of Some e \<Rightarrow> e \<le> USER_VA_END | None \<Rightarrow> False)"

section \<open>State\<close>

type_synonym leaves = "(u64, u64) omap"

record 'b mapper =
  mp_map_to :: "u64 \<Rightarrow> u64 \<Rightarrow> leaves \<Rightarrow> 'b frame_alloc \<Rightarrow> map_error option \<times> leaves \<times> 'b frame_alloc"
  mp_unmap :: "u64 \<Rightarrow> leaves \<Rightarrow> (nat \<times> leaves) option"

record 'b vm_state =
  vs_fa :: "'b frame_alloc"
  vs_spaces :: "leaves list"
  vs_mem :: "nat \<Rightarrow> bytes"

definition leaf_at :: "'b vm_state \<Rightarrow> nat \<Rightarrow> u64 \<Rightarrow> u64 option" where
  "leaf_at vm s va = (if s < length (vs_spaces vm) then map_of (vs_spaces vm ! s) va else None)"

definition set_leaf :: "nat \<Rightarrow> u64 \<Rightarrow> u64 \<Rightarrow> 'b vm_state \<Rightarrow> 'b vm_state" where
  "set_leaf s va e vm = vm\<lparr>vs_spaces := (vs_spaces vm)[s := om_insert va e (vs_spaces vm ! s)]\<rparr>"

definition upd_fa :: "('b frame_alloc \<Rightarrow> 'b frame_alloc) \<Rightarrow> 'b vm_state \<Rightarrow> 'b vm_state" where
  "upd_fa f vm = vm\<lparr>vs_fa := f (vs_fa vm)\<rparr>"

definition vm_map_to :: "'b mapper \<Rightarrow> nat \<Rightarrow> u64 \<Rightarrow> u64 \<Rightarrow> 'b vm_state \<Rightarrow> map_error option \<times> 'b vm_state" where
  "vm_map_to mp s va e vm =
    (let (r, pt, fa) = mp_map_to mp va e (vs_spaces vm ! s) (vs_fa vm)
      in (r, vm\<lparr>vs_fa := fa, vs_spaces := (vs_spaces vm)[s := pt]\<rparr>))"

definition vm_unmap :: "'b mapper \<Rightarrow> nat \<Rightarrow> u64 \<Rightarrow> 'b vm_state \<Rightarrow> nat option \<times> 'b vm_state" where
  "vm_unmap mp s va vm =
    (case mp_unmap mp va (vs_spaces vm ! s) of
       None \<Rightarrow> (None, vm)
     | Some (f, pt) \<Rightarrow> (Some f, vm\<lparr>vs_spaces := (vs_spaces vm)[s := pt]\<rparr>))"

section \<open>Mapping and unmapping\<close>

definition map_one_frame ::
  "'b mapper \<Rightarrow> nat \<Rightarrow> u64 \<Rightarrow> nat \<Rightarrow> u32 \<Rightarrow> 'b vm_state \<Rightarrow> map_error option \<times> 'b vm_state" where
  "map_one_frame mp s va f perms = vm_map_to mp s va (pte f (to_pte_flags perms))"

definition map_one_frame_fork_anon ::
  "'b mapper \<Rightarrow> nat \<Rightarrow> u64 \<Rightarrow> nat \<Rightarrow> u32 \<Rightarrow> bool \<Rightarrow> 'b vm_state \<Rightarrow> map_error option \<times> 'b vm_state" where
  "map_one_frame_fork_anon mp s va f perms cow =
    vm_map_to mp s va (pte f (if cow then (to_pte_flags perms AND NOT PTE_WRITABLE) OR COW_PTE
                              else to_pte_flags perms))"

definition zero_frame :: "nat \<Rightarrow> 'b vm_state \<Rightarrow> 'b vm_state" where
  "zero_frame f vm = vm\<lparr>vs_mem := (vs_mem vm)(f := replicate 4096 0)\<rparr>"

text \<open>The loop of \<open>map_anon\<close>: the frames mapped so far, the error and the frame that was allocated
  but not mapped.\<close>

fun map_anon_loop ::
  "'b buddy_ops \<Rightarrow> 'b mapper \<Rightarrow> nat \<Rightarrow> u64 list \<Rightarrow> u64 \<Rightarrow> nat list \<Rightarrow> 'b vm_state
    \<Rightarrow> nat list \<times> map_error option \<times> nat option \<times> 'b vm_state" where
  "map_anon_loop bd mp s [] fl owned vm = (owned, None, None, vm)"
| "map_anon_loop bd mp s (va # vas) fl owned vm =
    (case alloc_frame bd (vs_fa vm) of
       None \<Rightarrow> (owned, Some OutOfFrames, None, vm)
     | Some (f, fa) \<Rightarrow>
         (case vm_map_to mp s va (pte f fl) (zero_frame f (vm\<lparr>vs_fa := fa\<rparr>)) of
            (None, vm1) \<Rightarrow> map_anon_loop bd mp s vas fl (owned @ [f]) vm1
          | (Some e, vm1) \<Rightarrow> (owned, Some e, Some f, vm1)))"

definition free_all :: "'b buddy_ops \<Rightarrow> nat list \<Rightarrow> 'b vm_state \<Rightarrow> 'b vm_state" where
  "free_all bd fs vm = upd_fa (fold (free_frame bd) fs) vm"

definition map_anon ::
  "'b buddy_ops \<Rightarrow> 'b mapper \<Rightarrow> nat \<Rightarrow> u64 \<Rightarrow> nat \<Rightarrow> u32 \<Rightarrow> 'b vm_state \<Rightarrow> (map_error + nat list) \<times> 'b vm_state" where
  "map_anon bd mp s va pages perms vm =
    (if \<not> user_mapping_in_range va (of_nat pages) perms then (Inl OutOfUserRange, vm)
     else if va AND 0xfff \<noteq> 0 then (Inl Misaligned, vm)
     else
       let vas = map (\<lambda>i. va + of_nat i * 4096) [0..<pages];
           (owned, failed, orphan, vm1) = map_anon_loop bd mp s vas (to_pte_flags perms) [] vm
        in case failed of
             None \<Rightarrow> (Inr owned, vm1)
           | Some e \<Rightarrow>
               let vm2 = fold (\<lambda>a. snd \<circ> vm_unmap mp s a) (take (length owned) vas) vm1
                in (Inl e, free_all bd (owned @ (case orphan of None \<Rightarrow> [] | Some f \<Rightarrow> [f])) vm2))"

fun unmap_pages_collect ::
  "'b mapper \<Rightarrow> nat \<Rightarrow> u64 list \<Rightarrow> 'b vm_state \<Rightarrow> nat list \<times> 'b vm_state" where
  "unmap_pages_collect mp s [] vm = ([], vm)"
| "unmap_pages_collect mp s (va # vas) vm =
    (let (r, vm1) = vm_unmap mp s va vm;
         (fs, vm2) = unmap_pages_collect mp s vas vm1
      in ((case r of Some f \<Rightarrow> f # fs | None \<Rightarrow> fs), vm2))"

definition unmap_pages ::
  "'b buddy_ops \<Rightarrow> 'b mapper \<Rightarrow> nat \<Rightarrow> u64 \<Rightarrow> nat \<Rightarrow> 'b vm_state \<Rightarrow> 'b vm_state" where
  "unmap_pages bd mp s va pages vm =
    (if va AND 0xfff \<noteq> 0 then vm
     else let (fs, vm1) = unmap_pages_collect mp s (map (\<lambda>i. va + of_nat i * 4096) [0..<pages]) vm
       in free_all bd fs vm1)"

text \<open>Dropping a space gives back the frame of every leaf: the innermost loop of \<open>clear_user\<close>. The
  frames of the page tables themselves, which the outer loops free, belong to the parameter that
  stands for the page-table crate.\<close>

definition clear_user :: "'b buddy_ops \<Rightarrow> nat \<Rightarrow> 'b vm_state \<Rightarrow> 'b vm_state" where
  "clear_user bd s vm =
    free_all bd (map (frame_of \<circ> snd) (vs_spaces vm ! s)) (vm\<lparr>vs_spaces := (vs_spaces vm)[s := []]\<rparr>)"

section \<open>Copy-on-write\<close>

definition downgrade_leaf_to_cow_and_inc ::
  "nat \<Rightarrow> u64 \<Rightarrow> nat \<Rightarrow> 'b vm_state \<Rightarrow> bool \<times> 'b vm_state" where
  "downgrade_leaf_to_cow_and_inc s va f vm =
    (case leaf_at vm s va of
       None \<Rightarrow> (False, vm)
     | Some e \<Rightarrow> (True, set_leaf s va ((e AND NOT PTE_WRITABLE) OR COW_PTE)
                         (upd_fa (frame_ref_inc f) vm)))"

definition upgrade_leaf_from_cow :: "nat \<Rightarrow> u64 \<Rightarrow> 'b vm_state \<Rightarrow> 'b vm_state" where
  "upgrade_leaf_from_cow s va vm =
    (case leaf_at vm s va of
       None \<Rightarrow> vm
     | Some e \<Rightarrow> set_leaf s va ((e OR PTE_WRITABLE) AND NOT COW_PTE) vm)"

text \<open>\<open>perm_bits\<close> of \<open>break_cow\<close>, with the writable bit that both branches add.\<close>

definition broken_flags :: "u64 \<Rightarrow> u32 option \<Rightarrow> u64" where
  "broken_flags e new_perms =
    ((case new_perms of Some p \<Rightarrow> to_pte_flags p | None \<Rightarrow> e)
       AND NOT PTE_FRAME_MASK AND NOT COW_PTE) OR PTE_WRITABLE"

definition break_cow ::
  "'b buddy_ops \<Rightarrow> nat \<Rightarrow> u64 \<Rightarrow> u32 option \<Rightarrow> 'b vm_state \<Rightarrow> (map_error + cow_break) \<times> 'b vm_state" where
  "break_cow bd s vaddr new_perms vm =
    (let va = vaddr AND NOT 0xfff in
     case leaf_at vm s va of
       None \<Rightarrow> (Inr NotPresent, vm)
     | Some e \<Rightarrow>
         if writable e then (Inr AlreadyWritable, vm)
         else if \<not> is_cow e then (Inr NotCow, vm)
         else let old = frame_of e; n = frame_ref_count (vs_fa vm) old in
           if n = 0 then (Inr NotCow, vm)
           else if n = 1 then
             (Inr BrokenInPlace, set_leaf s va ((e AND PTE_FRAME_MASK) OR broken_flags e new_perms) vm)
           else (case alloc_frame bd (vs_fa vm) of
                   None \<Rightarrow> (Inl OutOfFrames, vm)
                 | Some (f, fa) \<Rightarrow>
                     (Inr (Broken old),
                      set_leaf s va (pte f (broken_flags e new_perms))
                        (vm\<lparr>vs_fa := fa, vs_mem := (vs_mem vm)(f := vs_mem vm old)\<rparr>))))"

text \<open>The page-fault handler's use of it: what \<open>try_break_cow\<close> does with the outcome, after its checks
  on the area and the memory charge, which are left out like the charges and counters it adjusts.\<close>

definition try_break_cow ::
  "'b buddy_ops \<Rightarrow> nat \<Rightarrow> u64 \<Rightarrow> 'b vm_state \<Rightarrow> (map_error + cow_break) \<times> 'b vm_state" where
  "try_break_cow bd s va vm =
    (case break_cow bd s va None vm of
       (Inr (Broken old), vm1) \<Rightarrow> (Inr (Broken old), upd_fa (free_frame bd old) vm1)
     | r \<Rightarrow> r)"

definition restamp_perms :: "nat \<Rightarrow> u64 \<Rightarrow> u32 \<Rightarrow> 'b vm_state \<Rightarrow> 'b vm_state" where
  "restamp_perms s va perms vm =
    (case leaf_at vm s va of
       None \<Rightarrow> vm
     | Some e \<Rightarrow> set_leaf s va ((e AND PTE_FRAME_MASK) OR broken_flags e (Some perms)) vm)"

subsection \<open>Changing permissions\<close>

text \<open>One page of the first pass: the state, and whether the page still has to be copied. \<open>None\<close>
  stands for a page that is not present.\<close>

definition protect_page :: "nat \<Rightarrow> u32 \<Rightarrow> u64 \<Rightarrow> 'b vm_state \<Rightarrow> bool option \<times> 'b vm_state" where
  "protect_page s perms va vm =
    (case leaf_at vm s va of
       None \<Rightarrow> (None, vm)
     | Some e \<Rightarrow>
         let fl = to_pte_flags perms in
         if is_cow e \<and> flags_contains perms Perms_WRITE then
           if frame_ref_count (vs_fa vm) (frame_of e) > 1
           then (Some True, set_leaf s va ((e AND PTE_FRAME_MASK)
                   OR ((e AND NOT PTE_FRAME_MASK AND NOT PTE_WRITABLE) OR COW_PTE)) vm)
           else (Some False, set_leaf s va ((e AND PTE_FRAME_MASK) OR (fl AND NOT COW_PTE)) vm)
         else (Some False, set_leaf s va ((e AND PTE_FRAME_MASK)
                 OR (if is_cow e then (fl AND NOT PTE_WRITABLE) OR COW_PTE else fl)) vm))"

fun protect_pages ::
  "nat \<Rightarrow> u32 \<Rightarrow> u64 list \<Rightarrow> 'b vm_state \<Rightarrow> nat \<times> u64 list \<times> 'b vm_state" where
  "protect_pages s perms [] vm = (0, [], vm)"
| "protect_pages s perms (va # vas) vm =
    (let (r, vm1) = protect_page s perms va vm;
         (not_present, pending, vm2) = protect_pages s perms vas vm1
      in (if r = None then not_present + 1 else not_present,
          if r = Some True then va # pending else pending, vm2))"

fun break_pages ::
  "'b buddy_ops \<Rightarrow> nat \<Rightarrow> u32 \<Rightarrow> u64 list \<Rightarrow> 'b vm_state \<Rightarrow> nat list \<times> 'b vm_state" where
  "break_pages bd s perms [] vm = ([], vm)"
| "break_pages bd s perms (va # vas) vm =
    (let (r, vm1) = break_cow bd s va (Some perms) vm;
         vm2 = (if r = Inr AlreadyWritable then restamp_perms s va perms vm1 else vm1);
         (freed, vm3) = break_pages bd s perms vas vm2
      in ((case r of Inr (Broken old) \<Rightarrow> old # freed | _ \<Rightarrow> freed), vm3))"

text \<open>The result is the number of pages not present and the number copied. The frames are given back
  when something was broken, and a list of frames is only non-empty then.\<close>

definition change_perms ::
  "'b buddy_ops \<Rightarrow> nat \<Rightarrow> u64 \<Rightarrow> nat \<Rightarrow> u32 \<Rightarrow> 'b vm_state \<Rightarrow> (map_error + (nat \<times> nat)) \<times> 'b vm_state" where
  "change_perms bd s va pages perms vm =
    (if va AND 0xfff \<noteq> 0 then (Inl Misaligned, vm)
     else let (not_present, pending, vm1) =
                protect_pages s perms (map (\<lambda>i. va + of_nat i * 4096) [0..<pages]) vm;
              (freed, vm2) = break_pages bd s perms pending vm1
           in (Inr (not_present, length freed), free_all bd freed vm2))"

subsection \<open>Forking\<close>

datatype deferred_map = SharedFile | ReadonlyShare | EagerCopy

type_synonym deferred = "(u64 \<times> nat \<times> u32 \<times> deferred_map) list"
type_synonym cow_list = "(u64 \<times> nat \<times> u32) list"

definition leaf_perms :: "u64 \<Rightarrow> u32" where
  "leaf_perms e = Perms_READ
    OR (if writable e \<or> is_cow e then Perms_WRITE else 0)
    OR (if e AND PTE_USER \<noteq> 0 then Perms_USER else 0)
    OR (if e AND PTE_NX = 0 then Perms_EXECUTE else 0)"

text \<open>The walk over the parent's leaves in address order.\<close>

fun fork_walk ::
  "'b buddy_ops \<Rightarrow> nat \<Rightarrow> (u64 \<times> u64) list \<Rightarrow> leaves \<Rightarrow> cow_list \<Rightarrow> deferred \<Rightarrow> 'b vm_state
    \<Rightarrow> map_error option \<times> cow_list \<times> deferred \<times> 'b vm_state" where
  "fork_walk bd s shared [] cows defs vm = (None, cows, defs, vm)"
| "fork_walk bd s shared ((va, e) # rest) cows defs vm =
    (let perms = leaf_perms e; f = frame_of e in
     if list_ex (\<lambda>(lo, hi). va \<ge> lo \<and> va < hi) shared then
       fork_walk bd s shared rest cows (defs @ [(va, f, perms, SharedFile)]) vm
     else
       let is_writable = flags_contains perms Perms_WRITE;
           tracked = frame_ref_count (vs_fa vm) f \<noteq> 0 in
       if is_writable \<and> tracked then
         let (down, vm1) = downgrade_leaf_to_cow_and_inc s va f vm in
         fork_walk bd s shared rest (if down then cows @ [(va, f, perms)] else cows) defs vm1
       else if \<not> is_writable \<and> tracked then
         fork_walk bd s shared rest cows (defs @ [(va, f, perms, ReadonlyShare)])
           (upd_fa (frame_ref_inc f) vm)
       else case alloc_frame bd (vs_fa vm) of
           None \<Rightarrow> (Some OutOfFrames, cows, defs, vm)
         | Some (n, fa) \<Rightarrow>
             fork_walk bd s shared rest cows (defs @ [(va, n, perms, EagerCopy)])
               (vm\<lparr>vs_fa := fa, vs_mem := (vs_mem vm)(n := vs_mem vm f)\<rparr>))"

text \<open>Undoing a fork that failed: \<open>installed\<close> are the child's leaves with their own reference,
  \<open>done\<close> counts the copy-on-write leaves the child already has.\<close>

definition unwind_cow_share ::
  "'b buddy_ops \<Rightarrow> 'b mapper \<Rightarrow> nat \<Rightarrow> nat \<Rightarrow> u64 list \<Rightarrow> (u64 \<times> nat) list \<Rightarrow> cow_list \<Rightarrow> nat
    \<Rightarrow> 'b vm_state \<Rightarrow> 'b vm_state" where
  "unwind_cow_share bd mp s child shared installed cows n_done vm =
    (let vm1 = fold (\<lambda>va. snd \<circ> vm_unmap mp child va) shared vm;
         vm2 = fold (\<lambda>(va, f) v. upd_fa (free_frame bd f) (snd (vm_unmap mp child va v))) installed vm1
      in fold (\<lambda>(i, (va, f, _)) v.
                let v1 = (if i < n_done then snd (vm_unmap mp child va v) else v)
                 in upgrade_leaf_from_cow s va (upd_fa (free_frame bd f) v1))
              (enumerate 0 cows) vm2)"

definition own_frames :: "deferred \<Rightarrow> nat list" where
  "own_frames ds = map (\<lambda>(_, f, _, _). f) (filter (\<lambda>(_, _, _, k). k = ReadonlyShare \<or> k = EagerCopy) ds)"

fun install_deferred ::
  "'b mapper \<Rightarrow> nat \<Rightarrow> deferred \<Rightarrow> u64 list \<Rightarrow> (u64 \<times> nat) list \<Rightarrow> 'b vm_state
    \<Rightarrow> (map_error \<times> deferred) option \<times> u64 list \<times> (u64 \<times> nat) list \<times> 'b vm_state" where
  "install_deferred mp child [] shared installed vm = (None, shared, installed, vm)"
| "install_deferred mp child ((va, f, perms, kind) # ds) shared installed vm =
    (case (if kind = ReadonlyShare then map_one_frame_fork_anon mp child va f perms False vm
           else map_one_frame mp child va f perms vm) of
       (Some e, vm1) \<Rightarrow> (Some (e, (va, f, perms, kind) # ds), shared, installed, vm1)
     | (None, vm1) \<Rightarrow>
         if kind = SharedFile then install_deferred mp child ds (shared @ [va]) installed vm1
         else install_deferred mp child ds shared (installed @ [(va, f)]) vm1)"

text \<open>The new space of \<open>new_user\<close> needs a frame for its root.\<close>

definition new_user :: "'b buddy_ops \<Rightarrow> 'b vm_state \<Rightarrow> (nat \<times> 'b vm_state) option" where
  "new_user bd vm =
    (case alloc_frame bd (vs_fa vm) of
       None \<Rightarrow> None
     | Some (_, fa) \<Rightarrow>
         Some (length (vs_spaces vm), vm\<lparr>vs_fa := fa, vs_spaces := vs_spaces vm @ [[]]\<rparr>))"

fun finish_cow_clone ::
  "'b mapper \<Rightarrow> nat \<Rightarrow> cow_list \<Rightarrow> nat \<Rightarrow> 'b vm_state \<Rightarrow> (map_error \<times> nat) option \<times> 'b vm_state" where
  "finish_cow_clone mp child [] n vm = (None, vm)"
| "finish_cow_clone mp child ((va, f, perms) # cows) n vm =
    (case map_one_frame_fork_anon mp child va f perms True vm of
       (None, vm1) \<Rightarrow> finish_cow_clone mp child cows (n + 1) vm1
     | (Some e, vm1) \<Rightarrow> (Some (e, n), vm1))"

text \<open>Both phases, as \<open>fork\<close> calls them; a child that could not be completed is dropped.\<close>

definition clone_user_half ::
  "'b buddy_ops \<Rightarrow> 'b mapper \<Rightarrow> nat \<Rightarrow> (u64 \<times> u64) list \<Rightarrow> 'b vm_state
    \<Rightarrow> (map_error + (nat \<times> u64 list)) \<times> 'b vm_state" where
  "clone_user_half bd mp s shared vm =
    (case new_user bd vm of
       None \<Rightarrow> (Inl OutOfFrames, vm)
     | Some (child, vm0) \<Rightarrow>
         (case fork_walk bd s shared (vs_spaces vm0 ! s) [] [] vm0 of
            (Some err, cows, defs, vm1) \<Rightarrow>
              (Inl err, clear_user bd child (free_all bd (own_frames defs)
                          (unwind_cow_share bd mp s child [] [] cows 0 vm1)))
          | (None, cows, defs, vm1) \<Rightarrow>
              (case install_deferred mp child defs [] [] vm1 of
                 (Some (err, left), sh, installed, vm2) \<Rightarrow>
                   (Inl err, clear_user bd child (free_all bd (own_frames left)
                               (unwind_cow_share bd mp s child sh installed cows 0 vm2)))
               | (None, sh, installed, vm2) \<Rightarrow>
                   (case finish_cow_clone mp child cows 0 vm2 of
                      (None, vm3) \<Rightarrow> (Inr (child, sh), vm3)
                    | (Some (err, n), vm3) \<Rightarrow>
                        (Inl err, clear_user bd child
                                    (unwind_cow_share bd mp s child sh installed cows n vm3))))))"

section \<open>Entries as bits\<close>

named_theorems pte_consts "values of the entry bits"
declare PTE_PRESENT_def [pte_consts] PTE_WRITABLE_def [pte_consts] PTE_USER_def [pte_consts]
  COW_PTE_def [pte_consts] PTE_NX_def [pte_consts] PTE_FRAME_MASK_def [pte_consts]

text \<open>Bits outside the frame field.\<close>

definition no_frame :: "u64 \<Rightarrow> bool" where
  "no_frame fl \<longleftrightarrow> fl AND PTE_FRAME_MASK = 0"

lemma frame_of_or: "no_frame fl \<Longrightarrow> frame_of (e OR fl) = frame_of e"
  by (simp add: frame_of_def no_frame_def bit.conj_disj_distrib2)

lemma frame_of_masked: "frame_of (e AND PTE_FRAME_MASK) = frame_of e"
  by (simp add: frame_of_def and.assoc)

lemma frame_of_and: "PTE_FRAME_MASK AND m = PTE_FRAME_MASK \<Longrightarrow> frame_of (e AND m) = frame_of e"
proof -
  assume m: "PTE_FRAME_MASK AND m = PTE_FRAME_MASK"
  have "(e AND m) AND PTE_FRAME_MASK = e AND (PTE_FRAME_MASK AND m)"
    by (simp add: ac_simps)
  then show ?thesis using m by (simp add: frame_of_def)
qed

lemma mask_keeps:
  "PTE_FRAME_MASK AND NOT PTE_WRITABLE = PTE_FRAME_MASK" "PTE_FRAME_MASK AND NOT COW_PTE = PTE_FRAME_MASK"
  by (simp_all add: pte_consts)

lemma no_frame_and: "no_frame a \<Longrightarrow> no_frame (a AND b)"
proof -
  assume "no_frame a"
  then have "b AND (a AND PTE_FRAME_MASK) = 0" by (simp add: no_frame_def)
  then show ?thesis by (simp add: no_frame_def ac_simps)
qed

lemma no_frame_not: "no_frame (e AND NOT PTE_FRAME_MASK)"
proof -
  have "e AND (NOT PTE_FRAME_MASK AND PTE_FRAME_MASK) = 0" by simp
  then show ?thesis by (simp only: no_frame_def and.assoc)
qed

lemma no_frame_simps [simp]:
  "no_frame 0" "no_frame PTE_PRESENT" "no_frame PTE_WRITABLE" "no_frame PTE_USER" "no_frame COW_PTE"
  "no_frame PTE_NX" "no_frame (a OR b) \<longleftrightarrow> no_frame a \<and> no_frame b"
  by (simp_all add: no_frame_def pte_consts bit.conj_disj_distrib2 or_eq_0_iff)

lemma frame_mask_push: "PTE_FRAME_MASK = push_bit 12 (mask 40)"
  by (simp add: PTE_FRAME_MASK_def mask_eq_exp_minus_1 push_bit_eq_mult)

lemma frame_of_pte:
  assumes "f < 2 ^ 40" "no_frame fl"
  shows "frame_of (pte f fl) = f"
proof -
  have w: "(of_nat (f * 4096) :: u64) = push_bit 12 (of_nat f)"
    by (simp add: push_bit_eq_mult)
  have "unat (of_nat f :: u64) = f"
    using assms(1) by (intro unat_of_nat_small) simp
  then have "take_bit 40 (of_nat f :: u64) = of_nat f"
    using assms(1) by (simp add: take_bit_eq_mod word_arith_nat_mod)
  then have "push_bit 12 (of_nat f :: u64) AND PTE_FRAME_MASK = push_bit 12 (of_nat f)"
    unfolding frame_mask_push by (simp add: take_bit_eq_mask flip: push_bit_and)
  then have "frame_of (of_nat (f * 4096)) = unat ((of_nat (f * 4096) :: u64) div 4096)"
    unfolding frame_of_def w by simp
  also have "\<dots> = f"
  proof -
    have "unat (of_nat (f * 4096) :: u64) = f * 4096"
      using assms(1) by (intro unat_of_nat_small) simp
    then show ?thesis by (simp only: unat_div) simp
  qed
  finally show ?thesis
    using assms(2) by (simp add: pte_def frame_of_or)
qed

lemma no_frame_to_pte_flags [simp]: "no_frame (to_pte_flags p)"
  by (simp add: to_pte_flags_def)

lemma no_frame_broken [simp]: "no_frame (broken_flags e np)"
  by (simp add: broken_flags_def and.assoc [symmetric] no_frame_and no_frame_not)

lemma frame_of_restamp: "no_frame fl \<Longrightarrow> frame_of ((e AND PTE_FRAME_MASK) OR fl) = frame_of e"
  by (simp add: frame_of_or frame_of_masked)

lemma frame_of_cow: "frame_of ((e AND NOT PTE_WRITABLE) OR COW_PTE) = frame_of e"
  by (simp add: frame_of_or frame_of_and mask_keeps)

lemma frame_of_upgrade: "frame_of ((e OR PTE_WRITABLE) AND NOT COW_PTE) = frame_of e"
  by (simp add: frame_of_or frame_of_and mask_keeps)

lemma writable_or: "writable (a OR b) \<longleftrightarrow> writable a \<or> writable b"
  by (simp add: writable_def bit.conj_disj_distrib2 or_eq_0_iff)

lemma writable_consts [simp]:
  "\<not> writable 0" "\<not> writable COW_PTE" "\<not> writable PTE_PRESENT" "\<not> writable PTE_USER" "\<not> writable PTE_NX"
  "writable PTE_WRITABLE"
  by (simp_all add: writable_def pte_consts)

lemma not_writable_masked: "\<not> writable (e AND PTE_FRAME_MASK)" "\<not> writable (e AND NOT PTE_WRITABLE)"
  by (simp_all add: writable_def and.assoc pte_consts)

lemma writable_to_pte_flags: "writable (to_pte_flags p) \<longleftrightarrow> flags_contains p Perms_WRITE"
  by (simp add: to_pte_flags_def writable_or)

lemma writable_bit: "writable e \<longleftrightarrow> bit e 1"
  using and_exp_eq_0_iff_not_bit [of e 1] by (simp add: writable_def PTE_WRITABLE_def)

lemma writable_pte: "writable (pte f fl) \<longleftrightarrow> writable fl"
proof -
  have "(of_nat (f * 4096) :: u64) = push_bit 12 (of_nat f)" by (simp add: push_bit_eq_mult)
  then show ?thesis by (simp add: pte_def writable_bit bit_or_iff bit_push_bit_iff)
qed

section \<open>References\<close>

text \<open>How many leaves name a frame, and the invariant: every reference to a frame, a leaf or one of
  the \<open>pend\<close> references that an operation in progress holds, is counted; a frame that a writable
  leaf names has no other reference.\<close>

definition tab_refs :: "leaves \<Rightarrow> nat \<Rightarrow> nat" where
  "tab_refs pt f = length (filter (\<lambda>x. frame_of (snd x) = f) pt)"

definition n_refs :: "'b vm_state \<Rightarrow> nat \<Rightarrow> nat" where
  "n_refs vm f = sum_list (map (\<lambda>pt. tab_refs pt f) (vs_spaces vm))"

definition counted :: "('b \<Rightarrow> nat set) \<Rightarrow> 'b frame_alloc \<Rightarrow> nat \<Rightarrow> nat \<Rightarrow> bool" where
  "counted free fa f n \<longleftrightarrow> 0 < n \<longrightarrow> f < length (fa_refcounts fa) \<and> f \<notin> free (fa_buddy fa)
     \<and> fa_refcounts fa ! f \<noteq> 0
     \<and> (fa_refcounts fa ! f \<noteq> - 1 \<longrightarrow> n \<le> unat (fa_refcounts fa ! f))"

definition cow_inv :: "('b \<Rightarrow> nat set) \<Rightarrow> (nat \<Rightarrow> nat) \<Rightarrow> 'b vm_state \<Rightarrow> bool" where
  "cow_inv free pend vm \<longleftrightarrow>
    (\<forall>pt\<in>set (vs_spaces vm). om_wf pt) \<and>
    length (fa_refcounts (vs_fa vm)) \<le> 2 ^ 40 \<and>
    free (fa_buddy (vs_fa vm)) \<subseteq> {..<length (fa_refcounts (vs_fa vm))} \<and>
    (\<forall>f. counted free (vs_fa vm) f (n_refs vm f + pend f)) \<and>
    (\<forall>s va e. leaf_at vm s va = Some e \<and> writable e
       \<longrightarrow> n_refs vm (frame_of e) + pend (frame_of e) = 1)"

definition is_frame :: "u64 \<Rightarrow> nat \<Rightarrow> nat" where
  "is_frame e f = (if frame_of e = f then 1 else 0)"

lemma tab_refs_simps [simp]:
  "tab_refs [] f = 0" "tab_refs (x # pt) f = is_frame (snd x) f + tab_refs pt f"
  "tab_refs (xs @ ys) f = tab_refs xs f + tab_refs ys f"
  by (simp_all add: tab_refs_def is_frame_def)

lemma tab_refs_insert_new:
  "map_of pt va = None \<Longrightarrow> tab_refs (om_insert va e pt) f = tab_refs pt f + is_frame e f"
  using om_insert_absent_mset [of va pt e] by (auto simp: map_of_eq_None_iff)

lemma tab_refs_remove:
  assumes "om_wf pt" "map_of pt va = Some e"
  shows "tab_refs (om_remove va pt) f + is_frame e f = tab_refs pt f"
proof -
  obtain xs ys where "pt = xs @ (va, e) # ys" "om_remove va pt = xs @ ys"
    using om_remove_present [OF assms(1) map_of_SomeD [OF assms(2)]] by blast
  then show ?thesis by simp
qed

lemma om_insert_remove: "om_wf pt \<Longrightarrow> om_insert va e (om_remove va pt) = om_insert va e pt"
proof (induction va e pt rule: om_insert.induct)
  case (2 k v k' v' m)
  have "k' = k \<Longrightarrow> k \<notin> fst ` set m" using 2(2) by auto
  moreover have "om_remove k m = m" if "k < k'"
    using 2(2) that by (intro om_remove_absent) auto
  ultimately show ?case
    using 2 om_remove_absent [of k m] by (cases m) (auto simp: om_remove_def)
qed (simp add: om_remove_def)

lemma tab_refs_insert_old:
  assumes "om_wf pt" "map_of pt va = Some e0"
  shows "tab_refs (om_insert va e pt) f + is_frame e0 f = tab_refs pt f + is_frame e f"
proof -
  have "tab_refs (om_insert va e (om_remove va pt)) f = tab_refs (om_remove va pt) f + is_frame e f"
    by (rule tab_refs_insert_new) (simp add: map_of_om_remove)
  then show ?thesis
    using tab_refs_remove [OF assms, of f] om_insert_remove [OF assms(1), of va e] by simp
qed

lemma sum_list_upd: "i < length xs \<Longrightarrow> sum_list (xs[i := y]) + xs ! i = sum_list xs + (y :: nat)"
  by (induction xs arbitrary: i) (auto split: nat.split)

lemma n_refs_upd:
  assumes "s < length (vs_spaces vm)"
  shows "n_refs (vm\<lparr>vs_spaces := (vs_spaces vm)[s := pt]\<rparr>) f + tab_refs (vs_spaces vm ! s) f
    = n_refs vm f + tab_refs pt f"
  using sum_list_upd [of s "map (\<lambda>pt. tab_refs pt f) (vs_spaces vm)" "tab_refs pt f"] assms
  by (simp add: n_refs_def map_update)

lemma n_refs_simps [simp]:
  "n_refs (vm\<lparr>vs_fa := fa\<rparr>) f = n_refs vm f" "n_refs (vm\<lparr>vs_mem := m\<rparr>) f = n_refs vm f"
  "n_refs (upd_fa g vm) f = n_refs vm f" "n_refs (zero_frame x vm) f = n_refs vm f"
  "leaf_at (vm\<lparr>vs_fa := fa\<rparr>) = leaf_at vm" "leaf_at (vm\<lparr>vs_mem := m\<rparr>) = leaf_at vm"
  "leaf_at (upd_fa g vm) = leaf_at vm" "leaf_at (zero_frame x vm) = leaf_at vm"
  by (simp_all add: n_refs_def upd_fa_def zero_frame_def leaf_at_def fun_eq_iff)

lemma leaf_at_len: "leaf_at vm s va = Some e \<Longrightarrow> s < length (vs_spaces vm)"
  by (simp add: leaf_at_def split: if_splits)

lemma sum_list_nth_le: "i < length xs \<Longrightarrow> xs ! i \<le> sum_list (xs :: nat list)"
  by (simp add: elem_le_sum_list)

lemma sum_list_nth2_le:
  assumes "i < length xs" "j < length xs" "i \<noteq> j"
  shows "xs ! i + xs ! j \<le> sum_list (xs :: nat list)"
  using sum_list_upd [of i xs 0] assms sum_list_nth_le [of j "xs[i := 0]"] by simp

lemma leaf_at_refs: "leaf_at vm s va = Some e \<Longrightarrow> 0 < n_refs vm (frame_of e)"
proof -
  assume l: "leaf_at vm s va = Some e"
  then have s: "s < length (vs_spaces vm)" "(va, e) \<in> set (vs_spaces vm ! s)"
    by (auto simp: leaf_at_def dest: map_of_SomeD split: if_splits)
  then have "0 < tab_refs (vs_spaces vm ! s) (frame_of e)"
    by (force simp: tab_refs_def filter_empty_conv)
  then show ?thesis
    using sum_list_nth_le [of s "map (\<lambda>pt. tab_refs pt (frame_of e)) (vs_spaces vm)"] s(1)
    by (simp add: n_refs_def)
qed

lemma two_elements_length: "x \<in> set xs \<Longrightarrow> y \<in> set xs \<Longrightarrow> x \<noteq> y \<Longrightarrow> 2 \<le> length xs"
  by (induction xs) (auto simp: Suc_le_eq)

text \<open>Two leaves with the same frame are two references.\<close>

lemma leaves_refs2:
  assumes "leaf_at vm s va = Some e" "leaf_at vm s' va' = Some e'" "frame_of e' = frame_of e"
    "(s', va') \<noteq> (s, va)"
  shows "2 \<le> n_refs vm (frame_of e)"
proof -
  let ?xs = "map (\<lambda>pt. tab_refs pt (frame_of e)) (vs_spaces vm)"
  have m: "s < length ?xs" "s' < length ?xs" "(va, e) \<in> set (vs_spaces vm ! s)"
    "(va', e') \<in> set (vs_spaces vm ! s')"
    using assms(1,2) by (auto simp: leaf_at_def dest: map_of_SomeD split: if_splits)
  show ?thesis
  proof (cases "s' = s")
    case True
    then have "2 \<le> tab_refs (vs_spaces vm ! s) (frame_of e)"
      using m assms(3,4) unfolding tab_refs_def
      by (intro two_elements_length [of "(va, e)" _ "(va', e')"]) auto
    then show ?thesis using sum_list_nth_le [OF m(1)] m(1) by (simp add: n_refs_def)
  next
    case False
    have pos: "0 < tab_refs (vs_spaces vm ! s) (frame_of e)" "0 < tab_refs (vs_spaces vm ! s') (frame_of e)"
      using m assms(3) by (force simp: tab_refs_def filter_empty_conv)+
    then show ?thesis using sum_list_nth2_le [OF m(1,2)] False m(1,2) by (simp add: n_refs_def)
  qed
qed

lemma cow_invD:
  assumes "cow_inv free pend vm"
  shows "s < length (vs_spaces vm) \<Longrightarrow> om_wf (vs_spaces vm ! s)"
    and "counted free (vs_fa vm) f (n_refs vm f + pend f)"
    and "leaf_at vm s va = Some e \<Longrightarrow> writable e \<Longrightarrow> n_refs vm (frame_of e) + pend (frame_of e) = 1"
    and "length (fa_refcounts (vs_fa vm)) \<le> 2 ^ 40"
    and "free (fa_buddy (vs_fa vm)) \<subseteq> {..<length (fa_refcounts (vs_fa vm))}"
  using assms by (auto simp: cow_inv_def)

text \<open>Changing the leaves and the references held, with the same allocator.\<close>

lemma cow_inv_spaces:
  assumes inv: "cow_inv free pend vm" and s: "s < length (vs_spaces vm)" and wf: "om_wf pt"
    and refs: "\<And>f. n_refs (vm\<lparr>vs_spaces := (vs_spaces vm)[s := pt]\<rparr>) f + pend' f = n_refs vm f + pend f"
    and wr: "\<And>va e. map_of pt va = Some e \<Longrightarrow> writable e
      \<Longrightarrow> map_of (vs_spaces vm ! s) va = Some e \<or> n_refs vm (frame_of e) + pend (frame_of e) = 1"
  shows "cow_inv free pend' (vm\<lparr>vs_spaces := (vs_spaces vm)[s := pt]\<rparr>)"
proof -
  have w: "n_refs vm (frame_of e) + pend (frame_of e) = 1"
    if "leaf_at (vm\<lparr>vs_spaces := (vs_spaces vm)[s := pt]\<rparr>) t va = Some e" "writable e" for t va e
  proof (cases "t = s")
    case True
    then have "map_of pt va = Some e" using that(1) s by (simp add: leaf_at_def)
    from wr [OF this that(2)] show ?thesis
      using cow_invD(3) [OF inv _ that(2), of s va] s by (auto simp: leaf_at_def)
  next
    case False
    then have "leaf_at vm t va = Some e" using that(1) by (simp add: leaf_at_def split: if_splits)
    then show ?thesis by (rule cow_invD(3) [OF inv _ that(2)])
  qed
  have "\<forall>q\<in>set ((vs_spaces vm)[s := pt]). om_wf q"
    using inv wf by (auto simp: cow_inv_def dest!: set_update_subset_insert [THEN subsetD])
  moreover have "counted free (vs_fa vm) f (n_refs (vm\<lparr>vs_spaces := (vs_spaces vm)[s := pt]\<rparr>) f + pend' f)" for f
    unfolding refs by (rule cow_invD(2) [OF inv])
  ultimately show ?thesis
    unfolding cow_inv_def using w cow_invD(4,5) [OF inv] by (auto simp: refs)
qed

lemma cow_inv_set_leaf:
  assumes inv: "cow_inv free pend vm" and l: "leaf_at vm s va = Some e0"
    and refs: "\<And>f. is_frame e f + pend' f = is_frame e0 f + pend f"
    and wr: "writable e \<Longrightarrow> n_refs vm (frame_of e) + pend (frame_of e) = 1"
  shows "cow_inv free pend' (set_leaf s va e vm)"
  unfolding set_leaf_def
proof (rule cow_inv_spaces [OF inv])
  have s: "s < length (vs_spaces vm)" and m: "map_of (vs_spaces vm ! s) va = Some e0"
    using l by (auto simp: leaf_at_def split: if_splits)
  note wf = cow_invD(1) [OF inv s]
  show "s < length (vs_spaces vm)" "om_wf (om_insert va e (vs_spaces vm ! s))" using s wf by simp_all
  show "n_refs (vm\<lparr>vs_spaces := (vs_spaces vm)[s := om_insert va e (vs_spaces vm ! s)]\<rparr>) f + pend' f
      = n_refs vm f + pend f" for f
    using n_refs_upd [OF s, of "om_insert va e (vs_spaces vm ! s)" f]
      tab_refs_insert_old [OF wf m, of e f] refs [of f] by simp
  show "map_of (vs_spaces vm ! s) va' = Some e' \<or> n_refs vm (frame_of e') + pend (frame_of e') = 1"
    if "map_of (om_insert va e (vs_spaces vm ! s)) va' = Some e'" "writable e'" for va' e'
    using that wr by (cases "va' = va") (auto simp: map_of_om_insert [OF wf])
qed

lemma leaf_at_set_leaf:
  assumes "cow_inv free pend vm" "s < length (vs_spaces vm)"
  shows "leaf_at (set_leaf s va e vm) t a = (if t = s \<and> a = va then Some e else leaf_at vm t a)"
  using map_of_om_insert [OF cow_invD(1) [OF assms], of va e] assms(2)
  by (cases "t = s") (auto simp: leaf_at_def set_leaf_def)

lemma set_leaf_simps [simp]:
  "vs_fa (set_leaf s va e vm) = vs_fa vm" "vs_mem (set_leaf s va e vm) = vs_mem vm"
  "length (vs_spaces (set_leaf s va e vm)) = length (vs_spaces vm)"
  by (simp_all add: set_leaf_def)

text \<open>The same frame with other flags.\<close>

lemma cow_inv_reflag:
  assumes "cow_inv free pend vm" "leaf_at vm s va = Some e0" "frame_of e = frame_of e0"
    "writable e \<Longrightarrow> writable e0 \<or> n_refs vm (frame_of e0) + pend (frame_of e0) \<le> 1"
  shows "cow_inv free pend (set_leaf s va e vm)"
proof (rule cow_inv_set_leaf [OF assms(1,2)])
  show "is_frame e f + pend f = is_frame e0 f + pend f" for f by (simp add: is_frame_def assms(3))
  show "n_refs vm (frame_of e) + pend (frame_of e) = 1" if "writable e"
    using assms(4) [OF that] cow_invD(3) [OF assms(1,2)] leaf_at_refs [OF assms(2)] assms(3) by auto
qed

lemma cow_inv_fa:
  assumes inv: "cow_inv free pend vm" and len: "length (fa_refcounts fa) = length (fa_refcounts (vs_fa vm))"
    and fr: "free (fa_buddy fa) \<subseteq> {..<length (fa_refcounts fa)}"
    and cnt: "\<And>f. counted free (vs_fa vm) f (n_refs vm f + pend f)
      \<Longrightarrow> counted free fa f (n_refs vm f + pend' f)"
    and wr: "\<And>s va e. leaf_at vm s va = Some e \<Longrightarrow> writable e \<Longrightarrow> pend' (frame_of e) = pend (frame_of e)"
  shows "cow_inv free pend' (vm\<lparr>vs_fa := fa\<rparr>)"
  using assms unfolding cow_inv_def by auto

definition takes :: "('b \<Rightarrow> nat set) \<Rightarrow> 'b frame_alloc \<Rightarrow> 'b frame_alloc \<Rightarrow> bool" where
  "takes free fa fa' \<longleftrightarrow> free (fa_buddy fa') \<subseteq> free (fa_buddy fa)
     \<and> length (fa_refcounts fa') = length (fa_refcounts fa)
     \<and> (\<forall>f. f \<notin> free (fa_buddy fa) \<longrightarrow> fa_refcounts fa' ! f = fa_refcounts fa ! f)"

lemma cow_inv_takes:
  assumes "cow_inv free pend vm" "takes free (vs_fa vm) fa"
  shows "cow_inv free pend (vm\<lparr>vs_fa := fa\<rparr>)"
proof (rule cow_inv_fa [OF assms(1)])
  show "free (fa_buddy fa) \<subseteq> {..<length (fa_refcounts fa)}"
    using assms(2) cow_invD(5) [OF assms(1)] unfolding takes_def by fastforce
qed (use assms(2) in \<open>auto simp: takes_def counted_def\<close>)

lemma cow_inv_mem [simp]:
  "cow_inv free pend (vm\<lparr>vs_mem := m\<rparr>) = cow_inv free pend vm"
  "cow_inv free pend (zero_frame f vm) = cow_inv free pend vm"
  by (simp_all add: cow_inv_def zero_frame_def)

section \<open>The mapper's contract\<close>

text \<open>What the page-table crate promises: mapping enters the leaf of a page that has none or fails
  without changing the leaves, taking frames for tables from the free ones; unmapping removes the leaf
  and returns its frame.\<close>

locale page_mapper = buddy bd free for bd :: "'b buddy_ops" and free :: "'b \<Rightarrow> nat set" +
  fixes mp :: "'b mapper"
  assumes map_to_ok: "mp_map_to mp va e pt fa = (None, pt', fa') \<Longrightarrow> map_of pt va = None
      \<and> pt' = om_insert va e pt \<and> takes free fa fa'"
    and map_to_err: "mp_map_to mp va e pt fa = (Some err, pt', fa') \<Longrightarrow> pt' = pt \<and> takes free fa fa'"
    and unmap_law: "mp_unmap mp va pt
      = (case map_of pt va of None \<Rightarrow> None | Some e \<Rightarrow> Some (frame_of e, om_remove va pt))"
begin

lemma vm_map_to_err:
  assumes "cow_inv free pend vm" "vm_map_to mp s va e vm = (Some err, vm')"
  shows "cow_inv free pend vm'" "vs_spaces vm' = vs_spaces vm" "vs_mem vm' = vs_mem vm"
proof -
  obtain r pt fa where m: "mp_map_to mp va e (vs_spaces vm ! s) (vs_fa vm) = (r, pt, fa)"
    by (cases "mp_map_to mp va e (vs_spaces vm ! s) (vs_fa vm)")
  have r: "r = Some err" "vm' = vm\<lparr>vs_fa := fa, vs_spaces := (vs_spaces vm)[s := pt]\<rparr>"
    using assms(2) by (simp_all add: vm_map_to_def m)
  have law: "pt = vs_spaces vm ! s" "takes free (vs_fa vm) fa"
    using map_to_err m r(1) by blast+
  then have "vm' = vm\<lparr>vs_fa := fa\<rparr>" by (simp add: r(2))
  then show "cow_inv free pend vm'" "vs_spaces vm' = vs_spaces vm" "vs_mem vm' = vs_mem vm"
    using cow_inv_takes [OF assms(1) law(2)] by simp_all
qed

lemma vm_map_to_ok:
  assumes inv: "cow_inv free pend vm" and m: "vm_map_to mp s va e vm = (None, vm')"
    and s: "s < length (vs_spaces vm)" and p: "0 < pend (frame_of e)"
    and wr: "writable e \<Longrightarrow> n_refs vm (frame_of e) + pend (frame_of e) = 1"
  shows "cow_inv free (pend(frame_of e := pend (frame_of e) - 1)) vm'" "vs_mem vm' = vs_mem vm"
    "leaf_at vm s va = None" "vs_spaces vm' = (vs_spaces vm)[s := om_insert va e (vs_spaces vm ! s)]"
proof -
  obtain r pt fa where mm: "mp_map_to mp va e (vs_spaces vm ! s) (vs_fa vm) = (r, pt, fa)"
    by (cases "mp_map_to mp va e (vs_spaces vm ! s) (vs_fa vm)")
  have r: "r = None" "vm' = (vm\<lparr>vs_fa := fa\<rparr>)\<lparr>vs_spaces := (vs_spaces (vm\<lparr>vs_fa := fa\<rparr>))[s := pt]\<rparr>"
    using m by (simp_all add: vm_map_to_def mm)
  have law: "map_of (vs_spaces vm ! s) va = None" "pt = om_insert va e (vs_spaces vm ! s)"
    "takes free (vs_fa vm) fa"
    using map_to_ok mm r(1) by blast+
  note inv1 = cow_inv_takes [OF inv law(3)]
  note wf = cow_invD(1) [OF inv s]
  show "cow_inv free (pend(frame_of e := pend (frame_of e) - 1)) vm'"
    unfolding r(2)
  proof (rule cow_inv_spaces [OF inv1])
    show "s < length (vs_spaces (vm\<lparr>vs_fa := fa\<rparr>))" "om_wf pt" using s wf law(2) by simp_all
    show "n_refs ((vm\<lparr>vs_fa := fa\<rparr>)\<lparr>vs_spaces := (vs_spaces (vm\<lparr>vs_fa := fa\<rparr>))[s := pt]\<rparr>) f
        + (pend(frame_of e := pend (frame_of e) - 1)) f = n_refs (vm\<lparr>vs_fa := fa\<rparr>) f + pend f" for f
      using n_refs_upd [of s "vm\<lparr>vs_fa := fa\<rparr>" pt f] s p
        tab_refs_insert_new [OF law(1), of e f] by (simp add: law(2) is_frame_def)
    show "map_of (vs_spaces (vm\<lparr>vs_fa := fa\<rparr>) ! s) va' = Some e'
        \<or> n_refs (vm\<lparr>vs_fa := fa\<rparr>) (frame_of e') + pend (frame_of e') = 1"
      if "map_of pt va' = Some e'" "writable e'" for va' e'
      using that wr by (cases "va' = va") (auto simp: law(2) map_of_om_insert [OF wf])
  qed
  show "vs_mem vm' = vs_mem vm" by (simp add: r(2))
  show "leaf_at vm s va = None" using law(1) by (simp add: leaf_at_def)
  show "vs_spaces vm' = (vs_spaces vm)[s := om_insert va e (vs_spaces vm ! s)]"
    by (simp add: r(2) law(2))
qed

end

text \<open>References that a list of frames stands for.\<close>

definition padd :: "nat list \<Rightarrow> (nat \<Rightarrow> nat) \<Rightarrow> nat \<Rightarrow> nat" where
  "padd fs pend f = pend f + count_list fs f"

lemma padd_simps [simp]:
  "padd [] pend = pend" "padd (f # fs) pend = padd fs (pend(f := Suc (pend f)))"
  "padd (fs @ gs) pend = padd gs (padd fs pend)"
  by (auto simp: padd_def fun_eq_iff)

lemma padd_upd: "padd fs (pend(f := Suc (pend f))) = (padd fs pend)(f := Suc (padd fs pend f))"
  by (auto simp: padd_def fun_eq_iff)

lemma upd_fa_simps [simp]:
  "vs_mem (upd_fa g vm) = vs_mem vm" "vs_spaces (upd_fa g vm) = vs_spaces vm"
  "vs_fa (upd_fa g vm) = g (vs_fa vm)"
  by (simp_all add: upd_fa_def)

lemma frame_ref_inc_simps [simp]:
  "fa_buddy (frame_ref_inc f fa) = fa_buddy fa"
  "length (fa_refcounts (frame_ref_inc f fa)) = length (fa_refcounts fa)"
  by (simp_all add: frame_ref_inc_def set_count_def split: option.splits)

lemma frame_ref_inc_nth:
  assumes "f < length (fa_refcounts fa)"
  shows "fa_refcounts (frame_ref_inc f fa) ! g = (if g = f \<and> fa_refcounts fa ! f \<noteq> - 1
    then fa_refcounts fa ! f + 1 else fa_refcounts fa ! g)"
  using assms by (auto simp: frame_ref_inc_def set_count_def refcount_slot_def)

lemma unat_inc16: "c \<noteq> - 1 \<Longrightarrow> unat (c + 1 :: u16) = unat c + 1"
proof -
  assume "c \<noteq> - 1"
  then have "unat c \<noteq> 2 ^ LENGTH(16) - 1"
    using unat_max_word [where 'a = 16] by (metis word_unat_eq_iff)
  moreover have "unat c < 2 ^ LENGTH(16)" by (rule unsigned_less)
  ultimately show ?thesis by (subst unat_add_in_range) simp_all
qed

lemma unat_dec16: "c \<noteq> 0 \<Longrightarrow> unat (c - 1 :: u16) = unat c - 1"
  by (subst unat_sub) (simp_all add: word_le_nat_alt Suc_le_eq unat_gt_0)

lemma counted_inc:
  assumes "counted free fa f n" "0 < n"
  shows "counted free (frame_ref_inc f fa) f (n + 1)"
proof -
  from assms have c: "f < length (fa_refcounts fa)" "f \<notin> free (fa_buddy fa)" "fa_refcounts fa ! f \<noteq> 0"
    "fa_refcounts fa ! f \<noteq> - 1 \<longrightarrow> n \<le> unat (fa_refcounts fa ! f)"
    by (auto simp: counted_def)
  show ?thesis
  proof (cases "fa_refcounts fa ! f = - 1")
    case True
    then show ?thesis using c by (simp add: counted_def frame_ref_inc_nth)
  next
    case False
    have "fa_refcounts fa ! f + 1 \<noteq> 0"
      using unat_inc16 [OF False] by (metis Suc_eq_plus1 nat.distinct(1) unat_0)
    then show ?thesis using c False unat_inc16 [OF False] by (simp add: counted_def frame_ref_inc_nth)
  qed
qed

lemma cow_inv_inc:
  assumes inv: "cow_inv free pend vm" and pos: "0 < n_refs vm f + pend f"
    and ro: "\<And>s va e. leaf_at vm s va = Some e \<Longrightarrow> writable e \<Longrightarrow> frame_of e \<noteq> f"
  shows "cow_inv free (pend(f := pend f + 1)) (upd_fa (frame_ref_inc f) vm)"
  unfolding upd_fa_def
proof (rule cow_inv_fa [OF inv])
  have f: "f < length (fa_refcounts (vs_fa vm))"
    using cow_invD(2) [OF inv, of f] pos by (auto simp: counted_def)
  show "counted free (frame_ref_inc f (vs_fa vm)) g (n_refs vm g + (pend(f := pend f + 1)) g)"
    if "counted free (vs_fa vm) g (n_refs vm g + pend g)" for g
  proof (cases "g = f")
    case True
    with counted_inc [OF that] pos show ?thesis by simp
  next
    case False
    with that f show ?thesis by (simp add: counted_def frame_ref_inc_nth)
  qed
qed (use cow_invD(5) [OF inv] ro in auto)

context page_mapper
begin

lemma alloc_pend:
  assumes inv: "cow_inv free pend vm" and a: "alloc_frame bd (vs_fa vm) = Some (f, fa)"
  shows "cow_inv free (pend(f := 1)) (vm\<lparr>vs_fa := fa\<rparr>)" "n_refs vm f = 0" "pend f = 0" "f < 2 ^ 40"
proof -
  note law = alloc_frame_law [OF a]
  have f: "f < length (fa_refcounts (vs_fa vm))" using law(1) cow_invD(5) [OF inv] by auto
  show "f < 2 ^ 40" using f cow_invD(4) [OF inv] by simp
  have zero: "n_refs vm f + pend f = 0"
    using cow_invD(2) [OF inv, of f] law(1) by (auto simp: counted_def)
  then show "n_refs vm f = 0" "pend f = 0" by simp_all
  show "cow_inv free (pend(f := 1)) (vm\<lparr>vs_fa := fa\<rparr>)"
  proof (rule cow_inv_fa [OF inv])
    show "counted free fa g (n_refs vm g + (pend(f := 1)) g)"
      if "counted free (vs_fa vm) g (n_refs vm g + pend g)" for g
      using that zero f by (cases "g = f") (auto simp: counted_def law(2,3))
    show "(pend(f := 1)) (frame_of e) = pend (frame_of e)" if "leaf_at vm s va = Some e" for s va e
      using leaf_at_refs [OF that] zero by auto
  qed (use cow_invD(5) [OF inv] law(2,3) in auto)
qed

lemma free_pend:
  assumes inv: "cow_inv free pend vm" and pos: "0 < pend f"
  shows "cow_inv free (pend(f := pend f - 1)) (upd_fa (free_frame bd f) vm)"
  unfolding upd_fa_def
proof -
  let ?rc = "fa_refcounts (vs_fa vm)"
  let ?n = "n_refs vm f + pend f"
  have c: "f < length ?rc" "f \<notin> free (fa_buddy (vs_fa vm))" "?rc ! f \<noteq> 0"
    "?rc ! f \<noteq> - 1 \<Longrightarrow> ?n \<le> unat (?rc ! f)"
    using cow_invD(2) [OF inv, of f] pos by (auto simp: counted_def)
  have w: "(pend(f := pend f - 1)) (frame_of e) = pend (frame_of e)"
    if "leaf_at vm s va = Some e" "writable e" for s va e
    using cow_invD(3) [OF inv that] leaf_at_refs [OF that(1)] pos by auto
  show "cow_inv free (pend(f := pend f - 1)) (vm\<lparr>vs_fa := free_frame bd f (vs_fa vm)\<rparr>)"
    using c(1,3)
  proof (cases rule: free_frame_cases)
    case pinned
    show ?thesis unfolding pinned(2)
      by (rule cow_inv_fa [OF inv]) (use cow_invD(5) [OF inv] w in \<open>auto simp: counted_def pinned(1)\<close>)
  next
    case last
    then have "?n \<le> 1" using c(4) by simp
    then have "n_refs vm f = 0" "pend f = 1" using pos by auto
    then show ?thesis
      by (intro cow_inv_fa [OF inv]) (use cow_invD(5) [OF inv] c(1) w last in \<open>auto simp: counted_def\<close>)
  next
    case shared
    have dec: "?rc ! f - 1 \<noteq> - 1" "?rc ! f - 1 \<noteq> 0" using c(3) shared(2) by auto
    have "?n - 1 \<le> unat (?rc ! f - 1)" using c(4) [OF shared(1)] unat_dec16 [OF c(3)] by simp
    then have "counted free (free_frame bd f (vs_fa vm)) f (n_refs vm f + (pend f - 1))"
      using c dec shared pos by (simp add: counted_def)
    then show ?thesis
      by (intro cow_inv_fa [OF inv])
         (use cow_invD(5) [OF inv] w shared in \<open>auto simp: counted_def split: if_splits\<close>)
  qed
qed

lemma free_all_pend: "cow_inv free (padd fs pend) vm \<Longrightarrow> cow_inv free pend (free_all bd fs vm)"
proof (induction fs arbitrary: vm)
  case (Cons f fs)
  have "(padd (f # fs) pend)(f := padd (f # fs) pend f - 1) = padd fs pend"
    by (auto simp: padd_def fun_eq_iff)
  moreover have "0 < padd (f # fs) pend f" by (simp add: padd_def)
  ultimately have "cow_inv free (padd fs pend) (upd_fa (free_frame bd f) vm)"
    using free_pend [OF Cons.prems, of f] by metis
  from Cons.IH [OF this] show ?case by (simp add: free_all_def upd_fa_def)
qed (simp add: free_all_def upd_fa_def)

lemma unmap_pend:
  assumes inv: "cow_inv free pend vm" and s: "s < length (vs_spaces vm)"
  shows "fst (vm_unmap mp s va vm) = map_option frame_of (leaf_at vm s va)"
    and "cow_inv free (padd (case leaf_at vm s va of None \<Rightarrow> [] | Some e \<Rightarrow> [frame_of e]) pend)
      (snd (vm_unmap mp s va vm))"
    and "leaf_at (snd (vm_unmap mp s va vm)) t a = (if t = s \<and> a = va then None else leaf_at vm t a)"
    and "vs_mem (snd (vm_unmap mp s va vm)) = vs_mem vm"
    and "length (vs_spaces (snd (vm_unmap mp s va vm))) = length (vs_spaces vm)"
proof -
  let ?pt = "vs_spaces vm ! s"
  note wf = cow_invD(1) [OF inv s]
  have l: "leaf_at vm s va = map_of ?pt va" using s by (simp add: leaf_at_def)
  show "fst (vm_unmap mp s va vm) = map_option frame_of (leaf_at vm s va)"
    "vs_mem (snd (vm_unmap mp s va vm)) = vs_mem vm"
    "length (vs_spaces (snd (vm_unmap mp s va vm))) = length (vs_spaces vm)"
    by (simp_all add: vm_unmap_def unmap_law l split: option.splits)
  show "leaf_at (snd (vm_unmap mp s va vm)) t a = (if t = s \<and> a = va then None else leaf_at vm t a)"
    using s by (cases "t = s")
      (auto simp: vm_unmap_def unmap_law leaf_at_def map_of_om_remove split: option.splits)
  show "cow_inv free (padd (case leaf_at vm s va of None \<Rightarrow> [] | Some e \<Rightarrow> [frame_of e]) pend)
      (snd (vm_unmap mp s va vm))"
  proof (cases "map_of ?pt va")
    case None
    then show ?thesis using inv by (simp add: vm_unmap_def unmap_law l)
  next
    case (Some e)
    have "cow_inv free (pend(frame_of e := pend (frame_of e) + 1))
        (vm\<lparr>vs_spaces := (vs_spaces vm)[s := om_remove va ?pt]\<rparr>)"
    proof (rule cow_inv_spaces [OF inv s])
      show "n_refs (vm\<lparr>vs_spaces := (vs_spaces vm)[s := om_remove va ?pt]\<rparr>) f
          + (pend(frame_of e := pend (frame_of e) + 1)) f = n_refs vm f + pend f" for f
        using n_refs_upd [OF s, of "om_remove va ?pt" f] tab_refs_remove [OF wf Some, of f]
        by (simp add: is_frame_def split: if_splits)
    qed (use wf in \<open>auto simp: map_of_om_remove split: if_splits\<close>)
    then show ?thesis by (simp add: vm_unmap_def unmap_law l Some)
  qed
qed

end

section \<open>Breaking a share\<close>

text \<open>What a process sees at a page.\<close>

definition view :: "'b vm_state \<Rightarrow> nat \<Rightarrow> u64 \<Rightarrow> bytes option" where
  "view vm s va = map_option (\<lambda>e. vs_mem vm (frame_of e)) (leaf_at vm s va)"

lemma view_reflag:
  assumes "cow_inv free pend vm" "leaf_at vm s va = Some e0" "frame_of e = frame_of e0"
  shows "view (set_leaf s va e vm) = view vm"
  using assms leaf_at_set_leaf [OF assms(1) leaf_at_len [OF assms(2)], of va e]
  by (auto simp: view_def fun_eq_iff)

lemma unat_ref_count:
  "unat (frame_ref_count fa f) = (if f < length (fa_refcounts fa) then unat (fa_refcounts fa ! f) else 0)"
proof -
  have "unat (ucast c :: u32) = unat c" for c :: u16 by (rule unat_ucast_up) simp
  then show ?thesis by (simp add: frame_ref_count_def refcount_slot_def)
qed

lemma ref_count_small:
  assumes "cow_inv free pend vm" "unat (frame_ref_count (vs_fa vm) f) \<le> 1"
  shows "n_refs vm f + pend f \<le> 1"
proof (cases "0 < n_refs vm f + pend f")
  case True
  then have c: "f < length (fa_refcounts (vs_fa vm))" "fa_refcounts (vs_fa vm) ! f \<noteq> - 1
      \<Longrightarrow> n_refs vm f + pend f \<le> unat (fa_refcounts (vs_fa vm) ! f)"
    using cow_invD(2) [OF assms(1), of f] by (auto simp: counted_def)
  moreover have "fa_refcounts (vs_fa vm) ! f \<noteq> - 1"
    using assms(2) c(1) unat_max_word [where 'a = 16] by (auto simp: unat_ref_count)
  ultimately show ?thesis using assms(2) by (auto simp: unat_ref_count)
qed simp

lemma ref_count_pos:
  assumes "cow_inv free pend vm" "leaf_at vm s va = Some e"
  shows "frame_ref_count (vs_fa vm) (frame_of e) \<noteq> 0"
proof -
  have "fa_refcounts (vs_fa vm) ! frame_of e \<noteq> 0" "frame_of e < length (fa_refcounts (vs_fa vm))"
    using cow_invD(2) [OF assms(1), of "frame_of e"] leaf_at_refs [OF assms(2)] by (auto simp: counted_def)
  then have "unat (frame_ref_count (vs_fa vm) (frame_of e)) \<noteq> 0"
    by (simp add: unat_ref_count unat_eq_0)
  then show ?thesis by auto
qed

lemma writable_broken [simp]: "writable (broken_flags e np)"
  by (simp add: broken_flags_def writable_or)

context page_mapper
begin

lemma break_cow_inv:
  assumes inv: "cow_inv free pend vm" and b: "break_cow bd s vaddr np vm = (r, vm')"
  shows "cow_inv free (padd (case r of Inr (Broken old) \<Rightarrow> [old] | _ \<Rightarrow> []) pend) vm'"
    and "view vm' = view vm" and "length (vs_spaces vm') = length (vs_spaces vm)"
proof -
  let ?va = "vaddr AND NOT 0xfff"
  have "cow_inv free (padd (case r of Inr (Broken old) \<Rightarrow> [old] | _ \<Rightarrow> []) pend) vm' \<and> view vm' = view vm
      \<and> length (vs_spaces vm') = length (vs_spaces vm)"
  proof (cases "leaf_at vm s ?va")
    case None
    then show ?thesis using b inv by (auto simp: break_cow_def)
  next
    case (Some e)
    let ?old = "frame_of e"
    let ?n = "frame_ref_count (vs_fa vm) ?old"
    consider (same) "vm' = vm" "\<And>old. r \<noteq> Inr (Broken old)"
      | (in_place) "r = Inr BrokenInPlace" "?n = 1"
        "vm' = set_leaf s ?va ((e AND PTE_FRAME_MASK) OR broken_flags e np) vm"
      | (copy) f fa where "alloc_frame bd (vs_fa vm) = Some (f, fa)" "r = Inr (Broken ?old)"
        "vm' = set_leaf s ?va (pte f (broken_flags e np))
           (vm\<lparr>vs_fa := fa, vs_mem := (vs_mem vm)(f := vs_mem vm ?old)\<rparr>)"
    proof (cases "writable e \<or> \<not> is_cow e \<or> ?n = 0")
      case True
      then show thesis using b Some
        by (intro same) (simp_all add: break_cow_def Let_def split: if_splits, auto)
    next
      case f: False
      show thesis
      proof (cases "?n = 1")
        case True
        then show thesis using f b Some by (intro in_place) (simp_all add: break_cow_def Let_def)
      next
        case False
        then show thesis using f b Some same copy
          by (cases "alloc_frame bd (vs_fa vm)") (auto simp: break_cow_def Let_def)
      qed
    qed
    then show ?thesis
    proof cases
      case same
      then show ?thesis using inv by (auto split: sum.splits cow_break.splits)
    next
      case in_place
      have "n_refs vm ?old + pend ?old \<le> 1" by (rule ref_count_small [OF inv]) (simp add: in_place(2))
      then show ?thesis
        using cow_inv_reflag [OF inv Some frame_of_restamp] view_reflag [OF inv Some frame_of_restamp]
        by (simp add: in_place)
    next
      case copy
      let ?vm1 = "vm\<lparr>vs_fa := fa, vs_mem := (vs_mem vm)(f := vs_mem vm ?old)\<rparr>"
      note a = alloc_pend [OF inv copy(1)]
      have fo: "frame_of (pte f (broken_flags e np)) = f" using a(4) by (intro frame_of_pte) simp_all
      have ne: "f \<noteq> ?old" using a(2) leaf_at_refs [OF Some] by auto
      have inv1: "cow_inv free (pend(f := 1)) ?vm1" using a(1) by simp
      have l1: "leaf_at ?vm1 s ?va = Some e" using Some by simp
      have "cow_inv free (pend(?old := Suc (pend ?old))) vm'"
        unfolding copy(3)
        by (rule cow_inv_set_leaf [OF inv1 l1]) (use fo ne a(2,3) in \<open>auto simp: is_frame_def\<close>)
      moreover have "view vm' t x = view vm t x" for t x
      proof (cases "t = s \<and> x = ?va")
        case True
        then show ?thesis
          using leaf_at_set_leaf [OF inv1 leaf_at_len [OF l1], of ?va "pte f (broken_flags e np)" t x] Some
          by (simp add: view_def copy(3) fo)
      next
        case False
        have "frame_of e' \<noteq> f" if "leaf_at vm t x = Some e'" for e'
          using leaf_at_refs [OF that] a(2) by auto
        then show ?thesis
          using False leaf_at_set_leaf [OF inv1 leaf_at_len [OF l1], of ?va "pte f (broken_flags e np)" t x]
          by (cases "leaf_at vm t x") (auto simp: view_def copy(3))
      qed
      ultimately show ?thesis by (simp add: copy(2,3) fun_eq_iff)
    qed
  qed
  then show "cow_inv free (padd (case r of Inr (Broken old) \<Rightarrow> [old] | _ \<Rightarrow> []) pend) vm'"
    "view vm' = view vm" "length (vs_spaces vm') = length (vs_spaces vm)" by auto
qed

lemma try_break_cow_inv:
  assumes "cow_inv free pend vm"
  shows "cow_inv free pend (snd (try_break_cow bd s va vm))"
    and "view (snd (try_break_cow bd s va vm)) = view vm"
    and "length (vs_spaces (snd (try_break_cow bd s va vm))) = length (vs_spaces vm)"
proof -
  obtain r vm1 where b: "break_cow bd s va None vm = (r, vm1)" by (cases "break_cow bd s va None vm")
  note inv1 = break_cow_inv [OF assms b]
  have free1: "cow_inv free pend (upd_fa (free_frame bd old) vm1)" if "r = Inr (Broken old)" for old
    using free_all_pend [of "[old]" pend vm1] inv1(1) that by (simp add: free_all_def upd_fa_def)
  have "cow_inv free pend (snd (try_break_cow bd s va vm))
      \<and> view (snd (try_break_cow bd s va vm)) = view vm1
      \<and> length (vs_spaces (snd (try_break_cow bd s va vm))) = length (vs_spaces vm1)"
    using inv1(1) free1
    by (cases r) (auto simp: try_break_cow_def b view_def fun_eq_iff split: cow_break.splits)
  then show "cow_inv free pend (snd (try_break_cow bd s va vm))"
    "view (snd (try_break_cow bd s va vm)) = view vm"
    "length (vs_spaces (snd (try_break_cow bd s va vm))) = length (vs_spaces vm)"
    using inv1(2,3) by simp_all
qed

end

section \<open>Changing permissions\<close>

lemma is_cow_or: "is_cow (a OR b) \<longleftrightarrow> is_cow a \<or> is_cow b"
  by (simp add: is_cow_def bit.conj_disj_distrib2 or_eq_0_iff)

lemma is_cow_COW [simp]: "is_cow COW_PTE"
  by (simp add: is_cow_def COW_PTE_def)

lemma writable_and_not_cow [simp]: "writable (e AND NOT COW_PTE) \<longleftrightarrow> writable e"
  by (simp add: writable_bit bit_and_iff bit_not_iff) (simp add: COW_PTE_def)

lemma not_writable_keep: "\<not> writable (e AND (NOT PTE_FRAME_MASK AND NOT PTE_WRITABLE))"
proof -
  have "e AND (NOT PTE_FRAME_MASK AND NOT PTE_WRITABLE) = (e AND NOT PTE_FRAME_MASK) AND NOT PTE_WRITABLE"
    by (simp only: and.assoc)
  then show ?thesis by (simp add: not_writable_masked)
qed

text \<open>Making a page writable that is neither writable nor shared copy-on-write is safe when its
  frame has one reference.\<close>

definition protect_ok :: "nat \<Rightarrow> u32 \<Rightarrow> u64 list \<Rightarrow> 'b vm_state \<Rightarrow> bool" where
  "protect_ok s perms vas vm \<longleftrightarrow> (\<forall>va\<in>set vas. \<forall>e. leaf_at vm s va = Some e
     \<and> flags_contains perms Perms_WRITE \<and> \<not> writable e \<and> \<not> is_cow e
     \<longrightarrow> unat (frame_ref_count (vs_fa vm) (frame_of e)) \<le> 1)"

lemma protect_page_inv:
  assumes inv: "cow_inv free pend vm" and ok: "protect_ok s perms (va # vas) vm"
    and p: "protect_page s perms va vm = (r, vm')"
  shows "cow_inv free pend vm' \<and> view vm' = view vm \<and> length (vs_spaces vm') = length (vs_spaces vm)
    \<and> protect_ok s perms vas vm'"
proof (cases "leaf_at vm s va")
  case None
  then show ?thesis using inv ok p by (simp add: protect_page_def protect_ok_def)
next
  case (Some e)
  let ?fl = "to_pte_flags perms"
  let ?want = "flags_contains perms Perms_WRITE"
  obtain fl where vm': "vm' = set_leaf s va ((e AND PTE_FRAME_MASK) OR fl) vm" and nf: "no_frame fl"
    and w: "writable fl \<Longrightarrow> writable e \<or> n_refs vm (frame_of e) + pend (frame_of e) \<le> 1"
    and keep: "?want \<Longrightarrow> writable fl \<or> is_cow fl"
  proof (cases "is_cow e \<and> ?want")
    case cow: True
    show thesis
    proof (cases "frame_ref_count (vs_fa vm) (frame_of e) > 1")
      case True
      have "vm' = set_leaf s va ((e AND PTE_FRAME_MASK)
          OR ((e AND NOT PTE_FRAME_MASK AND NOT PTE_WRITABLE) OR COW_PTE)) vm"
        using p cow True Some by (simp add: protect_page_def Let_def)
      then show thesis
        by (rule that) (simp_all add: writable_or is_cow_or not_writable_keep
            and.assoc [symmetric] no_frame_and no_frame_not del: and.assoc,
            simp_all add: and.assoc not_writable_keep)
    next
      case False
      have "n_refs vm (frame_of e) + pend (frame_of e) \<le> 1"
        by (rule ref_count_small [OF inv]) (use False in \<open>simp add: word_less_nat_alt\<close>)
      moreover have "vm' = set_leaf s va ((e AND PTE_FRAME_MASK) OR (?fl AND NOT COW_PTE)) vm"
        using p cow False Some by (simp add: protect_page_def Let_def)
      ultimately show thesis using cow
        by (intro that [of "?fl AND NOT COW_PTE"]) (simp_all add: no_frame_and writable_to_pte_flags)
    qed
  next
    case False
    then have vm': "vm' = set_leaf s va ((e AND PTE_FRAME_MASK)
        OR (if is_cow e then (?fl AND NOT PTE_WRITABLE) OR COW_PTE else ?fl)) vm"
      using p Some by (auto simp: protect_page_def Let_def)
    show thesis
    proof (cases "is_cow e")
      case True
      then show thesis using vm' False
        by (intro that [of "(?fl AND NOT PTE_WRITABLE) OR COW_PTE"])
           (simp_all add: no_frame_and writable_or not_writable_masked)
    next
      case nc: False
      have "writable e \<or> n_refs vm (frame_of e) + pend (frame_of e) \<le> 1" if "writable ?fl"
        using that ok nc Some ref_count_small [OF inv, of "frame_of e"]
        by (auto simp: protect_ok_def writable_to_pte_flags)
      then show thesis using vm' nc by (intro that [of ?fl]) (simp_all add: writable_to_pte_flags)
    qed
  qed
  note fr = frame_of_restamp [OF nf, of e]
  have w': "writable ((e AND PTE_FRAME_MASK) OR fl) \<longleftrightarrow> writable fl"
    by (simp add: writable_or not_writable_masked)
  have "cow_inv free pend vm'" unfolding vm'
    by (rule cow_inv_reflag [OF inv Some fr]) (simp only: w' w)
  moreover have "protect_ok s perms vas vm'"
    using ok keep unfolding protect_ok_def vm'
    by (auto simp: leaf_at_set_leaf [OF inv leaf_at_len [OF Some]] w' is_cow_or)
  ultimately show ?thesis using view_reflag [OF inv Some fr] by (simp add: vm')
qed

lemma protect_pages_inv:
  assumes "cow_inv free pend vm" "protect_ok s perms vas vm" "protect_pages s perms vas vm = (n, ps, vm')"
  shows "cow_inv free pend vm' \<and> view vm' = view vm \<and> length (vs_spaces vm') = length (vs_spaces vm)"
  using assms
proof (induction vas arbitrary: vm n ps vm')
  case (Cons va vas)
  obtain r vm1 where p: "protect_page s perms va vm = (r, vm1)" by (cases "protect_page s perms va vm")
  obtain n2 ps2 vm2 where q: "protect_pages s perms vas vm1 = (n2, ps2, vm2)"
    by (cases "protect_pages s perms vas vm1")
  from Cons.prems(3) p q have "vm' = vm2" by (simp add: Let_def)
  with protect_page_inv [OF Cons.prems(1,2) p] Cons.IH [OF _ _ q] show ?case by simp
qed simp

lemma view_upd_fa [simp]: "view (upd_fa g vm) = view vm"
  by (simp add: view_def fun_eq_iff)

lemma free_all_simps [simp]:
  "view (free_all bd fs vm) = view vm" "vs_spaces (free_all bd fs vm) = vs_spaces vm"
  "vs_mem (free_all bd fs vm) = vs_mem vm" "leaf_at (free_all bd fs vm) = leaf_at vm"
  by (simp_all add: free_all_def)

context page_mapper
begin

lemma break_pages_inv:
  assumes "cow_inv free pend vm" "break_pages bd s perms vas vm = (freed, vm')"
    "\<forall>va\<in>set vas. va AND NOT 0xfff = va"
  shows "cow_inv free (padd freed pend) vm' \<and> view vm' = view vm
    \<and> length (vs_spaces vm') = length (vs_spaces vm)"
  using assms
proof (induction vas arbitrary: vm freed pend vm')
  case (Cons va vas)
  obtain r vm1 where b: "break_cow bd s va (Some perms) vm = (r, vm1)"
    by (cases "break_cow bd s va (Some perms) vm")
  note inv1 = break_cow_inv [OF Cons.prems(1) b]
  let ?vm2 = "if r = Inr AlreadyWritable then restamp_perms s va perms vm1 else vm1"
  let ?fs = "case r of Inr (Broken old) \<Rightarrow> [old] | _ \<Rightarrow> []"
  obtain freed2 vm3 where q: "break_pages bd s perms vas ?vm2 = (freed2, vm3)"
    by (cases "break_pages bd s perms vas ?vm2")
  have res: "freed = ?fs @ freed2" "vm' = vm3"
    using Cons.prems(2) by (auto simp: b q Let_def split: sum.splits cow_break.splits)
  have inv2: "cow_inv free (padd ?fs pend) ?vm2 \<and> view ?vm2 = view vm
      \<and> length (vs_spaces ?vm2) = length (vs_spaces vm)"
  proof (cases "r = Inr AlreadyWritable \<and> leaf_at vm1 s va \<noteq> None")
    case True
    then obtain e where e: "leaf_at vm1 s va = Some e" "r = Inr AlreadyWritable" by auto
    have "vm1 = vm" "writable e"
      using b e Cons.prems(3)
      by (auto simp: break_cow_def Let_def split: option.splits if_splits)
    have fr: "frame_of ((e AND PTE_FRAME_MASK) OR broken_flags e (Some perms)) = frame_of e"
      by (rule frame_of_restamp) simp
    show ?thesis
      using inv1 cow_inv_reflag [OF inv1(1) e(1) fr] view_reflag [OF inv1(1) e(1) fr] \<open>writable e\<close> e
      by (simp add: restamp_perms_def)
  next
    case False
    then show ?thesis using inv1 by (auto simp: restamp_perms_def)
  qed
  from Cons.IH [OF conjunct1 [OF inv2] q] inv2 Cons.prems(3) show ?case by (simp add: res)
qed simp

end

end
