(* ===== verification/Cow.thy ===== *)
theory Cow
  imports Vm_Space
begin

unbundle bit_operations_syntax

text \<open>
  Isolation of address spaces (\<open>frame/src/mm/vm.rs\<close>): what the operations of \<open>Vm_Space\<close> do to the
  reference invariant and to the memory each process sees, forks and their failure included, and the
  steps of a system made of them.
\<close>

section \<open>Ranges of pages\<close>

lemma page_aligned_iff: "x AND NOT 0xfff = (x :: u64) \<longleftrightarrow> 4096 dvd unat x"
proof -
  have "(NOT 0xfff :: u64) = NOT (mask 12)" by (simp add: mask_eq_exp_minus_1)
  then have "unat (x AND NOT 0xfff) = unat x div 4096 * 4096"
    using unat_align_down [of x 12] by simp
  then show ?thesis
    by (metis dvd_div_mult_self dvd_triv_right word_unat_eq_iff)
qed

lemma aligned_pages:
  assumes "va AND 0xfff = (0 :: u64)"
  shows "(va + of_nat i * 4096) AND NOT 0xfff = va + of_nat i * 4096"
proof -
  have "va = (va AND 0xfff) OR (va AND NOT 0xfff)"
    by (metis bit.conj_disj_distrib bit.disj_cancel_right and.right_neutral)
  then have "4096 dvd unat va" using assms by (simp add: page_aligned_iff [symmetric])
  moreover have "4096 dvd (2 :: nat) ^ 64" by simp
  ultimately show ?thesis
    unfolding page_aligned_iff
    by (simp add: unat_word_ariths dvd_mod)
qed

lemma protect_pages_pending:
  "protect_pages s perms vas vm = (n, ps, vm') \<Longrightarrow> set ps \<subseteq> set vas"
proof (induction vas arbitrary: vm n ps vm')
  case (Cons va vas)
  then show ?case
    by (cases "protect_page s perms va vm"; cases "protect_pages s perms vas (snd (protect_page s perms va vm))")
       (fastforce simp: Let_def split: if_splits)
qed simp

definition page_range :: "u64 \<Rightarrow> nat \<Rightarrow> u64 list" where
  "page_range va pages = map (\<lambda>i. va + of_nat i * 4096) [0..<pages]"

context page_mapper
begin

lemma change_perms_inv:
  assumes "cow_inv free pend vm" "protect_ok s perms (page_range va pages) vm"
  shows "cow_inv free pend (snd (change_perms bd s va pages perms vm))
    \<and> view (snd (change_perms bd s va pages perms vm)) = view vm"
proof (cases "va AND 0xfff = 0")
  case True
  obtain n ps vm1 where p: "protect_pages s perms (page_range va pages) vm = (n, ps, vm1)"
    by (cases "protect_pages s perms (page_range va pages) vm")
  obtain freed vm2 where b: "break_pages bd s perms ps vm1 = (freed, vm2)"
    by (cases "break_pages bd s perms ps vm1")
  have al: "\<forall>a\<in>set ps. a AND NOT 0xfff = a"
    using protect_pages_pending [OF p] aligned_pages [OF True] by (auto simp: page_range_def)
  have i1: "cow_inv free pend vm1" "view vm1 = view vm" using protect_pages_inv [OF assms p] by auto
  have i2: "cow_inv free (padd freed pend) vm2" "view vm2 = view vm1"
    using break_pages_inv [OF i1(1) b al] by auto
  have "snd (change_perms bd s va pages perms vm) = free_all bd freed vm2"
    using p b True by (simp add: change_perms_def page_range_def)
  then show ?thesis using free_all_pend [OF i2(1)] i1(2) i2(2) by simp
qed (use assms in \<open>simp add: change_perms_def\<close>)

lemma unmap_collect_inv:
  assumes "cow_inv free pend vm" "s < length (vs_spaces vm)" "unmap_pages_collect mp s vas vm = (fs, vm')"
  shows "cow_inv free (padd fs pend) vm' \<and> length (vs_spaces vm') = length (vs_spaces vm)
    \<and> vs_mem vm' = vs_mem vm
    \<and> (\<forall>t a. leaf_at vm' t a = (if t = s \<and> a \<in> set vas then None else leaf_at vm t a))"
  using assms
proof (induction vas arbitrary: vm fs vm' pend)
  case (Cons va vas)
  obtain r vm1 where u: "vm_unmap mp s va vm = (r, vm1)" by (cases "vm_unmap mp s va vm")
  obtain fs2 vm2 where q: "unmap_pages_collect mp s vas vm1 = (fs2, vm2)"
    by (cases "unmap_pages_collect mp s vas vm1")
  note law = unmap_pend [OF Cons.prems(1,2), of va, unfolded u fst_conv snd_conv]
  let ?gs = "case leaf_at vm s va of None \<Rightarrow> [] | Some e \<Rightarrow> [frame_of e]"
  have res: "fs = ?gs @ fs2" "vm' = vm2"
    using Cons.prems(3) law(1) by (auto simp: u q Let_def split: option.splits)
  have "s < length (vs_spaces vm1)" using Cons.prems(2) law(5) by simp
  from Cons.IH [OF law(2) this q] show ?case
    using law(3,4,5) by (auto simp: res)
qed simp

lemma unmap_pages_inv:
  assumes "cow_inv free pend vm" "s < length (vs_spaces vm)"
  shows "cow_inv free pend (unmap_pages bd mp s va pages vm)"
    and "view (unmap_pages bd mp s va pages vm) t a =
      (if t = s \<and> va AND 0xfff = 0 \<and> a \<in> set (page_range va pages) then None else view vm t a)"
proof -
  obtain fs vm1 where u: "unmap_pages_collect mp s (page_range va pages) vm = (fs, vm1)"
    by (cases "unmap_pages_collect mp s (page_range va pages) vm")
  note i = unmap_collect_inv [OF assms u]
  have r: "unmap_pages bd mp s va pages vm = (if va AND 0xfff \<noteq> 0 then vm else free_all bd fs vm1)"
    using u by (simp add: unmap_pages_def page_range_def)
  show "cow_inv free pend (unmap_pages bd mp s va pages vm)"
    using assms(1) free_all_pend [OF conjunct1 [OF i]] by (simp add: r)
  show "view (unmap_pages bd mp s va pages vm) t a =
      (if t = s \<and> va AND 0xfff = 0 \<and> a \<in> set (page_range va pages) then None else view vm t a)"
    using i by (simp add: r view_def)
qed

lemma clear_user_inv:
  assumes inv: "cow_inv free pend vm" and s: "s < length (vs_spaces vm)"
  shows "cow_inv free pend (clear_user bd s vm)"
    and "view (clear_user bd s vm) t a = (if t = s then None else view vm t a)"
proof -
  let ?fs = "map (frame_of \<circ> snd) (vs_spaces vm ! s)"
  have cnt: "count_list (map (frame_of \<circ> snd) pt) f = tab_refs pt f" for pt f
    by (induction pt) (auto simp: is_frame_def)
  have "cow_inv free (padd ?fs pend) (vm\<lparr>vs_spaces := (vs_spaces vm)[s := []]\<rparr>)"
    by (rule cow_inv_spaces [OF inv s])
       (use n_refs_upd [OF s, of "[]"] cnt [of "vs_spaces vm ! s"] in \<open>auto simp: padd_def\<close>)
  from free_all_pend [OF this] show "cow_inv free pend (clear_user bd s vm)"
    by (simp add: clear_user_def)
  show "view (clear_user bd s vm) t a = (if t = s then None else view vm t a)"
    using s by (cases "t = s") (simp_all add: clear_user_def view_def leaf_at_def)
qed

end

section \<open>Forking\<close>

lemma leaf_perms_write: "flags_contains (leaf_perms e) Perms_WRITE \<longleftrightarrow> writable e \<or> is_cow e"
  by (cases "e AND PTE_USER = 0"; cases "e AND PTE_NX = 0")
     (simp_all add: leaf_perms_def flags_contains_def kconsts)

lemma set_leaf_upd_fa: "set_leaf s va e (upd_fa g vm) = upd_fa g (set_leaf s va e vm)"
  by (simp add: set_leaf_def upd_fa_def)

lemma no_other_writable:
  assumes "cow_inv free pend vm" "leaf_at vm s va = Some e" "leaf_at vm t a = Some e'" "writable e'"
    "frame_of e' = frame_of e"
  shows "t = s \<and> a = va"
  using leaves_refs2 [OF assms(2,3,5)] cow_invD(3) [OF assms(1,3,4)] assms(5) by force

text \<open>One leaf of the walk: the leaf keeps its frame and loses the right to write, and the walk
  holds one more reference.\<close>

lemma share_leaf:
  assumes inv: "cow_inv free pend vm" and l: "leaf_at vm s va = Some e"
  shows "writable e \<or> is_cow e \<Longrightarrow> cow_inv free (pend(frame_of e := Suc (pend (frame_of e))))
      (set_leaf s va ((e AND NOT PTE_WRITABLE) OR COW_PTE) (upd_fa (frame_ref_inc (frame_of e)) vm))"
    and "\<not> writable e \<Longrightarrow> cow_inv free (pend(frame_of e := Suc (pend (frame_of e))))
      (upd_fa (frame_ref_inc (frame_of e)) vm)"
proof -
  let ?e = "(e AND NOT PTE_WRITABLE) OR COW_PTE"
  have nw: "\<not> writable ?e" by (simp add: writable_or not_writable_masked)
  have inv1: "cow_inv free pend (set_leaf s va ?e vm)"
    by (rule cow_inv_reflag [OF inv l frame_of_cow]) (simp add: nw)
  note ls = leaf_at_set_leaf [OF inv leaf_at_len [OF l], of va ?e]
  have l1: "leaf_at (set_leaf s va ?e vm) s va = Some ?e" by (simp add: ls)
  have "cow_inv free (pend(frame_of e := pend (frame_of e) + 1))
      (upd_fa (frame_ref_inc (frame_of e)) (set_leaf s va ?e vm))"
  proof (rule cow_inv_inc [OF inv1])
    show "0 < n_refs (set_leaf s va ?e vm) (frame_of e) + pend (frame_of e)"
      using leaf_at_refs [OF l1] by (simp add: frame_of_cow)
    show "frame_of e' \<noteq> frame_of e" if "leaf_at (set_leaf s va ?e vm) t a = Some e'" "writable e'" for t a e'
      using that no_other_writable [OF inv l, of t a e'] nw by (auto simp: ls split: if_splits)
  qed
  then show "cow_inv free (pend(frame_of e := Suc (pend (frame_of e))))
      (set_leaf s va ?e (upd_fa (frame_ref_inc (frame_of e)) vm))"
    by (simp add: set_leaf_upd_fa)
  assume ro: "\<not> writable e"
  have "cow_inv free (pend(frame_of e := pend (frame_of e) + 1)) (upd_fa (frame_ref_inc (frame_of e)) vm)"
  proof (rule cow_inv_inc [OF inv])
    show "0 < n_refs vm (frame_of e) + pend (frame_of e)" using leaf_at_refs [OF l] by simp
    show "frame_of e' \<noteq> frame_of e" if "leaf_at vm t a = Some e'" "writable e'" for t a e'
      using no_other_writable [OF inv l that] that(1) l ro that(2) by auto
  qed
  then show "cow_inv free (pend(frame_of e := Suc (pend (frame_of e)))) (upd_fa (frame_ref_inc (frame_of e)) vm)"
    by simp
qed

definition frame_at :: "'b vm_state \<Rightarrow> nat \<Rightarrow> u64 \<Rightarrow> nat option" where
  "frame_at vm s va = map_option frame_of (leaf_at vm s va)"

lemma frame_at_simps [simp]:
  "frame_at (upd_fa g vm) = frame_at vm" "frame_at (vm\<lparr>vs_mem := m\<rparr>) = frame_at vm"
  "frame_at (vm\<lparr>vs_fa := fa\<rparr>) = frame_at vm"
  by (simp_all add: frame_at_def fun_eq_iff)

lemma view_frame_at: "view vm s va = map_option (vs_mem vm) (frame_at vm s va)"
  by (simp add: view_def frame_at_def option.map_comp comp_def)

text \<open>The references the walk hands on: copy-on-write leaves first, then the deferred ones.\<close>

definition cow_pairs :: "cow_list \<Rightarrow> (u64 \<times> nat) list" where
  "cow_pairs cs = map (\<lambda>(va, f, _). (va, f)) cs"

definition def_pairs :: "deferred \<Rightarrow> (u64 \<times> nat) list" where
  "def_pairs ds = map (\<lambda>(va, f, _, _). (va, f)) ds"

definition walk_pairs :: "leaves \<Rightarrow> cow_list \<Rightarrow> deferred \<Rightarrow> (u64 \<times> nat) set" where
  "walk_pairs ls cs ds = (\<lambda>(va, e). (va, frame_of e)) ` set ls \<union> set (cow_pairs cs) \<union> set (def_pairs ds)"

definition ro_share :: "deferred \<Rightarrow> bool" where
  "ro_share ds \<longleftrightarrow> (\<forall>(_, _, p, k)\<in>set ds. k = ReadonlyShare \<and> \<not> flags_contains p Perms_WRITE)"

lemma pairs_simps [simp]:
  "cow_pairs [] = []" "cow_pairs ((va, f, p) # cs) = (va, f) # cow_pairs cs"
  "cow_pairs (cs @ cs') = cow_pairs cs @ cow_pairs cs'"
  "def_pairs [] = []" "def_pairs ((va, f, p, k) # ds) = (va, f) # def_pairs ds"
  "def_pairs (ds @ ds') = def_pairs ds @ def_pairs ds'"
  "ro_share []" "ro_share ((va, f, p, k) # ds)
    \<longleftrightarrow> (k = ReadonlyShare \<and> \<not> flags_contains p Perms_WRITE) \<and> ro_share ds"
  "ro_share (ds @ ds') \<longleftrightarrow> ro_share ds \<and> ro_share ds'"
  by (simp_all add: cow_pairs_def def_pairs_def ro_share_def ball_Un)

context page_mapper
begin

lemma fork_walk_inv:
  assumes "cow_inv free (padd (map snd (cow_pairs cows @ def_pairs defs)) pend) vm"
    and "\<forall>(va, e)\<in>set rest. leaf_at vm s va = Some e" "distinct (map fst rest)" "ro_share defs"
    and "fork_walk bd s [] rest cows defs vm = (err, cows', defs', vm')"
  shows "err = None \<and> cow_inv free (padd (map snd (cow_pairs cows' @ def_pairs defs')) pend) vm'
    \<and> vs_mem vm' = vs_mem vm \<and> length (vs_spaces vm') = length (vs_spaces vm)
    \<and> ro_share defs' \<and> frame_at vm' = frame_at vm
    \<and> (\<forall>a e. leaf_at vm s a = Some e \<and> \<not> writable e \<and> \<not> is_cow e \<longrightarrow> leaf_at vm' s a = Some e)
    \<and> walk_pairs [] cows' defs' = walk_pairs rest cows defs"
  using assms
proof (induction rest arbitrary: cows defs vm)
  case (Cons x rest)
  obtain va e where x: "x = (va, e)" by (cases x)
  let ?f = "frame_of e"
  let ?pend = "padd (map snd (cow_pairs cows @ def_pairs defs)) pend"
  have l: "leaf_at vm s va = Some e" using Cons.prems(2) by (simp add: x)
  note tracked = ref_count_pos [OF Cons.prems(1) l]
  have pend1: "padd (map snd (cow_pairs (cows @ [(va, ?f, p)]) @ def_pairs defs)) pend
        = ?pend(?f := Suc (?pend ?f))"
      "padd (map snd (cow_pairs cows @ def_pairs (defs @ [(va, ?f, p, k)]))) pend
        = ?pend(?f := Suc (?pend ?f))" for p k
    by (auto simp: padd_def fun_eq_iff)
  show ?case
  proof (cases "writable e \<or> is_cow e")
    case True
    let ?e = "(e AND NOT PTE_WRITABLE) OR COW_PTE"
    let ?vm1 = "set_leaf s va ?e (upd_fa (frame_ref_inc ?f) vm)"
    have down: "downgrade_leaf_to_cow_and_inc s va ?f vm = (True, ?vm1)"
      using l by (simp add: downgrade_leaf_to_cow_and_inc_def)
    have ls: "leaf_at ?vm1 t a = (if t = s \<and> a = va then Some ?e else leaf_at vm t a)" for t a
      using leaf_at_set_leaf [OF Cons.prems(1) leaf_at_len [OF l], of va ?e t a]
      by (simp add: set_leaf_upd_fa)
    have walk: "fork_walk bd s [] rest (cows @ [(va, ?f, leaf_perms e)]) defs ?vm1 = (err, cows', defs', vm')"
      using Cons.prems(5) True tracked down by (simp add: x Let_def leaf_perms_write)
    have inv1: "cow_inv free (padd (map snd (cow_pairs (cows @ [(va, ?f, leaf_perms e)]) @ def_pairs defs)) pend) ?vm1"
      unfolding pend1 by (rule share_leaf(1) [OF Cons.prems(1) l True])
    have rest: "\<forall>(va, e)\<in>set rest. leaf_at ?vm1 s va = Some e"
      using Cons.prems(2,3) by (force simp: x ls)
    have "frame_at ?vm1 = frame_at vm" using l by (auto simp: frame_at_def ls frame_of_cow fun_eq_iff)
    moreover have "length (vs_spaces ?vm1) = length (vs_spaces vm)" "vs_mem ?vm1 = vs_mem vm" by simp_all
    moreover have "\<forall>a e. leaf_at vm s a = Some e \<and> \<not> writable e \<and> \<not> is_cow e
        \<longrightarrow> leaf_at ?vm1 s a = Some e"
      using l True by (auto simp: ls)
    ultimately show ?thesis
      using Cons.IH [OF inv1 rest _ Cons.prems(4) walk] Cons.prems(3)
      by (simp add: x walk_pairs_def)
  next
    case False
    let ?vm1 = "upd_fa (frame_ref_inc ?f) vm"
    have walk: "fork_walk bd s [] rest cows (defs @ [(va, ?f, leaf_perms e, ReadonlyShare)]) ?vm1
        = (err, cows', defs', vm')"
      using Cons.prems(5) False tracked by (simp add: x Let_def leaf_perms_write)
    have inv1: "cow_inv free (padd (map snd (cow_pairs cows @ def_pairs (defs @ [(va, ?f, leaf_perms e, ReadonlyShare)]))) pend) ?vm1"
      unfolding pend1 by (rule share_leaf(2) [OF Cons.prems(1) l]) (use False in simp)
    have "ro_share (defs @ [(va, ?f, leaf_perms e, ReadonlyShare)])"
      using Cons.prems(4) False by (simp add: ro_share_def leaf_perms_write)
    then show ?thesis
      using Cons.IH [OF inv1 _ _ _ walk] Cons.prems(2,3) by (simp add: x walk_pairs_def)
  qed
qed (simp add: walk_pairs_def)

end

text \<open>What installing a list of pairs in the child does.\<close>

definition installs :: "nat \<Rightarrow> (u64 \<times> nat) list \<Rightarrow> 'b vm_state \<Rightarrow> 'b vm_state \<Rightarrow> bool" where
  "installs c ps vm vm' \<longleftrightarrow> vs_mem vm' = vs_mem vm \<and> length (vs_spaces vm') = length (vs_spaces vm)
    \<and> (\<forall>t a. frame_at vm' t a = (if t = c \<and> map_of ps a \<noteq> None then map_of ps a else frame_at vm t a))
    \<and> (\<forall>a. map_of ps a \<noteq> None \<longrightarrow> frame_at vm c a = None)
    \<and> (\<forall>t. t \<noteq> c \<longrightarrow> leaf_at vm' t = leaf_at vm t)"

lemma installs_Nil [simp]: "installs c [] vm vm' \<longleftrightarrow> vs_mem vm' = vs_mem vm
    \<and> length (vs_spaces vm') = length (vs_spaces vm) \<and> frame_at vm' = frame_at vm
    \<and> (\<forall>t. t \<noteq> c \<longrightarrow> leaf_at vm' t = leaf_at vm t)"
  by (auto simp: installs_def fun_eq_iff)

lemma installs_Cons:
  assumes "installs c [(va, f)] vm vm1" "installs c ps vm1 vm2"
  shows "installs c ((va, f) # ps) vm vm2"
  using assms by (auto simp: installs_def split: if_splits)

lemma installs_append:
  assumes "installs c ps vm vm1" "installs c qs vm1 vm2"
  shows "installs c (ps @ qs) vm vm2"
  using assms unfolding installs_def
  by (auto simp: map_add_def split: option.splits)

context page_mapper
begin

lemma install_one:
  assumes inv: "cow_inv free (pend(f := Suc (pend f))) vm" and c: "c < length (vs_spaces vm)"
    and m: "map_one_frame_fork_anon mp c va f perms cow vm = (None, vm')"
    and ro: "cow \<or> \<not> flags_contains perms Perms_WRITE"
  shows "cow_inv free pend vm' \<and> installs c [(va, f)] vm vm'"
proof -
  let ?fl = "if cow then (to_pte_flags perms AND NOT PTE_WRITABLE) OR COW_PTE else to_pte_flags perms"
  have "f < length (fa_refcounts (vs_fa vm))"
    using cow_invD(2) [OF inv, of f] by (auto simp: counted_def)
  then have "f < 2 ^ 40" using cow_invD(4) [OF inv] by simp
  then have fo: "frame_of (pte f ?fl) = f" by (rule frame_of_pte) (simp add: no_frame_and)
  have nw: "\<not> writable (pte f ?fl)"
    using ro by (auto simp: writable_pte writable_or not_writable_masked writable_to_pte_flags)
  have m': "vm_map_to mp c va (pte f ?fl) vm = (None, vm')"
    using m by (simp add: map_one_frame_fork_anon_def)
  note ok = vm_map_to_ok [OF inv m' c, unfolded fo]
  have len: "length (vs_spaces vm') = length (vs_spaces vm)" using ok(4) nw by simp
  have l: "leaf_at vm' t a = (if t = c \<and> a = va then Some (pte f ?fl) else leaf_at vm t a)" for t a
    using ok(4) nw c map_of_om_insert [OF cow_invD(1) [OF inv c], of va "pte f ?fl"]
    by (cases "t = c") (auto simp: leaf_at_def)
  have "installs c [(va, f)] vm vm'"
    using ok(2,3) nw fo l len by (auto simp: installs_def frame_at_def)
  moreover have "cow_inv free pend vm'" using ok(1) nw by simp
  ultimately show ?thesis by simp
qed

lemma install_deferred_inv:
  assumes "cow_inv free (padd (map snd (def_pairs ds)) pend) vm" "c < length (vs_spaces vm)" "ro_share ds"
    and "install_deferred mp c ds sh ins vm = (None, sh', ins', vm')"
  shows "cow_inv free pend vm' \<and> installs c (def_pairs ds) vm vm'"
  using assms
proof (induction ds arbitrary: sh ins vm)
  case (Cons d ds)
  obtain va f p k where d: "d = (va, f, p, k)" by (cases d)
  have k: "k = ReadonlyShare" "\<not> flags_contains p Perms_WRITE" "ro_share ds"
    using Cons.prems(3) by (simp_all add: d)
  obtain r vm1 where m: "map_one_frame_fork_anon mp c va f p False vm = (r, vm1)"
    by (cases "map_one_frame_fork_anon mp c va f p False vm")
  have r: "r = None" "install_deferred mp c ds sh (ins @ [(va, f)]) vm1 = (None, sh', ins', vm')"
    using Cons.prems(4) m k(1) by (auto simp: d split: option.splits)
  let ?pend = "padd (map snd (def_pairs ds)) pend"
  have "padd (map snd (def_pairs (d # ds))) pend = ?pend(f := Suc (?pend f))"
    by (auto simp: d padd_def fun_eq_iff)
  note inv = Cons.prems(1) [unfolded this]
  from install_one [OF inv Cons.prems(2) m [unfolded r(1)]] k(2)
  have one: "cow_inv free ?pend vm1" "installs c [(va, f)] vm vm1" by simp_all
  have "c < length (vs_spaces vm1)" using one(2) Cons.prems(2) by (simp add: installs_def)
  from Cons.IH [OF one(1) this k(3) r(2)] one(2) show ?case
    by (simp add: d installs_Cons)
qed simp

lemma finish_cow_inv:
  assumes "cow_inv free (padd (map snd (cow_pairs cs)) pend) vm" "c < length (vs_spaces vm)"
    and "finish_cow_clone mp c cs n vm = (None, vm')"
  shows "cow_inv free pend vm' \<and> installs c (cow_pairs cs) vm vm'"
  using assms
proof (induction cs arbitrary: n vm)
  case (Cons d cs)
  obtain va f p where d: "d = (va, f, p)" by (cases d)
  obtain r vm1 where m: "map_one_frame_fork_anon mp c va f p True vm = (r, vm1)"
    by (cases "map_one_frame_fork_anon mp c va f p True vm")
  have r: "r = None" "finish_cow_clone mp c cs (n + 1) vm1 = (None, vm')"
    using Cons.prems(3) m by (auto simp: d split: option.splits)
  let ?pend = "padd (map snd (cow_pairs cs)) pend"
  have "padd (map snd (cow_pairs (d # cs))) pend = ?pend(f := Suc (?pend f))"
    by (auto simp: d padd_def fun_eq_iff)
  note inv = Cons.prems(1) [unfolded this]
  from install_one [OF inv Cons.prems(2) m [unfolded r(1)]]
  have one: "cow_inv free ?pend vm1" "installs c [(va, f)] vm vm1" by simp_all
  have "c < length (vs_spaces vm1)" using one(2) Cons.prems(2) by (simp add: installs_def)
  from Cons.IH [OF one(1) this r(2)] one(2) show ?case by (simp add: d installs_Cons)
qed simp

end

lemma cow_inv_new_space:
  assumes "cow_inv free pend vm"
  shows "cow_inv free pend (vm\<lparr>vs_spaces := vs_spaces vm @ [[]]\<rparr>)"
    and "leaf_at (vm\<lparr>vs_spaces := vs_spaces vm @ [[]]\<rparr>) = leaf_at vm"
proof -
  show l: "leaf_at (vm\<lparr>vs_spaces := vs_spaces vm @ [[]]\<rparr>) = leaf_at vm"
    by (auto simp: leaf_at_def nth_append fun_eq_iff)
  show "cow_inv free pend (vm\<lparr>vs_spaces := vs_spaces vm @ [[]]\<rparr>)"
    using assms by (auto simp: cow_inv_def l n_refs_def)
qed

text \<open>Giving up the record of a reference that no leaf needs.\<close>

lemma cow_inv_forget:
  assumes inv: "cow_inv free (pend(f := k)) vm" and f: "n_refs vm f = 0" "pend f \<le> k"
  shows "cow_inv free pend vm"
  unfolding cow_inv_def
proof (intro conjI allI impI)
  show "counted free (vs_fa vm) g (n_refs vm g + pend g)" for g
    using cow_invD(2) [OF inv, of g] f by (cases "g = f") (auto simp: counted_def)
  show "n_refs vm (frame_of e) + pend (frame_of e) = 1"
    if "leaf_at vm s va = Some e \<and> writable e" for s va e
    using cow_invD(3) [OF inv, of s va e] leaf_at_refs [of vm s va e] that f(1) by (auto split: if_splits)
qed (use inv in \<open>auto simp: cow_inv_def\<close>)

lemma map_of_functional:
  assumes "\<And>f'. (a, f') \<in> set ps \<Longrightarrow> f' = g a" 
  shows "map_of ps a = (if \<exists>f'. (a, f') \<in> set ps then Some (g a) else None)"
proof (cases "map_of ps a")
  case None
  then show ?thesis by (force simp: map_of_eq_None_iff)
next
  case (Some f')
  then show ?thesis using assms map_of_SomeD [OF Some] by auto
qed

lemma n_refs_leaf:
  assumes "cow_inv free pend vm" "0 < n_refs vm f"
  obtains t a e where "leaf_at vm t a = Some e" "frame_of e = f"
proof -
  have "\<not> (\<forall>n\<in>set (map (\<lambda>pt. tab_refs pt f) (vs_spaces vm)). n = 0)"
    using assms(2) unfolding n_refs_def by (simp only: sum_list_eq_0_iff [symmetric])
  then obtain t where t: "t < length (vs_spaces vm)" "0 < tab_refs (vs_spaces vm ! t) f"
    by (auto simp: in_set_conv_nth)
  then obtain x where x: "x \<in> set (vs_spaces vm ! t)" "frame_of (snd x) = f"
    by (auto simp: tab_refs_def filter_empty_conv)
  have "map_of (vs_spaces vm ! t) (fst x) = Some (snd x)"
    using x(1) om_wf_distinct [OF cow_invD(1) [OF assms(1) t(1)]] by simp
  then show thesis using t(1) x(2) by (intro that [of t "fst x" "snd x"]) (simp_all add: leaf_at_def)
qed

lemma pairs_of_leaves:
  assumes "set ps = (\<lambda>(va, e). (va, frame_of e)) ` set pt" "distinct (map fst pt)"
  shows "map_of ps x = map_option frame_of (map_of pt x)"
proof -
  have iff: "(x, f) \<in> set ps \<longleftrightarrow> (\<exists>e. map_of pt x = Some e \<and> f = frame_of e)" for f
    using assms(2) by (force simp: assms(1) map_of_eq_Some_iff)
  show ?thesis
    using map_of_functional [of x ps "\<lambda>x. frame_of (the (map_of pt x))"] iff
    by (cases "map_of pt x") auto
qed

context page_mapper
begin

lemma fork_phases:
  assumes inv: "cow_inv free pend vm" and s: "s < length (vs_spaces vm)"
    and fork: "clone_user_half bd mp s [] vm = (Inr (c, sh), vm')"
  obtains f0 vm1 ps where "n_refs vm f0 = 0" "pend f0 = 0" "cow_inv free (pend(f0 := 1)) vm'"
    "c = length (vs_spaces vm)" "installs c ps vm1 vm'" "frame_at vm1 = frame_at vm" "vs_mem vm1 = vs_mem vm"
    "length (vs_spaces vm1) = Suc c" "set ps = (\<lambda>(va, e). (va, frame_of e)) ` set (vs_spaces vm ! s)"
    "\<And>a e. leaf_at vm s a = Some e \<Longrightarrow> \<not> writable e \<Longrightarrow> \<not> is_cow e \<Longrightarrow> leaf_at vm1 s a = Some e"
proof -
  obtain f0 fa0 where al: "alloc_frame bd (vs_fa vm) = Some (f0, fa0)"
    using fork by (cases "alloc_frame bd (vs_fa vm)") (auto simp: clone_user_half_def new_user_def)
  let ?c = "length (vs_spaces vm)"
  let ?vm0 = "vm\<lparr>vs_fa := fa0, vs_spaces := vs_spaces vm @ [[]]\<rparr>"
  let ?pt = "vs_spaces vm ! s"
  note a0 = alloc_pend [OF inv al]
  have inv0: "cow_inv free (pend(f0 := 1)) ?vm0" and l0: "leaf_at ?vm0 = leaf_at vm"
    using cow_inv_new_space [OF a0(1)] by simp_all
  have nu: "new_user bd vm = Some (?c, ?vm0)" by (simp add: new_user_def al)
  obtain err cows defs vm1 where w: "fork_walk bd s [] ?pt [] [] ?vm0 = (err, cows, defs, vm1)"
    by (cases "fork_walk bd s [] ?pt [] [] ?vm0")
  have dist: "distinct (map fst ?pt)" by (rule om_wf_distinct [OF cow_invD(1) [OF inv s]])
  then have leaves: "\<forall>(va, e)\<in>set ?pt. leaf_at ?vm0 s va = Some e"
    using s by (auto simp: l0 leaf_at_def)
  have i0: "cow_inv free (padd (map snd (cow_pairs [] @ def_pairs [])) (pend(f0 := 1))) ?vm0"
    using inv0 by simp
  have "ro_share []" by simp
  note walk = fork_walk_inv [OF i0 leaves dist this w]
  obtain r2 sh2 ins2 vm2 where d: "install_deferred mp ?c defs [] [] vm1 = (r2, sh2, ins2, vm2)"
    by (cases "install_deferred mp ?c defs [] [] vm1")
  obtain r3 vm3 where fi: "finish_cow_clone mp ?c cows 0 vm2 = (r3, vm3)"
    by (cases "finish_cow_clone mp ?c cows 0 vm2")
  have r: "r2 = None" "r3 = None" "vm' = vm3" "c = ?c"
    using fork s walk by (auto simp: clone_user_half_def nu w d fi nth_append split: option.splits)
  have inv1: "cow_inv free (padd (map snd (def_pairs defs)) (padd (map snd (cow_pairs cows)) (pend(f0 := 1)))) vm1"
    and len1: "?c < length (vs_spaces vm1)" "ro_share defs" using walk by simp_all
  have two: "cow_inv free (padd (map snd (cow_pairs cows)) (pend(f0 := 1))) vm2"
      "installs ?c (def_pairs defs) vm1 vm2"
    using install_deferred_inv [OF inv1 len1 d [unfolded r(1)]] by auto
  have len2: "?c < length (vs_spaces vm2)" using two(2) len1 by (simp add: installs_def)
  have three: "cow_inv free (pend(f0 := 1)) vm3" "installs ?c (cow_pairs cows) vm2 vm3"
    using finish_cow_inv [OF two(1) len2 fi [unfolded r(2)]] by auto
  have "frame_at vm1 = frame_at vm" using walk by (simp add: frame_at_def l0 fun_eq_iff)
  then show thesis
    using walk installs_append [OF two(2) three(2)] three(1) a0(2,3)
    by (intro that [of f0 "def_pairs defs @ cow_pairs cows" vm1]) (auto simp: r walk_pairs_def l0)
qed

lemma fork_inv:
  assumes inv: "cow_inv free pend vm" and s: "s < length (vs_spaces vm)"
    and fork: "clone_user_half bd mp s [] vm = (Inr (c, sh), vm')"
  shows "cow_inv free pend vm'" "c = length (vs_spaces vm)"
    "length (vs_spaces vm') = Suc (length (vs_spaces vm))"
    "view vm' t a = (if t = c then view vm s a else view vm t a)"
    "leaf_at vm s a = Some e \<Longrightarrow> \<not> writable e \<Longrightarrow> \<not> is_cow e \<Longrightarrow> leaf_at vm' s a = Some e"
    "frame_at vm' c a = frame_at vm s a"
proof -
  obtain f0 vm1 ps where f0: "n_refs vm f0 = 0" "pend f0 = 0" "cow_inv free (pend(f0 := 1)) vm'"
    and c: "c = length (vs_spaces vm)" and inst: "installs c ps vm1 vm'" "frame_at vm1 = frame_at vm"
      "vs_mem vm1 = vs_mem vm" "length (vs_spaces vm1) = Suc c"
    and ps: "set ps = (\<lambda>(va, e). (va, frame_of e)) ` set (vs_spaces vm ! s)"
    and ro: "\<And>a e. leaf_at vm s a = Some e \<Longrightarrow> \<not> writable e \<Longrightarrow> \<not> is_cow e
      \<Longrightarrow> leaf_at vm1 s a = Some e"
    by (rule fork_phases [OF assms]) (rule that)
  show "leaf_at vm' s a = Some e" if "leaf_at vm s a = Some e" "\<not> writable e" "\<not> is_cow e"
    using ro [OF that] inst s by (auto simp: installs_def c)
  show "c = length (vs_spaces vm)" by (rule c)
  show "length (vs_spaces vm') = Suc (length (vs_spaces vm))" using inst by (simp add: installs_def c)
  have "map_of ps x = frame_at vm s x" for x
    using pairs_of_leaves [OF ps om_wf_distinct [OF cow_invD(1) [OF inv s]]] s
    by (simp add: frame_at_def leaf_at_def)
  moreover have "frame_at vm c x = None" for x by (simp add: frame_at_def leaf_at_def c)
  ultimately have fr: "frame_at vm' t x = (if t = c then frame_at vm s x else frame_at vm t x)" for t x
    using inst by (auto simp: installs_def)
  show "frame_at vm' c a = frame_at vm s a" by (simp add: fr)
  have "vs_mem vm' = vs_mem vm" using inst by (simp add: installs_def)
  then show "view vm' t a = (if t = c then view vm s a else view vm t a)"
    by (simp add: view_frame_at fr)
  have "n_refs vm' f0 = 0"
  proof (rule ccontr)
    assume "n_refs vm' f0 \<noteq> 0"
    then obtain t a e where "leaf_at vm' t a = Some e" "frame_of e = f0"
      using n_refs_leaf [OF f0(3), of f0] by auto
    then have "frame_at vm' t a = Some f0" by (simp add: frame_at_def)
    then obtain t' where "frame_at vm t' a = Some f0" by (auto simp: fr split: if_splits)
    then show False using leaf_at_refs f0(1) by (force simp: frame_at_def)
  qed
  then show "cow_inv free pend vm'" using cow_inv_forget [OF f0(3)] f0(2) by simp
qed

end

section \<open>Demand paging and writes\<close>

text \<open>\<open>fault_in_page\<close> (\<open>kernel/src/mm/mmap_fault.rs\<close>) for a private anonymous area, after its
  checks. The first part takes a zeroed frame; the second enters it with the permissions the area
  has when it is looked up again under the lock, \<open>None\<close> if it is no longer the same kind of area or
  forbids the access. The frame is given back when it could not be entered or the page turned out to
  be mapped already. Memory charges, fault counters, the killing of a process that runs out of
  memory, and the branches for file and segment pages are left out.\<close>

definition fault_install ::
  "'b buddy_ops \<Rightarrow> 'b mapper \<Rightarrow> nat \<Rightarrow> u64 \<Rightarrow> nat \<Rightarrow> u32 option \<Rightarrow> 'b vm_state \<Rightarrow> bool \<times> 'b vm_state" where
  "fault_install bd mp s page_addr f install_prot vm =
    (case install_prot of
       None \<Rightarrow> (False, upd_fa (free_frame bd f) vm)
     | Some prot \<Rightarrow>
         (case map_one_frame mp s page_addr f prot vm of
            (None, vm1) \<Rightarrow> (True, vm1)
          | (Some AlreadyMapped, vm1) \<Rightarrow> (True, upd_fa (free_frame bd f) vm1)
          | (Some _, vm1) \<Rightarrow> (False, upd_fa (free_frame bd f) vm1)))"

definition fault_in_anon ::
  "'b buddy_ops \<Rightarrow> 'b mapper \<Rightarrow> nat \<Rightarrow> u64 \<Rightarrow> u32 option \<Rightarrow> 'b vm_state \<Rightarrow> bool \<times> 'b vm_state" where
  "fault_in_anon bd mp s page_addr install_prot vm =
    (case alloc_frame bd (vs_fa vm) of
       None \<Rightarrow> (False, vm)
     | Some (f, fa) \<Rightarrow>
         let vm1 = zero_frame f (vm\<lparr>vs_fa := fa\<rparr>) in
         if page_addr AND 0xfff \<noteq> 0 then (False, upd_fa (free_frame bd f) vm1)
         else fault_install bd mp s page_addr f install_prot vm1)"

text \<open>A store by a process: it goes through a writable leaf and replaces the page's contents.\<close>

definition user_write :: "nat \<Rightarrow> u64 \<Rightarrow> bytes \<Rightarrow> 'b vm_state \<Rightarrow> 'b vm_state option" where
  "user_write s va bs vm =
    (case leaf_at vm s va of
       Some e \<Rightarrow> if writable e then Some (vm\<lparr>vs_mem := (vs_mem vm)(frame_of e := bs)\<rparr>) else None
     | None \<Rightarrow> None)"

lemma leaf_at_mem [simp]: "leaf_at (vm\<lparr>vs_mem := m\<rparr>) = leaf_at vm"
  by (simp add: leaf_at_def fun_eq_iff)

lemma zero_frame_spaces [simp]:
  "vs_spaces (zero_frame f vm) = vs_spaces vm" "leaf_at (zero_frame f vm) = leaf_at vm"
  "n_refs (zero_frame f vm) = n_refs vm"
  by (simp_all add: zero_frame_def leaf_at_def n_refs_def fun_eq_iff)

lemma user_write_view:
  assumes inv: "cow_inv free pend vm" and w: "user_write s va bs vm = Some vm'"
  shows "view vm' t a = (if t = s \<and> a = va then Some bs else view vm t a)"
proof -
  obtain e where l: "leaf_at vm s va = Some e" "writable e"
    and vm': "vm' = vm\<lparr>vs_mem := (vs_mem vm)(frame_of e := bs)\<rparr>"
    using w by (auto simp: user_write_def split: option.splits if_splits)
  have ls: "leaf_at vm' = leaf_at vm" by (simp add: vm' leaf_at_def fun_eq_iff)
  show ?thesis
  proof (cases "leaf_at vm t a")
    case None
    then show ?thesis using l(1) by (auto simp: view_def ls)
  next
    case (Some e')
    then show ?thesis
      using no_other_writable [OF inv Some l] l(1) by (auto simp: view_def ls vm')
  qed
qed

lemma user_write_inv:
  "cow_inv free pend vm \<Longrightarrow> user_write s va bs vm = Some vm' \<Longrightarrow> cow_inv free pend vm'"
  by (auto simp: user_write_def split: option.splits if_splits)

context page_mapper
begin

lemma view_zero:
  assumes "n_refs vm f = 0"
  shows "view (zero_frame f (vm\<lparr>vs_fa := fa\<rparr>)) = view vm"
proof (intro ext)
  fix t a
  have "leaf_at (zero_frame f (vm\<lparr>vs_fa := fa\<rparr>)) t a = leaf_at vm t a"
    by (simp add: leaf_at_def zero_frame_def)
  then show "view (zero_frame f (vm\<lparr>vs_fa := fa\<rparr>)) t a = view vm t a"
    using assms leaf_at_refs [of vm t a]
    by (cases "leaf_at vm t a") (auto simp: view_def zero_frame_def)
qed

lemma fault_in_anon_inv:
  assumes inv: "cow_inv free pend vm" and s: "s < length (vs_spaces vm)"
    and r: "fault_in_anon bd mp s va install_prot vm = (ok, vm')"
  shows "cow_inv free pend vm' \<and> length (vs_spaces vm') = length (vs_spaces vm)
    \<and> (\<forall>t a. view vm' t a = view vm t a \<or> (t = s \<and> a = va \<and> view vm s va = None
          \<and> view vm' s va = Some (replicate 4096 0)))"
proof (cases "alloc_frame bd (vs_fa vm)")
  case (Some fr)
  obtain f fa where a: "alloc_frame bd (vs_fa vm) = Some (f, fa)" using Some by (cases fr) auto
  let ?vm1 = "zero_frame f (vm\<lparr>vs_fa := fa\<rparr>)"
  let ?prot = "the install_prot"
  let ?e = "pte f (to_pte_flags ?prot)"
  note al = alloc_pend [OF inv a]
  have inv1: "cow_inv free (pend(f := 1)) ?vm1" using al(1) by simp
  have fe: "frame_of ?e = f" using al(4) by (simp add: frame_of_pte)
  have undo: "cow_inv free pend (upd_fa (free_frame bd f) vm2)" if "cow_inv free (pend(f := 1)) vm2" for vm2
    using free_pend [OF that, of f] al(3) by (simp add: fun_upd_idem)
  have len1: "s < length (vs_spaces ?vm1)" "length (vs_spaces ?vm1) = length (vs_spaces vm)"
    using s by (simp_all add: zero_frame_def)
  obtain e2 vm2 where m: "map_one_frame mp s va f ?prot ?vm1 = (e2, vm2)"
    by (cases "map_one_frame mp s va f ?prot ?vm1")
  note m' = m [unfolded map_one_frame_def]
  have "vm' = upd_fa (free_frame bd f) ?vm1 \<or> (\<exists>x. e2 = Some x \<and> vm' = upd_fa (free_frame bd f) vm2)
      \<or> e2 = None \<and> vm' = vm2"
    using r m by (cases e2; cases install_prot; cases "va AND 0xfff = 0")
      (simp_all add: fault_in_anon_def fault_install_def Let_def a split: map_error.splits)
  then consider (mis) "vm' = upd_fa (free_frame bd f) ?vm1"
    | (err) x where "e2 = Some x" "vm' = upd_fa (free_frame bd f) vm2"
    | (ok) "e2 = None" "vm' = vm2"
    by blast
  then show ?thesis
  proof cases
    case mis
    then show ?thesis using undo [OF inv1] view_zero [OF al(2)] len1 by simp
  next
    case err
    note e = vm_map_to_err [OF inv1 m' [unfolded err(1)]]
    have "view vm2 = view ?vm1" unfolding view_def leaf_at_def e ..
    then show ?thesis using undo [OF e(1)] view_zero [OF al(2)] e(2) len1 err(2) by simp
  next
    case ok
    have n1: "n_refs ?vm1 f = 0" using al(2) by (simp add: zero_frame_def)
    note k = vm_map_to_ok [OF inv1 m' [unfolded ok(1)] len1(1), unfolded fe]
    have i: "cow_inv free pend vm2" using k(1) n1 al(3) by (simp add: fun_upd_idem)
    have l: "leaf_at vm2 t a = (if t = s \<and> a = va then Some ?e else leaf_at ?vm1 t a)" for t a
      using k(4) n1 len1 map_of_om_insert [OF cow_invD(1) [OF inv1 len1(1)]]
      by (cases "t = s") (simp_all add: leaf_at_def)
    have "vs_mem vm2 = vs_mem ?vm1" "leaf_at ?vm1 s va = None" using k(2,3) n1 by simp_all
    then have v: "view vm2 t a = (if t = s \<and> a = va then Some (replicate 4096 0) else view vm t a)"
      "view vm s va = None" for t a
      using fe unfolding view_zero [OF al(2), of fa, symmetric] view_def l
      by (simp_all add: zero_frame_def)
    have "length (vs_spaces vm') = length (vs_spaces vm)" using ok(2) k(4) n1 by simp
    then show ?thesis using i unfolding ok(2) by (simp add: v)
  qed
qed (use inv r in \<open>auto simp: fault_in_anon_def\<close>)

end

section \<open>A concrete page table\<close>

text \<open>A mapper that takes one frame for the tables of an address space when its first page is
  mapped, and fails when there is none.\<close>

definition table_mapper :: "nat list mapper" where
  "table_mapper = \<lparr>
     mp_map_to = (\<lambda>va e pt fa.
        if map_of pt va \<noteq> None then (Some AlreadyMapped, pt, fa)
        else if pt = [] then
          (case alloc_frame flist_ops fa of
             None \<Rightarrow> (Some OutOfFrames, pt, fa)
           | Some (_, fa') \<Rightarrow> (None, om_insert va e pt, fa'))
        else (None, om_insert va e pt, fa)),
     mp_unmap = (\<lambda>va pt. case map_of pt va of
        None \<Rightarrow> None | Some e \<Rightarrow> Some (frame_of e, om_remove va pt))\<rparr>"

lemma takes_refl [simp]: "takes free fa fa"
  by (simp add: takes_def)

lemma takes_alloc:
  assumes "alloc_frame flist_ops fa = Some (f, fa')"
  shows "takes set fa fa'"
  unfolding takes_def fl.alloc_frame_law(2,3) [OF assms] using fl.alloc_frame_law(1) [OF assms]
  by (auto intro!: nth_list_update_neq)

interpretation tm: page_mapper flist_ops set table_mapper
proof
  fix va e pt fa err pt' fa'
  show "map_of pt va = None \<and> pt' = om_insert va e pt \<and> takes set fa fa'"
    if "mp_map_to table_mapper va e pt fa = (None, pt', fa')"
    using that by (auto simp: table_mapper_def dest: takes_alloc split: if_splits option.splits)
  show "pt' = pt \<and> takes set fa fa'"
    if "mp_map_to table_mapper va e pt fa = (Some err, pt', fa')"
    using that by (auto simp: table_mapper_def split: if_splits option.splits)
  show "mp_unmap table_mapper va pt
      = (case map_of pt va of None \<Rightarrow> None | Some e \<Rightarrow> Some (frame_of e, om_remove va pt))"
    by (simp add: table_mapper_def)
qed

section \<open>Isolation\<close>

text \<open>What a running system does to its address spaces: demand faults, copy-on-write faults,
  \<open>munmap\<close>, \<open>mprotect\<close> where it gives no write access to a page shared outside copy-on-write, forks
  of processes without shared areas that succeed, exits and stores.\<close>

inductive cow_step :: "'b buddy_ops \<Rightarrow> 'b mapper \<Rightarrow> 'b vm_state \<Rightarrow> 'b vm_state \<Rightarrow> bool"
  for bd :: "'b buddy_ops" and mp :: "'b mapper" where
  fault: "s < length (vs_spaces vm) \<Longrightarrow> fault_in_anon bd mp s va prot vm = (ok, vm') \<Longrightarrow> cow_step bd mp vm vm'"
| cow_fault: "try_break_cow bd s va vm = (r, vm') \<Longrightarrow> cow_step bd mp vm vm'"
| munmap: "s < length (vs_spaces vm) \<Longrightarrow> cow_step bd mp vm (unmap_pages bd mp s va pages vm)"
| mprotect: "protect_ok s perms (page_range va pages) vm \<Longrightarrow> change_perms bd s va pages perms vm = (r, vm')
    \<Longrightarrow> cow_step bd mp vm vm'"
| fork: "s < length (vs_spaces vm) \<Longrightarrow> clone_user_half bd mp s [] vm = (Inr r, vm') \<Longrightarrow> cow_step bd mp vm vm'"
| exit: "s < length (vs_spaces vm) \<Longrightarrow> cow_step bd mp vm (clear_user bd s vm)"
| store: "user_write s va bs vm = Some vm' \<Longrightarrow> cow_step bd mp vm vm'"

context page_mapper
begin

lemma cow_step_inv: "cow_step bd mp vm vm' \<Longrightarrow> cow_inv free pend vm \<Longrightarrow> cow_inv free pend vm'"
proof (induction rule: cow_step.induct)
  case (fault s vm va prot ok vm')
  then show ?case using fault_in_anon_inv by blast
next
  case (cow_fault s va vm r vm')
  then show ?case using try_break_cow_inv(1) [of pend vm s va] by simp
next
  case (mprotect s perms va pages vm r vm')
  then show ?case using change_perms_inv [of pend vm s perms va pages] by simp
next
  case (fork s vm r vm')
  then show ?case by (cases r) (auto dest: fork_inv(1))
qed (auto intro: unmap_pages_inv clear_user_inv user_write_inv)

lemma reachable_inv: "rtranclp (cow_step bd mp) vm vm' \<Longrightarrow> cow_inv free pend vm \<Longrightarrow> cow_inv free pend vm'"
  by (induction rule: rtranclp_induct) (auto intro: cow_step_inv)

end

text \<open>C23: Copy-on-write keeps processes with private memory apart. The steps are faults on private
  anonymous areas, copy-on-write breaks, unmappings, permission changes that give no write access to
  a page shared outside copy-on-write, successful forks of processes that have no shared areas, exits
  and stores. From a state that satisfies the reference invariant, whatever sequence of these is
  run, a store by one process changes the one page it goes to and what no process sees anywhere
  else; a fork without shared areas gives the child exactly the memory of its parent and changes
  nothing for the others; breaking a share is invisible. Memory shared on purpose (shared areas
  passed to a fork, shared segments, file pages) is outside the statement: there a store is meant to
  be seen by others.\<close>

theorem cow_isolation:
  assumes "page_mapper bd free mp" "cow_inv free (\<lambda>_. 0) vm0" "rtranclp (cow_step bd mp) vm0 vm"
  shows "(\<forall>s va bs vm' t a. user_write s va bs vm = Some vm'
        \<longrightarrow> view vm' t a = (if t = s \<and> a = va then Some bs else view vm t a))
    \<and> (\<forall>s c sh vm' t a. s < length (vs_spaces vm) \<and> clone_user_half bd mp s [] vm = (Inr (c, sh), vm')
        \<longrightarrow> view vm' t a = (if t = c then view vm s a else view vm t a))
    \<and> (\<forall>s va. view (snd (try_break_cow bd s va vm)) = view vm)"
proof -
  note inv = page_mapper.reachable_inv [OF assms(1,3,2)]
  show ?thesis
    by (intro conjI allI impI; (elim conjE)?)
       (rule user_write_view [OF inv] page_mapper.fork_inv(4) [OF assms(1) inv]
          page_mapper.try_break_cow_inv(2) [OF assms(1) inv]; assumption)+
qed

text \<open>A machine with eight frames and one process that has one page.\<close>

definition small_machine :: "nat list \<Rightarrow> u32 \<Rightarrow> nat list vm_state" where
  "small_machine free perms = \<lparr>
     vs_fa = \<lparr>fa_buddy = free, fa_total = 0x8000, fa_in_use = 0x4000, fa_refcounts = [0,0,0,1,0,0,0,0],
       fa_max_frame = 8, fa_low_pool = []\<rparr>,
     vs_spaces = [[(0x1000, pte 3 (to_pte_flags perms))]],
     vs_mem = (\<lambda>_. [1])\<rparr>"

lemmas run_machine = small_machine_def leaf_at_def set_leaf_def upd_fa_def alloc_frame_def flist_ops_def
  set_count_def frame_ref_inc_def frame_ref_count_def free_frame_def dealloc_frames_def refcount_slot_def
  new_user_def clone_user_half_def Let_def leaf_perms_def writable_def is_cow_def pte_def to_pte_flags_def
  flags_contains_def kconsts pte_consts frame_of_def table_mapper_def vm_map_to_def
  downgrade_leaf_to_cow_and_inc_def upgrade_leaf_from_cow_def map_one_frame_fork_anon_def

lemma small_machine_inv:
  assumes "set free \<subseteq> {4..<8}"
  shows "cow_inv set (\<lambda>_. 0) (small_machine free perms)"
proof -
  have f3: "frame_of (pte 3 (to_pte_flags perms)) = 3" by (simp add: frame_of_pte)
  then have refs: "n_refs (small_machine free perms) f = (if f = 3 then 1 else 0)" for f
    by (simp add: n_refs_def small_machine_def is_frame_def)
  have "frame_of e = 3" if "leaf_at (small_machine free perms) s va = Some e" for s va e
    using that f3 by (cases s) (auto simp: small_machine_def leaf_at_def split: if_splits)
  then show ?thesis
    using assms unfolding cow_inv_def refs
    by (auto simp: counted_def small_machine_def nth_Cons' om_wf_def)
qed

theorem cow_isolation_witness:
  "let vm = small_machine [4, 5, 6, 7] Perms_WRITE; (r, vm1) = clone_user_half flist_ops table_mapper 0 [] vm
    in r = Inr (1, []) \<and> page_mapper flist_ops set table_mapper \<and> cow_inv set (\<lambda>_. 0) vm
     \<and> rtranclp (cow_step flist_ops table_mapper) vm vm1
     \<and> view (snd (try_break_cow flist_ops 1 0x1000 vm1)) = view vm1"
proof -
  let ?vm = "small_machine [4, 5, 6, 7] Perms_WRITE"
  have r: "fst (clone_user_half flist_ops table_mapper 0 [] ?vm) = Inr (1, [])" by (simp add: run_machine)
  then obtain vm1 where f: "clone_user_half flist_ops table_mapper 0 [] ?vm = (Inr (1, []), vm1)"
    by (cases "clone_user_half flist_ops table_mapper 0 [] ?vm") auto
  have inv: "cow_inv set (\<lambda>_. 0) ?vm" by (rule small_machine_inv) simp
  have "cow_step flist_ops table_mapper ?vm vm1"
    by (rule cow_step.fork [OF _ f]) (simp add: small_machine_def)
  then have steps: "rtranclp (cow_step flist_ops table_mapper) ?vm vm1" by blast
  show ?thesis
    using cow_isolation [OF tm.page_mapper_axioms inv steps] inv steps tm.page_mapper_axioms f by simp
qed

text \<open>What \<open>mprotect\<close> does not check. A fork shares the pages that are readable only without the
  copy-on-write mark. When the parent then gives itself write access to such a page, the leaf becomes
  writable with the frame it shares with the child, so whatever the parent stores there the child
  reads.\<close>

lemma mprotect_after_fork_shares_writes:
  assumes "page_mapper bd free mp" and inv: "cow_inv free (\<lambda>_. 0) vm" and s: "s < length (vs_spaces vm)"
    and e: "leaf_at vm s va = Some e" "\<not> writable e" "\<not> is_cow e" and va: "va AND 0xfff = 0"
    and fork: "clone_user_half bd mp s [] vm = (Inr (c, sh), vm1)"
    and w: "flags_contains perms Perms_WRITE"
  shows "\<exists>vm2. user_write s va bs (snd (change_perms bd s va 1 perms vm1)) = Some vm2
    \<and> view vm2 c va = Some bs"
proof -
  note fk = page_mapper.fork_inv [OF assms(1) inv s fork]
  have l: "leaf_at vm1 s va = Some e" by (rule fk(5) [OF e])
  let ?e = "(e AND PTE_FRAME_MASK) OR to_pte_flags perms"
  have "snd (change_perms bd s va 1 perms vm1) = set_leaf s va ?e vm1"
    using va l e(3) by (simp add: change_perms_def protect_page_def free_all_def upd_fa_def)
  moreover note ls = leaf_at_set_leaf [OF fk(1) leaf_at_len [OF l], of va ?e]
  moreover have "writable ?e" "frame_of ?e = frame_of e"
    using w by (simp_all add: writable_or writable_to_pte_flags frame_of_restamp)
  moreover have "s \<noteq> c" using s fk(2) by simp
  moreover have "frame_at vm1 c va = Some (frame_of e)" using fk(6) e(1) by (simp add: frame_at_def)
  ultimately show ?thesis
    by (auto simp: user_write_def view_def frame_at_def)
qed

lemma mprotect_after_fork_shares_writes_witness:
  "let vm = small_machine [4, 5, 6, 7] Perms_READ; (r, vm1) = clone_user_half flist_ops table_mapper 0 [] vm
    in \<exists>vm2. user_write 0 0x1000 [7] (snd (change_perms flist_ops 0 0x1000 1 Perms_WRITE vm1)) = Some vm2
      \<and> view vm2 1 0x1000 = Some [7]"
proof -
  let ?vm = "small_machine [4, 5, 6, 7] Perms_READ"
  have r: "fst (clone_user_half flist_ops table_mapper 0 [] ?vm) = Inr (1, [])" by (simp add: run_machine)
  then obtain vm1 where f: "clone_user_half flist_ops table_mapper 0 [] ?vm = (Inr (1, []), vm1)"
    by (cases "clone_user_half flist_ops table_mapper 0 [] ?vm") auto
  have inv: "cow_inv set (\<lambda>_. 0) ?vm" by (rule small_machine_inv) simp
  have "leaf_at ?vm 0 0x1000 = Some (pte 3 (to_pte_flags Perms_READ))"
    "\<not> writable (pte 3 (to_pte_flags Perms_READ))" "\<not> is_cow (pte 3 (to_pte_flags Perms_READ))"
    "0 < length (vs_spaces ?vm)" "(0x1000 :: u64) AND 0xfff = 0" "flags_contains Perms_WRITE Perms_WRITE"
    by (simp_all add: run_machine)
  then show ?thesis
    using mprotect_after_fork_shares_writes [OF tm.page_mapper_axioms inv _ _ _ _ _ f] f by simp
qed

text \<open>A failed fork undoes more than it did. A process that shares its page with a child forks
  again; there is no frame for the second child's tables, the fork fails, and the unwinding makes the
  page writable for the parent although the first child still shares it: the parent's next store is
  seen by that child.\<close>

lemma failed_fork_breaks_isolation:
  "let (r1, vm1) = clone_user_half flist_ops table_mapper 0 [] (small_machine [4, 5, 6] Perms_WRITE);
       (r2, vm2) = clone_user_half flist_ops table_mapper 0 [] vm1
    in r1 = Inr (1, []) \<and> r2 = Inl OutOfFrames
     \<and> user_write 0 0x1000 [7] vm1 = None
     \<and> map_option (\<lambda>vm3. view vm3 1 0x1000) (user_write 0 0x1000 [7] vm2) = Some (Some [7])"
  by (simp add: run_machine unwind_cow_share_def clear_user_def free_all_def user_write_def view_def
        vm_unmap_def)

end
