(* ===== verification/Futex.thy ===== *)
theory Futex
  imports Wait_Queue User_Mem
begin

unbundle bit_operations_syntax

text \<open>
  Fast user-space locks (\<open>kernel/src/ipc/futex/\<close>, without the priority-inheriting ones): the table
  of wait queues, waiting, waking, requeueing, the read-modify-write wake, and what the kernel does to
  the locks of a dying thread.

  The table maps an address of an address space to a queue. The queues are shared objects, so they
  stand in an arena and the table holds their positions. Waking is the function of the \<open>waker\<close>
  contract. A wait is split where the process sleeps: its part before, and its part once it runs
  again.
\<close>

section \<open>The table of queues\<close>

record futexes =
  fx_table :: "(wait_key \<times> nat) list"
  fx_queues :: "wait_queue list"
  fx_masks :: "pid \<Rightarrow> u32 option"

definition fx_key :: "u64 \<Rightarrow> u64 \<Rightarrow> wait_key" where
  "fx_key vmspace_id uaddr = \<lparr>wk_vmspace_id = vmspace_id, wk_vaddr = uaddr\<rparr>"

definition upd_queue_at :: "nat \<Rightarrow> (wait_queue \<Rightarrow> wait_queue) \<Rightarrow> futexes \<Rightarrow> futexes" where
  "upd_queue_at h f st = st\<lparr>fx_queues := (fx_queues st)[h := f (fx_queues st ! h)]\<rparr>"

definition queue_for :: "wait_key \<Rightarrow> futexes \<Rightarrow> nat \<times> futexes" where
  "queue_for key st =
    (case map_of (fx_table st) key of
       Some h \<Rightarrow> (h, st)
     | None \<Rightarrow> (length (fx_queues st),
         st\<lparr>fx_table := (key, length (fx_queues st)) # fx_table st, fx_queues := fx_queues st @ [[]]\<rparr>))"

definition band :: "sched_class \<Rightarrow> u16" where
  "band c = (case c of Deadline _ _ _ \<Rightarrow> 300 | Rt p _ \<Rightarrow> 200 + ucast p | Cfs \<Rightarrow> 0)"

definition futex_wake_priority :: "kernel \<Rightarrow> pid \<Rightarrow> u16" where
  "futex_wake_priority k p =
    (case k_procs k p of Some pr \<Rightarrow> band (se_sched_class (pr_sched pr)) | None \<Rightarrow> 0)"

text \<open>The stable sort by falling priority, so that the position decides between equal ones.\<close>

definition order_by_priority :: "(pid \<Rightarrow> u16) \<Rightarrow> pid list \<Rightarrow> pid list" where
  "order_by_priority prio pids = sort_key (\<lambda>p. - uint (prio p)) pids"

fun best_from :: "(pid \<Rightarrow> u16) \<Rightarrow> nat \<Rightarrow> nat \<Rightarrow> u16 \<Rightarrow> pid list \<Rightarrow> nat" where
  "best_from prio i best best_prio [] = best"
| "best_from prio i best best_prio (p # ps) =
    (if prio p > best_prio then best_from prio (i + 1) i (prio p) ps
     else best_from prio (i + 1) best best_prio ps)"

definition pop_highest_priority :: "(pid \<Rightarrow> u16) \<Rightarrow> wait_queue \<Rightarrow> pid option \<times> wait_queue" where
  "pop_highest_priority prio q =
    (case q of
       [] \<Rightarrow> (None, [])
     | p # ps \<Rightarrow>
         let best = best_from prio 1 0 (prio p) ps
          in (Some (q ! best), take best q @ drop (best + 1) q))"

definition drop_vmspace :: "u64 \<Rightarrow> futexes \<Rightarrow> futexes" where
  "drop_vmspace vmspace_id st =
    st\<lparr>fx_table := filter (\<lambda>(k, _). wk_vmspace_id k \<noteq> vmspace_id) (fx_table st)\<rparr>"

definition scrub_plain_waiter :: "u64 \<Rightarrow> pid \<Rightarrow> futexes \<Rightarrow> futexes" where
  "scrub_plain_waiter vmspace_id p st =
    (let queues = map snd (filter (\<lambda>(k, _). wk_vmspace_id k = vmspace_id) (fx_table st));
         st1 = fold (\<lambda>h. upd_queue_at h (wq_dequeue p)) queues st
      in st1\<lparr>fx_masks := (fx_masks st1)(p := None)\<rparr>)"

section \<open>Waiting\<close>

text \<open>\<open>wait\<close> up to the sleep: an error, or the queue the process is on.\<close>

definition futex_wait_begin ::
  "pf_hook option \<Rightarrow> u64 \<Rightarrow> u64 \<Rightarrow> u32 \<Rightarrow> pid \<Rightarrow> futexes \<Rightarrow> user_mem \<Rightarrow> (int + nat) \<times> futexes \<times> user_mem" where
  "futex_wait_begin hook vmspace_id uaddr expected p st m =
    (if uaddr AND 0x3 \<noteq> 0 then (Inl EINVAL, st, m)
     else
       let (h, st1) = queue_for (fx_key vmspace_id uaddr) st;
           st2 = upd_queue_at h (wq_enqueue p) st1;
           (r, m1) = copy_from_user hook uaddr 4 m
        in case r of
             None \<Rightarrow> (Inl EFAULT, upd_queue_at h (wq_dequeue p) st2, m1)
           | Some buf \<Rightarrow>
               if from_le buf \<noteq> expected then (Inl EAGAIN, upd_queue_at h (wq_dequeue p) st2, m1)
               else (Inr h, st2, m1))"

definition futex_still_queued :: "nat \<Rightarrow> pid \<Rightarrow> u64 option \<Rightarrow> u64 \<Rightarrow> futexes \<Rightarrow> bool" where
  "futex_still_queued h p deadline_nanos now st \<longleftrightarrow>
    wq_contains p (fx_queues st ! h) \<and> (case deadline_nanos of None \<Rightarrow> True | Some d \<Rightarrow> now < d)"

definition outcome_code :: "wait_outcome \<Rightarrow> int" where
  "outcome_code r = (case r of WaitInterrupted \<Rightarrow> EINTR | WaitTimedOut \<Rightarrow> ETIMEDOUT | WaitWoken \<Rightarrow> 0)"

definition futex_wait_arm :: "bsearch \<Rightarrow> u64 option \<Rightarrow> pid \<Rightarrow> deadlines \<Rightarrow> deadlines" where
  "futex_wait_arm bs deadline_nanos p g =
    (case deadline_nanos of None \<Rightarrow> g | Some d \<Rightarrow> timeout_register bs d p g)"

text \<open>\<open>wait\<close> once the process runs again.\<close>

definition futex_wait_end ::
  "nat \<Rightarrow> pid \<Rightarrow> wait_outcome \<Rightarrow> futexes \<Rightarrow> deadlines \<Rightarrow> int \<times> futexes \<times> deadlines" where
  "futex_wait_end h p outcome st g =
    (outcome_code outcome, upd_queue_at h (wq_dequeue p) st, snd (timeout_unregister p g))"

definition wait_bitset_begin ::
  "pf_hook option \<Rightarrow> u64 \<Rightarrow> u64 \<Rightarrow> u32 \<Rightarrow> u32 \<Rightarrow> pid \<Rightarrow> futexes \<Rightarrow> user_mem
    \<Rightarrow> (int + nat) \<times> futexes \<times> user_mem" where
  "wait_bitset_begin hook vmspace_id uaddr expected msk p st m =
    (if msk = 0 then (Inl EINVAL, st, m)
     else
       let st1 = st\<lparr>fx_masks := (fx_masks st)(p \<mapsto> msk)\<rparr>;
           (r, st2, m1) = futex_wait_begin hook vmspace_id uaddr expected p st1 m
        in case r of
             Inl e \<Rightarrow> (Inl e, st2\<lparr>fx_masks := (fx_masks st2)(p := None)\<rparr>, m1)
           | Inr h \<Rightarrow> (Inr h, st2, m1))"

definition wait_bitset_end ::
  "nat \<Rightarrow> pid \<Rightarrow> wait_outcome \<Rightarrow> futexes \<Rightarrow> deadlines \<Rightarrow> int \<times> futexes \<times> deadlines" where
  "wait_bitset_end h p outcome st g =
    (let (r, st1, g1) = futex_wait_end h p outcome st g
      in (r, st1\<lparr>fx_masks := (fx_masks st1)(p := None)\<rparr>, g1))"

text \<open>\<open>wait_multi\<close>: a waiter is an address space, an address, the expected word and a mask.\<close>

type_synonym multi_waiter = "u64 \<times> u64 \<times> u32 \<times> u32"

fun queues_for :: "wait_key list \<Rightarrow> futexes \<Rightarrow> nat list \<times> futexes" where
  "queues_for [] st = ([], st)"
| "queues_for (key # keys) st =
    (let (h, st1) = queue_for key st; (hs, st2) = queues_for keys st1 in (h # hs, st2))"

fun check_words ::
  "pf_hook option \<Rightarrow> multi_waiter list \<Rightarrow> user_mem \<Rightarrow> int option \<times> user_mem" where
  "check_words hook [] m = (None, m)"
| "check_words hook ((_, uaddr, expected, _) # ws) m =
    (case copy_from_user hook uaddr 4 m of
       (None, m1) \<Rightarrow> (Some EFAULT, m1)
     | (Some buf, m1) \<Rightarrow> if from_le buf \<noteq> expected then (Some EAGAIN, m1) else check_words hook ws m1)"

definition leave_queues :: "nat list \<Rightarrow> pid \<Rightarrow> u32 \<Rightarrow> futexes \<Rightarrow> futexes" where
  "leave_queues hs p any_mask st =
    (let st1 = fold (\<lambda>h. upd_queue_at h (wq_dequeue p)) hs st
      in if any_mask \<noteq> 0 then st1\<lparr>fx_masks := (fx_masks st1)(p := None)\<rparr> else st1)"

abbreviation mask_of :: "multi_waiter list \<Rightarrow> u32" where
  "mask_of ws \<equiv> fold (\<lambda>(_, _, _, msk) a. a OR msk) ws 0"

definition wait_multi_begin ::
  "pf_hook option \<Rightarrow> multi_waiter list \<Rightarrow> pid \<Rightarrow> futexes \<Rightarrow> user_mem
    \<Rightarrow> (int + nat list) \<times> futexes \<times> user_mem" where
  "wait_multi_begin hook ws p st m =
    (if ws = [] \<or> length ws > 128 then (Inl EINVAL, st, m)
     else if list_ex (\<lambda>(_, uaddr, _, _). uaddr AND 0x3 \<noteq> 0) ws then (Inl EINVAL, st, m)
     else
       let (hs, st1) = queues_for (map (\<lambda>(vmid, uaddr, _, _). fx_key vmid uaddr) ws) st;
           any_mask = mask_of ws;
           st2 = (if any_mask \<noteq> 0 then st1\<lparr>fx_masks := (fx_masks st1)(p \<mapsto> any_mask)\<rparr> else st1);
           st3 = fold (\<lambda>h. upd_queue_at h (wq_enqueue p)) hs st2;
           (bad, m1) = check_words hook ws m
        in case bad of
             Some e \<Rightarrow> (Inl e, leave_queues hs p any_mask st3, m1)
           | None \<Rightarrow> (Inr hs, st3, m1))"

fun first_changed :: "pf_hook option \<Rightarrow> nat \<Rightarrow> multi_waiter list \<Rightarrow> user_mem \<Rightarrow> int \<times> user_mem" where
  "first_changed hook i [] m = (0, m)"
| "first_changed hook i ((_, uaddr, expected, _) # ws) m =
    (case copy_from_user hook uaddr 4 m of
       (None, m1) \<Rightarrow> first_changed hook (i + 1) ws m1
     | (Some buf, m1) \<Rightarrow>
         if from_le buf \<noteq> expected then (int i, m1) else first_changed hook (i + 1) ws m1)"

definition wait_multi_end ::
  "pf_hook option \<Rightarrow> multi_waiter list \<Rightarrow> nat list \<Rightarrow> pid \<Rightarrow> wait_outcome \<Rightarrow> futexes \<Rightarrow> deadlines \<Rightarrow> user_mem
    \<Rightarrow> int \<times> futexes \<times> deadlines \<times> user_mem" where
  "wait_multi_end hook ws hs p outcome st g m =
    (let st1 = leave_queues hs p (mask_of ws) st; g1 = snd (timeout_unregister p g)
      in if outcome \<noteq> WaitWoken then (outcome_code outcome, st1, g1, m)
         else let (r, m1) = first_changed hook 0 ws m in (r, st1, g1, m1))"

section \<open>Waking\<close>

text \<open>The loop over the drained processes: \<open>ok\<close> is the mask test of \<open>wake_bitset\<close>.\<close>

fun wake_loop ::
  "'s wake_fn \<Rightarrow> nat \<Rightarrow> u32 \<Rightarrow> (pid \<Rightarrow> bool) \<Rightarrow> pid list \<Rightarrow> nat \<Rightarrow> futexes \<Rightarrow> 's
    \<Rightarrow> (nat \<times> futexes \<times> 's) option" where
  "wake_loop wake h n ok [] woken st s = Some (woken, st, s)"
| "wake_loop wake h n ok (p # ps) woken st s =
    (if \<not> ok p \<or> of_nat woken \<ge> n
     then wake_loop wake h n ok ps woken (upd_queue_at h (wq_enqueue p) st) s
     else case wake p s of
        None \<Rightarrow> None
      | Some (b, s1) \<Rightarrow> wake_loop wake h n ok ps (if b then woken + 1 else woken) st s1)"

definition drain_at :: "nat \<Rightarrow> futexes \<Rightarrow> pid list \<times> futexes" where
  "drain_at h st = (fx_queues st ! h, upd_queue_at h (\<lambda>_. []) st)"

definition futex_wake ::
  "'s wake_fn \<Rightarrow> (pid \<Rightarrow> u16) \<Rightarrow> u64 \<Rightarrow> u64 \<Rightarrow> u32 \<Rightarrow> futexes \<Rightarrow> 's \<Rightarrow> (int \<times> futexes \<times> 's) option" where
  "futex_wake wake prio vmspace_id uaddr n st s =
    (if uaddr AND 0x3 \<noteq> 0 then Some (EINVAL, st, s)
     else case map_of (fx_table st) (fx_key vmspace_id uaddr) of
        None \<Rightarrow> Some (0, st, s)
      | Some h \<Rightarrow>
          let (drained, st1) = drain_at h st
           in map_option (apfst int) (wake_loop wake h n (\<lambda>_. True) (order_by_priority prio drained) 0 st1 s))"

definition mask_allows :: "(pid \<Rightarrow> u32 option) \<Rightarrow> u32 \<Rightarrow> pid \<Rightarrow> bool" where
  "mask_allows masks msk p \<longleftrightarrow> (case masks p of Some w \<Rightarrow> w | None \<Rightarrow> - 1) AND msk \<noteq> 0"

definition wake_bitset ::
  "'s wake_fn \<Rightarrow> (pid \<Rightarrow> u16) \<Rightarrow> u64 \<Rightarrow> u64 \<Rightarrow> u32 \<Rightarrow> u32 \<Rightarrow> futexes \<Rightarrow> 's \<Rightarrow> (int \<times> futexes \<times> 's) option" where
  "wake_bitset wake prio vmspace_id uaddr n msk st s =
    (if uaddr AND 0x3 \<noteq> 0 then Some (EINVAL, st, s)
     else if msk = 0 then Some (EINVAL, st, s)
     else case map_of (fx_table st) (fx_key vmspace_id uaddr) of
        None \<Rightarrow> Some (0, st, s)
      | Some h \<Rightarrow>
          let (drained, st1) = drain_at h st
           in map_option (apfst int)
                (wake_loop wake h n (mask_allows (fx_masks st1) msk) (order_by_priority prio drained) 0 st1 s))"

fun requeue_loop ::
  "'s wake_fn \<Rightarrow> nat \<Rightarrow> nat \<Rightarrow> u32 \<Rightarrow> u32 \<Rightarrow> pid list \<Rightarrow> u32 \<Rightarrow> u32 \<Rightarrow> futexes \<Rightarrow> 's
    \<Rightarrow> (u32 \<times> u32 \<times> futexes \<times> 's) option" where
  "requeue_loop wake h1 h2 n_wake n_requeue [] woken requeued st s = Some (woken, requeued, st, s)"
| "requeue_loop wake h1 h2 n_wake n_requeue (p # ps) woken requeued st s =
    (if woken < n_wake then
       case wake p s of
         None \<Rightarrow> None
       | Some (b, s1) \<Rightarrow>
           requeue_loop wake h1 h2 n_wake n_requeue ps (if b then woken + 1 else woken) requeued st s1
     else if requeued < n_requeue then
       requeue_loop wake h1 h2 n_wake n_requeue ps woken (requeued + 1) (upd_queue_at h2 (wq_enqueue p) st) s
     else requeue_loop wake h1 h2 n_wake n_requeue ps woken requeued (upd_queue_at h1 (wq_enqueue p) st) s)"

definition requeue ::
  "pf_hook option \<Rightarrow> 's wake_fn \<Rightarrow> (pid \<Rightarrow> u16) \<Rightarrow> u64 \<Rightarrow> u64 \<Rightarrow> u64 \<Rightarrow> u32 \<Rightarrow> u32 \<Rightarrow> u32 option
    \<Rightarrow> futexes \<Rightarrow> user_mem \<Rightarrow> 's \<Rightarrow> (int \<times> futexes \<times> user_mem \<times> 's) option" where
  "requeue hook wake prio vmspace_id uaddr1 uaddr2 n_wake n_requeue cmp st m s =
    (if (uaddr1 OR uaddr2) AND 0x3 \<noteq> 0 then Some (EINVAL, st, m, s)
     else
       let (err, m1) = (case cmp of
              None \<Rightarrow> (None, m)
            | Some expected \<Rightarrow>
                (case copy_from_user hook uaddr1 4 m of
                   (None, m1) \<Rightarrow> (Some EFAULT, m1)
                 | (Some buf, m1) \<Rightarrow> (if from_le buf \<noteq> expected then Some EAGAIN else None, m1)))
        in case err of
             Some e \<Rightarrow> Some (e, st, m1, s)
           | None \<Rightarrow>
               (case map_of (fx_table st) (fx_key vmspace_id uaddr1) of
                  None \<Rightarrow> Some (0, st, m1, s)
                | Some h1 \<Rightarrow>
                    let (h2, st1) = queue_for (fx_key vmspace_id uaddr2) st;
                        (drained, st2) = drain_at h1 st1
                     in map_option (\<lambda>(woken, requeued, st3, s3). (uint (woken + requeued), st3, m1, s3))
                          (requeue_loop wake h1 h2 n_wake n_requeue (order_by_priority prio drained) 0 0 st2 s)))"

section \<open>The wake with an operation\<close>

definition sign_extend12 :: "u32 \<Rightarrow> u32" where
  "sign_extend12 w = (let a = w AND 0xfff in if a AND 0x800 \<noteq> 0 then a OR NOT 0xfff else a)"

definition wake_op_arg :: "u32 \<Rightarrow> u32" where
  "wake_op_arg op =
    (let a = sign_extend12 (drop_bit 12 op)
      in if drop_bit 31 op AND 0x1 \<noteq> 0 then push_bit (unat (a AND 0x1f)) 1 else a)"

definition wake_op_new :: "u32 \<Rightarrow> u32 \<Rightarrow> u32 option" where
  "wake_op_new op old_val =
    (let kind = drop_bit 28 op AND 0x7; op_arg = wake_op_arg op
      in if kind = 0 then Some op_arg
         else if kind = 1 then Some (old_val + op_arg)
         else if kind = 2 then Some (old_val OR op_arg)
         else if kind = 3 then Some (old_val AND NOT op_arg)
         else if kind = 4 then Some (old_val XOR op_arg)
         else None)"

definition wake_op_cmp :: "u32 \<Rightarrow> u32 \<Rightarrow> bool option" where
  "wake_op_cmp op old_val =
    (let kind = drop_bit 24 op AND 0xf; a = sint old_val; b = sint (sign_extend12 op)
      in if kind = 0 then Some (a = b)
         else if kind = 1 then Some (a \<noteq> b)
         else if kind = 2 then Some (a < b)
         else if kind = 3 then Some (a \<le> b)
         else if kind = 4 then Some (a > b)
         else if kind = 5 then Some (a \<ge> b)
         else None)"

text \<open>The read-modify-write loop. Other threads may change the memory between the read and the
  exchange; \<open>env\<close> is what they do in each round, and nothing once the list is used up. A loop that
  would go round again then has no result.\<close>

fun rmw_loop ::
  "pf_hook option \<Rightarrow> u64 \<Rightarrow> u32 \<Rightarrow> (user_mem \<Rightarrow> user_mem) list \<Rightarrow> user_mem
    \<Rightarrow> ((int + u32) \<times> user_mem) option" where
  "rmw_loop hook uaddr op envs m =
    (case copy_from_user hook uaddr 4 m of
       (None, m1) \<Rightarrow> Some (Inl EFAULT, m1)
     | (Some buf, m1) \<Rightarrow>
         let old_val = from_le buf in
         (case wake_op_new op old_val of
            None \<Rightarrow> Some (Inl EINVAL, m1)
          | Some new_val \<Rightarrow>
              let m2 = (case envs of [] \<Rightarrow> m1 | e # _ \<Rightarrow> e m1) in
              (case cmpxchg_user_u32 hook uaddr old_val new_val m2 of
                 (None, m3) \<Rightarrow> Some (Inl EFAULT, m3)
               | (Some observed, m3) \<Rightarrow>
                   if observed = old_val then Some (Inr old_val, m3)
                   else (case envs of [] \<Rightarrow> None | _ # es \<Rightarrow> rmw_loop hook uaddr op es m3))))"

declare rmw_loop.simps [simp del]

definition wake_op ::
  "pf_hook option \<Rightarrow> 's wake_fn \<Rightarrow> (pid \<Rightarrow> u16) \<Rightarrow> u64 \<Rightarrow> u64 \<Rightarrow> u64 \<Rightarrow> u32 \<Rightarrow> u32 \<Rightarrow> u32
    \<Rightarrow> (user_mem \<Rightarrow> user_mem) list \<Rightarrow> futexes \<Rightarrow> user_mem \<Rightarrow> 's \<Rightarrow> (int \<times> futexes \<times> user_mem \<times> 's) option" where
  "wake_op hook wake prio vmspace_id uaddr1 uaddr2 n_wake1 n_wake2 op envs st m s =
    (if (uaddr1 OR uaddr2) AND 0x3 \<noteq> 0 then Some (EINVAL, st, m, s)
     else case rmw_loop hook uaddr2 op envs m of
        None \<Rightarrow> None
      | Some (Inl e, m1) \<Rightarrow> Some (e, st, m1, s)
      | Some (Inr old_val, m1) \<Rightarrow>
          (case wake_op_cmp op old_val of
             None \<Rightarrow> Some (EINVAL, st, m1, s)
           | Some cmp_holds \<Rightarrow>
               (case futex_wake wake prio vmspace_id uaddr1 n_wake1 st s of
                  None \<Rightarrow> None
                | Some (woken1, st1, s1) \<Rightarrow>
                    if \<not> cmp_holds then Some (woken1, st1, m1, s1)
                    else (case futex_wake wake prio vmspace_id uaddr2 n_wake2 st1 s1 of
                            None \<Rightarrow> None
                          | Some (woken2, st2, s2) \<Rightarrow>
                              Some (if woken1 < 0 then woken1 else if woken2 < 0 then woken2
                                    else woken1 + woken2, st2, m1, s2)))))"

section \<open>Locks of a dying thread\<close>

abbreviation ROBUST_LIST_LIMIT :: nat where "ROBUST_LIST_LIMIT \<equiv> 2048"
abbreviation FUTEX_WAITERS :: u32 where "FUTEX_WAITERS \<equiv> 0x80000000"
abbreviation FUTEX_TID_MASK :: u32 where "FUTEX_TID_MASK \<equiv> 0x3fffffff"
abbreviation FUTEX_OWNER_DIED :: u32 where "FUTEX_OWNER_DIED \<equiv> 0x40000000"

definition handle_futex_death ::
  "pf_hook option \<Rightarrow> 's wake_fn \<Rightarrow> (pid \<Rightarrow> u16) \<Rightarrow> u64 \<Rightarrow> u32 \<Rightarrow> u64 \<Rightarrow> futexes \<times> user_mem \<times> 's
    \<Rightarrow> (futexes \<times> user_mem \<times> 's) option" where
  "handle_futex_death hook wake prio vmspace_id dying_tid futex_addr x =
    (case x of (st, m, s) \<Rightarrow>
      if futex_addr AND 0x3 \<noteq> 0 then Some (st, m, s)
      else case copy_from_user hook futex_addr 4 m of
         (None, m1) \<Rightarrow> Some (st, m1, s)
       | (Some buf, m1) \<Rightarrow>
           let uval = from_le buf in
           if uval AND FUTEX_TID_MASK \<noteq> dying_tid then Some (st, m1, s)
           else
             let nval = (uval AND FUTEX_WAITERS) OR FUTEX_OWNER_DIED;
                 (stored, m2) = copy_to_user hook futex_addr (to_le 4 nval) m1
              in if \<not> stored then Some (st, m2, s)
                 else if uval AND FUTEX_WAITERS \<noteq> 0
                 then map_option (\<lambda>(_, st1, s1). (st1, m2, s1)) (futex_wake wake prio vmspace_id futex_addr 1 st s)
                 else Some (st, m2, s))"

fun robust_loop ::
  "pf_hook option \<Rightarrow> 's wake_fn \<Rightarrow> (pid \<Rightarrow> u16) \<Rightarrow> u64 \<Rightarrow> u32 \<Rightarrow> u64 \<Rightarrow> u64 \<Rightarrow> u64 \<Rightarrow> nat \<Rightarrow> u64
    \<Rightarrow> futexes \<times> user_mem \<times> 's \<Rightarrow> (futexes \<times> user_mem \<times> 's) option" where
  "robust_loop hook wake prio vmspace_id tid head_addr futex_offset pending 0 entry x = Some x"
| "robust_loop hook wake prio vmspace_id tid head_addr futex_offset pending (Suc limit) entry x =
    (if entry = head_addr \<or> entry = 0 then Some x
     else case x of (st, m, s) \<Rightarrow>
       (case copy_from_user hook entry 8 m of
          (None, m1) \<Rightarrow> Some (st, m1, s)
        | (Some next_buf, m1) \<Rightarrow>
            (case (if entry \<noteq> pending
                   then handle_futex_death hook wake prio vmspace_id tid (entry + futex_offset) (st, m1, s)
                   else Some (st, m1, s)) of
               None \<Rightarrow> None
             | Some x1 \<Rightarrow> robust_loop hook wake prio vmspace_id tid head_addr futex_offset pending limit
                           (from_le next_buf) x1)))"

definition exit_robust_list ::
  "pf_hook option \<Rightarrow> 's wake_fn \<Rightarrow> (pid \<Rightarrow> u16) \<Rightarrow> u64 \<Rightarrow> u32 \<Rightarrow> u64 \<Rightarrow> futexes \<times> user_mem \<times> 's
    \<Rightarrow> (futexes \<times> user_mem \<times> 's) option" where
  "exit_robust_list hook wake prio vmspace_id dying_tid head_addr x =
    (if head_addr = 0 then Some x
     else case x of (st, m, s) \<Rightarrow>
       (case copy_from_user hook head_addr 24 m of
          (None, m1) \<Rightarrow> Some (st, m1, s)
        | (Some buf, m1) \<Rightarrow>
            let list = from_le (slice 0 8 buf); futex_offset = from_le (slice 8 8 buf);
                pending = from_le (slice 16 8 buf)
             in (case robust_loop hook wake prio vmspace_id dying_tid head_addr futex_offset pending
                        ROBUST_LIST_LIMIT list (st, m1, s) of
                   None \<Rightarrow> None
                 | Some x1 \<Rightarrow>
                     if pending \<noteq> 0 \<and> pending \<noteq> head_addr
                     then handle_futex_death hook wake prio vmspace_id dying_tid (pending + futex_offset) x1
                     else Some x1)))"

definition clear_child_tid ::
  "pf_hook option \<Rightarrow> 's wake_fn \<Rightarrow> (pid \<Rightarrow> u16) \<Rightarrow> u64 \<Rightarrow> u64 \<Rightarrow> futexes \<times> user_mem \<times> 's
    \<Rightarrow> (futexes \<times> user_mem \<times> 's) option" where
  "clear_child_tid hook wake prio vmspace_id addr x =
    (case x of (st, m, s) \<Rightarrow>
      if addr = 0 \<or> addr AND 0x3 \<noteq> 0 then Some (st, m, s)
      else let (stored, m1) = copy_to_user hook addr (to_le 4 (0 :: u32)) m
        in if \<not> stored then Some (st, m1, s)
           else map_option (\<lambda>(_, st1, s1). (st1, m1, s1)) (futex_wake wake prio vmspace_id addr 1 st s))"

section \<open>What waking does\<close>

lemma order_by_priority_simps [simp]:
  "set (order_by_priority prio q) = set q" "distinct (order_by_priority prio q) = distinct q"
  by (simp_all add: order_by_priority_def)

lemma order_by_priority_pair:
  "order_by_priority prio [p, q] = (if prio p < prio q then [q, p] else [p, q])"
  by (simp add: order_by_priority_def word_less_def)

lemma order_by_priority_sorted:
  assumes "i < j" "j < length q"
  shows "prio (order_by_priority prio q ! j) \<le> prio (order_by_priority prio q ! i)"
proof -
  have "sorted (map (\<lambda>p. - uint (prio p)) (order_by_priority prio q))"
    by (simp add: order_by_priority_def)
  then have "- uint (prio (order_by_priority prio q ! i)) \<le> - uint (prio (order_by_priority prio q ! j))"
    using assms sorted_nth_mono [of "map (\<lambda>p. - uint (prio p)) (order_by_priority prio q)" i j]
    by (simp add: order_by_priority_def)
  then show ?thesis by (simp add: word_le_def)
qed

text \<open>The processes a wake should wake: the first \<open>n\<close> sleeping ones the mask allows, in priority
  order.\<close>

definition woken_of :: "(pid \<Rightarrow> bool) \<Rightarrow> nat \<Rightarrow> (pid \<Rightarrow> bool) \<Rightarrow> pid list \<Rightarrow> pid list" where
  "woken_of ok n parked ps = take n (filter (\<lambda>p. ok p \<and> parked p) ps)"

lemma upd_queue_at_simps [simp]:
  "fx_table (upd_queue_at h f st) = fx_table st" "fx_masks (upd_queue_at h f st) = fx_masks st"
  "length (fx_queues (upd_queue_at h f st)) = length (fx_queues st)"
  by (simp_all add: upd_queue_at_def)

lemma upd_queue_at_nth [simp]:
  "h < length (fx_queues st) \<Longrightarrow> fx_queues (upd_queue_at h f st) ! i
     = (if i = h then f (fx_queues st ! h) else fx_queues st ! i)"
  by (simp add: upd_queue_at_def)

lemma upd_queue_at_compose:
  "h < length (fx_queues st) \<Longrightarrow> upd_queue_at h g (upd_queue_at h f st) = upd_queue_at h (g \<circ> f) st"
  by (simp add: upd_queue_at_def)

context waker
begin

text \<open>The loop over drained processes: \<open>rest\<close> is what it puts back.\<close>

lemma wake_loop_law:
  assumes "inv s" "distinct ps" "woken \<le> unat n" "h < length (fx_queues st)"
  shows "\<exists>rest s'. wake_loop wake h n ok ps woken st s
        = Some (woken + length (woken_of ok (unat n - woken) (parked s) ps), upd_queue_at h (\<lambda>q. q @ rest) st, s')
      \<and> inv s' \<and> (\<forall>p. parked s' p \<longleftrightarrow> parked s p \<and> p \<notin> set (woken_of ok (unat n - woken) (parked s) ps))
      \<and> set rest \<subseteq> set ps \<and> (\<forall>p\<in>set ps. parked s' p \<longrightarrow> p \<in> set rest)"
  using assms
proof (induction ps arbitrary: woken st s)
  case Nil
  then show ?case by (auto simp: woken_of_def upd_queue_at_def)
next
  case (Cons p ps)
  have wn: "of_nat woken \<ge> n \<longleftrightarrow> woken = unat n"
  proof -
    have "unat (of_nat woken :: u32) = woken"
      using le_less_trans [OF Cons.prems(3) unsigned_less] by (rule unat_of_nat_small)
    then show ?thesis using Cons.prems(3) by (auto simp: word_le_nat_alt)
  qed
  have d: "distinct ps" "p \<notin> set ps" using Cons.prems(2) by simp_all
  show ?case
  proof (cases "\<not> ok p \<or> woken = unat n")
    case True
    let ?st = "upd_queue_at h (wq_enqueue p) st"
    have same: "woken_of ok (unat n - woken) (parked s) (p # ps) = woken_of ok (unat n - woken) (parked s) ps"
      using True by (auto simp: woken_of_def)
    obtain rest s' where ih: "wake_loop wake h n ok ps woken ?st s
        = Some (woken + length (woken_of ok (unat n - woken) (parked s) ps), upd_queue_at h (\<lambda>q. q @ rest) ?st, s')"
      "inv s'" "\<forall>q. parked s' q \<longleftrightarrow> parked s q \<and> q \<notin> set (woken_of ok (unat n - woken) (parked s) ps)"
      "set rest \<subseteq> set ps" "\<forall>q\<in>set ps. parked s' q \<longrightarrow> q \<in> set rest"
      using Cons.IH [OF Cons.prems(1) d(1) Cons.prems(3), of ?st] Cons.prems(4) by auto
    have "upd_queue_at h (\<lambda>q. q @ rest) ?st = upd_queue_at h (\<lambda>q. q @ (p # rest)) st"
      using Cons.prems(4) by (simp add: upd_queue_at_def wq_enqueue_def)
    then show ?thesis
      using ih True by (intro exI [of _ "p # rest"] exI [of _ s']) (auto simp: wn same)
  next
    case False
    obtain s1 where w: "wake p s = Some (parked s p, s1)" "inv s1"
      "\<forall>q. parked s1 q \<longleftrightarrow> parked s q \<and> q \<noteq> p"
      using wake_law [OF Cons.prems(1)] by blast
    let ?w1 = "if parked s p then woken + 1 else woken"
    have w1: "?w1 \<le> unat n" using False Cons.prems(3) by (cases "woken = unat n") simp_all
    have f: "filter (\<lambda>q. ok q \<and> parked s1 q) ps = filter (\<lambda>q. ok q \<and> parked s q) ps"
      using w(3) d(2) by (auto intro: filter_cong)
    have step: "woken_of ok (unat n - woken) (parked s) (p # ps)
        = (if parked s p then [p] else []) @ woken_of ok (unat n - ?w1) (parked s1) ps"
    proof -
      have "unat n - woken = Suc (unat n - Suc woken)" using False Cons.prems(3) by linarith
      then show ?thesis using False by (simp add: woken_of_def f)
    qed
    obtain rest s' where ih: "wake_loop wake h n ok ps ?w1 st s1
        = Some (?w1 + length (woken_of ok (unat n - ?w1) (parked s1) ps), upd_queue_at h (\<lambda>q. q @ rest) st, s')"
      "inv s'" "\<forall>q. parked s' q \<longleftrightarrow> parked s1 q \<and> q \<notin> set (woken_of ok (unat n - ?w1) (parked s1) ps)"
      "set rest \<subseteq> set ps" "\<forall>q\<in>set ps. parked s' q \<longrightarrow> q \<in> set rest"
      using Cons.IH [OF w(2) d(1) w1 Cons.prems(4)] by blast
    have "wake_loop wake h n ok (p # ps) woken st s = wake_loop wake h n ok ps ?w1 st s1"
      using False w(1) by (simp add: wn)
    moreover have "\<not> parked s' p" using ih(3) w(3) by simp
    ultimately show ?thesis
      using ih w(3) by (intro exI [of _ rest] exI [of _ s']) (auto simp: step)
  qed
qed

end

text \<open>What a wake promises: it wakes exactly the chosen processes and counts them, every process of
  the queue still asleep is still on it, and nothing else changes.\<close>

definition wakes ::
  "(pid \<Rightarrow> bool) \<Rightarrow> (pid \<Rightarrow> u16) \<Rightarrow> u32 \<Rightarrow> nat \<Rightarrow> futexes \<Rightarrow> kernel \<Rightarrow> (int \<times> futexes \<times> kernel) option \<Rightarrow> bool" where
  "wakes ok prio n h st k r \<longleftrightarrow>
    (let ws = woken_of ok (unat n) (k_parked k) (order_by_priority prio (fx_queues st ! h))
      in \<exists>q' k'. r = Some (int (length ws), st\<lparr>fx_queues := (fx_queues st)[h := q']\<rparr>, k') \<and> sched_inv k'
         \<and> (\<forall>p. k_parked k' p \<longleftrightarrow> k_parked k p \<and> p \<notin> set ws)
         \<and> set q' \<subseteq> set (fx_queues st ! h) \<and> (\<forall>p\<in>set (fx_queues st ! h). k_parked k' p \<longrightarrow> p \<in> set q'))"

lemma wake_drained:
  assumes "sched_inv k" "h < length (fx_queues st)" "distinct (fx_queues st ! h)"
  shows "wakes ok prio n h st k (map_option (apfst int)
    (wake_loop wake_pid h n ok (order_by_priority prio (fx_queues st ! h)) 0 (upd_queue_at h (\<lambda>_. []) st) k))"
proof -
  let ?ps = "order_by_priority prio (fx_queues st ! h)"
  let ?st = "upd_queue_at h (\<lambda>_. []) st"
  obtain rest k' where r: "wake_loop wake_pid h n ok ?ps 0 ?st k
      = Some (length (woken_of ok (unat n) (k_parked k) ?ps), upd_queue_at h (\<lambda>q. q @ rest) ?st, k')"
    "sched_inv k'" "\<forall>p. k_parked k' p \<longleftrightarrow> k_parked k p \<and> p \<notin> set (woken_of ok (unat n) (k_parked k) ?ps)"
    "set rest \<subseteq> set ?ps" "\<forall>p\<in>set ?ps. k_parked k' p \<longrightarrow> p \<in> set rest"
    using kw.wake_loop_law [OF assms(1), of ?ps 0 n h ?st ok] assms(2,3) by auto
  have "upd_queue_at h (\<lambda>q. q @ rest) ?st = st\<lparr>fx_queues := (fx_queues st)[h := rest]\<rparr>"
    using assms(2) by (simp add: upd_queue_at_def)
  then show ?thesis using r unfolding wakes_def Let_def by (intro exI [of _ rest] exI [of _ k']) simp
qed

text \<open>C25: Waking a futex is exact. Run by itself on a queue without duplicates, a wake of \<open>n\<close>
  processes, with or without a mask, wakes the first \<open>n\<close> sleeping processes of the queue the mask
  allows in the order of their priorities, returns their number, leaves everybody else asleep, and
  keeps every process that still sleeps on the queue; a process it leaves asleep although the mask
  allows it has no higher priority than one it woke. It never panics.\<close>

theorem futex_wake_exact:
  assumes "sched_inv k" "uaddr AND 0x3 = 0" "msk \<noteq> 0"
    and "map_of (fx_table st) (fx_key vmspace_id uaddr) = Some h"
    and "h < length (fx_queues st)" "distinct (fx_queues st ! h)"
  shows "wakes (\<lambda>_. True) prio n h st k (futex_wake wake_pid prio vmspace_id uaddr n st k)
    \<and> wakes (mask_allows (fx_masks st) msk) prio n h st k (wake_bitset wake_pid prio vmspace_id uaddr n msk st k)
    \<and> (\<forall>p q. p \<in> set (woken_of ok (unat n) parked (order_by_priority prio (fx_queues st ! h)))
         \<and> q \<in> set (fx_queues st ! h) \<and> ok q \<and> parked q
         \<and> q \<notin> set (woken_of ok (unat n) parked (order_by_priority prio (fx_queues st ! h)))
         \<longrightarrow> prio q \<le> prio p)"
proof -
  let ?ps = "order_by_priority prio (fx_queues st ! h)"
  have prio: "prio q \<le> prio p"
    if p: "p \<in> set (woken_of ok (unat n) parked ?ps)" and q: "q \<in> set (fx_queues st ! h)" "ok q" "parked q"
      "q \<notin> set (woken_of ok (unat n) parked ?ps)" for p q
  proof -
    let ?fs = "filter (\<lambda>p. ok p \<and> parked p) ?ps"
    have "sorted (map (\<lambda>p. - uint (prio p)) ?fs)"
      unfolding order_by_priority_def by (intro sorted_filter) simp
    moreover have fs: "?fs = woken_of ok (unat n) parked ?ps @ drop (unat n) ?fs" by (simp add: woken_of_def)
    ultimately have "sorted (map (\<lambda>p. - uint (prio p)) (woken_of ok (unat n) parked ?ps @ drop (unat n) ?fs))"
      by simp
    moreover have "q \<in> set (woken_of ok (unat n) parked ?ps @ drop (unat n) ?fs)"
      unfolding fs [symmetric] using q by simp
    then have "q \<in> set (drop (unat n) ?fs)" using q(4) by simp
    ultimately have "- uint (prio p) \<le> - uint (prio q)"
      using p by (simp add: sorted_append)
    then show ?thesis by (simp add: word_le_def)
  qed
  show ?thesis
    using assms prio wake_drained [OF assms(1,5,6)]
    by (auto simp: futex_wake_def wake_bitset_def drain_at_def)
qed

text \<open>Two processes asleep on one queue.\<close>

definition two_sleepers :: kernel where
  "two_sleepers = demo_kernel\<lparr>k_procs := [Pid 7 \<mapsto> demo_proc, Pid 8 \<mapsto> demo_proc]\<rparr>"

definition one_queue :: "wait_queue \<Rightarrow> futexes" where
  "one_queue q = \<lparr>fx_table = [(fx_key 1 0x1000, 0)], fx_queues = [q], fx_masks = (\<lambda>_. None)\<rparr>"

lemma two_sleepers_inv: "sched_inv two_sleepers" "k_parked two_sleepers (Pid 7)" "k_parked two_sleepers (Pid 8)"
  by (auto simp: sched_inv_def two_sleepers_def demo_kernel_def demo_proc_def demo_sched_def rq_new_wf
      online_ok_3 k_parked_def split: if_splits)

theorem futex_wake_exact_witness:
  "wakes (\<lambda>_. True) (\<lambda>_. 0) 1 0 (one_queue [Pid 7, Pid 8]) two_sleepers
     (futex_wake wake_pid (\<lambda>_. 0) 1 0x1000 1 (one_queue [Pid 7, Pid 8]) two_sleepers)"
  using futex_wake_exact [OF two_sleepers_inv(1), of "0x1000" 1 "one_queue [Pid 7, Pid 8]" 1 0]
  by (simp add: one_queue_def)

text \<open>A wake of one process that finds the queue in a given priority order.\<close>

lemma wake_first:
  assumes "sched_inv k" "k_parked k a" "h < length (fx_queues st)"
  shows "\<exists>k'. wake_loop wake_pid h 1 (\<lambda>_. True) (a # rest) 0 st k
      = Some (1, upd_queue_at h (\<lambda>q. q @ rest) st, k') \<and> sched_inv k'
    \<and> (\<forall>q. k_parked k' q \<longleftrightarrow> k_parked k q \<and> q \<noteq> a)"
proof -
  have put: "wake_loop wake_pid h 1 (\<lambda>_. True) rest 1 st' s = Some (1, upd_queue_at h (\<lambda>q. q @ rest) st', s)"
    if "h < length (fx_queues st')" for st' s
    using that
  proof (induction rest arbitrary: st')
    case (Cons r rest)
    then show ?case using Cons.IH [of "upd_queue_at h (wq_enqueue r) st'"]
      by (simp add: upd_queue_at_compose comp_def wq_enqueue_def)
  qed (simp add: upd_queue_at_def)
  obtain k' where w: "wake_pid a k = Some (True, k')" "sched_inv k'"
    "\<forall>q. k_parked k' q \<longleftrightarrow> k_parked k q \<and> q \<noteq> a"
    using kernel_wake_law [OF assms(1), of a] assms(2) by auto
  then show ?thesis using put [OF assms(3)] by simp
qed

text \<open>Overlapping wakes lose one. A wake takes the whole queue, wakes what it may and puts the
  rest back, holding the queue's lock only while it takes. If a second wake of one process runs
  between, it finds the queue empty and wakes nobody: with two processes asleep, two wakes of one
  process each wake one process in all, while one after the other they wake both.\<close>

lemma overlapping_wakes_lose_one:
  assumes "sched_inv k" "p \<noteq> q" "k_parked k p" "k_parked k q" "uaddr AND 0x3 = 0"
    and "map_of (fx_table st) (fx_key vmspace_id uaddr) = Some h"
    and "h < length (fx_queues st)" "fx_queues st ! h = [p, q]"
  shows "\<exists>drained st1 st2 k2. drain_at h st = (drained, st1)
      \<and> futex_wake wake_pid prio vmspace_id uaddr 1 st1 k = Some (0, st1, k)
      \<and> wake_loop wake_pid h 1 (\<lambda>_. True) (order_by_priority prio drained) 0 st1 k = Some (1, st2, k2)
      \<and> (k_parked k2 p \<or> k_parked k2 q)
      \<and> (\<exists>st3 k3 st4 k4. futex_wake wake_pid prio vmspace_id uaddr 1 st k = Some (1, st3, k3)
          \<and> futex_wake wake_pid prio vmspace_id uaddr 1 st3 k3 = Some (1, st4, k4)
          \<and> \<not> k_parked k4 p \<and> \<not> k_parked k4 q)"
proof -
  let ?st1 = "upd_queue_at h (\<lambda>_. []) st"
  obtain a b where ab: "order_by_priority prio [p, q] = [a, b]" "{a, b} = {p, q}" "a \<noteq> b"
    using assms(2) by (cases "prio p < prio q") (auto simp: order_by_priority_pair)
  have pk: "k_parked k a" "k_parked k b" using ab(2) assms(3,4) by (auto simp: doubleton_eq_iff)
  have len: "h < length (fx_queues ?st1)" using assms(7) by simp
  obtain k2 where w: "wake_loop wake_pid h 1 (\<lambda>_. True) [a, b] 0 ?st1 k
      = Some (1, upd_queue_at h (\<lambda>q. q @ [b]) ?st1, k2)" "sched_inv k2"
      "\<forall>q. k_parked k2 q \<longleftrightarrow> k_parked k q \<and> q \<noteq> a"
    using wake_first [OF assms(1) pk(1) len, of "[b]"] by blast
  let ?st3 = "upd_queue_at h (\<lambda>q. q @ [b]) ?st1"
  have st3: "?st3 = upd_queue_at h (\<lambda>_. [b]) st" using assms(7) by (simp add: upd_queue_at_def)
  have "k_parked k2 b" using w(3) pk(2) ab(3) by simp
  moreover have "h < length (fx_queues (upd_queue_at h (\<lambda>_. []) ?st3))" using assms(7) by simp
  ultimately have "\<exists>k4. wake_loop wake_pid h 1 (\<lambda>_. True) [b] 0 (upd_queue_at h (\<lambda>_. []) ?st3) k2
      = Some (1, upd_queue_at h (\<lambda>q. q @ []) (upd_queue_at h (\<lambda>_. []) ?st3), k4) \<and> sched_inv k4
      \<and> (\<forall>q. k_parked k4 q \<longleftrightarrow> k_parked k2 q \<and> q \<noteq> b)"
    by (rule wake_first [OF w(2)])
  then obtain k4 where w4: "wake_loop wake_pid h 1 (\<lambda>_. True) [b] 0 (upd_queue_at h (\<lambda>_. []) ?st3) k2
      = Some (1, upd_queue_at h (\<lambda>q. q @ []) (upd_queue_at h (\<lambda>_. []) ?st3), k4)"
      "\<forall>q. k_parked k4 q \<longleftrightarrow> k_parked k2 q \<and> q \<noteq> b"
    by blast
  have "futex_wake wake_pid prio vmspace_id uaddr 1 ?st1 k = Some (0, ?st1, k)"
    using assms(5,6,7) by (simp add: futex_wake_def drain_at_def order_by_priority_def upd_queue_at_def)
  moreover have "futex_wake wake_pid prio vmspace_id uaddr 1 st k = Some (1, ?st3, k2)"
    using assms(5,6,8) ab(1) w(1) by (simp add: futex_wake_def drain_at_def)
  moreover have "futex_wake wake_pid prio vmspace_id uaddr 1 ?st3 k2
      = Some (1, upd_queue_at h (\<lambda>q. q @ []) (upd_queue_at h (\<lambda>_. []) ?st3), k4)"
    using assms(5,6,7) w4(1) by (simp add: futex_wake_def drain_at_def order_by_priority_def)
  moreover have "\<not> k_parked k4 p" "\<not> k_parked k4 q" "k_parked k2 p \<or> k_parked k2 q"
    using w4(2) w(3) ab(2,3) assms(2-4) by (auto simp: doubleton_eq_iff)
  moreover have "drain_at h st = ([p, q], ?st1)" using assms(8) by (simp add: drain_at_def)
  ultimately show ?thesis using w(1) unfolding ab(1) [symmetric] by blast
qed

lemma overlapping_wakes_lose_one_witness:
  "\<exists>drained st1 st2 k2. drain_at 0 (one_queue [Pid 7, Pid 8]) = (drained, st1)
      \<and> futex_wake wake_pid (\<lambda>_. 0) 1 0x1000 1 st1 two_sleepers = Some (0, st1, two_sleepers)
      \<and> wake_loop wake_pid 0 1 (\<lambda>_. True) (order_by_priority (\<lambda>_. 0) drained) 0 st1 two_sleepers
          = Some (1, st2, k2)
      \<and> (k_parked k2 (Pid 7) \<or> k_parked k2 (Pid 8))"
proof -
  have "map_of (fx_table (one_queue [Pid 7, Pid 8])) (fx_key 1 0x1000) = Some 0"
    "0 < length (fx_queues (one_queue [Pid 7, Pid 8]))"
    "fx_queues (one_queue [Pid 7, Pid 8]) ! 0 = [Pid 7, Pid 8]" "(0x1000 :: u64) AND 0x3 = 0"
    "Pid 7 \<noteq> Pid 8"
    by (simp_all add: one_queue_def)
  from overlapping_wakes_lose_one [OF two_sleepers_inv(1) this(5) two_sleepers_inv(2,3) this(4,1,2,3)]
  show ?thesis by blast
qed

text \<open>A requeued process that gives up stays on the other queue. When a sleeping process is moved
  to the queue of a second address and its wait then ends by a signal or a timeout, it leaves only the
  queue it first waited on. The entry it leaves behind takes the next wake of the second address:
  the process is woken from whatever it sleeps in by then, the wake counts it, and a process that
  really waits on the second address stays asleep.\<close>

lemma requeue_leaves_stale_waiter:
  assumes "(uaddr1 OR uaddr2) AND 0x3 = 0" "uaddr2 AND 0x3 = 0"
    and "map_of (fx_table st) (fx_key vm uaddr1) = Some h1" "map_of (fx_table st) (fx_key vm uaddr2) = Some h2"
    and "h1 \<noteq> h2" "h1 < length (fx_queues st)" "h2 < length (fx_queues st)"
    and "fx_queues st ! h1 = [p]" "fx_queues st ! h2 = []" "0 < n"
    and "copy_from_user hook uaddr2 4 m = (Some buf, m)"
    and "sched_inv k2" "p \<noteq> q" "k_parked k2 p" "k_parked k2 q" "prio q \<le> prio p"
  shows "\<exists>st1 st2 g2 st3 st4 k4. requeue hook wake_pid prio vm uaddr1 uaddr2 0 n None st m k = Some (1, st1, m, k)
      \<and> futex_wait_end h1 p outcome st1 g = (outcome_code outcome, st2, g2)
      \<and> futex_wait_begin hook vm uaddr2 (from_le buf) q st2 m = (Inr h2, st3, m)
      \<and> futex_wake wake_pid prio vm uaddr2 1 st3 k2 = Some (1, st4, k4)
      \<and> \<not> k_parked k4 p \<and> k_parked k4 q"
proof -
  let ?st1 = "upd_queue_at h2 (wq_enqueue p) (upd_queue_at h1 (\<lambda>_. []) st)"
  let ?st2 = "upd_queue_at h1 (wq_dequeue p) ?st1"
  let ?st3 = "upd_queue_at h2 (wq_enqueue q) ?st2"
  have "order_by_priority prio [p] = [p]" by (simp add: order_by_priority_def)
  then have "requeue hook wake_pid prio vm uaddr1 uaddr2 0 n None st m k = Some (1, ?st1, m, k)"
    using assms(1,3,4,8,10) by (simp add: requeue_def queue_for_def drain_at_def)
  moreover have "futex_wait_end h1 p outcome ?st1 g = (outcome_code outcome, ?st2, snd (timeout_unregister p g))"
    by (simp add: futex_wait_end_def)
  moreover have "futex_wait_begin hook vm uaddr2 (from_le buf) q ?st2 m = (Inr h2, ?st3, m)"
    using assms(2,4,11) by (simp add: futex_wait_begin_def queue_for_def)
  moreover have q3: "fx_queues ?st3 ! h2 = [p, q]"
    using assms(5-7,9) by (simp add: wq_enqueue_def)
  have "order_by_priority prio [p, q] = [p, q]" using leD [OF assms(16)] by (simp add: order_by_priority_pair)
  moreover have "h2 < length (fx_queues (upd_queue_at h2 (\<lambda>_. []) ?st3))" using assms(7) by simp
  then obtain k4 where "wake_loop wake_pid h2 1 (\<lambda>_. True) [p, q] 0 (upd_queue_at h2 (\<lambda>_. []) ?st3) k2
      = Some (1, upd_queue_at h2 (\<lambda>x. x @ [q]) (upd_queue_at h2 (\<lambda>_. []) ?st3), k4)"
      "\<forall>x. k_parked k4 x \<longleftrightarrow> k_parked k2 x \<and> x \<noteq> p"
    using wake_first [OF assms(12,14), of h2 "upd_queue_at h2 (\<lambda>_. []) ?st3" "[q]"] by blast
  moreover from this have "futex_wake wake_pid prio vm uaddr2 1 ?st3 k2
      = Some (1, upd_queue_at h2 (\<lambda>x. x @ [q]) (upd_queue_at h2 (\<lambda>_. []) ?st3), k4)"
    using assms(2,4) q3 calculation(4) by (simp add: futex_wake_def drain_at_def)
  ultimately show ?thesis using assms(13,15) by blast
qed

lemma requeue_leaves_stale_waiter_witness:
  "\<exists>st1 st2 g2 st3 st4 k4.
      requeue None wake_pid (\<lambda>_. 0) 1 0x1000 0x2000 0 1 None
        \<lparr>fx_table = [(fx_key 1 0x1000, 0), (fx_key 1 0x2000, 1)], fx_queues = [[Pid 7], []], fx_masks = (\<lambda>_. None)\<rparr>
        \<lparr>um_byte = (\<lambda>_. 0), um_flags = (\<lambda>_. Some (True, True, True))\<rparr> two_sleepers
        = Some (1, st1, \<lparr>um_byte = (\<lambda>_. 0), um_flags = (\<lambda>_. Some (True, True, True))\<rparr>, two_sleepers)
      \<and> futex_wait_end 0 (Pid 7) WaitInterrupted st1 [] = (EINTR, st2, g2)
      \<and> futex_wait_begin None 1 0x2000 0 (Pid 8) st2 \<lparr>um_byte = (\<lambda>_. 0), um_flags = (\<lambda>_. Some (True, True, True))\<rparr>
        = (Inr 1, st3, \<lparr>um_byte = (\<lambda>_. 0), um_flags = (\<lambda>_. Some (True, True, True))\<rparr>)
      \<and> futex_wake wake_pid (\<lambda>_. 0) 1 0x2000 1 st3 two_sleepers = Some (1, st4, k4)
      \<and> \<not> k_parked k4 (Pid 7) \<and> k_parked k4 (Pid 8)"
proof -
  let ?st = "\<lparr>fx_table = [(fx_key 1 0x1000, 0), (fx_key 1 0x2000, 1)], fx_queues = [[Pid 7], []],
    fx_masks = (\<lambda>_. None)\<rparr>"
  let ?m = "\<lparr>um_byte = (\<lambda>_. 0), um_flags = (\<lambda>_. Some (True, True, True))\<rparr>"
  have "range_usable Write 0x2000 4 ?m"
    by (simp add: range_usable_def page_usable_def kconsts)
  then have c: "copy_from_user None 0x2000 4 ?m = (Some [0, 0, 0, 0], ?m)"
    by (simp add: copy_from_usable [where k = Write] read_bytes_def upt_rec)
  have 1: "((0x1000 :: u64) OR 0x2000) AND 0x3 = 0" "(0x2000 :: u64) AND 0x3 = 0"
    "map_of (fx_table ?st) (fx_key 1 0x1000) = Some 0" "map_of (fx_table ?st) (fx_key 1 0x2000) = Some 1"
    "(0 :: nat) \<noteq> 1" "0 < length (fx_queues ?st)" "1 < length (fx_queues ?st)"
    "fx_queues ?st ! 0 = [Pid 7]" "fx_queues ?st ! 1 = []" "0 < (1 :: u32)"
    by (simp_all add: fx_key_def)
  have 2: "Pid 7 \<noteq> Pid 8" "(0 :: u16) \<le> 0" by simp_all
  from requeue_leaves_stale_waiter [OF 1 c two_sleepers_inv(1) 2(1) two_sleepers_inv(2,3),
      where prio = "\<lambda>_. 0" and k = two_sleepers and outcome = WaitInterrupted and g = "[]"]
  show ?thesis by (simp add: outcome_code_def)
qed

section \<open>What happens to the locks of a dying thread\<close>

definition word_at :: "user_mem \<Rightarrow> u64 \<Rightarrow> u32" where
  "word_at m a = from_le (read_bytes m a 4)"

text \<open>How the death of a thread may change a word.\<close>

definition died_word :: "u32 \<Rightarrow> u32 \<Rightarrow> u32 \<Rightarrow> bool" where
  "died_word tid old new \<longleftrightarrow> new = old
    \<or> (old AND FUTEX_TID_MASK = tid \<and> new = (old AND FUTEX_WAITERS) OR FUTEX_OWNER_DIED)"

lemma died_word_trans: "died_word tid a b \<Longrightarrow> died_word tid b c \<Longrightarrow> died_word tid a c"
proof -
  have "(((a AND FUTEX_WAITERS) OR FUTEX_OWNER_DIED) AND FUTEX_WAITERS) OR FUTEX_OWNER_DIED
      = (a AND FUTEX_WAITERS) OR FUTEX_OWNER_DIED"
    by (simp add: bit.conj_disj_distrib2 and.assoc)
  then show "died_word tid a b \<Longrightarrow> died_word tid b c \<Longrightarrow> died_word tid a c"
    unfolding died_word_def by auto
qed

text \<open>The memory of the process after one step: usable words stay usable, and change only that
  way.\<close>

definition died_mem :: "u32 \<Rightarrow> user_mem \<Rightarrow> user_mem \<Rightarrow> bool" where
  "died_mem tid m m' \<longleftrightarrow> (\<forall>a. 4 dvd unat a \<and> range_usable Read a 4 m
     \<longrightarrow> range_usable Read a 4 m' \<and> died_word tid (word_at m a) (word_at m' a))"

lemma died_mem_trans: "died_mem tid m1 m2 \<Longrightarrow> died_mem tid m2 m3 \<Longrightarrow> died_mem tid m1 m3"
  unfolding died_mem_def using died_word_trans by blast

lemma died_mem_extends: "mem_extends m m' \<Longrightarrow> died_mem tid m m'"
  by (auto simp: died_mem_def died_word_def word_at_def range_usable_extends read_bytes_extends)

lemma died_mem_refl [simp]: "died_mem tid m m"
  by (simp add: died_mem_extends)

lemma copy_from_extends: "hook_monotone hook \<Longrightarrow> mem_extends m (snd (copy_from_user hook a n m))"
  using access_ok_extends [of hook m Read a n] by (auto simp: copy_from_user_def split: prod.splits)

lemma aligned4_iff: "x AND 0x3 = (0 :: u64) \<longleftrightarrow> 4 dvd unat x"
proof -
  have "x AND 0x3 = take_bit 2 x" by (simp add: take_bit_eq_mask mask_eq_exp_minus_1)
  moreover have "unat (take_bit 2 x) = unat x mod 4"
    by (simp only: unsigned_take_bit_eq) (simp add: take_bit_eq_mod)
  ultimately have "unat (x AND 0x3) = unat x mod 4" by (simp only:)
  then show ?thesis by (metis dvd_eq_mod_eq_0 unat_eq_0)
qed

lemma aligned4_apart:
  assumes "4 dvd unat (a :: u64)" "4 dvd unat b" "a \<noteq> b"
  shows "unat a + 4 \<le> unat b \<or> unat b + 4 \<le> unat a"
proof -
  obtain i j where "unat a = 4 * i" "unat b = 4 * j" using assms(1,2) by (auto elim!: dvdE)
  moreover have "unat a \<noteq> unat b" using assms(3) word_unat_eq_iff by blast
  ultimately show ?thesis by (cases "i < j") auto
qed

lemma died_mem_store:
  assumes hm: "hook_monotone hook" and al: "a AND 0x3 = 0" and tid: "word_at m a AND FUTEX_TID_MASK = tid"
    and st: "copy_to_user hook a (to_le 4 ((word_at m a AND FUTEX_WAITERS) OR FUTEX_OWNER_DIED)) m = (ok, m')"
  shows "died_mem tid m m'"
proof (cases ok)
  case False
  then show ?thesis
    using st access_ok_extends [OF hm, of m Write a 4]
    by (auto simp: copy_to_user_def died_mem_extends split: prod.splits if_splits)
next
  case True
  let ?bs = "to_le 4 ((word_at m a AND FUTEX_WAITERS) OR FUTEX_OWNER_DIED)"
  have ne: "?bs \<noteq> []" by (simp add: to_le_def)
  have st1: "copy_to_user hook a ?bs m = (True, m')" using st True by simp
  note c = copy_to_user_TrueD [OF hm st1 ne]
  show ?thesis
    unfolding died_mem_def
  proof (intro allI impI)
    fix b
    assume b: "4 dvd unat b \<and> range_usable Read b 4 m"
    show "range_usable Read b 4 m' \<and> died_word tid (word_at m b) (word_at m' b)"
    proof (cases "b = a")
      case True
      then show ?thesis using c tid by (simp add: range_usable_weaken word_at_def died_word_def)
    next
      case False
      then have "unat a + length ?bs \<le> unat b \<or> unat b + 4 \<le> unat a"
        using aligned4_apart [of a b] b al by (auto simp: aligned4_iff)
      then have "range_usable Read b 4 m' \<and> read_bytes m' b 4 = read_bytes m b 4"
        using copy_to_user_keeps [OF hm st1] b by blast
      then show ?thesis by (simp add: word_at_def died_word_def)
    qed
  qed
qed

context waker
begin

lemma wake_loop_total:
  "inv s \<Longrightarrow> \<exists>w st' s'. wake_loop wake h n ok ps woken st s = Some (w, st', s') \<and> inv s'"
proof (induction ps arbitrary: woken st s)
  case (Cons p ps)
  then show ?case using wake_law [OF Cons.prems, of p] by (auto split: option.splits)
qed simp

lemma futex_wake_total:
  "inv s \<Longrightarrow> \<exists>w st' s'. futex_wake wake prio vm a n st s = Some (w, st', s') \<and> inv s'"
  using wake_loop_total [of s]
  by (cases "map_of (fx_table st) (fx_key vm a)") (fastforce simp: futex_wake_def drain_at_def)+

lemma handle_death_law:
  assumes "inv s" "hook_monotone hook"
  shows "\<exists>st' m' s'. handle_futex_death hook wake prio vm tid a (st, m, s) = Some (st', m', s') \<and> inv s'
    \<and> died_mem tid m m'"
proof (cases "a AND 0x3 = 0")
  case True
  obtain r m1 where c: "copy_from_user hook a 4 m = (r, m1)" by (cases "copy_from_user hook a 4 m")
  have e1: "died_mem tid m m1" using copy_from_extends [OF assms(2), of m a 4] c by (simp add: died_mem_extends)
  show ?thesis
  proof (cases r)
    case None
    then show ?thesis using True c e1 assms(1) by (simp add: handle_futex_death_def)
  next
    case (Some buf)
    have buf: "from_le buf = word_at m1 a"
      using c Some by (auto simp: copy_from_user_def word_at_def split: prod.splits if_splits)
    let ?nval = "(word_at m1 a AND FUTEX_WAITERS) OR FUTEX_OWNER_DIED"
    obtain ok m2 where s: "copy_to_user hook a (to_le 4 ?nval) m1 = (ok, m2)"
      by (cases "copy_to_user hook a (to_le 4 ?nval) m1")
    obtain w st1 s1 where w: "futex_wake wake prio vm a 1 st s = Some (w, st1, s1)" "inv s1"
      using futex_wake_total [OF assms(1)] by blast
    have "died_mem tid m m2" if "word_at m1 a AND FUTEX_TID_MASK = tid"
      using died_mem_trans [OF e1 died_mem_store [OF assms(2) True that s]] .
    then show ?thesis
      using True c Some buf s w e1 assms(1) by (auto simp: handle_futex_death_def Let_def)
  qed
qed (use assms in \<open>simp add: handle_futex_death_def\<close>)

lemma robust_loop_law:
  assumes "inv s" "hook_monotone hook"
  shows "\<exists>st' m' s'. robust_loop hook wake prio vm tid head off pending limit entry (st, m, s)
      = Some (st', m', s') \<and> inv s' \<and> died_mem tid m m'"
  using assms(1)
proof (induction limit arbitrary: entry st m s)
  case (Suc limit)
  obtain r m1 where c: "copy_from_user hook entry 8 m = (r, m1)" by (cases "copy_from_user hook entry 8 m")
  have e1: "died_mem tid m m1" using copy_from_extends [OF assms(2), of m entry 8] c by (simp add: died_mem_extends)
  obtain st1 m2 s1 where h: "handle_futex_death hook wake prio vm tid (entry + off) (st, m1, s)
      = Some (st1, m2, s1)" "inv s1" "died_mem tid m1 m2"
    using handle_death_law [OF Suc.prems assms(2)] by blast
  obtain st2 m3 s2 where x: "(if entry \<noteq> pending
        then handle_futex_death hook wake prio vm tid (entry + off) (st, m1, s) else Some (st, m1, s))
      = Some (st2, m3, s2)" "inv s2" "died_mem tid m m3"
    using h Suc.prems e1 died_mem_trans [OF e1 h(3)] by (cases "entry = pending") auto
  show ?case
  proof (cases "entry = head \<or> entry = 0 \<or> r = None")
    case True
    then show ?thesis using Suc.prems c e1 by auto
  next
    case False
    then obtain buf where "r = Some buf" by auto
    then show ?thesis
      using Suc.IH [OF x(2), of "from_le buf" st2 m3] False c x(1) died_mem_trans [OF x(3)] by auto
  qed
qed simp

end

text \<open>C26: The kernel's clean-up of the locks of a dying thread is bounded and harmless. Whatever list
  the thread left in its memory, even a cyclic or a garbled one, the walk ends, never panics, and
  changes an aligned word of readable memory only if it holds the identifier of the dying thread: the
  word then has the owner-died bit and keeps its waiters bit.\<close>

theorem exit_robust_list_safe:
  assumes "sched_inv k" "hook_monotone hook"
  shows "\<exists>st' m' k'. exit_robust_list hook wake_pid prio vmspace_id tid head_addr (st, m, k) = Some (st', m', k')
    \<and> sched_inv k' \<and> (\<forall>a. 4 dvd unat a \<and> range_usable Read a 4 m \<longrightarrow>
        word_at m' a = word_at m a
      \<or> (word_at m a AND FUTEX_TID_MASK = tid
         \<and> word_at m' a = (word_at m a AND FUTEX_WAITERS) OR FUTEX_OWNER_DIED))"
proof -
  have "\<exists>st' m' k'. exit_robust_list hook wake_pid prio vmspace_id tid head_addr (st, m, k) = Some (st', m', k')
    \<and> sched_inv k' \<and> died_mem tid m m'"
  proof (cases "head_addr = 0 \<or> fst (copy_from_user hook head_addr 24 m) = None")
    case True
    then show ?thesis
      using assms copy_from_extends [OF assms(2), of m head_addr 24]
      by (cases "copy_from_user hook head_addr 24 m") (auto simp: exit_robust_list_def died_mem_extends)
  next
    case False
    then obtain buf m1 where c: "copy_from_user hook head_addr 24 m = (Some buf, m1)"
      by (cases "copy_from_user hook head_addr 24 m") auto
    have e1: "died_mem tid m m1"
      using copy_from_extends [OF assms(2), of m head_addr 24] c by (simp add: died_mem_extends)
    let ?off = "from_le (slice 8 8 buf)" and ?pending = "from_le (slice 16 8 buf) :: u64"
    obtain st1 m2 k1 where r: "robust_loop hook wake_pid prio vmspace_id tid head_addr ?off ?pending
        ROBUST_LIST_LIMIT (from_le (slice 0 8 buf)) (st, m1, k) = Some (st1, m2, k1)"
      "sched_inv k1" "died_mem tid m1 m2"
      using kw.robust_loop_law [OF assms] by blast
    obtain st2 m3 k2 where d: "handle_futex_death hook wake_pid prio vmspace_id tid (?pending + ?off) (st1, m2, k1)
        = Some (st2, m3, k2)" "sched_inv k2" "died_mem tid m2 m3"
      using kw.handle_death_law [OF r(2) assms(2)] by blast
    show ?thesis
      using False c r d died_mem_trans [OF e1 r(3)] died_mem_trans [OF died_mem_trans [OF e1 r(3)] d(3)]
      by (auto simp: exit_robust_list_def Let_def)
  qed
  then show ?thesis unfolding died_mem_def died_word_def by blast
qed

theorem exit_robust_list_safe_witness:
  "\<exists>st' m' k'. exit_robust_list None wake_pid (\<lambda>_. 0) 1 7 0x1000
      (one_queue [], \<lparr>um_byte = (\<lambda>a. if a = 0x1001 then 0x10 else 7), um_flags = (\<lambda>_. Some (True, True, True))\<rparr>,
       two_sleepers) = Some (st', m', k') \<and> sched_inv k'"
  using exit_robust_list_safe [OF two_sleepers_inv(1) hook_monotone_None] by blast

section \<open>The read-modify-write loop ends\<close>

text \<open>Once the other threads leave the word alone the exchange succeeds: after finitely many
  interferences the loop of \<open>wake_op\<close> has a result, which is an error or the word that was replaced by
  the new one in the same exchange.\<close>

lemma cmpxchg_result:
  assumes hm: "hook_monotone hook" and c: "cmpxchg_user_u32 hook uaddr old new m = (Some observed, m')"
  shows "\<exists>m1. mem_extends m m1 \<and> range_usable Write uaddr 4 m1 \<and> observed = word_at m1 uaddr
    \<and> m' = (if observed = old then write_bytes uaddr (to_le 4 new) m1 else m1)"
proof -
  obtain ok m1 where a: "access_ok hook Write uaddr 4 m = (ok, m1)"
    by (cases "access_ok hook Write uaddr 4 m")
  with c have "ok" by (auto simp: cmpxchg_user_u32_def split: if_splits)
  then show ?thesis
    using a c access_ok_usable [OF hm, of Write uaddr 4 m m1] access_ok_extends [OF hm, of m Write uaddr 4]
    by (intro exI [of _ m1]) (auto simp: cmpxchg_user_u32_def word_at_def Let_def split: if_splits)
qed

definition rmw_done :: "u64 \<Rightarrow> u32 \<Rightarrow> ((int + u32) \<times> user_mem) option \<Rightarrow> bool" where
  "rmw_done uaddr op r \<longleftrightarrow> (\<exists>e m'. r = Some (Inl e, m'))
    \<or> (\<exists>old m2 new. r = Some (Inr old, write_bytes uaddr (to_le 4 new) m2) \<and> range_usable Write uaddr 4 m2
        \<and> word_at m2 uaddr = old \<and> wake_op_new op old = Some new)"

lemma rmw_round:
  assumes hm: "hook_monotone hook"
    and again: "\<And>m1 old new observed m3. copy_from_user hook uaddr 4 m = (Some old, m1)
      \<Longrightarrow> cmpxchg_user_u32 hook uaddr (from_le old) new (case envs of [] \<Rightarrow> m1 | e # _ \<Rightarrow> e m1) = (Some observed, m3)
      \<Longrightarrow> observed \<noteq> from_le old
      \<Longrightarrow> rmw_done uaddr op (case envs of [] \<Rightarrow> None | _ # es \<Rightarrow> rmw_loop hook uaddr op es m3)"
  shows "rmw_done uaddr op (rmw_loop hook uaddr op envs m)"
proof -
  obtain r m1 where c: "copy_from_user hook uaddr 4 m = (r, m1)" by (cases "copy_from_user hook uaddr 4 m")
  show ?thesis
  proof (cases r)
    case None
    then show ?thesis by (subst rmw_loop.simps) (simp add: c rmw_done_def)
  next
    case (Some buf)
    let ?m2 = "case envs of [] \<Rightarrow> m1 | e # _ \<Rightarrow> e m1"
    show ?thesis
    proof (cases "wake_op_new op (from_le buf)")
      case None
      then show ?thesis by (subst rmw_loop.simps) (simp add: c Some rmw_done_def)
    next
      case (Some new)
      obtain x m3 where x: "cmpxchg_user_u32 hook uaddr (from_le buf) new ?m2 = (x, m3)"
        by (cases "cmpxchg_user_u32 hook uaddr (from_le buf) new ?m2")
      have step: "rmw_loop hook uaddr op envs m = (case x of None \<Rightarrow> Some (Inl EFAULT, m3)
          | Some observed \<Rightarrow> if observed = from_le buf then Some (Inr (from_le buf), m3)
              else (case envs of [] \<Rightarrow> None | _ # es \<Rightarrow> rmw_loop hook uaddr op es m3))"
        using c \<open>r = Some buf\<close> Some x by (subst rmw_loop.simps) (simp add: Let_def)
      show ?thesis
      proof (cases "\<exists>observed. x = Some observed \<and> observed \<noteq> from_le buf")
        case True
        then show ?thesis using again c \<open>r = Some buf\<close> x step by auto
      next
        case False
        then have "x = None \<or> x = Some (from_le buf)" by (cases x) auto
        then show ?thesis
          using step x Some cmpxchg_result [OF hm, of uaddr "from_le buf" new ?m2 "from_le buf" m3]
          by (auto simp: rmw_done_def)
      qed
    qed
  qed
qed

lemma rmw_loop_returns:
  assumes hm: "hook_monotone hook"
  shows "rmw_done uaddr op (rmw_loop hook uaddr op envs m)"
proof (induction envs arbitrary: m)
  case Nil
  show ?case
  proof (rule rmw_round [OF hm])
    fix m1 old new observed m3
    assume c: "copy_from_user hook uaddr 4 m = (Some old, m1)" and ne: "observed \<noteq> from_le old"
      and x: "cmpxchg_user_u32 hook uaddr (from_le old) new (case [] of [] \<Rightarrow> m1 | e # _ \<Rightarrow> e m1) = (Some observed, m3)"
    have "range_usable Read uaddr 4 m1" "from_le old = word_at m1 uaddr"
      using c access_ok_usable [OF hm, of Read uaddr 4 m m1]
      by (auto simp: copy_from_user_def word_at_def split: prod.splits if_splits)
    then have "observed = from_le old"
      using cmpxchg_result [OF hm, of uaddr "from_le old" new m1 observed m3] x
      by (auto simp: word_at_def read_bytes_extends)
    then show "rmw_done uaddr op (case [] of [] \<Rightarrow> None | _ # es \<Rightarrow> rmw_loop hook uaddr op es m3)"
      using ne by simp
  qed
next
  case (Cons e envs)
  show ?case by (rule rmw_round [OF hm]) (simp add: Cons.IH)
qed

end
