(* ===== verification/Path_Name.thy ===== *)
theory Path_Name
  imports Kapi "HOL-Library.Sublist"
begin

text \<open>
  Path names as the kernel handles them (\<open>kernel/src/vfs/path.rs\<close>): splitting at slashes, lexical
  normalisation, joining and cutting of canonical paths, and the test for one path lying below
  another (\<open>kernel/src/vfs/mod.rs\<close>). A canonical path is the slash or a sequence of components each
  after a slash; the lemmas relate the operations on strings to operations on component lists.
\<close>

section \<open>Splitting\<close>

abbreviation slash :: char where "slash \<equiv> CHR ''/''"

text \<open>\<open>str::split('/')\<close>: always at least one piece.\<close>

fun split_slash :: "string \<Rightarrow> string list" where
  "split_slash [] = [[]]"
| "split_slash (c # cs) =
    (if c = slash then [] # split_slash cs
     else case split_slash cs of [] \<Rightarrow> [[c]] | p # ps \<Rightarrow> (c # p) # ps)"

definition pieces :: "string \<Rightarrow> string list" where
  "pieces s = filter (\<lambda>c. c \<noteq> []) (split_slash s)"

text \<open>One piece during normalisation.\<close>

definition push_piece :: "string \<Rightarrow> string list \<Rightarrow> string list" where
  "push_piece c parts = (if c = ''.'' then parts else if c = ''..'' then butlast parts else parts @ [c])"

definition print_path :: "string list \<Rightarrow> string" where
  "print_path parts = (if parts = [] then ''/'' else concat (map (\<lambda>p. slash # p) parts))"

definition starts_with_slash :: "string \<Rightarrow> bool" where
  "starts_with_slash s \<longleftrightarrow> s \<noteq> [] \<and> hd s = slash"

definition normalize :: "string \<Rightarrow> string \<Rightarrow> string" where
  "normalize cwd target =
    (let parts = (if \<not> starts_with_slash target then fold push_piece (pieces cwd) [] else [])
      in print_path (fold push_piece (pieces target) parts))"

section \<open>Canonical paths\<close>

definition join_canonical :: "string \<Rightarrow> string \<Rightarrow> string" where
  "join_canonical base component = (if base = ''/'' then ''/'' else base @ ''/'') @ component"

text \<open>\<open>rfind('/')\<close>: the position of the last slash.\<close>

fun rfind_slash :: "string \<Rightarrow> nat option" where
  "rfind_slash [] = None"
| "rfind_slash (c # cs) =
    (case rfind_slash cs of Some i \<Rightarrow> Some (i + 1) | None \<Rightarrow> if c = slash then Some 0 else None)"

definition parent_of_canonical :: "string \<Rightarrow> string" where
  "parent_of_canonical s =
    (case rfind_slash s of None \<Rightarrow> ''/'' | Some i \<Rightarrow> if i = 0 then ''/'' else take i s)"

definition join_for_mirror :: "string \<Rightarrow> string \<Rightarrow> string" where
  "join_for_mirror peer_path suffix_str =
    (if suffix_str = [] then peer_path else if peer_path = ''/'' then suffix_str else peer_path @ suffix_str)"

definition is_descendant_path :: "string \<Rightarrow> string \<Rightarrow> bool" where
  "is_descendant_path child ancestor =
    (if ancestor = ''/'' then child \<noteq> ''/''
     else take (length ancestor) child = ancestor \<and> length ancestor < length child
       \<and> child ! length ancestor = slash)"

section \<open>Components\<close>

definition plain :: "string \<Rightarrow> bool" where
  "plain c \<longleftrightarrow> c \<noteq> [] \<and> slash \<notin> set c"

definition clean :: "string \<Rightarrow> bool" where
  "clean c \<longleftrightarrow> plain c \<and> c \<noteq> ''.'' \<and> c \<noteq> ''..''"

lemma split_slash_nonempty [simp]: "split_slash s \<noteq> []"
  by (induction s) (auto split: list.splits)

lemma split_slash_no_slash: "\<forall>p\<in>set (split_slash s). slash \<notin> set p"
  by (induction s) (auto split: list.splits)

lemma split_slash_plain: "slash \<notin> set c \<Longrightarrow> split_slash c = [c]"
  by (induction c) auto

lemma split_slash_append: "slash \<notin> set c \<Longrightarrow> split_slash (c @ slash # s) = c # split_slash s"
  by (induction c) auto

lemma pieces_plain: "\<forall>p\<in>set (pieces s). plain p"
  using split_slash_no_slash [of s] by (auto simp: pieces_def plain_def)

lemma pieces_root [simp]: "pieces ''/'' = []" "pieces [] = []"
  by (simp_all add: pieces_def)

lemma pieces_print:
  assumes "\<forall>p\<in>set parts. plain p"
  shows "pieces (print_path parts) = parts"
proof -
  have "pieces (concat (map (\<lambda>p. slash # p) ps)) = ps" if "\<forall>p\<in>set ps. plain p" for ps
    using that
  proof (induction ps)
    case (Cons p ps)
    have p: "slash \<notin> set p" "p \<noteq> []" using Cons.prems by (simp_all add: plain_def)
    show ?case
    proof (cases ps)
      case Nil
      then show ?thesis using p by (simp add: pieces_def split_slash_plain)
    next
      case (Cons q qs)
      then have "pieces (slash # p @ slash # q @ concat (map (\<lambda>p. slash # p) qs))
          = p # pieces (slash # q @ concat (map (\<lambda>p. slash # p) qs))"
        using p by (simp add: pieces_def split_slash_append)
      then show ?thesis using Cons.IH Cons.prems Cons by simp
    qed
  qed simp
  then show ?thesis using assms by (simp add: print_path_def)
qed

lemma print_inj: "\<forall>p\<in>set a. plain p \<Longrightarrow> \<forall>p\<in>set b. plain p \<Longrightarrow> print_path a = print_path b \<longleftrightarrow> a = b"
  using pieces_print by metis

lemma push_clean:
  assumes "\<forall>p\<in>set parts. clean p" "plain c"
  shows "\<forall>p\<in>set (push_piece c parts). clean p"
proof (cases "c = ''.'' \<or> c = ''..''")
  case True
  then have "set (push_piece c parts) \<subseteq> set parts" by (auto simp: push_piece_def dest: in_set_butlastD)
  then show ?thesis using assms(1) by blast
next
  case False
  then have "push_piece c parts = parts @ [c]" "clean c" using assms(2) by (simp_all add: push_piece_def clean_def)
  then show ?thesis using assms(1) by simp
qed

lemma fold_push_clean:
  "\<forall>c\<in>set cs. plain c \<Longrightarrow> \<forall>p\<in>set parts. clean p \<Longrightarrow> \<forall>p\<in>set (fold push_piece cs parts). clean p"
proof (induction cs arbitrary: parts)
  case (Cons c cs)
  have "\<forall>c\<in>set cs. plain c" "plain c" using Cons.prems(1) by simp_all
  from Cons.IH [OF this(1) push_clean [OF Cons.prems(2) this(2)]] show ?case by simp
qed simp

lemma push_clean_id: "clean c \<Longrightarrow> push_piece c parts = parts @ [c]"
  unfolding push_piece_def clean_def by (simp only: if_False simp_thms)

lemma fold_push_id: "\<forall>c\<in>set cs. clean c \<Longrightarrow> fold push_piece cs parts = parts @ cs"
  by (induction cs arbitrary: parts) (simp_all add: push_clean_id)

definition canonical :: "string \<Rightarrow> bool" where
  "canonical s \<longleftrightarrow> (\<exists>parts. (\<forall>p\<in>set parts. clean p) \<and> s = print_path parts)"

lemma pieces_print_clean: "\<forall>p\<in>set parts. clean p \<Longrightarrow> pieces (print_path parts) = parts"
  by (rule pieces_print) (simp add: clean_def)

lemma canonical_pieces:
  assumes "canonical s"
  shows "print_path (pieces s) = s" "\<forall>p\<in>set (pieces s). clean p"
proof -
  obtain parts where p: "\<forall>p\<in>set parts. clean p" "s = print_path parts"
    using assms by (auto simp: canonical_def)
  then show "print_path (pieces s) = s" "\<forall>p\<in>set (pieces s). clean p"
    using pieces_print_clean [OF p(1)] by simp_all
qed

lemma canonical_print [simp]: "\<forall>p\<in>set parts. clean p \<Longrightarrow> canonical (print_path parts)"
  by (auto simp: canonical_def)

lemma canonical_root [simp]: "canonical ''/''"
  using canonical_print [of "[]"] by (simp add: print_path_def)

lemma canonical_code: "canonical s \<longleftrightarrow> print_path (pieces s) = s \<and> list_all clean (pieces s)"
  unfolding list_all_iff using canonical_pieces [of s] canonical_print [of "pieces s"] by metis

section \<open>Operations on canonical paths\<close>

lemma print_root_iff: "\<forall>p\<in>set parts. plain p \<Longrightarrow> print_path parts = ''/'' \<longleftrightarrow> parts = []"
  using print_inj [of parts "[]"] by (simp add: print_path_def)

lemma join_print:
  assumes "\<forall>p\<in>set parts. plain p"
  shows "join_canonical (print_path parts) c = print_path (parts @ [c])"
  using print_root_iff [OF assms] by (auto simp: join_canonical_def) (auto simp: print_path_def)

lemma rfind_slash_append:
  assumes "slash \<notin> set c"
  shows "rfind_slash (s @ slash # c) = Some (length s)"
proof -
  have "rfind_slash c = None" using assms by (induction c) auto
  then show ?thesis by (induction s) simp_all
qed

lemma parent_print:
  assumes "\<forall>p\<in>set parts. plain p"
  shows "parent_of_canonical (print_path parts) = print_path (butlast parts)"
proof (cases parts rule: rev_cases)
  case Nil
  then show ?thesis by (simp add: print_path_def parent_of_canonical_def)
next
  case (snoc ps p)
  let ?s = "concat (map (\<lambda>p. slash # p) ps)"
  have "print_path parts = ?s @ slash # p" by (simp add: snoc print_path_def)
  moreover have "slash \<notin> set p" using assms by (simp add: snoc plain_def)
  ultimately have "rfind_slash (print_path parts) = Some (length ?s)" by (simp add: rfind_slash_append)
  then show ?thesis
    using \<open>print_path parts = ?s @ slash # p\<close> by (cases ps) (simp_all add: snoc parent_of_canonical_def print_path_def)
qed

lemma starts_with_slash_print [simp]: "starts_with_slash (print_path parts)"
  by (cases parts) (simp_all add: starts_with_slash_def print_path_def)

lemma pieces_append: "pieces (x @ slash # y) = pieces x @ pieces y"
proof -
  have "split_slash (x @ slash # y) = split_slash x @ split_slash y"
    by (induction x) (auto split: list.splits)
  then show ?thesis by (simp add: pieces_def)
qed

lemma is_descendant_print:
  assumes a: "\<forall>p\<in>set a. plain p" and c: "\<forall>p\<in>set c. plain p"
  shows "is_descendant_path (print_path c) (print_path a) \<longleftrightarrow> strict_prefix a c"
proof (cases "a = []")
  case True
  then show ?thesis
    using print_root_iff [OF c] by (auto simp: is_descendant_path_def print_path_def strict_prefix_def)
next
  case False
  then have root: "print_path a \<noteq> ''/''" using print_root_iff [OF a] by simp
  show ?thesis
  proof
    assume "is_descendant_path (print_path c) (print_path a)"
    then have "take (length (print_path a)) (print_path c) = print_path a"
      "length (print_path a) < length (print_path c)" "print_path c ! length (print_path a) = slash"
      using root by (simp_all add: is_descendant_path_def)
    then have "print_path c = print_path a @ slash # drop (Suc (length (print_path a))) (print_path c)"
      by (metis id_take_nth_drop)
    then have "pieces (print_path c) = pieces (print_path a) @ pieces (drop (Suc (length (print_path a))) (print_path c))"
      by (metis pieces_append)
    then have "c = a @ pieces (drop (Suc (length (print_path a))) (print_path c))"
      by (simp add: pieces_print a c)
    then have "prefix a c" by (rule prefixI)
    moreover have "a \<noteq> c" using \<open>length (print_path a) < length (print_path c)\<close> by auto
    ultimately show "strict_prefix a c" by (simp add: strict_prefix_def)
  next
    assume "strict_prefix a c"
    then obtain q qs where "c = a @ q # qs" by (auto elim: strict_prefixE')
    then have "print_path c = print_path a @ slash # q @ concat (map (\<lambda>p. slash # p) qs)"
      using False by (simp add: print_path_def)
    then show "is_descendant_path (print_path c) (print_path a)" using root by (simp add: is_descendant_path_def)
  qed
qed

section \<open>Normalisation\<close>

text \<open>What the components of a path mean, read from its end: a dot counts for nothing, a double dot
  cancels the nearest component to its left that is not cancelled yet, and a component that no
  double dot cancels is kept; double dots left over at the start cancel nothing. The argument is the
  reversed list, \<open>n\<close> the number of double dots that still have to cancel something.\<close>

fun kept_back :: "nat \<Rightarrow> string list \<Rightarrow> string list" where
  "kept_back n [] = []"
| "kept_back n (c # cs) =
    (if c = ''.'' then kept_back n cs
     else if c = ''..'' then kept_back (Suc n) cs
     else case n of 0 \<Rightarrow> c # kept_back 0 cs | Suc k \<Rightarrow> kept_back k cs)"

definition kept :: "string list \<Rightarrow> string list" where
  "kept cs = rev (kept_back 0 (rev cs))"

text \<open>The stack of the code, with \<open>n\<close> components taken off again, is the reading from the end.\<close>

lemma butlast_fold_push:
  "(butlast ^^ n) (fold push_piece cs []) = rev (kept_back n (rev cs))"
proof (induction cs arbitrary: n rule: rev_induct)
  case Nil
  have "(butlast ^^ n) [] = []" by (induction n) simp_all
  then show ?case by simp
next
  case (snoc c cs)
  let ?F = "fold push_piece cs []"
  consider "c = ''.''" | "c = ''..''" | "c \<noteq> ''.''" "c \<noteq> ''..''" by blast
  then show ?case
  proof cases
    case 1
    then show ?thesis using snoc [of n] by (simp add: push_piece_def)
  next
    case 2
    then show ?thesis using snoc [of "Suc n"] by (simp add: push_piece_def funpow_swap1)
  next
    case 3
    then have "push_piece c ?F = ?F @ [c]" unfolding push_piece_def by (simp only: if_False)
    moreover have "kept_back n (c # rev cs) =
        (case n of 0 \<Rightarrow> c # kept_back 0 (rev cs) | Suc k \<Rightarrow> kept_back k (rev cs))"
      using 3 by (simp only: kept_back.simps if_False)
    ultimately show ?thesis
      using snoc [of 0] snoc [of "n - 1"] by (cases n) (simp_all add: funpow_swap1)
  qed
qed

lemma fold_push_kept: "fold push_piece cs [] = kept cs"
  using butlast_fold_push [of 0 cs] by (simp add: kept_def)

text \<open>C27: Normalising a path is the round trip through its components. The result is canonical: a
  slash, or components each after one slash, none of them empty, a dot or a double dot. The
  components of the result are those of the target, after those of the directory when the target is
  relative, that no later double dot cancels. Normalising a canonical path again, against any
  directory, changes nothing, and reading the components back and printing them gives the path.\<close>

theorem normalize_canonical:
  "canonical (normalize cwd target)
    \<and> pieces (normalize cwd target) =
        kept (if starts_with_slash target then pieces target else pieces cwd @ pieces target)
    \<and> normalize cwd2 (normalize cwd target) = normalize cwd target
    \<and> print_path (pieces (normalize cwd target)) = normalize cwd target"
proof -
  define cs where "cs = (if starts_with_slash target then pieces target else pieces cwd @ pieces target)"
  have n: "normalize cwd target = print_path (fold push_piece cs [])"
    by (simp add: normalize_def cs_def)
  have "\<forall>p\<in>set cs. plain p" using pieces_plain by (auto simp: cs_def)
  then have c: "\<forall>p\<in>set (fold push_piece cs []). clean p" by (rule fold_push_clean) simp
  have "normalize cwd2 (print_path (fold push_piece cs [])) = print_path (fold push_piece cs [])"
    by (simp add: normalize_def pieces_print_clean [OF c] fold_push_id [OF c])
  then show ?thesis
    unfolding n using c by (simp add: pieces_print_clean fold_push_kept flip: cs_def)
qed

end
