(* ===== verification/Mount_Table.thy ===== *)
theory Mount_Table
  imports Path_Name Ordered_Map "HOL-Library.List_Lexorder" "HOL-Library.Char_ord" "HOL-Library.Multiset"
begin

text \<open>
  Mount tables (\<open>kernel/src/vfs/mod.rs\<close>). A table maps mount points to mounts, each with a stack
  of the mounts it hides, and keeps a tree beside the map: each mount knows its parent, the mount
  whose path is the longest proper prefix of its own, and its children. The operations keep the
  tree in step with the map; the lemmas show that a query answered from the tree is the query
  answered from the paths. Peer groups record which mounts of which tables propagate to each other;
  a table is named by a number in them. The flags of a mount live in a tag shared with open files.
\<close>

section \<open>Peer groups and tags\<close>

datatype mount_propagation = Private | SharedWith nat | SlaveOf nat | Unbindable

record peer_group =
  pg_members :: "(nat \<times> string) list"
  pg_slaves :: "(nat \<times> string) list"

record mount_world =
  mw_groups :: "nat \<Rightarrow> peer_group"
  mw_flags :: "nat \<Rightarrow> u64"
  mw_next_tag :: nat

definition add_once :: "'a \<Rightarrow> 'a list \<Rightarrow> 'a list" where
  "add_once x xs = (if x \<in> set xs then xs else xs @ [x])"

definition add_member :: "nat \<times> string \<Rightarrow> peer_group \<Rightarrow> peer_group" where
  "add_member x g = g\<lparr>pg_members := add_once x (pg_members g)\<rparr>"

definition add_slave :: "nat \<times> string \<Rightarrow> peer_group \<Rightarrow> peer_group" where
  "add_slave x g = g\<lparr>pg_slaves := add_once x (pg_slaves g)\<rparr>"

definition remove_member :: "nat \<times> string \<Rightarrow> peer_group \<Rightarrow> peer_group" where
  "remove_member x g = g\<lparr>pg_members := filter (\<lambda>y. y \<noteq> x) (pg_members g)\<rparr>"

definition remove_slave :: "nat \<times> string \<Rightarrow> peer_group \<Rightarrow> peer_group" where
  "remove_slave x g = g\<lparr>pg_slaves := filter (\<lambda>y. y \<noteq> x) (pg_slaves g)\<rparr>"

definition join_group :: "nat \<Rightarrow> string \<Rightarrow> mount_propagation \<Rightarrow> mount_world \<Rightarrow> mount_world" where
  "join_group self path prop w =
    (case prop of
       SharedWith g \<Rightarrow> w\<lparr>mw_groups := (mw_groups w)(g := add_member (self, path) (mw_groups w g))\<rparr>
     | SlaveOf g \<Rightarrow> w\<lparr>mw_groups := (mw_groups w)(g := add_slave (self, path) (mw_groups w g))\<rparr>
     | _ \<Rightarrow> w)"

definition leave_group :: "nat \<Rightarrow> string \<Rightarrow> mount_propagation \<Rightarrow> mount_world \<Rightarrow> mount_world" where
  "leave_group self path prop w =
    (case prop of
       SharedWith g \<Rightarrow> w\<lparr>mw_groups := (mw_groups w)(g := remove_member (self, path) (mw_groups w g))\<rparr>
     | SlaveOf g \<Rightarrow> w\<lparr>mw_groups := (mw_groups w)(g := remove_slave (self, path) (mw_groups w g))\<rparr>
     | _ \<Rightarrow> w)"

definition new_with_flags :: "u64 \<Rightarrow> mount_world \<Rightarrow> nat \<times> mount_world" where
  "new_with_flags flags w =
    (mw_next_tag w, w\<lparr>mw_flags := (mw_flags w)(mw_next_tag w := flags), mw_next_tag := mw_next_tag w + 1\<rparr>)"

section \<open>The table\<close>

record 'i node_data =
  nd_target_inode_id :: u64
  nd_root :: 'i
  nd_propagation :: mount_propagation
  nd_in_use :: nat
  nd_source :: string
  nd_fstype :: string

record 'i mount_node =
  mn_data :: "'i node_data"
  mn_parent :: "string option"
  mn_children :: "string list"
  mn_shadowed :: "'i node_data list"

record 'i mount_table =
  mt_roots :: "string list"
  mt_by_path :: "(string, 'i mount_node) omap"

definition node_at :: "'i mount_table \<Rightarrow> string \<Rightarrow> 'i mount_node option" where
  "node_at t p = map_of (mt_by_path t) p"

definition upd_node :: "string \<Rightarrow> ('i mount_node \<Rightarrow> 'i mount_node) \<Rightarrow> 'i mount_table \<Rightarrow> 'i mount_table" where
  "upd_node p f t = (case node_at t p of None \<Rightarrow> t | Some n \<Rightarrow> t\<lparr>mt_by_path := om_insert p (f n) (mt_by_path t)\<rparr>)"

fun deepest_in :: "string \<Rightarrow> string option \<Rightarrow> string list \<Rightarrow> string option" where
  "deepest_in path best [] = best"
| "deepest_in path best (k # ks) =
    deepest_in path
      (if is_descendant_path path k
       then (case best of None \<Rightarrow> Some k | Some b \<Rightarrow> if length k > length b then Some k else best)
       else best) ks"

definition deepest_existing_ancestor :: "'i mount_table \<Rightarrow> string \<Rightarrow> string option" where
  "deepest_existing_ancestor t path = deepest_in path None (map fst (mt_by_path t))"

text \<open>The list of siblings: the children of a mount, or the roots.\<close>

definition siblings :: "'i mount_table \<Rightarrow> string option \<Rightarrow> string list" where
  "siblings t x =
    (case x of None \<Rightarrow> mt_roots t | Some p \<Rightarrow> (case node_at t p of None \<Rightarrow> [] | Some n \<Rightarrow> mn_children n))"

definition set_siblings :: "string option \<Rightarrow> string list \<Rightarrow> 'i mount_table \<Rightarrow> 'i mount_table" where
  "set_siblings x cs t =
    (case x of None \<Rightarrow> t\<lparr>mt_roots := cs\<rparr> | Some p \<Rightarrow> upd_node p (\<lambda>n. n\<lparr>mn_children := cs\<rparr>) t)"

definition set_parents :: "string list \<Rightarrow> string option \<Rightarrow> 'i mount_table \<Rightarrow> 'i mount_table" where
  "set_parents cs x t = fold (\<lambda>c. upd_node c (\<lambda>n. n\<lparr>mn_parent := x\<rparr>)) cs t"

text \<open>\<open>link_into_tree\<close> for a new node, with the insertion into the map that follows each call.\<close>

definition link_into_tree :: "string \<Rightarrow> 'i node_data \<Rightarrow> 'i node_data list \<Rightarrow> 'i mount_table \<Rightarrow> 'i mount_table" where
  "link_into_tree path d shadowed t =
    (let parent = deepest_existing_ancestor t path;
         cs = siblings t parent;
         moved = filter (\<lambda>c. is_descendant_path c path) cs;
         t1 = set_siblings parent (filter (\<lambda>c. \<not> is_descendant_path c path) cs @ [path]) t;
         t2 = set_parents moved (Some path) t1
      in t2\<lparr>mt_by_path := om_insert path
              \<lparr>mn_data = d, mn_parent = parent, mn_children = moved, mn_shadowed = shadowed\<rparr> (mt_by_path t2)\<rparr>)"

text \<open>\<open>unlink_from_tree\<close> with the removal from the map.\<close>

definition unlink_from_tree :: "string \<Rightarrow> 'i mount_table \<Rightarrow> 'i mount_table" where
  "unlink_from_tree path t =
    (case node_at t path of
       None \<Rightarrow> t
     | Some n \<Rightarrow>
         let parent = mn_parent n; promoted = mn_children n;
             t1 = set_siblings parent (filter (\<lambda>c. c \<noteq> path) (siblings t parent) @ promoted) t;
             t2 = set_parents promoted parent t1
          in t2\<lparr>mt_by_path := om_remove path (mt_by_path t2)\<rparr>)"

definition mt_install ::
  "nat \<Rightarrow> string \<Rightarrow> u64 \<Rightarrow> 'i \<Rightarrow> mount_propagation \<Rightarrow> string \<Rightarrow> string \<Rightarrow> u64 \<Rightarrow> bool
    \<Rightarrow> mount_world \<times> 'i mount_table \<Rightarrow> mount_world \<times> 'i mount_table" where
  "mt_install self path target root prop source fstype flags preserve_tag x =
    (case x of (w, t) \<Rightarrow>
      let w1 = join_group self path prop w in
      case node_at t path of
        Some n \<Rightarrow>
          let old = mn_data n;
              w2 = leave_group self path (nd_propagation old) w1;
              (tag, w3) = (if preserve_tag then (nd_in_use old, w2\<lparr>mw_flags := (mw_flags w2)(nd_in_use old := flags)\<rparr>)
                           else new_with_flags flags w2);
              d = \<lparr>nd_target_inode_id = target, nd_root = root, nd_propagation = prop, nd_in_use = tag,
                   nd_source = source, nd_fstype = fstype\<rparr>
           in (w3, upd_node path (\<lambda>n. n\<lparr>mn_data := d,
                      mn_shadowed := (if preserve_tag then mn_shadowed n else mn_shadowed n @ [old])\<rparr>) t)
      | None \<Rightarrow>
          let (tag, w2) = new_with_flags flags w1
           in (w2, link_into_tree path \<lparr>nd_target_inode_id = target, nd_root = root, nd_propagation = prop,
                     nd_in_use = tag, nd_source = source, nd_fstype = fstype\<rparr> [] t))"

definition mt_remove ::
  "nat \<Rightarrow> string \<Rightarrow> mount_world \<times> 'i mount_table \<Rightarrow> 'i option \<times> mount_world \<times> 'i mount_table" where
  "mt_remove self path x =
    (case x of (w, t) \<Rightarrow>
      case node_at t path of
        None \<Rightarrow> (None, w, t)
      | Some n \<Rightarrow>
          let w1 = leave_group self path (nd_propagation (mn_data n)) w in
          if mn_shadowed n = [] then (Some (nd_root (mn_data n)), w1, unlink_from_tree path t)
          else let under = last (mn_shadowed n)
            in (Some (nd_root (mn_data n)), join_group self path (nd_propagation under) w1,
                upd_node path (\<lambda>n. n\<lparr>mn_data := under, mn_shadowed := butlast (mn_shadowed n)\<rparr>) t))"

section \<open>Queries\<close>

definition mt_lookup :: "'i mount_table \<Rightarrow> string \<Rightarrow> 'i option" where
  "mt_lookup t path = map_option (nd_root \<circ> mn_data) (node_at t path)"

definition snapshot_one :: "'i mount_table \<Rightarrow> string \<Rightarrow> 'i node_data option" where
  "snapshot_one t path = map_option mn_data (node_at t path)"

definition set_flags_at :: "string \<Rightarrow> u64 \<Rightarrow> 'i mount_table \<Rightarrow> mount_world \<Rightarrow> bool \<times> mount_world" where
  "set_flags_at path flags t w =
    (case node_at t path of
       Some n \<Rightarrow> (True, w\<lparr>mw_flags := (mw_flags w)(nd_in_use (mn_data n) := flags)\<rparr>)
     | None \<Rightarrow> (False, w))"

definition set_flags_by_inode ::
  "('i \<Rightarrow> u64) \<Rightarrow> u64 \<Rightarrow> u64 \<Rightarrow> 'i mount_table \<Rightarrow> mount_world \<Rightarrow> bool \<times> mount_world" where
  "set_flags_by_inode inode_id i flags t w =
    (case filter (\<lambda>(_, n). inode_id (nd_root (mn_data n)) = i) (mt_by_path t) of
       [(_, n)] \<Rightarrow> (True, w\<lparr>mw_flags := (mw_flags w)(nd_in_use (mn_data n) := flags)\<rparr>)
     | _ \<Rightarrow> (False, w))"

definition is_mountpoint_inode :: "u64 \<Rightarrow> 'i mount_table \<Rightarrow> bool" where
  "is_mountpoint_inode i t \<longleftrightarrow> list_ex (\<lambda>(_, n). nd_target_inode_id (mn_data n) = i) (mt_by_path t)"

definition proper_containing_mount_with_path :: "'i mount_table \<Rightarrow> string \<Rightarrow> (string \<times> 'i node_data) option" where
  "proper_containing_mount_with_path t path =
    (case deepest_existing_ancestor t path of
       None \<Rightarrow> None
     | Some p \<Rightarrow> map_option (\<lambda>n. (p, mn_data n)) (node_at t p))"

definition containing_mount_with_path :: "'i mount_table \<Rightarrow> string \<Rightarrow> (string \<times> 'i node_data) option" where
  "containing_mount_with_path t path =
    (case node_at t path of
       Some n \<Rightarrow> Some (path, mn_data n)
     | None \<Rightarrow> proper_containing_mount_with_path t path)"

definition has_child_mount :: "'i mount_table \<Rightarrow> string \<Rightarrow> bool" where
  "has_child_mount t path =
    (case node_at t path of
       Some n \<Rightarrow> mn_children n \<noteq> []
     | None \<Rightarrow> list_ex (\<lambda>(k, _). is_descendant_path k path) (mt_by_path t))"

text \<open>The walk down the tree. A child's path is longer than its parent's, so the length of the
  longest path bounds the depth.\<close>

fun collect_descendants :: "'i mount_table \<Rightarrow> nat \<Rightarrow> string \<Rightarrow> string list" where
  "collect_descendants t 0 p = []"
| "collect_descendants t (Suc n) p =
    concat (map (\<lambda>c. c # collect_descendants t n c) (siblings t (Some p)))"

definition tree_depth :: "'i mount_table \<Rightarrow> nat" where
  "tree_depth t = fold max (map (length \<circ> fst) (mt_by_path t)) 0"

definition path_suffix :: "string \<Rightarrow> string \<Rightarrow> string" where
  "path_suffix path k = (if path = ''/'' then k else drop (length path) k)"

definition collect_subtree :: "'i mount_table \<Rightarrow> string \<Rightarrow> (string \<times> 'i node_data) list" where
  "collect_subtree t path =
    (case node_at t path of
       None \<Rightarrow> map (\<lambda>(k, n). (path_suffix path k, mn_data n))
                 (filter (\<lambda>(k, _). is_descendant_path k path) (mt_by_path t))
     | Some n \<Rightarrow> ([], mn_data n) #
         concat (map (\<lambda>k. case node_at t k of None \<Rightarrow> [] | Some m \<Rightarrow> [(path_suffix path k, mn_data m)])
           (collect_descendants t (tree_depth t) path)))"

definition set_propagation ::
  "nat \<Rightarrow> string \<Rightarrow> mount_propagation \<Rightarrow> mount_world \<times> 'i mount_table \<Rightarrow> bool \<times> mount_world \<times> 'i mount_table" where
  "set_propagation self path prop x =
    (case x of (w, t) \<Rightarrow>
      case node_at t path of
        None \<Rightarrow> (False, w, t)
      | Some n \<Rightarrow>
          (True, join_group self path prop (leave_group self path (nd_propagation (mn_data n)) w),
           upd_node path (\<lambda>n. n\<lparr>mn_data := (mn_data n)\<lparr>nd_propagation := prop\<rparr>\<rparr>) t))"

definition is_stacked :: "'i mount_table \<Rightarrow> string \<Rightarrow> bool" where
  "is_stacked t path = (case node_at t path of Some n \<Rightarrow> mn_shadowed n \<noteq> [] | None \<Rightarrow> False)"

fun longest_path :: "string option \<Rightarrow> string list \<Rightarrow> string option" where
  "longest_path best [] = best"
| "longest_path best (k # ks) =
    longest_path (case best of None \<Rightarrow> Some k | Some b \<Rightarrow> if length k > length b then Some k else best) ks"

definition mount_path_for_root_inode :: "('i \<Rightarrow> u64) \<Rightarrow> 'i mount_table \<Rightarrow> u64 \<Rightarrow> string option" where
  "mount_path_for_root_inode inode_id t i =
    longest_path None (map fst (filter (\<lambda>(_, n). inode_id (nd_root (mn_data n)) = i) (mt_by_path t)))"

section \<open>One path below another\<close>

definition below :: "string \<Rightarrow> string \<Rightarrow> bool" where
  "below a c \<longleftrightarrow> strict_prefix (pieces a) (pieces c)"

lemma is_descendant_below: "canonical a \<Longrightarrow> canonical c \<Longrightarrow> is_descendant_path c a \<longleftrightarrow> below a c"
proof -
  assume "canonical a" "canonical c"
  then obtain x y where "a = print_path x" "c = print_path y" "\<forall>p\<in>set x. clean p" "\<forall>p\<in>set y. clean p"
    by (auto simp: canonical_def)
  moreover from this have "\<forall>p\<in>set x. plain p" "\<forall>p\<in>set y. plain p" by (simp_all add: clean_def)
  ultimately show ?thesis by (simp add: is_descendant_print below_def pieces_print)
qed

lemma below_irrefl [simp]: "\<not> below a a"
  by (simp add: below_def)

lemma below_trans: "below a b \<Longrightarrow> below b c \<Longrightarrow> below a c"
  by (auto simp: below_def intro: prefix_order.less_trans)

lemma below_asym: "below a b \<Longrightarrow> \<not> below b a"
  by (auto simp: below_def dest: prefix_order.less_asym)

lemma below_linear:
  assumes "below a x" "below b x" "canonical a" "canonical b"
  shows "a = b \<or> below a b \<or> below b a"
proof -
  have "prefix (pieces a) (pieces b) \<or> prefix (pieces b) (pieces a)"
    using assms(1,2) prefix_same_cases by (fastforce simp: below_def strict_prefix_def)
  moreover have "pieces a = pieces b \<Longrightarrow> a = b" using canonical_pieces(1) assms(3,4) by metis
  ultimately show ?thesis by (auto simp: below_def strict_prefix_def)
qed

lemma below_length:
  assumes "below a c" "canonical a" "canonical c"
  shows "length a < length c"
proof -
  obtain q qs where q: "pieces c = pieces a @ q # qs" using assms(1) by (auto simp: below_def elim: strict_prefixE')
  have "q \<noteq> []" using canonical_pieces(2) [OF assms(3)] by (auto simp: q clean_def plain_def)
  then have "length (print_path (pieces a)) < length (print_path (pieces c))"
    by (cases "pieces a = []") (auto simp: q print_path_def)
  then show ?thesis using canonical_pieces(1) assms(2,3) by simp
qed

section \<open>The tree\<close>

definition keys :: "'i mount_table \<Rightarrow> string set" where
  "keys t = fst ` set (mt_by_path t)"

text \<open>The parent of a path among a set of mount points: the deepest one above it.\<close>

definition parent_ok :: "string set \<Rightarrow> string \<Rightarrow> string option \<Rightarrow> bool" where
  "parent_ok K p x =
    (case x of
       None \<Rightarrow> \<forall>k\<in>K. \<not> below k p
     | Some q \<Rightarrow> q \<in> K \<and> below q p \<and> (\<forall>k\<in>K. below k p \<longrightarrow> k = q \<or> below k q))"

definition parent_of :: "'i mount_table \<Rightarrow> string \<Rightarrow> string option option" where
  "parent_of t c = map_option mn_parent (node_at t c)"

definition tree_ok :: "'i mount_table \<Rightarrow> bool" where
  "tree_ok t \<longleftrightarrow> om_wf (mt_by_path t) \<and> (\<forall>k\<in>keys t. canonical k)
    \<and> (\<forall>c x. parent_of t c = Some x \<longrightarrow> parent_ok (keys t) c x)
    \<and> (\<forall>x. distinct (siblings t x) \<and> set (siblings t x) = {c. parent_of t c = Some x})"

lemma node_at_keys: "node_at t p \<noteq> None \<longleftrightarrow> p \<in> keys t"
  by (force simp: node_at_def keys_def map_of_eq_None_iff)

lemma parent_of_keys: "parent_of t c \<noteq> None \<longleftrightarrow> c \<in> keys t"
  unfolding node_at_keys [symmetric] by (simp add: parent_of_def)

lemma tree_okD:
  assumes "tree_ok t"
  shows "om_wf (mt_by_path t)" "\<And>k. k \<in> keys t \<Longrightarrow> canonical k"
    "\<And>c x. parent_of t c = Some x \<Longrightarrow> parent_ok (keys t) c x"
    "\<And>x. distinct (siblings t x)" "\<And>x. set (siblings t x) = {c. parent_of t c = Some x}"
  using assms by (auto simp: tree_ok_def)

lemma parent_ok_unique:
  assumes "parent_ok K p x" "parent_ok K p y"
  shows "x = y"
proof (cases x)
  case None
  then show ?thesis using assms by (cases y) (auto simp: parent_ok_def)
next
  case (Some q)
  then show ?thesis using assms below_asym by (cases y) (auto simp: parent_ok_def)
qed

lemma deepest_in_spec:
  assumes "canonical path" "\<forall>k\<in>set ks. canonical k" "\<forall>b. best = Some b \<longrightarrow> below b path \<and> canonical b"
  shows "case deepest_in path best ks of
      None \<Rightarrow> best = None \<and> (\<forall>k\<in>set ks. \<not> below k path)
    | Some d \<Rightarrow> (d \<in> set ks \<or> best = Some d) \<and> below d path
        \<and> (\<forall>k. (k \<in> set ks \<or> best = Some k) \<and> below k path \<longrightarrow> length k \<le> length d)"
  using assms(2,3)
proof (induction ks arbitrary: best)
  case (Cons k ks)
  let ?b = "if is_descendant_path path k
       then (case best of None \<Rightarrow> Some k | Some b \<Rightarrow> if length k > length b then Some k else best) else best"
  have d: "is_descendant_path path k \<longleftrightarrow> below k path"
    using Cons.prems(1) assms(1) by (simp add: is_descendant_below)
  have "\<forall>b. ?b = Some b \<longrightarrow> below b path \<and> canonical b"
    using Cons.prems d by (auto split: option.splits)
  from Cons.IH [OF _ this] have ih: "case deepest_in path ?b ks of
      None \<Rightarrow> ?b = None \<and> (\<forall>k\<in>set ks. \<not> below k path)
    | Some d \<Rightarrow> (d \<in> set ks \<or> ?b = Some d) \<and> below d path
        \<and> (\<forall>k. (k \<in> set ks \<or> ?b = Some k) \<and> below k path \<longrightarrow> length k \<le> length d)"
    using Cons.prems(1) by simp
  show ?case
  proof (cases "deepest_in path ?b ks")
    case None
    then have "best = None \<and> \<not> below k path \<and> (\<forall>k\<in>set ks. \<not> below k path)"
      using ih d by (auto split: if_splits option.splits)
    then show ?thesis unfolding deepest_in.simps None by simp
  next
    case (Some x)
    then have i: "x \<in> set ks \<or> ?b = Some x" "below x path"
      "\<forall>k. (k \<in> set ks \<or> ?b = Some k) \<and> below k path \<longrightarrow> length k \<le> length x"
      using ih by simp_all
    have "length y \<le> length x" if "(y \<in> set (k # ks) \<or> best = Some y) \<and> below y path" for y
    proof (cases "y \<in> set ks")
      case False
      then have "\<exists>b. ?b = Some b \<and> length y \<le> length b \<and> below b path"
        using that d Cons.prems(2) by (cases best; cases "below k path") (auto simp: not_less)
      then show ?thesis using i(3) order_trans by blast
    qed (use that i(3) in blast)
    moreover have "x \<in> set (k # ks) \<or> best = Some x"
      using i(1) by (auto split: if_splits option.splits)
    ultimately show ?thesis unfolding deepest_in.simps Some using i(2) by simp
  qed
qed (auto split: option.splits)

lemma deepest_parent_ok:
  assumes "tree_ok t" "canonical path"
  shows "parent_ok (keys t) path (deepest_existing_ancestor t path)"
proof -
  let ?ks = "map fst (mt_by_path t)"
  have ks: "set ?ks = keys t" by (auto simp: keys_def)
  have can: "\<forall>k\<in>set ?ks. canonical k" using tree_okD(2) [OF assms(1)] unfolding ks by blast
  note sp = deepest_in_spec [OF assms(2) can, of None]
  show ?thesis
  proof (cases "deepest_in path None ?ks")
    case None
    then show ?thesis using sp by (simp add: parent_ok_def deepest_existing_ancestor_def keys_def)
  next
    case (Some d)
    then have d: "d \<in> keys t" "below d path" "\<forall>k\<in>keys t. below k path \<longrightarrow> length k \<le> length d"
      using sp unfolding ks by simp_all
    have "k = d \<or> below k d" if "k \<in> keys t" "below k path" for k
      using below_linear [OF that(2) d(2)] below_length [of d k] d(3) that can unfolding ks
      by (metis d(1) leD)
    then show ?thesis using d Some by (simp add: parent_ok_def deepest_existing_ancestor_def)
  qed
qed

text \<open>What the steps of linking and unlinking do to nodes.\<close>

definition wf_map :: "'i mount_table \<Rightarrow> bool" where
  "wf_map t \<longleftrightarrow> om_wf (mt_by_path t)"

lemma upd_node_simps [simp]:
  assumes "wf_map t"
  shows "wf_map (upd_node p f t)" "mt_roots (upd_node p f t) = mt_roots t"
    "node_at (upd_node p f t) q = (if q = p then map_option f (node_at t p) else node_at t q)"
  using assms map_of_om_insert [of "mt_by_path t" p]
  by (auto simp: upd_node_def node_at_def wf_map_def split: option.splits)

lemma set_siblings_simps [simp]:
  assumes "wf_map t"
  shows "wf_map (set_siblings x cs t)"
    "node_at (set_siblings x cs t) q = (if x = Some q then map_option (mn_children_update (\<lambda>_. cs)) (node_at t q) else node_at t q)"
    "mt_roots (set_siblings x cs t) = (if x = None then cs else mt_roots t)"
  using assms by (auto simp: set_siblings_def split: option.splits) (simp_all add: wf_map_def node_at_def)

lemma set_parents_simps [simp]:
  assumes "wf_map t"
  shows "wf_map (set_parents cs x t)" "mt_roots (set_parents cs x t) = mt_roots t"
    "node_at (set_parents cs x t) q = (if q \<in> set cs then map_option (mn_parent_update (\<lambda>_. x)) (node_at t q) else node_at t q)"
proof -
  have "wf_map (set_parents cs x t) \<and> mt_roots (set_parents cs x t) = mt_roots t
      \<and> node_at (set_parents cs x t) q
        = (if q \<in> set cs then map_option (mn_parent_update (\<lambda>_. x)) (node_at t q) else node_at t q)"
    using assms
  proof (induction cs arbitrary: t)
    case (Cons c cs)
    then show ?case
      using Cons.IH [of "upd_node c (\<lambda>n. n\<lparr>mn_parent := x\<rparr>) t"]
      by (cases "node_at t q") (auto simp: set_parents_def)
  qed (simp add: set_parents_def)
  then show "wf_map (set_parents cs x t)" "mt_roots (set_parents cs x t) = mt_roots t"
    "node_at (set_parents cs x t) q
      = (if q \<in> set cs then map_option (mn_parent_update (\<lambda>_. x)) (node_at t q) else node_at t q)"
    by simp_all
qed

lemma keys_node_at: "keys t = {p. node_at t p \<noteq> None}"
  using node_at_keys by blast

lemma siblings_simps:
  "siblings t None = mt_roots t"
  "siblings t (Some p) = (case node_at t p of None \<Rightarrow> [] | Some n \<Rightarrow> mn_children n)"
  by (simp_all add: siblings_def)

text \<open>Linking a new mount.\<close>

lemma link_effect:
  fixes t :: "'i mount_table" and d :: "'i node_data" and sh :: "'i node_data list"
  assumes ok: "tree_ok t" and new: "path \<notin> keys t" and can: "canonical path"
  defines "r \<equiv> deepest_existing_ancestor t path"
  defines "moved \<equiv> filter (\<lambda>c. below path c) (siblings t r)"
  defines "t' \<equiv> link_into_tree path d sh t"
  shows "wf_map t'" "keys t' = insert path (keys t)"
    "parent_of t' c = (if c = path then Some r else if c \<in> set moved then Some (Some path) else parent_of t c)"
    "siblings t' x = (if x = Some path then moved
      else if x = r then filter (\<lambda>c. \<not> below path c) (siblings t r) @ [path] else siblings t x)"
    "node_at t' path = Some \<lparr>mn_data = d, mn_parent = r, mn_children = moved, mn_shadowed = sh\<rparr>"
    "q \<noteq> path \<Longrightarrow> map_option (\<lambda>n. (mn_data n, mn_shadowed n)) (node_at t' q)
       = map_option (\<lambda>n. (mn_data n, mn_shadowed n)) (node_at t q)"
proof -
  have wf: "wf_map t" using tree_okD(1) [OF ok] by (simp add: wf_map_def)
  have r_ok: "parent_ok (keys t) path r" unfolding r_def by (rule deepest_parent_ok [OF ok can])
  have rk: "p \<in> keys t" if "r = Some p" for p using r_ok that by (simp add: parent_ok_def)
  have sib: "c \<in> keys t" if "c \<in> set (siblings t r)" for c
    using tree_okD(5) [OF ok] that parent_of_keys by force
  have desc: "is_descendant_path c path = below path c" if "c \<in> set (siblings t r)" for c
    using is_descendant_below [OF can] tree_okD(2) [OF ok] sib [OF that] by blast
  let ?rest = "filter (\<lambda>c. \<not> below path c) (siblings t r) @ [path]"
  let ?t2 = "set_parents moved (Some path) (set_siblings r ?rest t)"
  have f: "filter (\<lambda>c. is_descendant_path c path) (siblings t r) = moved"
    "filter (\<lambda>c. \<not> is_descendant_path c path) (siblings t r) = filter (\<lambda>c. \<not> below path c) (siblings t r)"
    using desc unfolding moved_def by (auto intro: filter_cong)
  have t': "t' = ?t2\<lparr>mt_by_path := om_insert path
      \<lparr>mn_data = d, mn_parent = r, mn_children = moved, mn_shadowed = sh\<rparr> (mt_by_path ?t2)\<rparr>"
    unfolding t'_def link_into_tree_def r_def [symmetric] f Let_def ..
  have wf2: "om_wf (mt_by_path ?t2)" using wf by (simp add: wf_map_def [symmetric])
  show "wf_map t'" using wf2 by (simp add: t' wf_map_def)
  have n: "node_at t' q = (if q = path then Some \<lparr>mn_data = d, mn_parent = r, mn_children = moved, mn_shadowed = sh\<rparr>
      else node_at ?t2 q)" for q
    using map_of_om_insert [OF wf2] by (simp add: t' node_at_def)
  then show "node_at t' path = Some \<lparr>mn_data = d, mn_parent = r, mn_children = moved, mn_shadowed = sh\<rparr>"
    by simp
  have moved: "path \<notin> set moved" "set moved \<subseteq> keys t" using sib by (auto simp: moved_def)
  have n2: "node_at ?t2 q = map_option (\<lambda>n. n\<lparr>mn_children := (if r = Some q then ?rest else mn_children n),
      mn_parent := (if q \<in> set moved then Some path else mn_parent n)\<rparr>) (node_at t q)" for q
    using wf by (cases "node_at t q") auto
  show "keys t' = insert path (keys t)" by (auto simp: keys_node_at n n2)
  show "parent_of t' c = (if c = path then Some r else if c \<in> set moved then Some (Some path) else parent_of t c)"
    using moved by (cases "node_at t c") (auto simp: parent_of_def n n2 keys_node_at subset_iff)
  show "map_option (\<lambda>n. (mn_data n, mn_shadowed n)) (node_at t' q)
       = map_option (\<lambda>n. (mn_data n, mn_shadowed n)) (node_at t q)" if "q \<noteq> path"
    using that by (cases "node_at t q") (auto simp: n n2)
  have roots: "mt_roots t' = (if r = None then ?rest else mt_roots t)" using wf by (simp add: t')
  have npath: "node_at t path = None" using new node_at_keys by blast
  show "siblings t' x = (if x = Some path then moved else if x = r then ?rest else siblings t x)"
  proof (cases x)
    case None
    then show ?thesis by (simp add: siblings_simps(1) [of t'] roots siblings_simps(1) [of t])
  next
    case (Some p)
    have "node_at t p \<noteq> None" if "r = Some p" using rk [OF that] node_at_keys by blast
    then show ?thesis unfolding Some siblings_simps(2) [of t'] siblings_simps(2) [of t p] n n2
      using npath by (cases "node_at t p") auto
  qed
qed

lemma link_tree_ok:
  assumes ok: "tree_ok t" and new: "path \<notin> keys t" and can: "canonical path"
  shows "tree_ok (link_into_tree path d sh t)"
proof -
  let ?t' = "link_into_tree path d sh t"
  define r where "r = deepest_existing_ancestor t path"
  define moved where "moved = filter (\<lambda>c. below path c) (siblings t r)"
  note ef = link_effect [OF ok new can, where d = d and sh = sh, folded r_def, folded moved_def]
  have r: "parent_ok (keys t) path r" unfolding r_def by (rule deepest_parent_ok [OF ok can])
  have rp: "r \<noteq> Some path" using r new by (auto simp: parent_ok_def)
  have mv: "c \<in> set moved \<longleftrightarrow> parent_of t c = Some r \<and> below path c" for c
    using tree_okD(5) [OF ok, of r] by (auto simp: moved_def)
  have no: "parent_of t c \<noteq> Some (Some path)" for c
    using tree_okD(3) [OF ok, of c "Some path"] new by (auto simp: parent_ok_def)
  have np: "parent_of t path = None" using parent_of_keys new by blast
  have par: "parent_ok (keys ?t') c x" if c: "parent_of ?t' c = Some x" for c x
  proof -
    consider (path) "c = path" "x = r" | (moved) "c \<noteq> path" "c \<in> set moved" "x = Some path"
      | (other) "c \<noteq> path" "c \<notin> set moved" "parent_of t c = Some x"
      using c ef(3) [of c] by (auto split: if_splits)
    then show ?thesis
    proof cases
      case path
      then show ?thesis using r by (auto simp: ef(2) parent_ok_def split: option.splits)
    next
      case moved
      have pc: "parent_ok (keys t) c r" "below path c" using moved(2) mv tree_okD(3) [OF ok] by auto
      have "k = path \<or> below k path" if k: "k \<in> keys t" "below k c" for k
      proof -
        obtain p0 where p0: "r = Some p0" "k = p0 \<or> below k p0"
          using pc(1) k by (cases r) (auto simp: parent_ok_def)
        then have "below p0 path" using r by (simp add: parent_ok_def)
        then show ?thesis using p0(2) below_trans by blast
      qed
      then show ?thesis using moved(3) pc(2) by (auto simp: ef(2) parent_ok_def)
    next
      case other
      have pc: "parent_ok (keys t) c x" using other(3) tree_okD(3) [OF ok] by blast
      show ?thesis
      proof (cases "below path c")
        case True
        then have xr: "x \<noteq> r" using other mv by auto
        have ck: "c \<in> keys t" using other(3) parent_of_keys by fastforce
        show ?thesis
        proof (cases x)
          case None
          then obtain p0 where "r = Some p0" using xr by (cases r) auto
          then have "p0 \<in> keys t" "below p0 c" using r below_trans [OF _ True] by (auto simp: parent_ok_def)
          then show ?thesis using pc None by (simp add: parent_ok_def)
        next
          case (Some q)
          then have q: "q \<in> keys t" "below q c" "\<forall>k\<in>keys t. below k c \<longrightarrow> k = q \<or> below k q"
            using pc by (auto simp: parent_ok_def)
          have "\<not> below q path"
          proof
            assume b: "below q path"
            then obtain p0 where p0: "r = Some p0" "p0 \<in> keys t" "below p0 path" "q = p0 \<or> below q p0"
              using r q(1) by (cases r) (auto simp: parent_ok_def)
            then have "p0 = q \<or> below p0 q" using q(3) below_trans [OF p0(3) True] by blast
            then have "q = p0" using p0(4) below_asym by blast
            then show False using xr Some p0(1) by simp
          qed
          then have "below path q"
            using below_linear [OF q(2) True tree_okD(2) [OF ok q(1)] can] new q(1) by auto
          then show ?thesis using q Some by (auto simp: ef(2) parent_ok_def)
        qed
      qed (use pc in \<open>auto simp: ef(2) parent_ok_def split: option.splits\<close>)
    qed
  qed
  have "distinct (siblings ?t' x) \<and> set (siblings ?t' x) = {c. parent_of ?t' c = Some x}" for x
  proof -
    have d: "distinct moved" using tree_okD(4) [OF ok] by (simp add: moved_def)
    have ns: "path \<notin> set (siblings t x)" using tree_okD(5) [OF ok] np by simp
    consider "x = Some path" | "x \<noteq> Some path" "x = r" | "x \<noteq> Some path" "x \<noteq> r" by blast
    then show ?thesis
    proof cases
      case 1
      then have "siblings ?t' x = moved" "\<And>c. parent_of ?t' c = Some x \<longleftrightarrow> c \<in> set moved"
        using rp no mv [of path] by (simp_all add: ef(3,4))
      then show ?thesis using d by simp
    next
      case 2
      then have "siblings ?t' x = filter (\<lambda>c. \<not> below path c) (siblings t x) @ [path]"
        "\<And>c. parent_of ?t' c = Some x \<longleftrightarrow> c = path \<or> (parent_of t c = Some x \<and> \<not> below path c)"
        using np mv by (simp_all add: ef(3,4)) blast
      then show ?thesis using ns tree_okD(4,5) [OF ok, of x] by auto
    next
      case 3
      then have "siblings ?t' x = siblings t x" "\<And>c. parent_of ?t' c = Some x \<longleftrightarrow> parent_of t c = Some x"
        using mv np by (simp_all add: ef(3,4))
      then show ?thesis using tree_okD(4,5) [OF ok, of x] by simp
    qed
  qed
  then show ?thesis
    using ef(1) par tree_okD(2) [OF ok] can by (auto simp: tree_ok_def wf_map_def ef(2))
qed

text \<open>Unlinking a mount.\<close>

lemma unlink_effect:
  fixes t :: "'i mount_table"
  assumes ok: "tree_ok t" and n: "node_at t path = Some n"
  defines "r \<equiv> mn_parent n" and "promoted \<equiv> mn_children n" and "t' \<equiv> unlink_from_tree path t"
  shows "wf_map t'" "keys t' = keys t - {path}"
    "parent_of t' c = (if c = path then None else if c \<in> set promoted then Some r else parent_of t c)"
    "siblings t' x = (if x = Some path then []
      else if x = r then filter (\<lambda>c. c \<noteq> path) (siblings t r) @ promoted else siblings t x)"
    "map_option (\<lambda>n. (mn_data n, mn_shadowed n)) (node_at t' q)
       = (if q = path then None else map_option (\<lambda>n. (mn_data n, mn_shadowed n)) (node_at t q))"
proof -
  have wf: "wf_map t" using tree_okD(1) [OF ok] by (simp add: wf_map_def)
  have r_ok: "parent_ok (keys t) path r"
    using tree_okD(3) [OF ok, of path r] n by (simp add: parent_of_def r_def)
  have rk: "p \<in> keys t" if "r = Some p" for p using r_ok that by (simp add: parent_ok_def)
  let ?cs = "filter (\<lambda>c. c \<noteq> path) (siblings t r) @ promoted"
  let ?t2 = "set_parents promoted r (set_siblings r ?cs t)"
  have t': "t' = ?t2\<lparr>mt_by_path := om_remove path (mt_by_path ?t2)\<rparr>"
    by (simp add: t'_def unlink_from_tree_def n r_def promoted_def Let_def)
  have wf2: "om_wf (mt_by_path ?t2)" using wf by (simp add: wf_map_def [symmetric])
  then show "wf_map t'" by (simp add: t' wf_map_def)
  have n': "node_at t' q = (if q = path then None else node_at ?t2 q)" for q
    by (simp add: t' node_at_def map_of_om_remove)
  have pr: "set promoted = {c. parent_of t c = Some (Some path)}"
    using tree_okD(5) [OF ok, of "Some path"] n by (simp add: siblings_simps promoted_def)
  have pk: "set promoted \<subseteq> keys t" using pr parent_of_keys by fastforce
  have n2: "node_at ?t2 q = map_option (\<lambda>m. m\<lparr>mn_children := (if r = Some q then ?cs else mn_children m),
      mn_parent := (if q \<in> set promoted then r else mn_parent m)\<rparr>) (node_at t q)" for q
    using wf by (cases "node_at t q") auto
  show "keys t' = keys t - {path}" by (auto simp: keys_node_at n' n2)
  show "parent_of t' c = (if c = path then None else if c \<in> set promoted then Some r else parent_of t c)"
    using pk by (cases "node_at t c") (auto simp: parent_of_def n' n2 keys_node_at subset_iff)
  show "map_option (\<lambda>n. (mn_data n, mn_shadowed n)) (node_at t' q)
       = (if q = path then None else map_option (\<lambda>n. (mn_data n, mn_shadowed n)) (node_at t q))"
    by (cases "node_at t q") (auto simp: n' n2)
  have roots: "mt_roots t' = (if r = None then ?cs else mt_roots t)" using wf by (simp add: t')
  show "siblings t' x = (if x = Some path then [] else if x = r then ?cs else siblings t x)"
  proof (cases x)
    case None
    then show ?thesis by (simp add: siblings_simps(1) [of t'] roots siblings_simps(1) [of t])
  next
    case (Some p)
    have "node_at t p \<noteq> None" if "r = Some p" using rk [OF that] node_at_keys by blast
    then show ?thesis unfolding Some siblings_simps(2) [of t'] siblings_simps(2) [of t p] n' n2
      by (cases "node_at t p") auto
  qed
qed

lemma unlink_tree_ok:
  assumes ok: "tree_ok t" and n: "node_at t path = Some n"
  shows "tree_ok (unlink_from_tree path t)"
proof -
  let ?t' = "unlink_from_tree path t"
  define r where "r = mn_parent n"
  define promoted where "promoted = mn_children n"
  note ef = unlink_effect [OF ok n, folded r_def promoted_def]
  have r: "parent_ok (keys t) path r"
    using tree_okD(3) [OF ok, of path r] n by (simp add: parent_of_def r_def)
  have rp: "r \<noteq> Some path" using r by (auto simp: parent_ok_def)
  have pr: "c \<in> set promoted \<longleftrightarrow> parent_of t c = Some (Some path)" for c
    using tree_okD(5) [OF ok, of "Some path"] n by (auto simp: siblings_simps promoted_def)
  have pp: "parent_of t path = Some r" using n by (simp add: parent_of_def r_def)
  have par: "parent_ok (keys ?t') c x" if c: "parent_of ?t' c = Some x" for c x
  proof (cases "c \<in> set promoted")
    case True
    then have cx: "c \<noteq> path" "x = r" using c ef(3) [of c] by (auto split: if_splits)
    have pc: "below path c" "\<forall>k\<in>keys t. below k c \<longrightarrow> k = path \<or> below k path"
      using tree_okD(3) [OF ok, of c "Some path"] True pr by (auto simp: parent_ok_def)
    show ?thesis
    proof (cases r)
      case None
      then show ?thesis using pc(2) r cx(2) by (auto simp: ef(2) parent_ok_def)
    next
      case (Some q)
      then have q: "q \<in> keys t" "below q path" "\<forall>k\<in>keys t. below k path \<longrightarrow> k = q \<or> below k q"
        using r by (auto simp: parent_ok_def)
      have "below q c" by (rule below_trans [OF q(2) pc(1)])
      moreover have "q \<noteq> path" using Some rp by auto
      ultimately show ?thesis using q pc(2) cx(2) Some by (auto simp: ef(2) parent_ok_def)
    qed
  next
    case False
    then have "parent_of t c = Some x" "x \<noteq> Some path"
      using c ef(3) [of c] pr by (auto split: if_splits)
    then show ?thesis
      using tree_okD(3) [OF ok, of c x] by (cases x) (auto simp: ef(2) parent_ok_def)
  qed
  have "distinct (siblings ?t' x) \<and> set (siblings ?t' x) = {c. parent_of ?t' c = Some x}" for x
  proof -
    have d: "distinct promoted" "set promoted \<inter> set (siblings t r) = {}"
      using tree_okD(4) [OF ok, of "Some path"] tree_okD(5) [OF ok, of r] n pr rp
      by (auto simp: siblings_simps promoted_def)
    consider "x = Some path" | "x \<noteq> Some path" "x = r" | "x \<noteq> Some path" "x \<noteq> r" by blast
    then show ?thesis
    proof cases
      case 1
      then have "siblings ?t' x = []" "\<And>c. parent_of ?t' c \<noteq> Some x"
        using rp pr by (simp_all add: ef(3,4))
      then show ?thesis by simp
    next
      case 2
      then have "siblings ?t' x = filter (\<lambda>c. c \<noteq> path) (siblings t x) @ promoted"
        "\<And>c. parent_of ?t' c = Some x \<longleftrightarrow> c \<noteq> path \<and> (c \<in> set promoted \<or> parent_of t c = Some x)"
        by (simp_all add: ef(3,4))
      moreover have "path \<notin> set promoted" using pr pp rp by simp
      ultimately show ?thesis using d tree_okD(4,5) [OF ok, of x] 2 by auto
    next
      case 3
      then have "siblings ?t' x = siblings t x" "\<And>c. parent_of ?t' c = Some x \<longleftrightarrow> parent_of t c = Some x"
        using pr pp by (simp_all add: ef(3,4))
      then show ?thesis using tree_okD(4,5) [OF ok, of x] by simp
    qed
  qed
  then show ?thesis
    using ef(1) par tree_okD(2) [OF ok] by (auto simp: tree_ok_def wf_map_def ef(2))
qed

lemma upd_node_tree_ok:
  assumes ok: "tree_ok t" and f: "\<And>n. mn_parent (f n) = mn_parent n" "\<And>n. mn_children (f n) = mn_children n"
  shows "tree_ok (upd_node path f t)"
proof -
  have wf: "wf_map t" using tree_okD(1) [OF ok] by (simp add: wf_map_def)
  let ?t = "upd_node path f t"
  have k: "keys ?t = keys t" using wf by (auto simp: keys_node_at)
  have p: "parent_of ?t c = parent_of t c" for c
    using wf f by (cases "node_at t path") (auto simp: parent_of_def)
  have s: "siblings ?t x = siblings t x" for x
  proof (cases x)
    case (Some q)
    then show ?thesis unfolding Some siblings_simps(2)
      using wf f by (cases "node_at t path") auto
  qed (use wf in \<open>simp add: siblings_simps\<close>)
  have "om_wf (mt_by_path ?t)" using upd_node_simps(1) [OF wf] by (simp add: wf_map_def)
  then show ?thesis using ok by (simp add: tree_ok_def k p s)
qed

section \<open>The operations keep the tree\<close>

lemma mt_install_tree_ok:
  assumes "tree_ok t" "canonical path"
  shows "tree_ok (snd (mt_install self path target root prop source fstype flags preserve_tag (w, t)))"
proof (cases "node_at t path")
  case None
  then show ?thesis using link_tree_ok [OF assms(1) _ assms(2)] node_at_keys [of t path]
    by (simp add: mt_install_def Let_def split_def)
next
  case (Some n)
  then show ?thesis using assms(1) by (simp add: mt_install_def Let_def split_def upd_node_tree_ok)
qed

lemma mt_remove_tree_ok:
  assumes "tree_ok t"
  shows "tree_ok (snd (snd (mt_remove self path (w, t))))"
  using assms unlink_tree_ok [OF assms] upd_node_tree_ok [OF assms]
  by (auto simp: mt_remove_def Let_def split: option.splits)

lemma set_propagation_tree_ok:
  assumes "tree_ok t"
  shows "tree_ok (snd (snd (set_propagation self path prop (w, t))))"
  using assms upd_node_tree_ok [OF assms] by (simp add: set_propagation_def split: option.splits)

definition empty_table :: "'i mount_table" where
  "empty_table = \<lparr>mt_roots = [], mt_by_path = []\<rparr>"

lemma empty_tree_ok: "tree_ok empty_table"
  by (simp add: tree_ok_def keys_def siblings_def node_at_def empty_table_def parent_of_def split: option.splits)

text \<open>The tables a run of the operations builds, starting from an empty one.\<close>

inductive mounts :: "mount_world \<times> 'i mount_table \<Rightarrow> bool" where
  mounts_new: "mounts (w, empty_table)"
| mounts_install: "mounts x \<Longrightarrow> canonical path
    \<Longrightarrow> mounts (mt_install self path target root prop source fstype flags preserve_tag x)"
| mounts_remove: "mounts x \<Longrightarrow> mounts (snd (mt_remove self path x))"
| mounts_propagation: "mounts x \<Longrightarrow> mounts (snd (set_propagation self path prop x))"

lemma mounts_tree_ok: "mounts x \<Longrightarrow> tree_ok (snd x)"
proof (induction rule: mounts.induct)
  case (mounts_new w)
  then show ?case by (simp add: empty_tree_ok)
next
  case (mounts_install x path self target root pg source fstype flags preserve_tag)
  then show ?case using mt_install_tree_ok by (cases x rule: prod.exhaust) auto
next
  case (mounts_remove x self path)
  then show ?case using mt_remove_tree_ok by (cases x rule: prod.exhaust) auto
next
  case (mounts_propagation x self path pg)
  then show ?case using set_propagation_tree_ok by (cases x rule: prod.exhaust) auto
qed

section \<open>Queries from the tree\<close>

lemma tree_child_towards:
  assumes ok: "tree_ok t" and "below p c" "p \<in> keys t" "c \<in> keys t"
  shows "\<exists>d\<in>set (siblings t (Some p)). d = c \<or> below d c"
  using assms(2-)
proof (induction "length c" arbitrary: c rule: less_induct)
  case less
  obtain x where x: "parent_of t c = Some x" using less.prems(3) parent_of_keys [of t c] by auto
  obtain q where q: "x = Some q" "q \<in> keys t" "below q c" "p = q \<or> below p q"
    using tree_okD(3) [OF ok x] less.prems by (cases x) (auto simp: parent_ok_def)
  show ?case
  proof (cases "p = q")
    case True
    then show ?thesis using x q(1) tree_okD(5) [OF ok] by auto
  next
    case False
    then have pq: "below p q" using q(4) by simp
    have "length q < length c" using below_length [OF q(3)] tree_okD(2) [OF ok] q(2) less.prems by blast
    from less.hyps [OF this pq less.prems(2) q(2)] show ?thesis
      using below_trans [OF _ q(3)] q(3) by blast
  qed
qed

lemma tree_child:
  assumes "tree_ok t" "c \<in> set (siblings t (Some p))"
  shows "c \<in> keys t" "p \<in> keys t" "below p c" "\<And>k. k \<in> keys t \<Longrightarrow> below k c \<Longrightarrow> k = p \<or> below k p"
proof -
  have c: "parent_of t c = Some (Some p)" using assms tree_okD(5) by blast
  then show "c \<in> keys t" using parent_of_keys by force
  show "p \<in> keys t" "below p c" "\<And>k. k \<in> keys t \<Longrightarrow> below k c \<Longrightarrow> k = p \<or> below k p"
    using tree_okD(3) [OF assms(1) c] by (auto simp: parent_ok_def)
qed

lemma tree_children_apart:
  assumes ok: "tree_ok t" and "c \<in> set (siblings t (Some p))" "d \<in> set (siblings t (Some p))"
    and "k = c \<or> below c k" "k = d \<or> below d k"
  shows "c = d"
proof (rule ccontr)
  assume "c \<noteq> d"
  note c = tree_child [OF ok assms(2)] and d = tree_child [OF ok assms(3)]
  have "below c d \<or> below d c"
    using assms(4,5) \<open>c \<noteq> d\<close> below_linear [of c k d] tree_okD(2) [OF ok] c(1) d(1) by auto
  then show False using c(3) d(3) c(4) [OF d(1)] d(4) [OF c(1)] below_asym below_irrefl by metis
qed

lemma distinct_concat_map:
  assumes "distinct xs" "\<And>c. c \<in> set xs \<Longrightarrow> distinct (f c)"
    "\<And>c d k. c \<in> set xs \<Longrightarrow> d \<in> set xs \<Longrightarrow> k \<in> set (f c) \<Longrightarrow> k \<in> set (f d) \<Longrightarrow> c = d"
  shows "distinct (concat (map f xs))"
  using assms
proof (induction xs)
  case (Cons x xs)
  have "distinct (concat (map f xs))" using Cons by simp
  moreover have "set (f x) \<inter> set (f d) = {}" if "d \<in> set xs" for d
    using Cons.prems(1) Cons.prems(3) [of x d] that by auto
  ultimately show ?case using Cons.prems(2) by auto
qed simp

lemma collect_descendants_all:
  assumes ok: "tree_ok t"
  shows "p \<in> keys t \<Longrightarrow> \<forall>k\<in>keys t. length k \<le> length p + n \<Longrightarrow>
    distinct (collect_descendants t n p) \<and> set (collect_descendants t n p) = {k \<in> keys t. below p k}"
proof (induction n arbitrary: p)
  case 0
  then show ?case using below_length tree_okD(2) [OF ok] by fastforce
next
  case (Suc n)
  let ?cs = "siblings t (Some p)"
  have sub: "distinct (collect_descendants t n c)" "set (collect_descendants t n c) = {k \<in> keys t. below c k}"
    if c: "c \<in> set ?cs" for c
  proof -
    note ch = tree_child [OF ok c]
    have "length p < length c" using below_length ch tree_okD(2) [OF ok] by blast
    then have "\<forall>k\<in>keys t. length k \<le> length c + n" using Suc.prems(2) by fastforce
    then show "distinct (collect_descendants t n c)"
      "set (collect_descendants t n c) = {k \<in> keys t. below c k}"
      using Suc.IH [OF ch(1)] by simp_all
  qed
  have "c = d" if "c \<in> set ?cs" "d \<in> set ?cs" "k \<in> set (c # collect_descendants t n c)"
    "k \<in> set (d # collect_descendants t n d)" for c d k
    using tree_children_apart [OF ok that(1,2), of k] that(3,4) sub(2) [OF that(1)] sub(2) [OF that(2)] by auto
  then have "distinct (concat (map (\<lambda>c. c # collect_descendants t n c) ?cs))"
    using sub by (intro distinct_concat_map tree_okD(4) [OF ok]) auto
  then have "distinct (collect_descendants t (Suc n) p)" by simp
  moreover have "set (collect_descendants t (Suc n) p) = {k \<in> keys t. below p k}"
  proof (intro set_eqI iffI)
    fix k assume "k \<in> set (collect_descendants t (Suc n) p)"
    then obtain c where c: "c \<in> set ?cs" "k = c \<or> (k \<in> keys t \<and> below c k)" using sub(2) by auto
    then show "k \<in> {k \<in> keys t. below p k}" using tree_child [OF ok c(1)] below_trans by blast
  next
    fix k assume "k \<in> {k \<in> keys t. below p k}"
    then obtain c where c: "c \<in> set ?cs" "c = k \<or> below c k" "k \<in> keys t"
      using tree_child_towards [OF ok _ Suc.prems(1)] by blast
    then have "k \<in> set (c # collect_descendants t n c)" using sub(2) [OF c(1)] by auto
    then show "k \<in> set (collect_descendants t (Suc n) p)" using c(1) by auto
  qed
  ultimately show ?case by blast
qed

lemma fold_max_le: "x \<in> set (m # xs) \<Longrightarrow> x \<le> fold max xs (m :: nat)"
  using Max_ge [of "set (m # xs)" x] by (simp add: Max.set_eq_fold del: set_simps)

lemma tree_depth_bound: "k \<in> keys t \<Longrightarrow> length k \<le> tree_depth t"
  using fold_max_le [of "length k" 0 "map (length \<circ> fst) (mt_by_path t)"]
  by (auto simp: tree_depth_def keys_def)

text \<open>The subtree of a path as the paths give it.\<close>

definition paths_below :: "'i mount_table \<Rightarrow> string \<Rightarrow> (string \<times> 'i node_data) list" where
  "paths_below t path =
    map (\<lambda>(k, n). (if k = path then [] else path_suffix path k, mn_data n))
      (filter (\<lambda>(k, _). k = path \<or> is_descendant_path k path) (mt_by_path t))"

definition entry_of :: "'i mount_table \<Rightarrow> string \<Rightarrow> string \<Rightarrow> string \<times> 'i node_data" where
  "entry_of t path k = (if k = path then [] else path_suffix path k, mn_data (the (node_at t k)))"

lemma paths_below_entries:
  assumes "tree_ok t" "canonical path"
  shows "mset (paths_below t path) = image_mset (entry_of t path) (mset_set {k \<in> keys t. k = path \<or> below path k})"
proof -
  have d: "distinct (map fst (mt_by_path t))" using om_wf_distinct tree_okD(1) [OF assms(1)] by blast
  let ?ks = "filter (\<lambda>k. k = path \<or> is_descendant_path k path) (map fst (mt_by_path t))"
  have n: "node_at t (fst x) = Some (snd x)" if "x \<in> set (mt_by_path t)" for x
    using that d by (simp add: node_at_def)
  have "paths_below t path = map (entry_of t path) ?ks"
    unfolding paths_below_def entry_of_def filter_map map_map split_def o_def
    by (rule map_cong) (simp_all add: n)
  moreover have "mset ?ks = mset_set (set ?ks)"
    by (rule mset_set_set [symmetric]) (rule distinct_filter [OF d])
  moreover have "set ?ks = {k \<in> keys t. k = path \<or> below path k}"
    using is_descendant_below [OF assms(2)] tree_okD(2) [OF assms(1)] by (auto simp: keys_def)
  ultimately show ?thesis by simp
qed

lemma collect_subtree_entries:
  assumes ok: "tree_ok t" and can: "canonical path" and n: "node_at t path = Some n"
  shows "mset (collect_subtree t path) = image_mset (entry_of t path) (mset_set {k \<in> keys t. k = path \<or> below path k})"
proof -
  have pk: "path \<in> keys t" using n node_at_keys by force
  let ?ds = "collect_descendants t (tree_depth t) path"
  have ds: "distinct ?ds" "set ?ds = {k \<in> keys t. below path k}"
    using collect_descendants_all [OF ok pk, of "tree_depth t"] tree_depth_bound [of _ t] trans_le_add2 by blast+
  have e: "(case node_at t k of None \<Rightarrow> [] | Some m \<Rightarrow> [(path_suffix path k, mn_data m)]) = [entry_of t path k]"
    if "k \<in> set ?ds" for k
    using that node_at_keys [of t k] unfolding ds by (auto simp: entry_of_def)
  have "concat (map (\<lambda>k. case node_at t k of None \<Rightarrow> [] | Some m \<Rightarrow> [(path_suffix path k, mn_data m)]) ?ds)
      = map (entry_of t path) ?ds"
    using e by (simp cong: map_cong)
  then have "collect_subtree t path = map (entry_of t path) (path # ?ds)"
    by (simp add: collect_subtree_def n) (simp add: entry_of_def n)
  moreover have "distinct (path # ?ds)" "set (path # ?ds) = {k \<in> keys t. k = path \<or> below path k}"
    using ds pk by auto
  ultimately show ?thesis by (metis mset_map mset_set_set)
qed

lemma collect_subtree_paths:
  assumes "tree_ok t" "canonical path"
  shows "mset (collect_subtree t path) = mset (paths_below t path)"
proof (cases "node_at t path")
  case None
  then have "fst x \<noteq> path" if "x \<in> set (mt_by_path t)" for x
    using that by (auto simp: node_at_def map_of_eq_None_iff image_iff)
  then have "map (\<lambda>(k, n). (path_suffix path k, mn_data n)) (filter (\<lambda>(k, _). is_descendant_path k path) (mt_by_path t))
      = paths_below t path"
    unfolding paths_below_def split_def by (intro map_cong filter_cong) simp_all
  then show ?thesis by (simp add: collect_subtree_def None)
qed (use collect_subtree_entries [OF assms] paths_below_entries [OF assms] in simp)

lemma has_child_mount_paths:
  assumes ok: "tree_ok t" and can: "canonical path"
  shows "has_child_mount t path \<longleftrightarrow> (\<exists>k\<in>keys t. is_descendant_path k path)"
proof (cases "node_at t path")
  case None
  then show ?thesis by (force simp: has_child_mount_def list_ex_iff keys_def)
next
  case (Some n)
  then have pk: "path \<in> keys t" using node_at_keys by force
  have "has_child_mount t path \<longleftrightarrow> set (siblings t (Some path)) \<noteq> {}"
    by (simp add: has_child_mount_def Some siblings_simps)
  also have "\<dots> \<longleftrightarrow> (\<exists>k\<in>keys t. below path k)"
    using tree_child [OF ok] tree_child_towards [OF ok _ pk] by (metis all_not_in_conv)
  also have "\<dots> \<longleftrightarrow> (\<exists>k\<in>keys t. is_descendant_path k path)"
    using is_descendant_below [OF can] tree_okD(2) [OF ok] by blast
  finally show ?thesis .
qed

lemma containing_mount_paths:
  assumes ok: "tree_ok t" and can: "canonical path"
  shows "case containing_mount_with_path t path of
      None \<Rightarrow> \<forall>k\<in>keys t. k \<noteq> path \<and> \<not> is_descendant_path path k
    | Some (q, d) \<Rightarrow> snapshot_one t q = Some d \<and> (q = path \<or> is_descendant_path path q)
        \<and> (\<forall>k\<in>keys t. k = path \<or> is_descendant_path path k \<longrightarrow> k = q \<or> is_descendant_path q k)"
proof -
  have desc: "is_descendant_path a k \<longleftrightarrow> below k a" if "k \<in> keys t" "canonical a" for k a
    using is_descendant_below tree_okD(2) [OF ok] that by blast
  show ?thesis
  proof (cases "node_at t path")
    case (Some n)
    then show ?thesis by (simp add: containing_mount_with_path_def snapshot_one_def)
  next
    case None
    then have np: "path \<notin> keys t" using node_at_keys by blast
    note d = deepest_parent_ok [OF ok can]
    show ?thesis
    proof (cases "deepest_existing_ancestor t path")
      case None
      then show ?thesis using d np \<open>node_at t path = None\<close> desc [OF _ can]
        by (auto simp: containing_mount_with_path_def proper_containing_mount_with_path_def parent_ok_def)
    next
      case (Some q)
      then have q: "q \<in> keys t" "below q path" "\<And>k. k \<in> keys t \<Longrightarrow> below k path \<Longrightarrow> k = q \<or> below k q"
        using d by (auto simp: parent_ok_def)
      obtain m where m: "node_at t q = Some m" using q(1) node_at_keys by blast
      have "k = q \<or> is_descendant_path q k" if "k \<in> keys t" "k = path \<or> is_descendant_path path k" for k
        using that np q(3) desc [OF that(1) can] desc [OF that(1) tree_okD(2) [OF ok q(1)]] by blast
      then show ?thesis using \<open>node_at t path = None\<close> Some m q(1,2) desc [OF q(1) can]
        by (simp add: containing_mount_with_path_def proper_containing_mount_with_path_def snapshot_one_def)
    qed
  qed
qed

section \<open>A table as a map of stacks\<close>

definition mt_stack :: "'i mount_table \<Rightarrow> string \<Rightarrow> 'i node_data list" where
  "mt_stack t p = (case node_at t p of None \<Rightarrow> [] | Some n \<Rightarrow> mn_data n # rev (mn_shadowed n))"

lemma mt_stack_cong:
  "map_option (\<lambda>n. (mn_data n, mn_shadowed n)) (node_at t p) = map_option (\<lambda>n. (mn_data n, mn_shadowed n)) (node_at u q)
    \<Longrightarrow> mt_stack t p = mt_stack u q"
  by (cases "node_at t p"; cases "node_at u q") (auto simp: mt_stack_def)

lemma mt_lookup_stack: "mt_lookup t p = (case mt_stack t p of [] \<Rightarrow> None | d # _ \<Rightarrow> Some (nd_root d))"
  by (simp add: mt_lookup_def mt_stack_def split: option.splits)

lemma mt_install_stack:
  assumes ok: "tree_ok t" and can: "canonical path"
  shows "\<exists>tag. mt_stack (snd (mt_install self path target root prop source fstype flags preserve_tag (w, t)))
    = (mt_stack t)(path := \<lparr>nd_target_inode_id = target, nd_root = root, nd_propagation = prop, nd_in_use = tag,
                            nd_source = source, nd_fstype = fstype\<rparr>
         # (if preserve_tag then tl (mt_stack t path) else mt_stack t path))"
proof (cases "node_at t path")
  case None
  then have new: "path \<notin> keys t" using node_at_keys by blast
  let ?d = "\<lambda>tag. \<lparr>nd_target_inode_id = target, nd_root = root, nd_propagation = prop, nd_in_use = tag,
                            nd_source = source, nd_fstype = fstype\<rparr>"
  have "mt_stack (link_into_tree path (?d tag) [] t) = (mt_stack t)(path := [?d tag])" for tag
  proof
    fix q
    show "mt_stack (link_into_tree path (?d tag) [] t) q = ((mt_stack t)(path := [?d tag])) q"
    proof (cases "q = path")
      case True
      then show ?thesis by (simp add: mt_stack_def link_effect(5) [OF ok new can])
    next
      case False
      from mt_stack_cong [OF link_effect(6) [OF ok new can False]] show ?thesis using False by simp
    qed
  qed
  moreover have "mt_stack t path = []" by (simp add: mt_stack_def None)
  ultimately show ?thesis
    by (intro exI [of _ "mw_next_tag (join_group self path prop w)"]) (simp add: mt_install_def None new_with_flags_def Let_def)
next
  case (Some n)
  have wf: "wf_map t" using tree_okD(1) [OF ok] by (simp add: wf_map_def)
  show ?thesis unfolding mt_install_def using Some wf
    by (auto simp: fun_eq_iff mt_stack_def Let_def split_def)
qed

lemma mt_remove_stack:
  assumes ok: "tree_ok t"
  shows "fst (mt_remove self path (w, t)) = mt_lookup t path"
    "mt_stack (snd (snd (mt_remove self path (w, t)))) = (mt_stack t)(path := tl (mt_stack t path))"
proof -
  show "fst (mt_remove self path (w, t)) = mt_lookup t path"
    by (simp add: mt_remove_def mt_lookup_def Let_def split: option.splits)
  have wf: "wf_map t" using tree_okD(1) [OF ok] by (simp add: wf_map_def)
  show "mt_stack (snd (snd (mt_remove self path (w, t)))) = (mt_stack t)(path := tl (mt_stack t path))"
  proof
    fix q
    show "mt_stack (snd (snd (mt_remove self path (w, t)))) q = ((mt_stack t)(path := tl (mt_stack t path))) q"
    proof (cases "node_at t path")
      case None
      then show ?thesis by (simp add: mt_remove_def mt_stack_def)
    next
      case (Some n)
      note u = unlink_effect(5) [OF ok Some, of q]
      show ?thesis
      proof (cases "mn_shadowed n = []")
        case True
        then show ?thesis using u mt_stack_cong [of "unlink_from_tree path t" q t q]
          by (cases "q = path") (simp_all add: mt_remove_def Some mt_stack_def Let_def)
      next
        case False
        then obtain xs x where "mn_shadowed n = xs @ [x]" by (metis rev_exhaust)
        then show ?thesis using wf by (simp add: mt_remove_def Some mt_stack_def Let_def)
      qed
    qed
  qed
qed

lemma set_propagation_stack:
  assumes "tree_ok t"
  shows "mt_stack (snd (snd (set_propagation self path prop (w, t)))) =
    (mt_stack t)(path := (case mt_stack t path of [] \<Rightarrow> [] | d # ds \<Rightarrow> d\<lparr>nd_propagation := prop\<rparr> # ds))"
proof -
  have wf: "wf_map t" using tree_okD(1) [OF assms] by (simp add: wf_map_def)
  then show ?thesis by (auto simp: fun_eq_iff mt_stack_def set_propagation_def split: option.splits)
qed

lemma stacked_bind_leaves_group:
  assumes "node_at t path = Some n" "nd_propagation (mn_data n) = SharedWith g"
  shows "(self, path) \<notin> set (pg_members (mw_groups (fst
    (mt_install self path target root (SharedWith g) source fstype flags False (w, t))) g))"
  using assms by (simp add: mt_install_def Let_def leave_group_def remove_member_def new_with_flags_def)

section \<open>Properties\<close>

text \<open>In every mount table built by installing, removing and changing propagation, the answers
  taken from the mount tree are those the mount paths give: a mount point has a child mount exactly
  when some mount point lies below it, the collected subtree lists each mount at or below the path
  once, and the mount containing a path is the deepest mount point at or above it.\<close>

lemma mount_tree_answers:
  assumes "mounts (w, t)" "canonical path"
  shows "(has_child_mount t path \<longleftrightarrow> (\<exists>k\<in>keys t. is_descendant_path k path))
    \<and> mset (collect_subtree t path) = mset (paths_below t path)
    \<and> (case containing_mount_with_path t path of
        None \<Rightarrow> \<forall>k\<in>keys t. k \<noteq> path \<and> \<not> is_descendant_path path k
      | Some (q, d) \<Rightarrow> snapshot_one t q = Some d \<and> (q = path \<or> is_descendant_path path q)
          \<and> (\<forall>k\<in>keys t. k = path \<or> is_descendant_path path k \<longrightarrow> k = q \<or> is_descendant_path q k))"
proof -
  have ok: "tree_ok t" using mounts_tree_ok [OF assms(1)] by simp
  show ?thesis
    using has_child_mount_paths [OF ok assms(2)] collect_subtree_paths [OF ok assms(2)]
      containing_mount_paths [OF ok assms(2)] by (intro conjI)
qed

definition sample_install :: "string \<Rightarrow> mount_propagation \<Rightarrow> mount_world \<times> nat mount_table \<Rightarrow> mount_world \<times> nat mount_table" where
  "sample_install path prop = mt_install 0 path 1 (length path) prop ''none'' ''tmpfs'' 0 False"

definition sample_mounts :: "mount_world \<times> nat mount_table" where
  "sample_mounts = sample_install ''/a'' Private (sample_install ''/a/b'' Private (sample_install ''/'' (SharedWith 0)
    (\<lparr>mw_groups = (\<lambda>_. \<lparr>pg_members = [], pg_slaves = []\<rparr>), mw_flags = (\<lambda>_. 0), mw_next_tag = 0\<rparr>, empty_table)))"

lemma sample_mounts_reachable: "mounts sample_mounts"
  unfolding sample_mounts_def sample_install_def
  by (intro mounts_install mounts_new) (simp_all add: canonical_code pieces_def clean_def plain_def print_path_def)

text \<open>C28: A mount table is a map from paths to stacks. Installing pushes the new mount on the stack
  of its path, or replaces the top when the tag is kept; removing answers the root on top and pops
  it; changing the propagation touches the top only; no other path is affected. So removing after
  installing answers the installed root and restores every stack, hidden mounts included.\<close>

theorem mount_table_stacks:
  assumes "mounts (w, t)" "canonical path"
  shows "(\<exists>tag. mt_stack (snd (mt_install self path target root prop source fstype flags preserve_tag (w, t)))
      = (mt_stack t)(path := \<lparr>nd_target_inode_id = target, nd_root = root, nd_propagation = prop, nd_in_use = tag,
                              nd_source = source, nd_fstype = fstype\<rparr>
           # (if preserve_tag then tl (mt_stack t path) else mt_stack t path)))
    \<and> fst (mt_remove self path (w, t)) = mt_lookup t path
    \<and> mt_stack (snd (snd (mt_remove self path (w, t)))) = (mt_stack t)(path := tl (mt_stack t path))
    \<and> mt_stack (snd (snd (set_propagation self path prop (w, t))))
      = (mt_stack t)(path := (case mt_stack t path of [] \<Rightarrow> [] | d # ds \<Rightarrow> d\<lparr>nd_propagation := prop\<rparr> # ds))
    \<and> (case mt_remove self path (mt_install self path target root prop source fstype flags False (w, t)) of
         (r, w', t') \<Rightarrow> r = Some root \<and> mt_stack t' = mt_stack t)"
proof -
  let ?x = "mt_install self path target root prop source fstype flags False (w, t)"
  have ok: "tree_ok t" using mounts_tree_ok [OF assms(1)] by simp
  have ok': "tree_ok (snd ?x)" by (rule mt_install_tree_ok [OF ok assms(2)])
  have "fst (mt_remove self path ?x) = Some root" "mt_stack (snd (snd (mt_remove self path ?x))) = mt_stack t"
    using mt_remove_stack [OF ok', of self path "fst ?x"]
      mt_install_stack [OF ok assms(2), of self target root "prop" source fstype flags False w]
    by (auto simp: mt_lookup_stack)
  then show ?thesis
    using mt_install_stack [OF ok assms(2)] mt_remove_stack [OF ok] set_propagation_stack [OF ok]
    by (auto simp: split_def)
qed

theorem mount_table_stacks_witness:
  "mounts (fst sample_mounts, snd sample_mounts) \<and> canonical ''/a''
    \<and> fst (mt_remove 0 ''/a'' (sample_install ''/a'' Private sample_mounts)) = Some 2"
proof -
  have m: "mounts (fst sample_mounts, snd sample_mounts)" using sample_mounts_reachable by simp
  have c: "canonical ''/a''" by (simp add: canonical_code pieces_def clean_def plain_def print_path_def)
  from mount_table_stacks [OF m c, of 0 1 2 Private "''none''" "''tmpfs''" 0 False] m c
  show ?thesis by (simp add: sample_install_def split_def numeral_2_eq_2)
qed

end
