(* ===== verification/Path_Resolve.thy ===== *)
theory Path_Resolve
  imports Mount_Table
begin

text \<open>
  Path resolution (\<open>kernel/src/vfs/path.rs\<close>, \<open>kernel/src/syscall/fs/mod.rs\<close>): the walk along the
  components of a path through mounts, directories and symbolic links, resolution of the parent of
  a path, and the contexts it runs in.

  The methods of an inode that the walk calls are the fields of a record, as in the trait object of
  the source; inodes are of any type \<open>'i\<close>. The walk calls itself for \<open>..\<close> and for the targets of
  symbolic links, so it has fuel; \<open>None\<close> is running out of it, which never happens.
\<close>

section \<open>Inodes and contexts\<close>

datatype inode_kind = Regular | Directory | CharDevice | Symlink | PipeKind | Socket

record 'i inode_ops =
  io_kind :: "'i \<Rightarrow> inode_kind"
  io_inode_id :: "'i \<Rightarrow> u64"
  io_lookup :: "'i \<Rightarrow> string \<Rightarrow> errno + 'i"
  io_read_link :: "'i \<Rightarrow> errno + string"
  io_magic_resolve :: "'i \<Rightarrow> 'i option"

record 'i path_context =
  cx_root :: 'i
  cx_mounts :: "'i mount_table"
  cx_chrooted :: bool

text \<open>\<open>Context::current\<close>, from the root directory and the mount table of the process.\<close>

definition context_current :: "'i inode_ops \<Rightarrow> 'i \<Rightarrow> 'i mount_table \<Rightarrow> 'i path_context" where
  "context_current io root t =
    \<lparr>cx_root = root, cx_mounts = t,
     cx_chrooted = (case mt_lookup t ''/'' of Some r \<Rightarrow> io_inode_id io r \<noteq> io_inode_id io root | None \<Rightarrow> False)\<rparr>"

definition for_table :: "'i \<Rightarrow> 'i mount_table \<Rightarrow> 'i path_context" where
  "for_table root t = \<lparr>cx_root = root, cx_mounts = t, cx_chrooted = False\<rparr>"

definition lookup_mount_full :: "'i path_context \<Rightarrow> string \<Rightarrow> 'i node_data option" where
  "lookup_mount_full cx path = snapshot_one (cx_mounts cx) path"

section \<open>The walk\<close>

type_synonym 'i resolved = "errno + 'i \<times> nat option"

text \<open>The body of the loop over the components, with the calls of \<open>resolve_with_depth\<close> it makes
  as the argument \<open>self\<close>: of the parent path at the same depth, and of a link target one deeper.\<close>

definition later_tag :: "nat option \<Rightarrow> nat option \<Rightarrow> nat option" where
  "later_tag t old = (case t of Some _ \<Rightarrow> t | None \<Rightarrow> old)"

definition walk_child ::
  "'i inode_ops \<Rightarrow> 'i path_context \<Rightarrow> 'i \<Rightarrow> string \<Rightarrow> string \<Rightarrow> nat option \<Rightarrow> errno + 'i \<times> nat option" where
  "walk_child io cx current child_canonical component tag =
    (case (if cx_chrooted cx then None else lookup_mount_full cx child_canonical) of
       Some entry \<Rightarrow> Inr (nd_root entry, Some (nd_in_use entry))
     | None \<Rightarrow> (case io_lookup io current component of Inl e \<Rightarrow> Inl e | Inr child \<Rightarrow> Inr (child, tag)))"

fun walk ::
  "'i inode_ops \<Rightarrow> 'i path_context \<Rightarrow> (string \<Rightarrow> nat \<Rightarrow> 'i resolved option) \<Rightarrow> nat \<Rightarrow> bool
    \<Rightarrow> string list \<Rightarrow> 'i \<Rightarrow> string \<Rightarrow> nat option \<Rightarrow> 'i resolved option" where
  "walk io cx self depth follow_last [] current canon tag = Some (Inr (current, tag))"
| "walk io cx self depth follow_last (component # rest) current canon tag =
    (if component = ''..'' then
       (if canon = ''/'' then walk io cx self depth follow_last rest current canon tag
        else
          let parent_canonical = parent_of_canonical canon in
          case self parent_canonical depth of
            None \<Rightarrow> None
          | Some (Inl e) \<Rightarrow> Some (Inl e)
          | Some (Inr (inode, t)) \<Rightarrow>
              walk io cx self depth follow_last rest inode parent_canonical (later_tag t tag))
     else
       let child_canonical = join_canonical canon component in
       case walk_child io cx current child_canonical component tag of
         Inl e \<Rightarrow> Some (Inl e)
       | Inr (child, tag1) \<Rightarrow>
           if (rest = [] \<longrightarrow> follow_last) \<and> io_kind io child = Symlink then
             (case io_magic_resolve io child of
                Some resolved \<Rightarrow> walk io cx self depth follow_last rest resolved child_canonical tag1
              | None \<Rightarrow>
                  (case io_read_link io child of
                     Inl e \<Rightarrow> Some (Inl e)
                   | Inr target \<Rightarrow>
                       let target_canonical =
                         (if starts_with_slash target then normalize ''/'' target else normalize canon target) in
                       case self target_canonical (depth + 1) of
                         None \<Rightarrow> None
                       | Some (Inl e) \<Rightarrow> Some (Inl e)
                       | Some (Inr (inode, t)) \<Rightarrow>
                           walk io cx self depth follow_last rest inode target_canonical (later_tag t tag1)))
           else walk io cx self depth follow_last rest child child_canonical tag1)"

abbreviation MAX_SYMLINK_DEPTH :: nat where "MAX_SYMLINK_DEPTH \<equiv> 40"

definition components :: "string \<Rightarrow> string list" where
  "components path = filter (\<lambda>c. c \<noteq> [] \<and> c \<noteq> ''.'') (split_slash path)"

fun resolve_with_depth ::
  "nat \<Rightarrow> 'i inode_ops \<Rightarrow> 'i path_context \<Rightarrow> 'i \<Rightarrow> string \<Rightarrow> string \<Rightarrow> nat \<Rightarrow> bool \<Rightarrow> 'i resolved option" where
  "resolve_with_depth 0 io cx start start_canonical path depth follow_last = None"
| "resolve_with_depth (Suc n) io cx start start_canonical path depth follow_last =
    (if depth > MAX_SYMLINK_DEPTH then Some (Inl Errno_INVAL)
     else
       let (current, canon) =
         (if starts_with_slash path then (cx_root cx, ''/'') else (start, start_canonical)) in
       walk io cx (\<lambda>p d. resolve_with_depth n io cx (cx_root cx) ''/'' p d True) depth follow_last
         (components path) current canon None)"

text \<open>A chain of nested calls is at most one for \<open>..\<close> and one for each depth up to 41.\<close>

abbreviation RESOLVE_FUEL :: nat where "RESOLVE_FUEL \<equiv> 43"

definition resolve_full :: "'i inode_ops \<Rightarrow> 'i path_context \<Rightarrow> 'i \<Rightarrow> string \<Rightarrow> bool \<Rightarrow> 'i resolved" where
  "resolve_full io cx start path follow_last =
    (case resolve_with_depth RESOLVE_FUEL io cx start ''/'' path 0 follow_last of
       Some r \<Rightarrow> r | None \<Rightarrow> Inl Errno_INVAL)"

definition resolve :: "'i inode_ops \<Rightarrow> 'i path_context \<Rightarrow> 'i \<Rightarrow> string \<Rightarrow> errno + 'i" where
  "resolve io cx start path = map_sum (\<lambda>e. e) fst (resolve_full io cx start path True)"

definition resolve_no_follow :: "'i inode_ops \<Rightarrow> 'i path_context \<Rightarrow> 'i \<Rightarrow> string \<Rightarrow> errno + 'i" where
  "resolve_no_follow io cx start path = map_sum (\<lambda>e. e) fst (resolve_full io cx start path False)"

definition resolve_with_mount :: "'i inode_ops \<Rightarrow> 'i path_context \<Rightarrow> 'i \<Rightarrow> string \<Rightarrow> 'i resolved" where
  "resolve_with_mount io cx start path = resolve_full io cx start path True"

text \<open>\<open>trim_end_matches('/')\<close>.\<close>

definition trim_end_slash :: "string \<Rightarrow> string" where
  "trim_end_slash s = rev (dropWhile (\<lambda>c. c = slash) (rev s))"

definition resolve_parent :: "'i inode_ops \<Rightarrow> 'i path_context \<Rightarrow> 'i \<Rightarrow> string \<Rightarrow> errno + 'i \<times> string" where
  "resolve_parent io cx start path =
    (let trimmed = trim_end_slash path;
         (parent_path, leaf) =
           (case rfind_slash trimmed of
              Some i \<Rightarrow> (take i trimmed, drop (i + 1) trimmed)
            | None \<Rightarrow> ([], trimmed)) in
     if leaf = [] then Inl Errno_INVAL
     else
       case (if parent_path = [] \<and> starts_with_slash trimmed then Inr (cx_root cx)
             else if parent_path = [] then Inr start
             else resolve io cx start parent_path) of
         Inl e \<Rightarrow> Inl e
       | Inr parent \<Rightarrow>
           if io_kind io parent \<noteq> Directory then Inl Errno_NOTDIR else Inr (parent, leaf))"

definition mount_flags_of :: "'i inode_ops \<Rightarrow> mount_world \<Rightarrow> 'i path_context \<Rightarrow> 'i \<Rightarrow> string \<Rightarrow> u64" where
  "mount_flags_of io w cx base path =
    (case resolve_with_mount io cx base path of Inr (_, Some tag) \<Rightarrow> mw_flags w tag | _ \<Rightarrow> 0)"

definition parent_mount_flags :: "'i inode_ops \<Rightarrow> mount_world \<Rightarrow> 'i path_context \<Rightarrow> 'i \<Rightarrow> string \<Rightarrow> u64" where
  "parent_mount_flags io w cx base path =
    (let trimmed = trim_end_slash path;
         parent = (case rfind_slash trimmed of
                     Some i \<Rightarrow> if i = 0 then ''/'' else take i trimmed
                   | None \<Rightarrow> ''.'')
      in mount_flags_of io w cx base parent)"

section \<open>Paths given to system calls\<close>

abbreviation AT_FDCWD :: int where "AT_FDCWD \<equiv> -100"
abbreviation MS_RDONLY :: u64 where "MS_RDONLY \<equiv> 1"

text \<open>\<open>fds\<close> gives the inode and the stored path of an open descriptor of the process, \<open>cwd\<close> its
  working directory and the path of it.\<close>

definition resolve_user_path ::
  "(int \<Rightarrow> ('i \<times> string) option) \<Rightarrow> 'i \<times> string \<Rightarrow> int \<Rightarrow> string \<Rightarrow> int + string" where
  "resolve_user_path fds cwd dirfd path =
    (if path = [] then Inl (as_neg_i64 Errno_NOENT)
     else if starts_with_slash path then Inr (normalize ''/'' path)
     else if dirfd \<noteq> AT_FDCWD then
       (case fds (signed_take_bit 31 dirfd) of
          None \<Rightarrow> Inl EBADF
        | Some (_, dir) \<Rightarrow> if dir = [] then Inl ENOSYS else Inr (normalize dir path))
     else Inr (normalize (snd cwd) path))"

definition resolve_at_parent ::
  "'i inode_ops \<Rightarrow> mount_world \<Rightarrow> 'i path_context \<Rightarrow> (int \<Rightarrow> ('i \<times> string) option) \<Rightarrow> 'i \<times> string
    \<Rightarrow> int \<Rightarrow> string \<Rightarrow> int + 'i \<times> string" where
  "resolve_at_parent io w cx fds cwd dirfd path =
    (if path = [] then Inl (as_neg_i64 Errno_NOENT)
     else
       case (if starts_with_slash path then Inr (cx_root cx)
             else if dirfd = AT_FDCWD then Inr (fst cwd)
             else case fds (signed_take_bit 31 dirfd) of
                    None \<Rightarrow> Inl EBADF
                  | Some (i, _) \<Rightarrow> if io_kind io i \<noteq> Directory then Inl (as_neg_i64 Errno_NOTDIR) else Inr i) of
         Inl e \<Rightarrow> Inl e
       | Inr start_inode \<Rightarrow>
           (case resolve_parent io cx start_inode path of
              Inl e \<Rightarrow> Inl (as_neg_i64 e)
            | Inr (parent, leaf) \<Rightarrow>
                if parent_mount_flags io w cx start_inode path AND MS_RDONLY \<noteq> 0 then Inl (as_neg_i64 (Errno 30))
                else Inr (parent, leaf)))"

definition resolve_path ::
  "'i inode_ops \<Rightarrow> 'i path_context \<Rightarrow> (int \<Rightarrow> ('i \<times> string) option) \<Rightarrow> 'i \<times> string \<Rightarrow> int \<Rightarrow> string \<Rightarrow> bool \<Rightarrow> int + 'i" where
  "resolve_path io cx fds cwd dirfd path follow =
    (case resolve_user_path fds cwd dirfd path of
       Inl e \<Rightarrow> Inl e
     | Inr normalized \<Rightarrow>
         map_sum as_neg_i64 id
           (if follow then resolve io cx (cx_root cx) normalized
            else resolve_no_follow io cx (cx_root cx) normalized))"

section \<open>The walk returns\<close>

lemma join_canonical_canonical:
  assumes "canonical s" "clean c"
  shows "canonical (join_canonical s c)"
proof -
  obtain parts where p: "\<forall>p\<in>set parts. clean p" "s = print_path parts"
    using assms(1) by (auto simp: canonical_def)
  then have "join_canonical s c = print_path (parts @ [c])" by (simp add: join_print clean_def)
  then show ?thesis using p(1) assms(2) by simp
qed

lemma parent_canonical:
  assumes "canonical s"
  shows "canonical (parent_of_canonical s)"
proof -
  obtain parts where p: "\<forall>p\<in>set parts. clean p" "s = print_path parts"
    using assms by (auto simp: canonical_def)
  then have "parent_of_canonical s = print_path (butlast parts)" by (simp add: parent_print clean_def)
  moreover have "\<forall>p\<in>set (butlast parts). clean p" using p(1) in_set_butlastD by fast
  ultimately show ?thesis by simp
qed

lemma components_pieces: "components path = filter (\<lambda>c. c \<noteq> ''.'') (pieces path)"
  unfolding components_def pieces_def filter_filter by (rule filter_cong) auto

lemma components_plain: "c \<in> set (components path) \<Longrightarrow> plain c \<and> c \<noteq> ''.''"
  unfolding components_pieces using pieces_plain [of path] by simp

lemma components_clean:
  assumes "canonical path"
  shows "components path = pieces path" "c \<in> set (components path) \<Longrightarrow> clean c"
proof -
  have cl: "\<forall>p\<in>set (pieces path). clean p" by (rule canonical_pieces(2) [OF assms])
  then show "components path = pieces path" unfolding components_pieces filter_id_conv by (simp add: clean_def)
  then show "c \<in> set (components path) \<Longrightarrow> clean c" using cl by simp
qed

lemma normalize_is_canonical: "canonical (normalize cwd target)"
proof -
  have "\<forall>p\<in>set (fold push_piece (pieces cwd) []). clean p"
    by (rule fold_push_clean [OF pieces_plain]) simp
  then have "\<forall>p\<in>set (if \<not> starts_with_slash target then fold push_piece (pieces cwd) [] else []). clean p" by simp
  from canonical_print [OF fold_push_clean [OF pieces_plain this]] show ?thesis by (simp only: normalize_def Let_def)
qed

lemma walk_returns:
  assumes "\<forall>p. canonical p \<longrightarrow> self p (depth + 1) \<noteq> None"
    "''..'' \<in> set cs \<longrightarrow> (\<forall>p. canonical p \<longrightarrow> self p depth \<noteq> None)"
    "\<forall>c\<in>set cs. plain c \<and> c \<noteq> ''.''" "canonical can"
  shows "walk io cx self depth follow_last cs cur can tag \<noteq> None"
  using assms(2-)
proof (induction cs arbitrary: cur can tag)
  case (Cons c cs)
  have IH: "canonical can' \<Longrightarrow> walk io cx self depth follow_last cs cur' can' tag' \<noteq> None" for cur' can' tag'
    by (rule Cons.IH) (use Cons.prems in auto)
  have norm: "canonical (if starts_with_slash t then normalize ''/'' t else normalize can t)" for t
    by (simp add: normalize_is_canonical)
  show ?case
  proof (cases "c = ''..''")
    case True
    then have "self (parent_of_canonical can) depth \<noteq> None"
      using Cons.prems(1,3) parent_canonical by auto
    then show ?thesis using True IH parent_canonical Cons.prems(3)
      by (auto simp: Let_def split: option.splits sum.splits)
  next
    case False
    then have "clean c" using Cons.prems(2) by (simp add: clean_def)
    then have cc: "canonical (join_canonical can c)" by (rule join_canonical_canonical [OF Cons.prems(3)])
    define nt where "nt t = (if starts_with_slash t then normalize ''/'' t else normalize can t)" for t
    have nx: "self (nt t) (depth + 1) \<noteq> None" and nc: "canonical (nt t)" for t
      unfolding nt_def using assms(1) norm by blast+
    have r: "(case self (nt t) (depth + 1) of None \<Rightarrow> None | Some (Inl e) \<Rightarrow> Some (Inl e)
        | Some (Inr (inode, u)) \<Rightarrow> walk io cx self depth follow_last cs inode (nt t) (later_tag u tag1)) \<noteq> None" for t tag1
      using nx [of t] IH [OF nc [of t]] by (auto split: sum.splits option.splits)
    show ?thesis unfolding walk.simps Let_def nt_def [symmetric] using False IH [OF cc] r
      by (auto simp del: not_None_eq split: sum.splits option.splits)
  qed
qed simp

lemma resolve_canonical_returns:
  "canonical p \<Longrightarrow> depth \<le> 41 \<Longrightarrow> 42 \<le> n + depth \<Longrightarrow>
    resolve_with_depth n io cx (cx_root cx) ''/'' p depth True \<noteq> None"
proof (induction n arbitrary: p depth)
  case (Suc n)
  show ?case
  proof (cases "depth > 40")
    case False
    have nodots: "''..'' \<notin> set (components p)" using components_clean(2) [OF Suc.prems(1)] by (auto simp: clean_def)
    have "walk io cx (\<lambda>p d. resolve_with_depth n io cx (cx_root cx) ''/'' p d True) depth True
        (components p) (cx_root cx) ''/'' None \<noteq> None"
      by (rule walk_returns) (use Suc False nodots components_plain in auto)
    then show ?thesis using False by (simp add: Let_def)
  qed simp
qed simp

lemma resolve_returns: "resolve_with_depth RESOLVE_FUEL io cx start ''/'' path 0 follow_last \<noteq> None"
proof -
  let ?self = "\<lambda>p d. resolve_with_depth 42 io cx (cx_root cx) ''/'' p d True"
  have "walk io cx ?self 0 follow_last (components path) cur ''/'' None \<noteq> None" for cur
    by (rule walk_returns)
      (use resolve_canonical_returns [of _ 1 42 io cx] resolve_canonical_returns [of _ 0 42 io cx] components_plain in auto)
  moreover have "RESOLVE_FUEL = Suc 42" by simp
  ultimately show ?thesis by (simp only: resolve_with_depth.simps) (simp add: Let_def split_def)
qed

lemma walk_mono:
  assumes "\<And>p d r. self p d = Some r \<Longrightarrow> self' p d = Some r"
  shows "walk io cx self depth follow_last cs cur can tag = Some r
    \<Longrightarrow> walk io cx self' depth follow_last cs cur can tag = Some r"
proof (induction cs arbitrary: cur can tag)
  case (Cons c cs)
  show ?case
  proof (cases "c = ''..''")
    case True
    then show ?thesis using Cons.prems Cons.IH assms
      by (auto simp: Let_def split: if_splits option.splits sum.splits)
  next
    case False
    define nt where "nt t = (if starts_with_slash t then normalize ''/'' t else normalize can t)" for t
    show ?thesis using Cons.prems Cons.IH assms False unfolding walk.simps Let_def nt_def [symmetric]
      by (auto split: if_splits option.splits sum.splits)
  qed
qed simp

lemma resolve_mono_step:
  "resolve_with_depth n io cx start sc path depth fl = Some r
    \<Longrightarrow> resolve_with_depth (Suc n) io cx start sc path depth fl = Some r"
proof (induction n arbitrary: start sc path depth fl r)
  case (Suc n)
  note IH = Suc.IH [where start = "cx_root cx" and sc = "''/''" and fl = True]
  show ?case
  proof (cases "depth > MAX_SYMLINK_DEPTH")
    case True
    then show ?thesis using Suc.prems by simp
  next
    case False
    have "walk io cx (\<lambda>p d. resolve_with_depth (Suc n) io cx (cx_root cx) ''/'' p d True) depth fl cs cur can None = Some r"
      if "walk io cx (\<lambda>p d. resolve_with_depth n io cx (cx_root cx) ''/'' p d True) depth fl cs cur can None = Some r"
      for cs cur can
      by (rule walk_mono [OF _ that]) (rule IH)
    then show ?thesis using Suc.prems False
      unfolding resolve_with_depth.simps(2) [of "Suc n"] unfolding resolve_with_depth.simps(2) [of n] Let_def split_def
      by simp
  qed
qed simp

lemma resolve_mono:
  "n \<le> m \<Longrightarrow> resolve_with_depth n io cx start sc path depth fl = Some r
    \<Longrightarrow> resolve_with_depth m io cx start sc path depth fl = Some r"
  by (induction m rule: dec_induct) (simp_all only: resolve_mono_step)

section \<open>What a walk can reach\<close>

inductive_set visible :: "'i inode_ops \<Rightarrow> 'i path_context \<Rightarrow> 'i set \<Rightarrow> 'i set"
  for io cx S where
  visible_start: "x \<in> S \<Longrightarrow> x \<in> visible io cx S"
| visible_mount: "\<not> cx_chrooted cx \<Longrightarrow> p \<noteq> ''/'' \<Longrightarrow> lookup_mount_full cx p = Some e \<Longrightarrow> nd_root e \<in> visible io cx S"
| visible_lookup: "x \<in> visible io cx S \<Longrightarrow> clean c \<Longrightarrow> io_lookup io x c = Inr y \<Longrightarrow> y \<in> visible io cx S"
| visible_magic: "x \<in> visible io cx S \<Longrightarrow> io_kind io x = Symlink \<Longrightarrow> io_magic_resolve io x = Some y
    \<Longrightarrow> y \<in> visible io cx S"

definition mount_tag_of :: "'i path_context \<Rightarrow> nat option \<Rightarrow> bool" where
  "mount_tag_of cx tag \<longleftrightarrow> (case tag of None \<Rightarrow> True | Some t \<Rightarrow>
    \<not> cx_chrooted cx \<and> (\<exists>p e. p \<noteq> ''/'' \<and> lookup_mount_full cx p = Some e \<and> nd_in_use e = t))"

definition confined :: "'i inode_ops \<Rightarrow> 'i path_context \<Rightarrow> 'i set \<Rightarrow> 'i resolved option \<Rightarrow> bool" where
  "confined io cx S r \<longleftrightarrow>
    (case r of Some (Inr (i, tag)) \<Rightarrow> i \<in> visible io cx S \<and> mount_tag_of cx tag | _ \<Rightarrow> True)"

lemma confined_simps [simp]:
  "confined io cx S None" "confined io cx S (Some (Inl e))"
  "confined io cx S (Some (Inr (i, tag))) \<longleftrightarrow> i \<in> visible io cx S \<and> mount_tag_of cx tag"
  by (simp_all add: confined_def)

lemma walk_child_confined:
  assumes "walk_child io cx cur cc c tag = Inr (x, tag1)" "cc \<noteq> ''/''" "cur \<in> visible io cx S" "clean c" "mount_tag_of cx tag"
  shows "x \<in> visible io cx S" "mount_tag_of cx tag1"
  using assms visible_mount [of cx cc _ io S] visible_lookup [of cur io cx S c x]
  by (auto simp: walk_child_def mount_tag_of_def split: if_splits option.splits sum.splits)

lemma later_tag_of: "mount_tag_of cx t \<Longrightarrow> mount_tag_of cx tag \<Longrightarrow> mount_tag_of cx (later_tag t tag)"
  by (cases t) (simp_all add: later_tag_def)

lemma walk_confined:
  assumes "\<And>p d. confined io cx S (self p d)"
  shows "\<forall>c\<in>set cs. plain c \<and> c \<noteq> ''.'' \<Longrightarrow> cur \<in> visible io cx S \<Longrightarrow> mount_tag_of cx tag
    \<Longrightarrow> confined io cx S (walk io cx self depth follow_last cs cur can tag)"
proof (induction cs arbitrary: cur can tag)
  case Nil
  then show ?case by simp
next
  case (Cons c cs)
  let ?w = "walk io cx self depth follow_last cs"
  have IH: "confined io cx S (?w x can' tag')" if "x \<in> visible io cx S" "mount_tag_of cx tag'" for x can' tag'
    using Cons.IH Cons.prems(1) that by simp
  have sub: "confined io cx S (case self p d of None \<Rightarrow> None | Some (Inl e) \<Rightarrow> Some (Inl e)
      | Some (Inr (inode, t)) \<Rightarrow> ?w inode can' (later_tag t tag'))"
    if "mount_tag_of cx tag'" for p d can' tag'
    using assms [of p d] IH later_tag_of [OF _ that] by (auto split: option.splits sum.splits)
  show ?case
  proof (cases "c = ''..''")
    case True
    then show ?thesis using IH [OF Cons.prems(2,3)] sub [OF Cons.prems(3)] by (simp add: Let_def)
  next
    case False
    then have cl: "clean c" using Cons.prems(1) by (simp add: clean_def)
    define nt where "nt t = (if starts_with_slash t then normalize ''/'' t else normalize can t)" for t
    show ?thesis
    proof (cases "walk_child io cx cur (join_canonical can c) c tag")
      case (Inl e)
      then show ?thesis using False by (simp add: Let_def)
    next
      case (Inr xt)
      obtain x tag1 where xt: "xt = (x, tag1)" by (cases xt)
      have "join_canonical can c \<noteq> ''/''" using cl by (auto simp: join_canonical_def clean_def plain_def append_eq_Cons_conv)
      note x = walk_child_confined [OF Inr [unfolded xt] this Cons.prems(2) cl Cons.prems(3)]
      have m: "confined io cx S (?w y can' tag1)"
        if "io_kind io x = Symlink" "io_magic_resolve io x = Some y" for y can'
        by (rule IH [OF visible_magic [OF x(1) that] x(2)])
      show ?thesis unfolding walk.simps Let_def nt_def [symmetric] using False Inr xt IH [OF x] sub [OF x(2)] m
        by (simp split: option.splits sum.splits)
    qed
  qed
qed

lemma resolve_confined_root:
  "confined io cx {cx_root cx} (resolve_with_depth n io cx (cx_root cx) ''/'' p depth True)"
proof (induction n arbitrary: p depth)
  case 0
  then show ?case by simp
next
  case (Suc n)
  have "confined io cx {cx_root cx} (walk io cx (\<lambda>p d. resolve_with_depth n io cx (cx_root cx) ''/'' p d True) depth True
      (components p) (cx_root cx) ''/'' None)"
    by (rule walk_confined [OF Suc]) (use components_plain in \<open>auto intro: visible_start simp: mount_tag_of_def\<close>)
  then show ?case by (simp add: Let_def)
qed

lemma visible_mono: "S \<subseteq> T \<Longrightarrow> x \<in> visible io cx S \<Longrightarrow> x \<in> visible io cx T"
  by (rotate_tac, induction rule: visible.induct) (auto intro: visible.intros)

lemma resolve_confined_start:
  assumes "cx_root cx \<in> S" "starts_with_slash path \<or> start \<in> S"
  shows "confined io cx S (resolve_with_depth n io cx start ''/'' path depth follow_last)"
proof (cases n)
  case 0
  then show ?thesis by simp
next
  case (Suc m)
  have "confined io cx S (resolve_with_depth m io cx (cx_root cx) ''/'' p d True)" for p d
    using resolve_confined_root [of io cx m p d] visible_mono [of "{cx_root cx}" S _ io cx] assms(1)
    by (auto simp: confined_def split: option.splits sum.splits)
  then have "confined io cx S (walk io cx (\<lambda>p d. resolve_with_depth m io cx (cx_root cx) ''/'' p d True) depth follow_last
      (components path) cur ''/'' None)" if "cur \<in> S" for cur
    by (rule walk_confined) (use components_plain that in \<open>auto intro: visible_start simp: mount_tag_of_def\<close>)
  then show ?thesis using assms by (auto simp: Suc Let_def)
qed

text \<open>The flags of the mount on the root are never found, and in a chroot no flags at all.\<close>

lemma resolve_tag:
  assumes "resolve_full io cx start path follow_last = Inr (i, tag)"
  shows "mount_tag_of cx tag"
proof -
  have "resolve_with_depth RESOLVE_FUEL io cx start ''/'' path 0 follow_last = Some (Inr (i, tag))"
    using assms resolve_returns [of io cx start path follow_last] by (auto simp: resolve_full_def split: option.splits)
  then show ?thesis using resolve_confined_start [of cx UNIV path start io RESOLVE_FUEL 0 follow_last] by simp
qed

lemma mount_flags_ignored:
  assumes "cx_chrooted cx \<or> (\<forall>p. p \<noteq> ''/'' \<longrightarrow> lookup_mount_full cx p = None)"
  shows "mount_flags_of io w cx base path = 0"
  using resolve_tag [of io cx base path True] assms
  by (auto simp: mount_flags_of_def resolve_with_mount_def mount_tag_of_def split: sum.splits option.splits)

section \<open>Normalised paths\<close>

text \<open>Descending along components, without links and \<open>..\<close>.\<close>

fun descend :: "'i inode_ops \<Rightarrow> 'i path_context \<Rightarrow> 'i \<Rightarrow> string list \<Rightarrow> string list \<Rightarrow> errno + 'i" where
  "descend io cx cur done [] = Inr cur"
| "descend io cx cur done (c # cs) =
    (case walk_child io cx cur (print_path (done @ [c])) c None of
       Inl e \<Rightarrow> Inl e
     | Inr (child, _) \<Rightarrow> descend io cx child (done @ [c]) cs)"

lemma descend_snoc:
  "descend io cx cur done (cs @ [c]) =
    (case descend io cx cur done cs of
       Inl e \<Rightarrow> Inl e
     | Inr x \<Rightarrow> map_sum (\<lambda>e. e) fst (walk_child io cx x (print_path (done @ cs @ [c])) c None))"
  by (induction cs arbitrary: cur "done") (auto split: sum.splits)

lemma walk_child_tag: "map_sum (\<lambda>e. e) fst (walk_child io cx cur p c tag) = map_sum (\<lambda>e. e) fst (walk_child io cx cur p c None)"
  by (simp add: walk_child_def split: option.splits sum.splits)

lemma walk_descends:
  assumes "\<forall>i. io_kind io i \<noteq> Symlink"
  shows "\<forall>c\<in>set cs. clean c \<Longrightarrow> \<forall>c\<in>set done. plain c \<Longrightarrow>
    map_option (map_sum (\<lambda>e. e) fst) (walk io cx self depth fl cs cur (print_path done) tag) = Some (descend io cx cur done cs)"
proof (induction cs arbitrary: cur "done" tag)
  case (Cons c cs)
  have c: "c \<noteq> ''..''" "plain c" using Cons.prems(1) by (auto simp: clean_def)
  have j: "join_canonical (print_path done) c = print_path (done @ [c])" by (rule join_print [OF Cons.prems(2)])
  have IH: "map_option (map_sum (\<lambda>e. e) fst) (walk io cx self depth fl cs x (print_path (done @ [c])) tag')
      = Some (descend io cx x (done @ [c]) cs)" for x tag'
    by (rule Cons.IH) (use Cons.prems c(2) in auto)
  show ?case using c(1) assms IH walk_child_tag [of io cx cur "print_path (done @ [c])" c tag]
    by (auto simp: j Let_def split: sum.splits)
qed simp

lemma resolve_descends:
  assumes "\<forall>i. io_kind io i \<noteq> Symlink" "canonical p" "depth \<le> MAX_SYMLINK_DEPTH"
  shows "map_option (map_sum (\<lambda>e. e) fst) (resolve_with_depth (Suc n) io cx start sc p depth fl)
    = Some (descend io cx (cx_root cx) [] (pieces p))"
proof -
  have "starts_with_slash p" using canonical_pieces(1) [OF assms(2)] starts_with_slash_print by metis
  moreover have "print_path [] = ''/''" by (simp add: print_path_def)
  ultimately show ?thesis
    using walk_descends [OF assms(1), of "components p" "[]"] components_clean [OF assms(2)] assms(3) by (simp add: Let_def)
qed

lemma walk_normalizes:
  assumes nolink: "\<forall>i. io_kind io i \<noteq> Symlink" and d: "depth \<le> MAX_SYMLINK_DEPTH"
  shows "\<forall>c\<in>set cs. plain c \<and> c \<noteq> ''.'' \<Longrightarrow> \<forall>c\<in>set done. clean c \<Longrightarrow>
    descend io cx (cx_root cx) [] done = Inr cur \<Longrightarrow>
    walk io cx (\<lambda>p d. resolve_with_depth (Suc n) io cx (cx_root cx) ''/'' p d True) depth fl cs cur (print_path done) tag
      = Some (Inr (i, t)) \<Longrightarrow>
    descend io cx (cx_root cx) [] (fold push_piece cs done) = Inr i"
proof (induction cs arbitrary: cur "done" tag)
  case (Cons c cs)
  let ?self = "\<lambda>p d. resolve_with_depth (Suc n) io cx (cx_root cx) ''/'' p d True"
  have IH: "descend io cx (cx_root cx) [] (fold push_piece cs done') = Inr i"
    if "\<forall>c\<in>set done'. clean c" "descend io cx (cx_root cx) [] done' = Inr x"
      "walk io cx ?self depth fl cs x (print_path done') tag' = Some (Inr (i, t))" for done' x tag'
    by (rule Cons.IH [OF _ that]) (use Cons.prems(1) in simp)
  have pl: "\<forall>c\<in>set done. plain c" using Cons.prems(2) by (simp add: clean_def)
  show ?case
  proof (cases "c = ''..''")
    case True
    have up: "push_piece c done = butlast done" by (simp add: push_piece_def True)
    show ?thesis
    proof (cases "done = []")
      case True
      then have "walk io cx ?self depth fl cs cur (print_path done) tag = Some (Inr (i, t))"
        using Cons.prems(4) \<open>c = ''..''\<close> by (simp add: print_path_def)
      then show ?thesis using IH [OF Cons.prems(2,3)] True up by simp
    next
      case False
      have cl: "\<forall>c\<in>set (butlast done). clean c" using Cons.prems(2) in_set_butlastD by fast
      let ?p = "print_path (butlast done)"
      have p: "parent_of_canonical (print_path done) = ?p" "print_path done \<noteq> ''/''"
        using parent_print [OF pl] print_root_iff [OF pl] False by auto
      obtain x u where x: "?self ?p depth = Some (Inr (x, u))"
        "walk io cx ?self depth fl cs x ?p (later_tag u tag) = Some (Inr (i, t))"
        using Cons.prems(4) p True by (auto simp: Let_def simp del: resolve_with_depth.simps split: option.splits sum.splits)
      have "descend io cx (cx_root cx) [] (butlast done) = Inr x"
        using resolve_descends [OF nolink canonical_print [OF cl] d, of n cx "cx_root cx" "''/''" True]
          x(1) pieces_print_clean [OF cl] by (simp del: resolve_with_depth.simps)
      then show ?thesis using IH [OF cl _ x(2)] up by simp
    qed
  next
    case False
    then have cl: "clean c" using Cons.prems(1) by (simp add: clean_def)
    then have up: "push_piece c done = done @ [c]" by (rule push_clean_id)
    have j: "join_canonical (print_path done) c = print_path (done @ [c])" by (rule join_print [OF pl])
    obtain x tag1 where x: "walk_child io cx cur (print_path (done @ [c])) c tag = Inr (x, tag1)"
      "walk io cx ?self depth fl cs x (print_path (done @ [c])) tag1 = Some (Inr (i, t))"
      using Cons.prems(4) False nolink j
      by (auto simp: Let_def simp del: resolve_with_depth.simps split: sum.splits)
    have "descend io cx (cx_root cx) [] (done @ [c]) = Inr x"
      using walk_child_tag [of io cx cur "print_path (done @ [c])" c tag] x(1) Cons.prems(3)
      by (simp add: descend_snoc)
    then show ?thesis using IH [OF _ _ x(2)] up Cons.prems(2) cl by simp
  qed
qed simp

lemma fold_push_components: "fold push_piece (components path) parts = fold push_piece (pieces path) parts"
proof -
  have "fold push_piece (filter (\<lambda>c. c \<noteq> ''.'') cs) parts = fold push_piece cs parts" for cs
    by (induction cs arbitrary: parts) (simp_all add: push_piece_def)
  then show ?thesis by (simp add: components_pieces)
qed

lemma pieces_normalize_root: "pieces (normalize ''/'' path) = fold push_piece (components path) []"
proof -
  have "\<forall>p\<in>set (fold push_piece (pieces path) []). clean p" by (rule fold_push_clean [OF pieces_plain]) simp
  from pieces_print_clean [OF this] show ?thesis unfolding fold_push_components by (simp add: normalize_def)
qed

lemma resolve_full_eq:
  "resolve_with_depth RESOLVE_FUEL io cx start ''/'' path 0 fl = Some (resolve_full io cx start path fl)"
  using resolve_returns [of io cx start path fl] by (auto simp: resolve_full_def)

lemma resolve_full_walk:
  "Some (resolve_full io cx start path fl) =
    walk io cx (\<lambda>p d. resolve_with_depth 42 io cx (cx_root cx) ''/'' p d True) 0 fl (components path)
      (if starts_with_slash path then cx_root cx else start) ''/'' None"
proof -
  have "RESOLVE_FUEL = Suc 42" by simp
  then have "resolve_with_depth RESOLVE_FUEL io cx start ''/'' path 0 fl =
    walk io cx (\<lambda>p d. resolve_with_depth 42 io cx (cx_root cx) ''/'' p d True) 0 fl (components path)
      (if starts_with_slash path then cx_root cx else start) ''/'' None"
    by (simp only: resolve_with_depth.simps) (simp add: Let_def)
  then show ?thesis by (simp only: resolve_full_eq)
qed

lemma resolve_fullI:
  assumes "walk io cx (\<lambda>p d. resolve_with_depth 42 io cx (cx_root cx) ''/'' p d True) 0 fl (components path)
      (if starts_with_slash path then cx_root cx else start) ''/'' None = Some r"
  shows "resolve_full io cx start path fl = r"
  using assms resolve_full_walk [of io cx start path fl] by simp

lemma resolve_dotdot: "resolve_full io cx start ''..'' fl = Inr (start, None)"
  by (rule resolve_fullI) (simp add: components_def starts_with_slash_def)

lemma components_single: "clean c \<Longrightarrow> components c = [c] \<and> \<not> starts_with_slash c"
  by (cases c) (auto simp: components_def split_slash_plain clean_def plain_def starts_with_slash_def)

lemma resolve_relative_mount:
  assumes "\<not> cx_chrooted cx" "clean c" "lookup_mount_full cx (slash # c) = Some e" "io_kind io (nd_root e) \<noteq> Symlink"
  shows "resolve_full io cx start c fl = Inr (nd_root e, Some (nd_in_use e))"
proof (rule resolve_fullI)
  have "c \<noteq> ''..''" using assms(2) by (simp add: clean_def)
  then show "walk io cx (\<lambda>p d. resolve_with_depth 42 io cx (cx_root cx) ''/'' p d True) 0 fl (components c)
      (if starts_with_slash c then cx_root cx else start) ''/'' None = Some (Inr (nd_root e, Some (nd_in_use e)))"
    using assms components_single [OF assms(2)]
    by (simp add: walk_child_def join_canonical_def del: resolve_with_depth.simps)
qed

text \<open>Going up from a mount to the root keeps the tag of the mount.\<close>

lemma dotdot_keeps_mount_tag:
  assumes "\<not> cx_chrooted cx" "lookup_mount_full cx ''/m'' = Some e" "io_kind io (nd_root e) \<noteq> Symlink"
  shows "resolve_with_mount io cx start ''/m/..'' = Inr (cx_root cx, Some (nd_in_use e))"
proof -
  have "resolve_with_depth 42 io cx (cx_root cx) ''/'' ''/'' 0 True = Some (Inr (cx_root cx, None))"
  proof -
    have "(42::nat) = Suc 41" by simp
    then show ?thesis by (simp only: resolve_with_depth.simps) (simp add: components_def starts_with_slash_def)
  qed
  then have "resolve_full io cx start ''/m/..'' True = Inr (cx_root cx, Some (nd_in_use e))"
    using assms
    by (intro resolve_fullI)
      (simp add: components_def starts_with_slash_def walk_child_def join_canonical_def parent_of_canonical_def later_tag_def
        del: resolve_with_depth.simps)
  then show ?thesis by (simp add: resolve_with_mount_def)
qed

section \<open>Examples\<close>

definition sample_io :: "nat inode_ops" where
  "sample_io = \<lparr>
    io_kind = (\<lambda>i. if i = 1 then Symlink else Directory),
    io_inode_id = of_nat,
    io_lookup = (\<lambda>i c. if i = 0 \<and> c = ''a'' then Inr 1 else if i = 0 \<and> c = ''b'' then Inr 2
      else if i = 2 \<and> c = ''c'' then Inr 3 else if i = 0 \<and> c = ''..'' then Inr 9 else Inl Errno_NOENT),
    io_read_link = (\<lambda>i. if i = 1 then Inr ''/b'' else Inl Errno_INVAL),
    io_magic_resolve = (\<lambda>_. None)\<rparr>"

definition sample_cx :: "nat path_context" where
  "sample_cx = \<lparr>cx_root = 0, cx_mounts = empty_table, cx_chrooted = True\<rparr>"

definition plain_io :: "nat inode_ops" where
  "plain_io = sample_io\<lparr>io_kind := \<lambda>_. Directory\<rparr>"

lemma sample_resolve: "resolve_full sample_io sample_cx 3 ''/../a/c'' True = Inr (3, None)"
proof -
  have "resolve_with_depth 3 sample_io sample_cx 3 ''/'' ''/../a/c'' 0 True = Some (Inr (3, None))" by code_simp
  from resolve_mono [OF _ this, of RESOLVE_FUEL] show ?thesis by (simp add: resolve_full_def)
qed

section \<open>Properties\<close>

text \<open>C29: Path resolution returns for every directory contents, every context, every starting
  point and every path, symbolic-link loops and \<open>..\<close> included: 43 nested calls are enough, and more do not
  change the result.\<close>

theorem resolve_terminates:
  assumes "RESOLVE_FUEL \<le> n"
  shows "resolve_with_depth n io cx start ''/'' path 0 follow_last = Some (resolve_full io cx start path follow_last)"
  by (rule resolve_mono [OF assms resolve_full_eq])

theorem resolve_terminates_witness:
  "RESOLVE_FUEL \<le> 50 \<and> resolve_with_depth 50 sample_io sample_cx 3 ''/'' ''/../a/c'' 0 True = Some (Inr (3, None))"
  using resolve_terminates [of 50 sample_io sample_cx 3 "''/../a/c''" True] by (simp only: sample_resolve) simp



text \<open>C31: Resolving an absolute path and resolving its normalised form agree: always if the path has no \<open>..\<close>,
  and in a tree without symbolic links whenever the path itself resolves.\<close>

theorem resolve_normalizes:
  assumes "starts_with_slash path"
  shows "(''..'' \<notin> set (pieces path) \<longrightarrow>
      resolve_full io cx start (normalize ''/'' path) fl = resolve_full io cx start path fl)
    \<and> ((\<forall>i. io_kind io i \<noteq> Symlink) \<longrightarrow> resolve io cx start path = Inr i
        \<longrightarrow> resolve io cx start (normalize ''/'' path) = Inr i)"
proof (intro conjI impI)
  have can: "canonical (normalize ''/'' path)" by (rule normalize_is_canonical)
  have sl: "starts_with_slash (normalize ''/'' path)" by (simp add: normalize_def)
  have comp: "components (normalize ''/'' path) = fold push_piece (components path) []"
    by (simp add: components_clean(1) [OF can] pieces_normalize_root)
  {
    assume "''..'' \<notin> set (pieces path)"
    then have "\<forall>c\<in>set (components path). clean c"
      using components_plain [of _ path] by (auto simp: clean_def components_pieces)
    then have "components (normalize ''/'' path) = components path" by (simp add: comp fold_push_id)
    then have "Some (resolve_full io cx start (normalize ''/'' path) fl) = Some (resolve_full io cx start path fl)"
      unfolding resolve_full_walk by (simp only: sl assms)
    then show "resolve_full io cx start (normalize ''/'' path) fl = resolve_full io cx start path fl" by simp
  next
    assume nl: "\<forall>i. io_kind io i \<noteq> Symlink" and "resolve io cx start path = Inr i"
    then obtain t where t: "resolve_full io cx start path True = Inr (i, t)"
      by (cases "resolve_full io cx start path True") (auto simp: resolve_def)
    have "walk io cx (\<lambda>p d. resolve_with_depth (Suc 41) io cx (cx_root cx) ''/'' p d True) 0 True (components path)
        (cx_root cx) (print_path []) None = Some (Inr (i, t))"
      using resolve_full_walk [of io cx start path True] t assms by (simp add: print_path_def)
    from walk_normalizes [OF nl _ _ _ _ this] components_plain
    have "descend io cx (cx_root cx) [] (pieces (normalize ''/'' path)) = Inr i" by (simp add: pieces_normalize_root)
    moreover have "RESOLVE_FUEL = Suc 42" by simp
    ultimately show "resolve io cx start (normalize ''/'' path) = Inr i"
      using resolve_descends [OF nl can, of 0 42 cx start "''/''" True] resolve_full_eq [of io cx start "normalize ''/'' path" True]
      by (simp add: resolve_def del: resolve_with_depth.simps)
  }
qed

theorem resolve_normalizes_witness:
  "starts_with_slash ''/b/../b/c'' \<and> resolve plain_io sample_cx 0 ''/b/../b/c'' = Inr 3
    \<and> resolve plain_io sample_cx 0 (normalize ''/'' ''/b/../b/c'') = Inr 3"
proof -
  have s: "starts_with_slash ''/b/../b/c''" by (simp add: starts_with_slash_def)
  have "resolve_with_depth 3 plain_io sample_cx 0 ''/'' ''/b/../b/c'' 0 True = Some (Inr (3, None))" by code_simp
  from resolve_mono [OF _ this, of RESOLVE_FUEL]
  have r: "resolve plain_io sample_cx 0 ''/b/../b/c'' = Inr 3" by (simp add: resolve_def resolve_full_def)
  have "\<forall>i. io_kind plain_io i \<noteq> Symlink" by (simp add: plain_io_def)
  then show ?thesis using resolve_normalizes [OF s, of plain_io sample_cx 0 True 3] r s by blast
qed

text \<open>A relative path is resolved as if its starting directory were the root: \<open>..\<close> is the starting
  directory itself, so creating or removing \<open>../x\<close> acts on \<open>x\<close> in the working directory, and a name
  that is a mount point in the root directory leads to that mount from everywhere.\<close>

lemma relative_paths_start_at_root:
  "resolve io cx start ''..'' = Inr start
    \<and> (io_kind io cwd = Directory \<longrightarrow>
        resolve_at_parent io w cx fds (cwd, cwd_path) AT_FDCWD ''../x'' = Inr (cwd, ''x''))
    \<and> (\<not> cx_chrooted cx \<and> clean c \<and> lookup_mount_full cx (slash # c) = Some e \<and> io_kind io (nd_root e) \<noteq> Symlink \<longrightarrow>
        resolve io cx start c = Inr (nd_root e))"
proof -
  have up: "resolve io cx x ''..'' = Inr x" for x by (simp add: resolve_def resolve_dotdot)
  have t: "trim_end_slash ''../x'' = ''../x''" by (simp add: trim_end_slash_def)
  have "resolve_parent io cx cwd ''../x'' = Inr (cwd, ''x'')" if "io_kind io cwd = Directory"
    using that by (simp add: resolve_parent_def t up)
  moreover have "parent_mount_flags io w cx cwd ''../x'' = 0"
    by (simp add: parent_mount_flags_def t mount_flags_of_def resolve_with_mount_def resolve_dotdot)
  ultimately have "io_kind io cwd = Directory \<longrightarrow>
      resolve_at_parent io w cx fds (cwd, cwd_path) AT_FDCWD ''../x'' = Inr (cwd, ''x'')"
    by (simp add: resolve_at_parent_def starts_with_slash_def)
  then show ?thesis using up resolve_relative_mount [of cx c e io start True] by (simp add: resolve_def)
qed

end
