(* ===== verification/Mount_Ops.thy ===== *)
theory Mount_Ops
  imports Path_Resolve
begin

text \<open>
  The mount operations behind the system calls (\<open>kernel/src/vfs/mount.rs\<close>) with their propagation
  between peers (\<open>Context\<close> in \<open>kernel/src/vfs/path.rs\<close>). The state holds every mount table, since a
  group of peers spans the tables of several namespaces; a table that is gone is \<open>None\<close>, as for a
  weak reference. \<open>groot\<close> is the root inode of the system, where the paths of a peer start.
\<close>

section \<open>State\<close>

record 'i mnt_sys =
  ms_world :: mount_world
  ms_tables :: "nat \<Rightarrow> 'i mount_table option"
  ms_next_group :: nat
  ms_refs :: "nat \<Rightarrow> nat"
  ms_vda_mounted :: bool

record 'i mnt_cx =
  mc_root :: 'i
  mc_table :: nat
  mc_chrooted :: bool

definition table_of :: "'i mnt_sys \<Rightarrow> nat \<Rightarrow> 'i mount_table" where
  "table_of s i = (case ms_tables s i of Some t \<Rightarrow> t | None \<Rightarrow> empty_table)"

definition path_cx :: "'i mnt_sys \<Rightarrow> 'i mnt_cx \<Rightarrow> 'i path_context" where
  "path_cx s mc = \<lparr>cx_root = mc_root mc, cx_mounts = table_of s (mc_table mc), cx_chrooted = mc_chrooted mc\<rparr>"

definition set_table :: "nat \<Rightarrow> mount_world \<times> 'i mount_table \<Rightarrow> 'i mnt_sys \<Rightarrow> 'i mnt_sys" where
  "set_table i x s = s\<lparr>ms_world := fst x, ms_tables := (ms_tables s)(i := Some (snd x))\<rparr>"

definition table_install ::
  "nat \<Rightarrow> string \<Rightarrow> u64 \<Rightarrow> 'i \<Rightarrow> mount_propagation \<Rightarrow> string \<Rightarrow> string \<Rightarrow> u64 \<Rightarrow> 'i mnt_sys \<Rightarrow> 'i mnt_sys" where
  "table_install i path target root prop source fstype flags s =
    set_table i (mt_install i path target root prop source fstype flags False (ms_world s, table_of s i)) s"

definition table_remove :: "nat \<Rightarrow> string \<Rightarrow> 'i mnt_sys \<Rightarrow> 'i option \<times> 'i mnt_sys" where
  "table_remove i path s =
    (case mt_remove i path (ms_world s, table_of s i) of (r, x) \<Rightarrow> (r, set_table i x s))"

text \<open>The live entries of a group, which alone are kept in it.\<close>

definition live :: "'i mnt_sys \<Rightarrow> (nat \<times> string) list \<Rightarrow> (nat \<times> string) list" where
  "live s = filter (\<lambda>(i, _). ms_tables s i \<noteq> None)"

definition upd_group :: "nat \<Rightarrow> (peer_group \<Rightarrow> peer_group) \<Rightarrow> 'i mnt_sys \<Rightarrow> 'i mnt_sys" where
  "upd_group g f s = s\<lparr>ms_world := (ms_world s)\<lparr>mw_groups := (mw_groups (ms_world s))(g := f (mw_groups (ms_world s) g))\<rparr>\<rparr>"

definition snapshot_members :: "nat \<Rightarrow> 'i mnt_sys \<Rightarrow> (nat \<times> string) list \<times> 'i mnt_sys" where
  "snapshot_members g s =
    (let xs = live s (pg_members (mw_groups (ms_world s) g)) in (xs, upd_group g (\<lambda>p. p\<lparr>pg_members := xs\<rparr>) s))"

definition snapshot_slaves :: "nat \<Rightarrow> 'i mnt_sys \<Rightarrow> (nat \<times> string) list \<times> 'i mnt_sys" where
  "snapshot_slaves g s =
    (let xs = live s (pg_slaves (mw_groups (ms_world s) g)) in (xs, upd_group g (\<lambda>p. p\<lparr>pg_slaves := xs\<rparr>) s))"

section \<open>Propagation\<close>

definition resolve_inode_id :: "'i inode_ops \<Rightarrow> 'i \<Rightarrow> nat \<Rightarrow> string \<Rightarrow> 'i mnt_sys \<Rightarrow> u64 option" where
  "resolve_inode_id io groot i path s =
    (case resolve io (for_table groot (table_of s i)) groot path of Inr x \<Rightarrow> Some (io_inode_id io x) | Inl _ \<Rightarrow> None)"

fun mirror_install ::
  "'i inode_ops \<Rightarrow> 'i \<Rightarrow> string \<Rightarrow> 'i \<Rightarrow> mount_propagation \<Rightarrow> string \<Rightarrow> string \<Rightarrow> u64
    \<Rightarrow> (nat \<times> string) list \<Rightarrow> 'i mnt_sys \<Rightarrow> string list \<times> 'i mnt_sys" where
  "mirror_install io groot sfx root prop source fstype flags [] s = ([], s)"
| "mirror_install io groot sfx root prop source fstype flags ((i, peer_path) # ps) s =
    (let mirror_path = join_for_mirror peer_path sfx in
     case resolve_inode_id io groot i mirror_path s of
       None \<Rightarrow> mirror_install io groot sfx root prop source fstype flags ps s
     | Some target \<Rightarrow>
         (case mirror_install io groot sfx root prop source fstype flags ps
            (table_install i mirror_path target root prop source fstype flags s) of
            (ms, s') \<Rightarrow> (mirror_path # ms, s')))"

definition install_mount_propagating ::
  "'i inode_ops \<Rightarrow> 'i \<Rightarrow> 'i mnt_cx \<Rightarrow> string \<Rightarrow> u64 \<Rightarrow> 'i \<Rightarrow> mount_propagation \<Rightarrow> string \<Rightarrow> string \<Rightarrow> u64
    \<Rightarrow> 'i mnt_sys \<Rightarrow> string list \<times> 'i mnt_sys" where
  "install_mount_propagating io groot mc target_path target root prop source fstype flags s =
    (let s1 = table_install (mc_table mc) target_path target root prop source fstype flags s in
     case proper_containing_mount_with_path (table_of s (mc_table mc)) target_path of
       None \<Rightarrow> ([], s1)
     | Some (containing_path, entry) \<Rightarrow>
         (case nd_propagation entry of
            SharedWith g \<Rightarrow>
              let sfx = path_suffix containing_path target_path;
                  (peers, s2) = snapshot_members g s1;
                  (slaves, s3) = snapshot_slaves g s2;
                  (ms, s4) = mirror_install io groot sfx root prop source fstype flags
                    (filter (\<lambda>p. p \<noteq> (mc_table mc, containing_path)) peers) s3;
                  (ms', s5) = mirror_install io groot sfx root Private source fstype flags slaves s4
               in (ms @ ms', s5)
          | _ \<Rightarrow> ([], s1)))"

fun mirror_remove :: "string \<Rightarrow> (nat \<times> string) list \<Rightarrow> 'i mnt_sys \<Rightarrow> 'i mnt_sys" where
  "mirror_remove sfx [] s = s"
| "mirror_remove sfx ((i, peer_path) # ps) s =
    mirror_remove sfx ps (snd (table_remove i (join_for_mirror peer_path sfx) s))"

definition remove_mount_propagating ::
  "'i mnt_cx \<Rightarrow> string \<Rightarrow> 'i mnt_sys \<Rightarrow> 'i option \<times> 'i mnt_sys" where
  "remove_mount_propagating mc target_path s =
    (case table_remove (mc_table mc) target_path s of
       (None, s1) \<Rightarrow> (None, s1)
     | (Some root, s1) \<Rightarrow>
         (case proper_containing_mount_with_path (table_of s (mc_table mc)) target_path of
            None \<Rightarrow> (Some root, s1)
          | Some (containing_path, entry) \<Rightarrow>
              (case nd_propagation entry of
                 SharedWith g \<Rightarrow>
                   let sfx = path_suffix containing_path target_path;
                       (peers, s2) = snapshot_members g s1;
                       s3 = mirror_remove sfx (filter (\<lambda>p. p \<noteq> (mc_table mc, containing_path)) peers) s2;
                       (slaves, s4) = snapshot_slaves g s3
                    in (Some root, mirror_remove sfx slaves s4)
               | _ \<Rightarrow> (Some root, s1))))"

section \<open>The operations\<close>

abbreviation MS_BIND :: u64 where "MS_BIND \<equiv> 0x1000"
abbreviation MS_REC :: u64 where "MS_REC \<equiv> 0x4000"
abbreviation MS_SHARED :: u64 where "MS_SHARED \<equiv> 0x100000"
abbreviation MS_PRIVATE :: u64 where "MS_PRIVATE \<equiv> 0x40000"
abbreviation MS_SLAVE :: u64 where "MS_SLAVE \<equiv> 0x80000"
abbreviation MS_UNBINDABLE :: u64 where "MS_UNBINDABLE \<equiv> 0x20000"
abbreviation MOUNT_FLAG_MASK :: u64 where "MOUNT_FLAG_MASK \<equiv> 0xF"
abbreviation PROPAGATION_MASK :: u64 where "PROPAGATION_MASK \<equiv> 0x1E0000"
abbreviation MNT_FORCE :: u64 where "MNT_FORCE \<equiv> 1"
abbreviation MNT_DETACH :: u64 where "MNT_DETACH \<equiv> 2"
abbreviation UMOUNT_NOFOLLOW :: u64 where "UMOUNT_NOFOLLOW \<equiv> 8"

definition new_group :: "'i mnt_sys \<Rightarrow> nat \<times> 'i mnt_sys" where
  "new_group s =
    (ms_next_group s, upd_group (ms_next_group s) (\<lambda>_. \<lparr>pg_members = [], pg_slaves = []\<rparr>) (s\<lparr>ms_next_group := ms_next_group s + 1\<rparr>))"

definition fresh_propagation :: "u64 \<Rightarrow> 'i mnt_sys \<Rightarrow> mount_propagation \<times> 'i mnt_sys" where
  "fresh_propagation flags s =
    (if flags AND MS_UNBINDABLE \<noteq> 0 then (Unbindable, s)
     else if flags AND MS_SHARED \<noteq> 0 then (case new_group s of (g, s') \<Rightarrow> (SharedWith g, s'))
     else (Private, s))"

definition join_subtree :: "string \<Rightarrow> string \<Rightarrow> string" where
  "join_subtree pfx sfx =
    (if sfx = [] then pfx else if pfx = ''/'' then sfx else pfx @ sfx)"

definition changed_propagation :: "u64 \<Rightarrow> mount_propagation \<Rightarrow> 'i mnt_sys \<Rightarrow> mount_propagation \<times> 'i mnt_sys" where
  "changed_propagation flags old s =
    (if flags AND MS_UNBINDABLE \<noteq> 0 then (Unbindable, s)
     else if flags AND MS_PRIVATE \<noteq> 0 then (Private, s)
     else if flags AND MS_SHARED \<noteq> 0 then
       (case old of SharedWith g \<Rightarrow> (SharedWith g, s) | _ \<Rightarrow> (case new_group s of (g, s') \<Rightarrow> (SharedWith g, s')))
     else if flags AND MS_SLAVE \<noteq> 0 then (case old of SharedWith g \<Rightarrow> (SlaveOf g, s) | _ \<Rightarrow> (old, s))
     else (old, s))"

fun change_loop :: "nat \<Rightarrow> u64 \<Rightarrow> string list \<Rightarrow> 'i mnt_sys \<Rightarrow> 'i mnt_sys" where
  "change_loop i flags [] s = s"
| "change_loop i flags (p # ps) s =
    change_loop i flags ps
      (case snapshot_one (table_of s i) p of
         None \<Rightarrow> s
       | Some existing \<Rightarrow>
           (case changed_propagation flags (nd_propagation existing) s of
              (prop, s1) \<Rightarrow> set_table i (snd (set_propagation i p prop (ms_world s1, table_of s1 i))) s1))"

definition change_propagation :: "'i mnt_cx \<Rightarrow> string \<Rightarrow> u64 \<Rightarrow> 'i mnt_sys \<Rightarrow> int \<times> 'i mnt_sys" where
  "change_propagation mc t_norm flags s =
    (let i = mc_table mc;
         subtree = map (\<lambda>(sfx, _). join_subtree t_norm sfx) (collect_subtree (table_of s i) t_norm);
         targets = (if flags AND MS_REC \<noteq> 0 then (if subtree = [] then [t_norm] else subtree) else [t_norm])
      in (0, change_loop i flags targets s))"

fun remove_each :: "nat \<Rightarrow> string \<Rightarrow> string list \<Rightarrow> 'i mnt_sys \<Rightarrow> 'i mnt_sys" where
  "remove_each i s_norm [] s = s"
| "remove_each i s_norm (sfx # sfxs) s = remove_each i s_norm sfxs (snd (table_remove i (join_subtree s_norm sfx) s))"

fun install_moved ::
  "'i inode_ops \<Rightarrow> 'i mnt_cx \<Rightarrow> string \<Rightarrow> u64 \<Rightarrow> (string \<times> 'i node_data) list \<Rightarrow> 'i mnt_sys \<Rightarrow> 'i mnt_sys" where
  "install_moved io mc t_norm tgt [] s = s"
| "install_moved io mc t_norm tgt ((sfx, entry) # es) s =
    (let new_path = join_subtree t_norm sfx;
         target = (if sfx = [] then tgt
                   else case resolve io (path_cx s mc) (mc_root mc) new_path of
                          Inr x \<Rightarrow> io_inode_id io x | Inl _ \<Rightarrow> nd_target_inode_id entry)
      in install_moved io mc t_norm tgt es
           (table_install (mc_table mc) new_path target (nd_root entry) (nd_propagation entry) (nd_source entry)
             (nd_fstype entry) (mw_flags (ms_world s) (nd_in_use entry)) s))"

definition move_mount :: "'i inode_ops \<Rightarrow> 'i mnt_cx \<Rightarrow> string \<Rightarrow> string \<Rightarrow> 'i mnt_sys \<Rightarrow> int \<times> 'i mnt_sys" where
  "move_mount io mc s_norm t_norm s =
    (let i = mc_table mc in
     if snapshot_one (table_of s i) s_norm = None then (EINVAL, s)
     else case resolve io (path_cx s mc) (mc_root mc) t_norm of
            Inl e \<Rightarrow> (as_neg_i64 e, s)
          | Inr tgt \<Rightarrow>
              let subtree = sort_key (length \<circ> fst) (collect_subtree (table_of s i) s_norm);
                  s1 = remove_each i s_norm (rev (map fst subtree)) s
               in (0, install_moved io mc t_norm (io_inode_id io tgt) subtree s1))"

fun bind_each ::
  "'i inode_ops \<Rightarrow> 'i \<Rightarrow> 'i mnt_cx \<Rightarrow> string \<Rightarrow> (string \<times> 'i node_data) list \<Rightarrow> 'i mnt_sys \<Rightarrow> 'i mnt_sys" where
  "bind_each io groot mc t_norm [] s = s"
| "bind_each io groot mc t_norm ((sfx, entry) # es) s =
    bind_each io groot mc t_norm es
      (if sfx = [] then s
       else
         let mirror_path = join_subtree t_norm sfx in
         case resolve io (path_cx s mc) (mc_root mc) mirror_path of
           Inl _ \<Rightarrow> s
         | Inr x \<Rightarrow>
             snd (install_mount_propagating io groot mc mirror_path (io_inode_id io x) (nd_root entry)
               (nd_propagation entry) (nd_source entry) (nd_fstype entry) (mw_flags (ms_world s) (nd_in_use entry)) s))"

definition bind_mount ::
  "'i inode_ops \<Rightarrow> 'i \<Rightarrow> 'i mnt_cx \<Rightarrow> string \<Rightarrow> string \<Rightarrow> u64 \<Rightarrow> 'i mnt_sys \<Rightarrow> int \<times> 'i mnt_sys" where
  "bind_mount io groot mc s_norm t_norm flags s =
    (let t = table_of s (mc_table mc); containing = map_option snd (containing_mount_with_path t s_norm) in
     if (case containing of Some e \<Rightarrow> nd_propagation e = Unbindable | None \<Rightarrow> False) then (EINVAL, s)
     else case resolve io (path_cx s mc) (mc_root mc) s_norm of
       Inl e \<Rightarrow> (as_neg_i64 e, s)
     | Inr src_inode \<Rightarrow>
         (case resolve io (path_cx s mc) (mc_root mc) t_norm of
            Inl e \<Rightarrow> (as_neg_i64 e, s)
          | Inr tgt_inode \<Rightarrow>
              let src_entry = (case snapshot_one t s_norm of Some e \<Rightarrow> Some e | None \<Rightarrow> containing);
                  (bind_prop, s1) =
                    (if flags AND PROPAGATION_MASK \<noteq> 0 then fresh_propagation flags s
                     else (case map_option nd_propagation src_entry of
                             Some (SharedWith g) \<Rightarrow> SharedWith g | Some (SlaveOf g) \<Rightarrow> SlaveOf g | _ \<Rightarrow> Private, s));
                  bind_fstype = (case src_entry of Some e \<Rightarrow> nd_fstype e | None \<Rightarrow> ''none'');
                  s2 = snd (install_mount_propagating io groot mc t_norm (io_inode_id io tgt_inode) src_inode bind_prop
                         s_norm bind_fstype (flags AND MOUNT_FLAG_MASK) s1)
               in (0, if flags AND MS_REC \<noteq> 0
                      then bind_each io groot mc t_norm (collect_subtree (table_of s2 (mc_table mc)) s_norm) s2
                      else s2)))"

definition install_new ::
  "'i inode_ops \<Rightarrow> 'i \<Rightarrow> 'i mnt_cx \<Rightarrow> string \<Rightarrow> u64 \<Rightarrow> 'i \<Rightarrow> u64 \<Rightarrow> string \<Rightarrow> string \<Rightarrow> 'i mnt_sys \<Rightarrow> 'i mnt_sys" where
  "install_new io groot mc normalized target new_root flags source fstype s =
    (case fresh_propagation flags s of
       (prop, s1) \<Rightarrow> snd (install_mount_propagating io groot mc normalized target new_root prop source fstype
                      (flags AND MOUNT_FLAG_MASK) s1))"

fun umount_each :: "'i mnt_cx \<Rightarrow> string \<Rightarrow> string list \<Rightarrow> 'i mnt_sys \<Rightarrow> 'i mnt_sys" where
  "umount_each mc normalized [] s = s"
| "umount_each mc normalized (sfx # sfxs) s =
    umount_each mc normalized sfxs (snd (remove_mount_propagating mc (join_subtree normalized sfx) s))"

definition umount_busy :: "'i mnt_cx \<Rightarrow> string \<Rightarrow> 'i mnt_sys \<Rightarrow> bool" where
  "umount_busy mc normalized s \<longleftrightarrow>
    (case snapshot_one (table_of s (mc_table mc)) normalized of
       Some e \<Rightarrow> ms_refs s (nd_in_use e) > 0 | None \<Rightarrow> False)
    \<or> has_child_mount (table_of s (mc_table mc)) normalized"

definition do_umount :: "'i inode_ops \<Rightarrow> 'i mnt_cx \<Rightarrow> string \<Rightarrow> u64 \<Rightarrow> 'i mnt_sys \<Rightarrow> int \<times> 'i mnt_sys" where
  "do_umount io mc normalized flags s =
    (let t = table_of s (mc_table mc);
         nofollow = (if flags AND UMOUNT_NOFOLLOW \<noteq> 0 then resolve_no_follow io (path_cx s mc) (mc_root mc) normalized
                     else Inr (mc_root mc)) in
     case nofollow of
       Inl e \<Rightarrow> (as_neg_i64 e, s)
     | Inr _ \<Rightarrow>
         (case snapshot_one t normalized of
            None \<Rightarrow> (EINVAL, s)
          | Some entry \<Rightarrow>
              if flags AND (MNT_DETACH OR MNT_FORCE) = 0 \<and> umount_busy mc normalized s then (EBUSY, s)
              else if flags AND MNT_DETACH \<noteq> 0 then
                (if is_stacked t normalized then (0, snd (remove_mount_propagating mc normalized s))
                 else if normalized = ''/'' then (EINVAL, s)
                 else (0, umount_each mc normalized
                        (sort_key (\<lambda>sfx. - int (length sfx)) (map fst (collect_subtree t normalized))) s))
              else
                (case remove_mount_propagating mc normalized s of
                   (None, s1) \<Rightarrow> (EINVAL, s1)
                 | (Some _, s1) \<Rightarrow>
                     (0, if nd_source entry = ''/dev/vda'' then s1\<lparr>ms_vda_mounted := False\<rparr> else s1))))"

section \<open>Paths below paths\<close>

lemma below_split:
  assumes "canonical a" "canonical c" "below a c"
  obtains ps where "ps \<noteq> []" "\<forall>p\<in>set ps. clean p" "pieces c = pieces a @ ps" "path_suffix a c = print_path ps"
proof -
  obtain ps where ps: "pieces c = pieces a @ ps" "ps \<noteq> []"
    using assms(3) by (auto simp: below_def elim!: strict_prefixE')
  have cl: "\<forall>p\<in>set (pieces a). clean p" "\<forall>p\<in>set ps. clean p"
    using canonical_pieces(2) [OF assms(2)] by (simp_all add: ps(1))
  have a: "a = print_path (pieces a)" and c: "c = print_path (pieces a @ ps)"
    using canonical_pieces(1) assms(1,2) ps(1) by metis+
  have "path_suffix a c = print_path ps"
  proof (cases "pieces a = []")
    case True
    then have "a = ''/''" using a by (simp add: print_path_def)
    then show ?thesis using c True by (simp add: path_suffix_def)
  next
    case False
    then have "a \<noteq> ''/''" using pieces_root by metis
    moreover have "drop (length (print_path (pieces a))) (print_path (pieces a @ ps)) = print_path ps"
      using False ps(2) by (simp add: print_path_def)
    ultimately show ?thesis using a c by (simp add: path_suffix_def)
  qed
  then show thesis using that ps cl(2) by blast
qed

lemma join_mirror_print:
  assumes "canonical p" "ps \<noteq> []" "\<forall>p\<in>set ps. clean p"
  shows "join_for_mirror p (print_path ps) = print_path (pieces p @ ps)" "join_subtree p (print_path ps) = print_path (pieces p @ ps)"
proof -
  have n: "print_path ps \<noteq> []" using assms(2) by (cases ps) (simp_all add: print_path_def)
  have "print_path (pieces p @ ps) = (if p = ''/'' then print_path ps else p @ print_path ps)"
  proof (cases "pieces p = []")
    case True
    then have "p = ''/''" using canonical_pieces(1) [OF assms(1)] by (simp add: print_path_def)
    then show ?thesis by simp
  next
    case False
    then have "p \<noteq> ''/''" using pieces_root by metis
    moreover have "print_path (pieces p @ ps) = print_path (pieces p) @ print_path ps"
      using False assms(2) by (simp add: print_path_def)
    ultimately show ?thesis using canonical_pieces(1) [OF assms(1)] by simp
  qed
  then show "join_for_mirror p (print_path ps) = print_path (pieces p @ ps)"
    "join_subtree p (print_path ps) = print_path (pieces p @ ps)"
    using n by (simp_all add: join_for_mirror_def join_subtree_def)
qed

text \<open>What may be appended to a mount path: nothing, or the path from a mount to one below it.\<close>

definition rel_path :: "string \<Rightarrow> bool" where
  "rel_path sfx \<longleftrightarrow> sfx = [] \<or> (\<exists>ps. ps \<noteq> [] \<and> (\<forall>p\<in>set ps. clean p) \<and> sfx = print_path ps)"

lemma rel_path_suffix: "canonical a \<Longrightarrow> canonical c \<Longrightarrow> below a c \<Longrightarrow> rel_path (path_suffix a c)"
  by (erule (2) below_split) (auto simp: rel_path_def)

lemma join_canonicals:
  assumes "canonical p" "rel_path sfx"
  shows "canonical (join_for_mirror p sfx)" "canonical (join_subtree p sfx)"
proof -
  have "canonical (join_for_mirror p sfx) \<and> canonical (join_subtree p sfx)"
  proof (cases "sfx = []")
    case True
    then show ?thesis using assms(1) by (simp add: join_for_mirror_def join_subtree_def)
  next
    case False
    then obtain ps where "ps \<noteq> []" "\<forall>p\<in>set ps. clean p" "sfx = print_path ps" using assms(2) by (auto simp: rel_path_def)
    moreover from this have "\<forall>q\<in>set (pieces p @ ps). clean q" using canonical_pieces(2) [OF assms(1)] by auto
    ultimately show ?thesis using join_mirror_print [OF assms(1)] by (metis canonical_print)
  qed
  then show "canonical (join_for_mirror p sfx)" "canonical (join_subtree p sfx)" by simp_all
qed

section \<open>The invariant of the mount system\<close>

definition groups_ok :: "mount_world \<Rightarrow> bool" where
  "groups_ok w \<longleftrightarrow> (\<forall>g x. x \<in> set (pg_members (mw_groups w g)) \<union> set (pg_slaves (mw_groups w g)) \<longrightarrow> canonical (snd x))"

definition sys_ok :: "'i mnt_sys \<Rightarrow> bool" where
  "sys_ok s \<longleftrightarrow> (\<forall>i. tree_ok (table_of s i)) \<and> groups_ok (ms_world s)"

lemma groups_ok_join: "groups_ok w \<Longrightarrow> canonical path \<Longrightarrow> groups_ok (join_group i path prop w)"
  by (cases "prop") (auto simp: groups_ok_def join_group_def add_member_def add_slave_def add_once_def)

lemma groups_ok_leave: "groups_ok w \<Longrightarrow> groups_ok (leave_group i path prop w)"
  by (cases "prop") (auto simp: groups_ok_def leave_group_def remove_member_def remove_slave_def)

lemma groups_ok_flags [simp]:
  "groups_ok (w\<lparr>mw_flags := f\<rparr>) = groups_ok w" "groups_ok (snd (new_with_flags flags w)) = groups_ok w"
  by (simp_all add: groups_ok_def new_with_flags_def)

lemma mt_install_groups:
  "groups_ok w \<Longrightarrow> canonical path \<Longrightarrow>
    groups_ok (fst (mt_install i path target root prop source fstype flags preserve_tag (w, t)))"
  by (simp add: mt_install_def Let_def split_def groups_ok_join groups_ok_leave split: option.splits)

lemma tops_canonical: "tree_ok t \<Longrightarrow> node_at t path = Some n \<Longrightarrow> canonical path"
  using tree_okD(2) node_at_keys by (metis option.distinct(1))

lemma mt_remove_groups: "tree_ok t \<Longrightarrow> groups_ok w \<Longrightarrow> groups_ok (fst (snd (mt_remove i path (w, t))))"
  by (auto simp: mt_remove_def Let_def split: option.splits intro!: groups_ok_join groups_ok_leave intro: tops_canonical)

lemma set_propagation_groups:
  "tree_ok t \<Longrightarrow> groups_ok w \<Longrightarrow> groups_ok (fst (snd (set_propagation i path prop (w, t))))"
  by (auto simp: set_propagation_def split: option.splits intro!: groups_ok_join groups_ok_leave intro: tops_canonical)

lemma table_of_set [simp]: "table_of (set_table i x s) j = (if j = i then snd x else table_of s j)"
  by (simp add: table_of_def set_table_def)

lemma world_set [simp]: "ms_world (set_table i x s) = fst x"
  by (simp add: set_table_def)

lemma sys_ok_set: "sys_ok s \<Longrightarrow> tree_ok (snd x) \<Longrightarrow> groups_ok (fst x) \<Longrightarrow> sys_ok (set_table i x s)"
  by (simp add: sys_ok_def)

lemma table_install_ok: "sys_ok s \<Longrightarrow> canonical path \<Longrightarrow> sys_ok (table_install i path target root prop source fstype flags s)"
  unfolding table_install_def by (intro sys_ok_set mt_install_tree_ok mt_install_groups) (simp_all add: sys_ok_def)

lemma table_remove_ok: "sys_ok s \<Longrightarrow> sys_ok (snd (table_remove i path s))"
  unfolding table_remove_def split_def snd_conv
  by (intro sys_ok_set mt_remove_tree_ok mt_remove_groups) (simp_all add: sys_ok_def)

text \<open>Nothing but a new mount of \<open>root\<close> appears anywhere.\<close>

definition adds_only :: "'i \<Rightarrow> 'i mnt_sys \<Rightarrow> 'i mnt_sys \<Rightarrow> bool" where
  "adds_only root s s' \<longleftrightarrow> (\<forall>i q. mt_stack (table_of s' i) q = mt_stack (table_of s i) q
    \<or> mt_lookup (table_of s' i) q = Some root)"

lemma adds_only_refl [simp]: "adds_only root s s"
  by (simp add: adds_only_def)

lemma adds_only_trans: "adds_only root s s1 \<Longrightarrow> adds_only root s1 s2 \<Longrightarrow> adds_only root s s2"
  unfolding adds_only_def by (metis mt_lookup_stack)

lemma table_install_adds:
  assumes "sys_ok s" "canonical path"
  shows "adds_only root s (table_install i path target root prop source fstype flags s)"
    "mt_lookup (table_of (table_install i path target root prop source fstype flags s) i) path = Some root"
proof -
  obtain tag where st: "mt_stack (snd (mt_install i path target root prop source fstype flags False (ms_world s, table_of s i)))
      = (mt_stack (table_of s i))(path := \<lparr>nd_target_inode_id = target, nd_root = root, nd_propagation = prop, nd_in_use = tag,
          nd_source = source, nd_fstype = fstype\<rparr> # mt_stack (table_of s i) path)"
    using mt_install_stack [of "table_of s i" path i target root "prop" source fstype flags False "ms_world s"] assms
    by (auto simp: sys_ok_def)
  show "adds_only root s (table_install i path target root prop source fstype flags s)"
    "mt_lookup (table_of (table_install i path target root prop source fstype flags s) i) path = Some root"
    by (simp_all add: adds_only_def table_install_def mt_lookup_stack st)
qed

lemma upd_group_simps [simp]:
  "table_of (upd_group g f s) i = table_of s i" "mw_groups (ms_world (upd_group g f s)) = (mw_groups (ms_world s))(g := f (mw_groups (ms_world s) g))"
  by (simp_all add: upd_group_def table_of_def)

lemma snapshots_ok:
  assumes "sys_ok s"
  shows "sys_ok (snd (snapshot_members g s))" "sys_ok (snd (snapshot_slaves g s))"
    "\<forall>x\<in>set (fst (snapshot_members g s)). canonical (snd x)" "\<forall>x\<in>set (fst (snapshot_slaves g s)). canonical (snd x)"
    "table_of (snd (snapshot_members g s)) i = table_of s i" "table_of (snd (snapshot_slaves g s)) i = table_of s i"
  using assms by (auto simp: snapshot_members_def snapshot_slaves_def Let_def sys_ok_def groups_ok_def live_def)

lemma adds_only_tables: "(\<And>i. table_of s' i = table_of s i) \<Longrightarrow> adds_only root s s'"
  by (simp add: adds_only_def)

lemma mirror_install_ok:
  "sys_ok s \<Longrightarrow> rel_path sfx \<Longrightarrow> \<forall>x\<in>set ps. canonical (snd x) \<Longrightarrow>
    sys_ok (snd (mirror_install io groot sfx root prop source fstype flags ps s))
    \<and> adds_only root s (snd (mirror_install io groot sfx root prop source fstype flags ps s))"
proof (induction io groot sfx root "prop" source fstype flags ps s rule: mirror_install.induct)
  case (2 io groot sfx root pg source fstype flags i p ps s)
  let ?m = "join_for_mirror p sfx"
  have m: "canonical ?m" using join_canonicals(1) 2(4,5) by simp
  show ?case
  proof (cases "resolve_inode_id io groot i ?m s")
    case None
    then show ?thesis using 2 by (simp add: Let_def)
  next
    case (Some target)
    let ?s1 = "table_install i ?m target root pg source fstype flags s"
    have "sys_ok ?s1" "adds_only root s ?s1" using 2(3) m by (simp_all add: table_install_ok table_install_adds)
    then show ?thesis using 2(2) [OF refl Some] 2(4,5) Some adds_only_trans
      by (auto simp: Let_def split_def)
  qed
qed simp

lemma proper_containing:
  assumes "tree_ok t" "canonical path" "proper_containing_mount_with_path t path = Some (p, e)"
  shows "canonical p" "rel_path (path_suffix p path)"
proof -
  have "deepest_existing_ancestor t path = Some p"
    using assms(3) by (auto simp: proper_containing_mount_with_path_def split: option.splits)
  then have p: "p \<in> keys t" "below p path" using deepest_parent_ok [OF assms(1,2)] by (simp_all add: parent_ok_def)
  then show "canonical p" "rel_path (path_suffix p path)"
    using tree_okD(2) [OF assms(1)] rel_path_suffix assms(2) by blast+
qed

lemma install_propagating_ok:
  assumes "sys_ok s" "canonical path"
  shows "sys_ok (snd (install_mount_propagating io groot mc path target root prop source fstype flags s))"
    "adds_only root s (snd (install_mount_propagating io groot mc path target root prop source fstype flags s))"
    "mt_lookup (table_of (snd (install_mount_propagating io groot mc path target root prop source fstype flags s)) (mc_table mc)) path = Some root"
proof -
  define s1 where "s1 = table_install (mc_table mc) path target root prop source fstype flags s"
  have s1: "sys_ok s1" "adds_only root s s1" "mt_lookup (table_of s1 (mc_table mc)) path = Some root"
    unfolding s1_def using assms by (simp_all add: table_install_ok table_install_adds)
  let ?r = "snd (install_mount_propagating io groot mc path target root prop source fstype flags s)"
  have "sys_ok ?r \<and> adds_only root s1 ?r"
  proof (cases "proper_containing_mount_with_path (table_of s (mc_table mc)) path")
    case None
    then show ?thesis using s1(1) by (simp add: install_mount_propagating_def s1_def [symmetric])
  next
    case (Some pe)
    obtain p e where pe: "pe = (p, e)" by (cases pe)
    have sfx: "rel_path (path_suffix p path)"
      using proper_containing [OF _ assms(2) Some [unfolded pe]] assms(1) by (simp add: sys_ok_def)
    show ?thesis
    proof (cases "nd_propagation e")
      case (SharedWith g)
      define s2 where "s2 = snd (snapshot_members g s1)"
      define s3 where "s3 = snd (snapshot_slaves g s2)"
      define ps where "ps = filter (\<lambda>q. q \<noteq> (mc_table mc, p)) (fst (snapshot_members g s1))"
      define s4 where "s4 = snd (mirror_install io groot (path_suffix p path) root prop source fstype flags ps s3)"
      have s2: "sys_ok s2" and s3: "sys_ok s3" and t3: "adds_only root s1 s3"
        unfolding s2_def s3_def by (simp_all add: snapshots_ok s1(1) adds_only_tables)
      have "\<forall>x\<in>set ps. canonical (snd x)" using snapshots_ok(3) [OF s1(1), of g] by (simp add: ps_def)
      then have s4: "sys_ok s4" "adds_only root s3 s4"
        unfolding s4_def using mirror_install_ok [OF s3 sfx, of ps] by simp_all
      have r: "?r = snd (mirror_install io groot (path_suffix p path) root Private source fstype flags (fst (snapshot_slaves g s2)) s4)"
        by (simp add: install_mount_propagating_def Some pe SharedWith s1_def s2_def s3_def s4_def ps_def Let_def split_def)
      have m: "sys_ok ?r" "adds_only root s4 ?r"
        unfolding r using mirror_install_ok [OF s4(1) sfx snapshots_ok(4) [OF s2], of io groot root Private source fstype flags]
        by simp_all
      then show ?thesis using adds_only_trans [OF t3 adds_only_trans [OF s4(2)]] by simp
    qed (use s1(1) in \<open>simp_all add: install_mount_propagating_def Some pe s1_def [symmetric]\<close>)
  qed
  then have r: "sys_ok ?r" "adds_only root s1 ?r" by simp_all
  then show "sys_ok ?r" "adds_only root s ?r" using adds_only_trans [OF s1(2)] by simp_all
  have "mt_stack (table_of ?r (mc_table mc)) path = mt_stack (table_of s1 (mc_table mc)) path
      \<or> mt_lookup (table_of ?r (mc_table mc)) path = Some root"
    using r(2) unfolding adds_only_def by simp
  then show "mt_lookup (table_of ?r (mc_table mc)) path = Some root" using s1(3) by (auto simp: mt_lookup_stack)
qed

text \<open>Mounts only disappear, from the top.\<close>

definition drops_only :: "'i mnt_sys \<Rightarrow> 'i mnt_sys \<Rightarrow> bool" where
  "drops_only s s' \<longleftrightarrow> (\<forall>i q. \<exists>n. mt_stack (table_of s' i) q = drop n (mt_stack (table_of s i) q))"

lemma drops_only_tables: "(\<And>i. table_of s' i = table_of s i) \<Longrightarrow> drops_only s s'"
  unfolding drops_only_def by (metis drop0)

lemma drops_only_trans:
  assumes "drops_only s s1" "drops_only s1 s2"
  shows "drops_only s s2"
  unfolding drops_only_def
proof (intro allI)
  fix i q
  obtain n m where "mt_stack (table_of s1 i) q = drop n (mt_stack (table_of s i) q)"
    "mt_stack (table_of s2 i) q = drop m (mt_stack (table_of s1 i) q)"
    using assms unfolding drops_only_def by meson
  then have "mt_stack (table_of s2 i) q = drop (m + n) (mt_stack (table_of s i) q)" by simp
  then show "\<exists>n. mt_stack (table_of s2 i) q = drop n (mt_stack (table_of s i) q)" ..
qed

lemma table_remove_stack:
  assumes "sys_ok s"
  shows "fst (table_remove i path s) = mt_lookup (table_of s i) path"
    "mt_stack (table_of (snd (table_remove i path s)) j) =
      (if j = i then (mt_stack (table_of s i))(path := tl (mt_stack (table_of s i) path)) else mt_stack (table_of s j))"
  using mt_remove_stack [of "table_of s i" i path "ms_world s"] assms by (simp_all add: sys_ok_def table_remove_def split_def)

lemma table_remove_drops:
  assumes "sys_ok s"
  shows "drops_only s (snd (table_remove i path s))"
  unfolding drops_only_def
proof (intro allI)
  fix j q
  show "\<exists>n. mt_stack (table_of (snd (table_remove i path s)) j) q = drop n (mt_stack (table_of s j) q)"
    by (rule exI [of _ "if j = i \<and> q = path then 1 else 0"]) (simp add: table_remove_stack [OF assms] drop_Suc)
qed

lemma mirror_remove_ok:
  "sys_ok s \<Longrightarrow> sys_ok (mirror_remove sfx ps s) \<and> drops_only s (mirror_remove sfx ps s)"
proof (induction ps arbitrary: s)
  case Nil
  then show ?case by (simp add: drops_only_tables)
next
  case (Cons x ps)
  obtain i p where x: "x = (i, p)" by (cases x)
  let ?s1 = "snd (table_remove i (join_for_mirror p sfx) s)"
  have "sys_ok (mirror_remove sfx ps ?s1)" "drops_only ?s1 (mirror_remove sfx ps ?s1)"
    using Cons.IH [OF table_remove_ok [OF Cons.prems]] by simp_all
  then show ?case using drops_only_trans [OF table_remove_drops [OF Cons.prems]] by (simp add: x)
qed

lemma remove_propagating_ok:
  assumes "sys_ok s"
  shows "sys_ok (snd (remove_mount_propagating mc path s))" "drops_only s (snd (remove_mount_propagating mc path s))"
    "fst (remove_mount_propagating mc path s) = mt_lookup (table_of s (mc_table mc)) path"
    "drops_only (snd (table_remove (mc_table mc) path s)) (snd (remove_mount_propagating mc path s))"
proof -
  define s1 where "s1 = snd (table_remove (mc_table mc) path s)"
  have s1: "sys_ok s1" "drops_only s s1" unfolding s1_def by (simp_all add: assms table_remove_ok table_remove_drops)
  have rm: "table_remove (mc_table mc) path s = (mt_lookup (table_of s (mc_table mc)) path, s1)"
    using table_remove_stack(1) [OF assms] by (simp add: s1_def prod_eq_iff)
  let ?r = "remove_mount_propagating mc path s"
  have "sys_ok (snd ?r) \<and> drops_only s1 (snd ?r) \<and> fst ?r = mt_lookup (table_of s (mc_table mc)) path"
  proof (cases "\<exists>root p e g. mt_lookup (table_of s (mc_table mc)) path = Some root
      \<and> proper_containing_mount_with_path (table_of s (mc_table mc)) path = Some (p, e) \<and> nd_propagation e = SharedWith g")
    case True
    then obtain root p e g where c: "mt_lookup (table_of s (mc_table mc)) path = Some root"
      "proper_containing_mount_with_path (table_of s (mc_table mc)) path = Some (p, e)" "nd_propagation e = SharedWith g"
      by blast
    define s2 where "s2 = snd (snapshot_members g s1)"
    define s3 where "s3 = mirror_remove (path_suffix p path) (filter (\<lambda>q. q \<noteq> (mc_table mc, p)) (fst (snapshot_members g s1))) s2"
    define s4 where "s4 = snd (snapshot_slaves g s3)"
    have s2: "sys_ok s2" "drops_only s1 s2"
      unfolding s2_def using snapshots_ok [OF s1(1)] by (simp_all add: drops_only_tables)
    have s3: "sys_ok s3" "drops_only s2 s3" unfolding s3_def using mirror_remove_ok [OF s2(1)] by simp_all
    have s4: "sys_ok s4" "drops_only s3 s4"
      unfolding s4_def using snapshots_ok [OF s3(1)] by (simp_all add: drops_only_tables)
    have "?r = (Some root, mirror_remove (path_suffix p path) (fst (snapshot_slaves g s3)) s4)"
      by (simp add: remove_mount_propagating_def rm c s2_def s3_def s4_def Let_def split_def)
    then show ?thesis
      using mirror_remove_ok [OF s4(1)] c(1) drops_only_trans [OF s2(2) drops_only_trans [OF s3(2) drops_only_trans [OF s4(2)]]]
      by simp
  next
    case False
    then have "?r = (mt_lookup (table_of s (mc_table mc)) path, s1)"
      unfolding remove_mount_propagating_def rm
      by (simp split: option.split mount_propagation.split) (metis option.distinct(1))
    then show ?thesis using s1(1) by (simp add: drops_only_tables)
  qed
  then show "sys_ok (snd ?r)" "drops_only s (snd ?r)" "fst ?r = mt_lookup (table_of s (mc_table mc)) path"
    "drops_only (snd (table_remove (mc_table mc) path s)) (snd ?r)"
    using drops_only_trans [OF s1(2)] by (simp_all add: s1_def)
qed

section \<open>Every operation keeps the invariant\<close>

lemma new_group_ok: "sys_ok s \<Longrightarrow> sys_ok (snd (new_group s))"
proof -
  assume s: "sys_ok s"
  have "table_of (s\<lparr>ms_next_group := n\<rparr>) i = table_of s i" for n i by (simp add: table_of_def)
  then show ?thesis using s by (auto simp: new_group_def sys_ok_def groups_ok_def)
qed

lemma fresh_propagation_ok: "sys_ok s \<Longrightarrow> sys_ok (snd (fresh_propagation flags s))"
  using new_group_ok [of s] by (simp add: fresh_propagation_def split_def)

lemma changed_propagation_ok: "sys_ok s \<Longrightarrow> sys_ok (snd (changed_propagation flags old s))"
  using new_group_ok [of s] by (simp add: changed_propagation_def split_def split: mount_propagation.splits)

lemma change_loop_ok: "sys_ok s \<Longrightarrow> sys_ok (change_loop i flags ps s)"
proof (induction ps arbitrary: s)
  case (Cons p ps)
  have "sys_ok (set_table i (snd (set_propagation i p prop (ms_world s1, table_of s1 i))) s1)" if "sys_ok s1" for "prop" s1
    by (rule sys_ok_set [OF that]) (use that in \<open>simp_all add: sys_ok_def set_propagation_tree_ok set_propagation_groups\<close>)
  then have "sys_ok (case snapshot_one (table_of s i) p of None \<Rightarrow> s | Some existing \<Rightarrow>
      (case changed_propagation flags (nd_propagation existing) s of
         (prop, s1) \<Rightarrow> set_table i (snd (set_propagation i p prop (ms_world s1, table_of s1 i))) s1))"
    using Cons.prems changed_propagation_ok [OF Cons.prems] by (auto simp: split_def split: option.split)
  then show ?case unfolding change_loop.simps by (rule Cons.IH)
qed simp

lemma remove_each_ok: "sys_ok s \<Longrightarrow> sys_ok (remove_each i s_norm sfxs s)"
  by (induction sfxs arbitrary: s) (simp_all add: table_remove_ok)

lemma collect_rel_path:
  assumes "tree_ok t" "canonical path" "x \<in> set (collect_subtree t path)"
  shows "rel_path (fst x)"
proof -
  have "x \<in> set (paths_below t path)"
    using collect_subtree_paths [OF assms(1,2)] assms(3) by (metis mset_eq_setD)
  then obtain k n where k: "(k, n) \<in> set (mt_by_path t)" "k = path \<or> is_descendant_path k path"
      "x = (if k = path then [] else path_suffix path k, mn_data n)"
    by (auto simp: paths_below_def)
  show ?thesis
  proof (cases "k = path")
    case True
    then show ?thesis using k(3) by (simp add: rel_path_def)
  next
    case False
    have c: "canonical k" using tree_okD(2) [OF assms(1)] k(1) by (force simp: keys_def)
    then have "below path k" using k(2) False is_descendant_below [OF assms(2)] by blast
    then show ?thesis using rel_path_suffix [OF assms(2) c] k(3) False by simp
  qed
qed

lemma install_moved_ok:
  "sys_ok s \<Longrightarrow> canonical t_norm \<Longrightarrow> \<forall>x\<in>set es. rel_path (fst x) \<Longrightarrow> sys_ok (install_moved io mc t_norm tgt es s)"
proof (induction io mc t_norm tgt es s rule: install_moved.induct)
  case (2 io mc t_norm tgt sfx entry es s)
  have "canonical (join_subtree t_norm sfx)" using join_canonicals(2) 2(3,4) by simp
  then show ?case unfolding install_moved.simps Let_def
    by (intro 2(1) [OF refl refl] table_install_ok) (use 2(2-4) in simp_all)
qed simp

lemma move_mount_ok:
  assumes "sys_ok s" "canonical s_norm" "canonical t_norm"
  shows "sys_ok (snd (move_mount io mc s_norm t_norm s))"
proof -
  have "tree_ok (table_of s (mc_table mc))" using assms(1) by (simp add: sys_ok_def)
  then have "\<forall>x\<in>set (sort_key (length \<circ> fst) (collect_subtree (table_of s (mc_table mc)) s_norm)). rel_path (fst x)"
    using collect_rel_path assms(2) by auto
  from install_moved_ok [OF remove_each_ok [OF assms(1)] assms(3) this] show ?thesis
    using assms(1) by (simp add: move_mount_def Let_def split: sum.split)
qed

lemma bind_each_ok:
  "sys_ok s \<Longrightarrow> canonical t_norm \<Longrightarrow> \<forall>x\<in>set es. rel_path (fst x) \<Longrightarrow> sys_ok (bind_each io groot mc t_norm es s)"
proof (induction es arbitrary: s)
  case (Cons x es)
  obtain sfx entry where x: "x = (sfx, entry)" by (cases x)
  have c: "canonical (join_subtree t_norm sfx)" using join_canonicals(2) Cons.prems(2,3) x by simp
  show ?case unfolding x bind_each.simps Let_def
    by (rule Cons.IH) (use Cons.prems install_propagating_ok(1) [OF Cons.prems(1) c] in \<open>simp_all split: sum.split\<close>)
qed simp

lemma bind_mount_ok:
  assumes "sys_ok s" "canonical s_norm" "canonical t_norm"
  shows "sys_ok (snd (bind_mount io groot mc s_norm t_norm flags s))"
proof -
  have b: "sys_ok (bind_each io groot mc t_norm (collect_subtree (table_of s' i) s_norm) s')" if "sys_ok s'" for s' i
    by (rule bind_each_ok [OF that assms(3)]) (use that collect_rel_path [OF _ assms(2), of "table_of s' i"] in \<open>simp add: sys_ok_def\<close>)
  have i: "sys_ok (snd (install_mount_propagating io groot mc t_norm target root prop source fstype fl s'))"
    if "sys_ok s'" for target root "prop" source fstype fl s'
    by (rule install_propagating_ok(1) [OF that assms(3)])
  show ?thesis unfolding bind_mount_def Let_def using assms(1) i b fresh_propagation_ok [OF assms(1), of flags]
    by (simp add: split_def split: sum.split)
qed

lemma install_new_ok:
  "sys_ok s \<Longrightarrow> canonical path \<Longrightarrow> sys_ok (install_new io groot mc path target new_root flags source fstype s)"
  unfolding install_new_def split_def by (intro install_propagating_ok(1) fresh_propagation_ok)

lemma umount_each_ok: "sys_ok s \<Longrightarrow> sys_ok (umount_each mc normalized sfxs s) \<and> drops_only s (umount_each mc normalized sfxs s)"
proof (induction sfxs arbitrary: s)
  case Nil
  then show ?case by (simp add: drops_only_tables)
next
  case (Cons sfx sfxs)
  note r = remove_propagating_ok [OF Cons.prems, of mc "join_subtree normalized sfx"]
  show ?case using Cons.IH [OF r(1)] drops_only_trans [OF r(2)] by simp
qed

lemma sys_ok_vda [simp]: "sys_ok (s\<lparr>ms_vda_mounted := b\<rparr>) = sys_ok s" "table_of (s\<lparr>ms_vda_mounted := b\<rparr>) i = table_of s i"
  by (simp_all add: sys_ok_def table_of_def)

lemma do_umount_ok:
  assumes "sys_ok s"
  shows "sys_ok (snd (do_umount io mc normalized flags s))" "drops_only s (snd (do_umount io mc normalized flags s))"
proof -
  note r = remove_propagating_ok [OF assms, of mc normalized]
  have refl: "drops_only s s" by (simp add: drops_only_tables)
  have v: "drops_only s (s'\<lparr>ms_vda_mounted := False\<rparr>)" if "drops_only s s'" for s' using that by (simp add: drops_only_def)
  note e = umount_each_ok [OF assms, of mc normalized]
  show "sys_ok (snd (do_umount io mc normalized flags s))"
    unfolding do_umount_def Let_def using assms r(1) e by (auto simp: split_def split: sum.split option.split prod.split)
  show "drops_only s (snd (do_umount io mc normalized flags s))"
    unfolding do_umount_def Let_def using refl r(2) v e by (auto simp: split_def split: sum.split option.split prod.split)
qed

text \<open>A detached disk stays claimed: only the plain path releases the device, whatever other mounts
  of it are left.\<close>

lemma vda_kept [simp]:
  "ms_vda_mounted (set_table i x s) = ms_vda_mounted s"
  "ms_vda_mounted (upd_group g f s) = ms_vda_mounted s"
  "ms_vda_mounted (snd (table_remove i path s)) = ms_vda_mounted s"
  "ms_vda_mounted (snd (snapshot_members g s)) = ms_vda_mounted s"
  "ms_vda_mounted (snd (snapshot_slaves g s)) = ms_vda_mounted s"
  by (simp_all add: set_table_def upd_group_def table_remove_def snapshot_members_def snapshot_slaves_def split_def Let_def)

lemma vda_mirror_remove [simp]: "ms_vda_mounted (mirror_remove sfx ps s) = ms_vda_mounted s"
  by (induction sfx ps s rule: mirror_remove.induct) simp_all

lemma vda_remove_propagating [simp]: "ms_vda_mounted (snd (remove_mount_propagating mc path s)) = ms_vda_mounted s"
proof -
  obtain r s1 where r: "table_remove (mc_table mc) path s = (r, s1)" by fastforce
  then have "ms_vda_mounted s1 = ms_vda_mounted s" using vda_kept(3) [of "mc_table mc" path s] by simp
  then show ?thesis by (simp add: remove_mount_propagating_def r Let_def split_def split: option.split mount_propagation.split)
qed

lemma vda_umount_each [simp]: "ms_vda_mounted (umount_each mc path sfxs s) = ms_vda_mounted s"
  by (induction mc path sfxs s rule: umount_each.induct) simp_all

lemma detach_keeps_disk_claim:
  assumes "flags AND MNT_DETACH \<noteq> 0"
  shows "ms_vda_mounted (snd (do_umount io mc path flags s)) = ms_vda_mounted s"
  unfolding do_umount_def Let_def using assms by (simp split: sum.split option.split)

end
