(* ===== verification/Mount_Space.thy ===== *)
theory Mount_Space
  imports Mount_Ops
begin

text \<open>
  Mount namespaces (\<open>kernel/src/vfs/mod.rs\<close>): copying the table for a new namespace, changing the root
  with \<open>pivot_root\<close>, and the system of all mount operations as a step relation. The tables are rebuilt
  by linking the mounts one by one, so the lemmas follow such a rebuilding: the tree stays in step
  with the paths, and the stacks are those of the list of mounts.
\<close>

section \<open>All mounts of a table\<close>

definition all_nodes :: "'i mount_table \<Rightarrow> string list" where
  "all_nodes t = concat (map (\<lambda>r. r # collect_descendants t (tree_depth t) r) (mt_roots t))"

definition data_at :: "'i mount_table \<Rightarrow> string \<Rightarrow> 'i node_data" where
  "data_at t p = mn_data (the (node_at t p))"

definition shadowed_at :: "'i mount_table \<Rightarrow> string \<Rightarrow> 'i node_data list" where
  "shadowed_at t p = mn_shadowed (the (node_at t p))"

fun build_child :: "nat \<Rightarrow> (string \<times> 'i node_data) list \<Rightarrow> mount_world \<times> 'i mount_table \<Rightarrow> mount_world \<times> 'i mount_table" where
  "build_child child [] x = x"
| "build_child child ((path, d) # es) x =
    (case x of (w, t) \<Rightarrow>
      let w1 = join_group child path (nd_propagation d) w;
          (tag, w2) = new_with_flags (mw_flags w1 (nd_in_use d)) w1
       in build_child child es (w2, link_into_tree path (d\<lparr>nd_in_use := tag\<rparr>) [] t))"

text \<open>\<open>MountTable::snapshot\<close>: the table \<open>child\<close> of a new namespace.\<close>

definition snapshot_table :: "nat \<Rightarrow> nat \<Rightarrow> 'i mnt_sys \<Rightarrow> 'i mnt_sys" where
  "snapshot_table i child s =
    (let t = table_of s i
      in set_table child (build_child child (map (\<lambda>p. (p, data_at t p)) (all_nodes t)) (ms_world s, empty_table)) s)"

section \<open>Changing the root\<close>

definition strip_prefix_path :: "string \<Rightarrow> string \<Rightarrow> string" where
  "strip_prefix_path path pfx =
    (if path = pfx then ''/''
     else if take (length pfx) path = pfx \<and> starts_with_slash (drop (length pfx) path) then drop (length pfx) path
     else path)"

definition rebase_into :: "string \<Rightarrow> string \<Rightarrow> string" where
  "rebase_into base path = (if path = ''/'' then base else if base = ''/'' then path else base @ path)"

definition under_new :: "string \<Rightarrow> string \<Rightarrow> bool" where
  "under_new new_root p \<longleftrightarrow>
    p = new_root \<or> take (length new_root) p = new_root \<and> length new_root < length p \<and> p ! length new_root = slash"

fun keep_nodes ::
  "nat \<Rightarrow> 'i mount_table \<Rightarrow> (string \<times> string) list \<Rightarrow> mount_world \<times> 'i mount_table \<Rightarrow> mount_world \<times> 'i mount_table" where
  "keep_nodes self old [] x = x"
| "keep_nodes self old ((p, path) # ks) x =
    (case x of (w, t) \<Rightarrow>
      keep_nodes self old ks
        (join_group self path (nd_propagation (data_at old p)) w,
         link_into_tree path (data_at old p) (shadowed_at old p) t))"

fun stack_nodes ::
  "nat \<Rightarrow> (string \<times> 'i node_data) list \<Rightarrow> mount_world \<times> 'i mount_table \<Rightarrow> mount_world \<times> 'i mount_table" where
  "stack_nodes self [] x = x"
| "stack_nodes self ((path, d) # es) x =
    (case x of (w, t) \<Rightarrow>
      let w1 = join_group self path (nd_propagation d) w in
      case node_at t path of
        Some n \<Rightarrow>
          stack_nodes self es (w1, upd_node path (\<lambda>n. n\<lparr>mn_data := d, mn_shadowed := mn_shadowed n @ [mn_data n]\<rparr>) t)
      | None \<Rightarrow>
          let (tag, w2) = new_with_flags (mw_flags w1 (nd_in_use d)) w1
           in stack_nodes self es (w2, link_into_tree path (d\<lparr>nd_in_use := tag\<rparr>) [] t))"

definition pivot_root ::
  "nat \<Rightarrow> string \<Rightarrow> string \<Rightarrow> mount_world \<times> 'i mount_table \<Rightarrow> errno + mount_world \<times> 'i mount_table" where
  "pivot_root self new_root put_old x =
    (case x of (w, t) \<Rightarrow>
      if new_root = ''/'' then Inl Errno_INVAL
      else if \<not> under_new new_root put_old then Inl Errno_INVAL
      else
        let put_old_rebased = strip_prefix_path put_old new_root;
            ordered = all_nodes t;
            same_dir = (put_old = new_root);
            w1 = fold (\<lambda>p. leave_group self p (nd_propagation (data_at t p))) ordered w;
            keep = map (\<lambda>p. (p, strip_prefix_path p new_root)) (filter (under_new new_root) ordered);
            stack_old =
              (if same_dir then map (\<lambda>p. (''/'', data_at t p)) (filter (\<lambda>p. p = ''/'') ordered)
               else map (\<lambda>p. (rebase_into put_old_rebased p, data_at t p)) (filter (\<lambda>p. \<not> under_new new_root p) ordered))
         in Inr (stack_nodes self (sort_key (length \<circ> fst) stack_old)
                  (keep_nodes self t (sort_key (length \<circ> snd) keep) (w1, empty_table))))"

section \<open>Listing the mounts\<close>

lemma tree_root_towards:
  assumes ok: "tree_ok t"
  shows "k \<in> keys t \<Longrightarrow> \<exists>r\<in>set (mt_roots t). r = k \<or> below r k"
proof (induction "length k" arbitrary: k rule: less_induct)
  case less
  obtain x where x: "parent_of t k = Some x" using less.prems parent_of_keys [of t k] by auto
  show ?case
  proof (cases x)
    case None
    then show ?thesis using x tree_okD(5) [OF ok, of None] by (auto simp: siblings_simps)
  next
    case (Some q)
    then have q: "q \<in> keys t" "below q k" using tree_okD(3) [OF ok x] by (auto simp: parent_ok_def)
    have "length q < length k" using below_length [OF q(2)] tree_okD(2) [OF ok] q(1) less.prems by blast
    from less.hyps [OF this q(1)] show ?thesis using below_trans [OF _ q(2)] q(2) by blast
  qed
qed

lemma tree_roots_apart:
  assumes ok: "tree_ok t" and "r \<in> set (mt_roots t)" "d \<in> set (mt_roots t)"
    and "k = r \<or> below r k" "k = d \<or> below d k"
  shows "r = d"
proof (rule ccontr)
  assume "r \<noteq> d"
  have rt: "x \<in> keys t \<and> (\<forall>k\<in>keys t. \<not> below k x)" if "x \<in> set (mt_roots t)" for x
  proof -
    have "parent_of t x = Some None" using that tree_okD(5) [OF ok, of None] by (simp add: siblings_simps)
    then show ?thesis using tree_okD(3) [OF ok, of x None] parent_of_keys [of t x] by (simp add: parent_ok_def)
  qed
  have "below r d \<or> below d r"
    using assms(4,5) \<open>r \<noteq> d\<close> below_linear [of r k d] tree_okD(2) [OF ok] rt assms(2,3) by auto
  then show False using rt assms(2,3) by blast
qed

lemma all_nodes_keys:
  assumes ok: "tree_ok t"
  shows "distinct (all_nodes t)" "set (all_nodes t) = keys t"
proof -
  have rk: "r \<in> keys t" if "r \<in> set (mt_roots t)" for r
  proof -
    have "parent_of t r = Some None" using that tree_okD(5) [OF ok, of None] by (simp add: siblings_simps)
    then show ?thesis using parent_of_keys [of t r] by simp
  qed
  have sub: "distinct (r # collect_descendants t (tree_depth t) r)"
    "set (r # collect_descendants t (tree_depth t) r) = {k \<in> keys t. k = r \<or> below r k}" if "r \<in> set (mt_roots t)" for r
  proof -
    have "\<forall>k\<in>keys t. length k \<le> length r + tree_depth t" using tree_depth_bound [of _ t] by (simp add: trans_le_add2)
    then have d: "distinct (collect_descendants t (tree_depth t) r)"
      "set (collect_descendants t (tree_depth t) r) = {k \<in> keys t. below r k}"
      using collect_descendants_all [OF ok rk [OF that]] by simp_all
    show "distinct (r # collect_descendants t (tree_depth t) r)" using d by simp
    show "set (r # collect_descendants t (tree_depth t) r) = {k \<in> keys t. k = r \<or> below r k}"
      using d(2) rk [OF that] by auto
  qed
  have apart: "c = d" if "c \<in> set (mt_roots t)" "d \<in> set (mt_roots t)"
    "k \<in> set (c # collect_descendants t (tree_depth t) c)" "k \<in> set (d # collect_descendants t (tree_depth t) d)" for c d k
    using tree_roots_apart [OF ok that(1,2), of k] that(3,4) unfolding sub(2) [OF that(1)] sub(2) [OF that(2)] by simp
  have "distinct (mt_roots t)" using tree_okD(4) [OF ok, of None] by (simp add: siblings_simps)
  then show "distinct (all_nodes t)"
    unfolding all_nodes_def by (rule distinct_concat_map [OF _ sub(1) apart])
  have "set (all_nodes t) = (\<Union>r\<in>set (mt_roots t). {k \<in> keys t. k = r \<or> below r k})"
    unfolding all_nodes_def set_concat set_map image_image using sub(2) by simp
  also have "\<dots> = keys t" using tree_root_towards [OF ok] by blast
  finally show "set (all_nodes t) = keys t" .
qed

section \<open>Rebuilding a table\<close>

lemma link_stack:
  assumes "tree_ok t" "path \<notin> keys t" "canonical path"
  shows "tree_ok (link_into_tree path d sh t)" "keys (link_into_tree path d sh t) = insert path (keys t)"
    "mt_stack (link_into_tree path d sh t) = (mt_stack t)(path := d # rev sh)"
proof -
  show "tree_ok (link_into_tree path d sh t)" by (rule link_tree_ok [OF assms])
  show "keys (link_into_tree path d sh t) = insert path (keys t)" by (rule link_effect(2) [OF assms])
  show "mt_stack (link_into_tree path d sh t) = (mt_stack t)(path := d # rev sh)"
  proof
    fix q
    show "mt_stack (link_into_tree path d sh t) q = ((mt_stack t)(path := d # rev sh)) q"
      using link_effect(5) [OF assms, of d sh] mt_stack_cong [OF link_effect(6) [OF assms, of q d sh]]
      by (cases "q = path") (simp_all add: mt_stack_def)
  qed
qed

lemma keys_empty [simp]: "keys empty_table = {}"
  by (simp add: keys_def empty_table_def)

lemma mt_stack_keys: "mt_stack t p = [] \<longleftrightarrow> p \<notin> keys t"
  using node_at_keys [of t p] by (auto simp: mt_stack_def split: option.splits)

lemma mt_stack_at: "p \<in> keys t \<Longrightarrow> mt_stack t p = data_at t p # rev (shadowed_at t p)"
  using node_at_keys [of t p] by (auto simp: mt_stack_def data_at_def shadowed_at_def split: option.splits)

text \<open>Two mounts are the same up to their tag.\<close>

definition same_mount :: "'i node_data \<Rightarrow> 'i node_data \<Rightarrow> bool" where
  "same_mount d e \<longleftrightarrow> d\<lparr>nd_in_use := nd_in_use e\<rparr> = e"

lemma same_mount_simps [simp]: "same_mount d d" "same_mount (d\<lparr>nd_in_use := tag\<rparr>) d" "same_mount d (d\<lparr>nd_in_use := tag\<rparr>)"
  by (simp_all add: same_mount_def)

lemma same_mount_root:
  assumes "same_mount d e"
  shows "nd_root d = nd_root e"
  using arg_cong [OF assms [unfolded same_mount_def], of nd_root] by simp

lemma build_child_ok:
  "tree_ok t \<Longrightarrow> groups_ok w \<Longrightarrow> distinct (map fst es) \<Longrightarrow> fst ` set es \<inter> keys t = {} \<Longrightarrow> \<forall>x\<in>set es. canonical (fst x) \<Longrightarrow>
    tree_ok (snd (build_child child es (w, t))) \<and> groups_ok (fst (build_child child es (w, t)))
    \<and> (\<forall>p d. (p, d) \<in> set es \<longrightarrow> (\<exists>d'. same_mount d' d \<and> mt_stack (snd (build_child child es (w, t))) p = [d']))
    \<and> (\<forall>p. p \<notin> fst ` set es \<longrightarrow> mt_stack (snd (build_child child es (w, t))) p = mt_stack t p)"
proof (induction es arbitrary: w t)
  case (Cons x es)
  obtain path d where x: "x = (path, d)" by (cases x)
  define w1 where "w1 = join_group child path (nd_propagation d) w"
  define w2 where "w2 = snd (new_with_flags (mw_flags w1 (nd_in_use d)) w1)"
  define d' where "d' = d\<lparr>nd_in_use := fst (new_with_flags (mw_flags w1 (nd_in_use d)) w1)\<rparr>"
  let ?t = "link_into_tree path d' [] t"
  have c: "canonical path" "path \<notin> keys t" using Cons.prems(4,5) x by auto
  note l = link_stack [OF Cons.prems(1) c(2,1), of d' "[]"]
  have g: "groups_ok w2" unfolding w2_def w1_def by (simp add: groups_ok_join Cons.prems(2) c(1))
  have ih: "tree_ok (snd (build_child child es (w2, ?t))) \<and> groups_ok (fst (build_child child es (w2, ?t)))
    \<and> (\<forall>p d. (p, d) \<in> set es \<longrightarrow> (\<exists>d'. same_mount d' d \<and> mt_stack (snd (build_child child es (w2, ?t))) p = [d']))
    \<and> (\<forall>p. p \<notin> fst ` set es \<longrightarrow> mt_stack (snd (build_child child es (w2, ?t))) p = mt_stack ?t p)"
    by (rule Cons.IH [OF l(1) g]) (use Cons.prems(3-5) x l(2) in auto)
  have e: "build_child child (x # es) (w, t) = build_child child es (w2, ?t)"
    by (simp add: x w1_def w2_def d'_def Let_def split_def)
  have n: "path \<notin> fst ` set es" using Cons.prems(3) x by (simp add: image_iff)
  have s: "same_mount d' d" by (simp add: d'_def)
  have top: "mt_stack (snd (build_child child es (w2, ?t))) path = [d']" using ih n l(3) by simp
  have "\<exists>d''. same_mount d'' f \<and> mt_stack (snd (build_child child es (w2, ?t))) p = [d'']" if "(p, f) \<in> set (x # es)" for p f
    using that ih s top x by auto
  moreover have "mt_stack (snd (build_child child es (w2, ?t))) p = mt_stack t p" if "p \<notin> fst ` set (x # es)" for p
    using that ih l(3) x by simp
  ultimately show ?case unfolding e using ih by blast
qed simp

lemma snapshot_ok:
  assumes "sys_ok s"
  shows "sys_ok (snapshot_table i child s)"
    "\<exists>d. (case mt_stack (table_of s i) p of
        [] \<Rightarrow> mt_stack (table_of (snapshot_table i child s) child) p = []
      | e # _ \<Rightarrow> same_mount d e \<and> mt_stack (table_of (snapshot_table i child s) child) p = [d])"
proof -
  let ?t = "table_of s i"
  let ?es = "map (\<lambda>p. (p, data_at ?t p)) (all_nodes ?t)"
  have ok: "tree_ok ?t" "groups_ok (ms_world s)" using assms by (simp_all add: sys_ok_def)
  note all = all_nodes_keys [OF ok(1)]
  have d: "distinct (map fst ?es)" using all(1) by (simp add: o_def)
  have c: "\<forall>x\<in>set ?es. canonical (fst x)" using tree_okD(2) [OF ok(1)] all(2) by auto
  have b: "tree_ok (snd (build_child child ?es (ms_world s, empty_table))) \<and> groups_ok (fst (build_child child ?es (ms_world s, empty_table)))
    \<and> (\<forall>p d. (p, d) \<in> set ?es \<longrightarrow> (\<exists>d'. same_mount d' d \<and> mt_stack (snd (build_child child ?es (ms_world s, empty_table))) p = [d']))
    \<and> (\<forall>p. p \<notin> fst ` set ?es \<longrightarrow> mt_stack (snd (build_child child ?es (ms_world s, empty_table))) p = mt_stack empty_table p)"
    by (rule build_child_ok [OF empty_tree_ok ok(2) d _ c]) simp
  then show "sys_ok (snapshot_table i child s)" unfolding snapshot_table_def Let_def by (intro sys_ok_set [OF assms]) simp_all
  have tb: "table_of (snapshot_table i child s) child = snd (build_child child ?es (ms_world s, empty_table))"
    by (simp add: snapshot_table_def Let_def)
  show "\<exists>d. (case mt_stack (table_of s i) p of
        [] \<Rightarrow> mt_stack (table_of (snapshot_table i child s) child) p = []
      | e # _ \<Rightarrow> same_mount d e \<and> mt_stack (table_of (snapshot_table i child s) child) p = [d])"
  proof (cases "p \<in> keys ?t")
    case True
    then have "(p, data_at ?t p) \<in> set ?es" using all(2) by auto
    then show ?thesis using b mt_stack_at [OF True] unfolding tb by auto
  next
    case False
    then have "p \<notin> fst ` set ?es" using all(2) by auto
    moreover have "mt_stack empty_table p = []" by (simp add: mt_stack_keys)
    moreover have "mt_stack ?t p = []" using False by (simp add: mt_stack_keys)
    ultimately show ?thesis using b unfolding tb by simp
  qed
qed

section \<open>Paths of a new root\<close>

lemma under_new_below:
  assumes "canonical nr" "canonical p" "nr \<noteq> ''/''"
  shows "under_new nr p \<longleftrightarrow> p = nr \<or> below nr p"
  using is_descendant_below [OF assms(1,2)] assms(3) by (auto simp: under_new_def is_descendant_path_def)

lemma strip_prefix_print:
  assumes "canonical nr" "nr \<noteq> ''/''" "canonical p" "under_new nr p"
  obtains ps where "\<forall>q\<in>set ps. clean q" "pieces p = pieces nr @ ps" "strip_prefix_path p nr = print_path ps"
proof (cases "p = nr")
  case True
  then show thesis using that [of "[]"] by (simp add: strip_prefix_path_def print_path_def)
next
  case False
  then have "below nr p" using under_new_below assms by blast
  from below_split [OF assms(1,3) this] obtain ps where
    ps: "ps \<noteq> []" "\<forall>q\<in>set ps. clean q" "pieces p = pieces nr @ ps" "path_suffix nr p = print_path ps" by blast
  have d: "drop (length nr) p = print_path ps" using ps(4) assms(2) by (simp add: path_suffix_def)
  have "take (length nr) p = nr" using assms(4) False by (auto simp: under_new_def)
  then have "strip_prefix_path p nr = print_path ps" using False d by (simp add: strip_prefix_path_def)
  then show thesis using that ps by blast
qed

lemma rebase_print:
  assumes "canonical base" "canonical p"
  shows "rebase_into base p = print_path (pieces base @ pieces p)"
proof -
  have p: "p = ''/'' \<longleftrightarrow> pieces p = []" and b: "base = ''/'' \<longleftrightarrow> pieces base = []"
    using canonical_pieces(1) assms pieces_root(1) by (metis print_path_def)+
  have "print_path (pieces base @ pieces p) = print_path (pieces base) @ print_path (pieces p)"
    if "pieces base \<noteq> []" "pieces p \<noteq> []" using that by (simp add: print_path_def)
  then show ?thesis using canonical_pieces(1) [OF assms(1)] canonical_pieces(1) [OF assms(2)] p b
    by (auto simp: rebase_into_def)
qed

lemma rebase_inj:
  assumes "canonical base" "canonical p" "canonical q"
  shows "canonical (rebase_into base p)" "rebase_into base p = rebase_into base q \<Longrightarrow> p = q"
proof -
  have cl: "\<forall>x\<in>set (pieces base @ pieces p). clean x" "\<forall>x\<in>set (pieces base @ pieces q). clean x"
    using canonical_pieces(2) assms by auto
  then show "canonical (rebase_into base p)" using rebase_print [OF assms(1,2)] by simp
  assume "rebase_into base p = rebase_into base q"
  then have "pieces base @ pieces p = pieces base @ pieces q"
    using rebase_print [OF assms(1,2)] rebase_print [OF assms(1,3)] pieces_print_clean [OF cl(1)] pieces_print_clean [OF cl(2)]
    by metis
  then show "p = q" using canonical_pieces(1) assms(2,3) by (metis same_append_eq)
qed

lemma strip_inj:
  assumes "canonical nr" "nr \<noteq> ''/''" "canonical p" "under_new nr p"
  shows "canonical (strip_prefix_path p nr)" "rebase_into nr (strip_prefix_path p nr) = p"
proof -
  obtain ps where ps: "\<forall>q\<in>set ps. clean q" "pieces p = pieces nr @ ps" "strip_prefix_path p nr = print_path ps"
    using strip_prefix_print [OF assms] by blast
  then show c: "canonical (strip_prefix_path p nr)" by simp
  show "rebase_into nr (strip_prefix_path p nr) = p"
    using rebase_print [OF assms(1) c] ps pieces_print_clean [OF ps(1)] canonical_pieces(1) [OF assms(3)] by simp
qed

section \<open>The rebuilt table\<close>

lemma keep_nodes_ok:
  "tree_ok t \<Longrightarrow> groups_ok w \<Longrightarrow> distinct (map snd ks) \<Longrightarrow> snd ` set ks \<inter> keys t = {}
    \<Longrightarrow> \<forall>x\<in>set ks. canonical (snd x) \<and> fst x \<in> keys old \<Longrightarrow>
    tree_ok (snd (keep_nodes self old ks (w, t))) \<and> groups_ok (fst (keep_nodes self old ks (w, t)))
    \<and> (\<forall>p path. (p, path) \<in> set ks \<longrightarrow> mt_stack (snd (keep_nodes self old ks (w, t))) path = mt_stack old p)
    \<and> (\<forall>path. path \<notin> snd ` set ks \<longrightarrow> mt_stack (snd (keep_nodes self old ks (w, t))) path = mt_stack t path)"
proof (induction ks arbitrary: w t)
  case (Cons x ks)
  obtain p path where x: "x = (p, path)" by (cases x)
  define w1 where "w1 = join_group self path (nd_propagation (data_at old p)) w"
  let ?t = "link_into_tree path (data_at old p) (shadowed_at old p) t"
  have c: "canonical path" "path \<notin> keys t" "p \<in> keys old" using Cons.prems(4,5) x by auto
  note l = link_stack [OF Cons.prems(1) c(2,1), of "data_at old p" "shadowed_at old p", folded mt_stack_at [OF c(3)]]
  have g: "groups_ok w1" unfolding w1_def by (rule groups_ok_join [OF Cons.prems(2) c(1)])
  define r where "r = keep_nodes self old ks (w1, ?t)"
  have ih: "tree_ok (snd r) \<and> groups_ok (fst r)
    \<and> (\<forall>p path. (p, path) \<in> set ks \<longrightarrow> mt_stack (snd r) path = mt_stack old p)
    \<and> (\<forall>path. path \<notin> snd ` set ks \<longrightarrow> mt_stack (snd r) path = mt_stack ?t path)"
    unfolding r_def by (rule Cons.IH [OF l(1) g]) (use Cons.prems(3-5) x l(2) in auto)
  have n: "path \<notin> snd ` set ks" using Cons.prems(3) x by (simp add: image_iff)
  have "mt_stack (snd r) path = mt_stack old p" using ih n l(3) by simp
  then have "mt_stack (snd r) path' = mt_stack old p'" if "(p', path') \<in> set (x # ks)" for p' path'
    using that ih x by auto
  moreover have "mt_stack (snd r) q = mt_stack t q" if "q \<notin> snd ` set (x # ks)" for q
    using that ih l(3) x by simp
  moreover have "keep_nodes self old (x # ks) (w, t) = r" by (simp add: x w1_def r_def)
  ultimately show ?case using ih by blast
qed simp

lemma stack_nodes_ok:
  "tree_ok t \<Longrightarrow> groups_ok w \<Longrightarrow> distinct (map fst es) \<Longrightarrow> \<forall>x\<in>set es. canonical (fst x) \<Longrightarrow>
    tree_ok (snd (stack_nodes self es (w, t))) \<and> groups_ok (fst (stack_nodes self es (w, t)))
    \<and> (\<forall>p d. (p, d) \<in> set es \<longrightarrow> (\<exists>d'. same_mount d' d \<and> mt_stack (snd (stack_nodes self es (w, t))) p = d' # mt_stack t p))
    \<and> (\<forall>p. p \<notin> fst ` set es \<longrightarrow> mt_stack (snd (stack_nodes self es (w, t))) p = mt_stack t p)"
proof (induction es arbitrary: w t)
  case (Cons x es)
  obtain path d where x: "x = (path, d)" by (cases x)
  have c: "canonical path" using Cons.prems(4) x by simp
  have n: "path \<notin> fst ` set es" using Cons.prems(3) x by (simp add: image_iff)
  have "\<exists>w1 t1 d'. stack_nodes self (x # es) (w, t) = stack_nodes self es (w1, t1) \<and> tree_ok t1 \<and> groups_ok w1
      \<and> same_mount d' d \<and> mt_stack t1 = (mt_stack t)(path := d' # mt_stack t path)"
  proof (cases "node_at t path")
    case None
    then have nk: "path \<notin> keys t" using node_at_keys by blast
    define w1 where "w1 = join_group self path (nd_propagation d) w"
    obtain tag w2 where tw: "new_with_flags (mw_flags w1 (nd_in_use d)) w1 = (tag, w2)" by fastforce
    have "groups_ok w2" using groups_ok_join [OF Cons.prems(2) c] groups_ok_flags(2) [of "mw_flags w1 (nd_in_use d)" w1] tw
      unfolding w1_def by (metis snd_conv)
    moreover have "mt_stack t path = []" using nk by (simp add: mt_stack_keys)
    ultimately show ?thesis
      using link_stack [OF Cons.prems(1) nk c, of "d\<lparr>nd_in_use := tag\<rparr>" "[]"] None tw
      by (intro exI [of _ w2] exI [of _ "link_into_tree path (d\<lparr>nd_in_use := tag\<rparr>) [] t"] exI [of _ "d\<lparr>nd_in_use := tag\<rparr>"])
        (simp add: x w1_def [symmetric] Let_def)
  next
    case (Some m)
    let ?f = "\<lambda>n. n\<lparr>mn_data := d, mn_shadowed := mn_shadowed n @ [mn_data n]\<rparr>"
    have wf: "wf_map t" using tree_okD(1) [OF Cons.prems(1)] by (simp add: wf_map_def)
    have "mt_stack (upd_node path ?f t) = (mt_stack t)(path := d # mt_stack t path)"
      using wf Some by (auto simp: fun_eq_iff mt_stack_def)
    then show ?thesis using Some upd_node_tree_ok [OF Cons.prems(1), of ?f path] groups_ok_join [OF Cons.prems(2) c]
      by (intro exI [of _ "join_group self path (nd_propagation d) w"] exI [of _ "upd_node path ?f t"] exI [of _ d])
        (simp add: x Let_def)
  qed
  then obtain w1 t1 d' where st: "stack_nodes self (x # es) (w, t) = stack_nodes self es (w1, t1)" "tree_ok t1" "groups_ok w1"
      "same_mount d' d" "mt_stack t1 = (mt_stack t)(path := d' # mt_stack t path)" by blast
  define r where "r = stack_nodes self es (w1, t1)"
  have ih: "tree_ok (snd r) \<and> groups_ok (fst r)
    \<and> (\<forall>p d. (p, d) \<in> set es \<longrightarrow> (\<exists>d'. same_mount d' d \<and> mt_stack (snd r) p = d' # mt_stack t1 p))
    \<and> (\<forall>p. p \<notin> fst ` set es \<longrightarrow> mt_stack (snd r) p = mt_stack t1 p)"
    unfolding r_def by (rule Cons.IH [OF st(2,3)]) (use Cons.prems(3,4) in auto)
  have o: "mt_stack t1 p = mt_stack t p" if "p \<in> fst ` set es" for p using that n st(5) by auto
  have top: "mt_stack (snd r) path = d' # mt_stack t path" using ih n st(5) by simp
  have "\<exists>d''. same_mount d'' f \<and> mt_stack (snd r) p = d'' # mt_stack t p" if "(p, f) \<in> set (x # es)" for p f
  proof (cases "(p, f) = x")
    case True
    then show ?thesis using top st(4) x by auto
  next
    case False
    then have pf: "(p, f) \<in> set es" using that by simp
    then have "p \<in> fst ` set es" by force
    from o [OF this] show ?thesis using ih pf by metis
  qed
  moreover have "mt_stack (snd r) p = mt_stack t p" if "p \<notin> fst ` set (x # es)" for p
    using that ih st(5) x by simp
  ultimately show ?case unfolding st(1) r_def [symmetric] using ih by blast
qed simp

lemma pivot_root_returns:
  "new_root \<noteq> ''/'' \<Longrightarrow> under_new new_root put_old \<Longrightarrow> \<exists>x. pivot_root self new_root put_old (w, t) = Inr x"
  by (simp add: pivot_root_def Let_def del: split_paired_Ex)

lemma leave_all_groups: "groups_ok w \<Longrightarrow> groups_ok (fold (\<lambda>p. leave_group self p (f p)) ps w)"
  by (induction ps arbitrary: w) (simp_all add: groups_ok_leave)

lemma pivot_keep_ok:
  fixes t :: "'i mount_table" and self :: nat
  assumes ok: "tree_ok t" "groups_ok w" and nr: "canonical nr" "nr \<noteq> ''/''"
  defines "ks \<equiv> sort_key (length \<circ> snd) (map (\<lambda>p. (p, strip_prefix_path p nr)) (filter (under_new nr) (all_nodes t)))"
  defines "x \<equiv> keep_nodes self t ks (w, empty_table)"
  shows "tree_ok (snd x)" "groups_ok (fst x)"
    "\<And>q. q \<notin> (\<lambda>p. strip_prefix_path p nr) ` {p \<in> keys t. under_new nr p} \<Longrightarrow> mt_stack (snd x) q = []"
    "p \<in> keys t \<Longrightarrow> under_new nr p \<Longrightarrow> mt_stack (snd x) (strip_prefix_path p nr) = mt_stack t p"
proof -
  note all = all_nodes_keys [OF ok(1)]
  have set_ks: "set ks = (\<lambda>p. (p, strip_prefix_path p nr)) ` {p \<in> keys t. under_new nr p}"
    by (simp add: ks_def all(2))
  have can: "canonical p" if "p \<in> keys t" for p using tree_okD(2) [OF ok(1) that] .
  have inj: "inj_on (\<lambda>p. strip_prefix_path p nr) (set (filter (under_new nr) (all_nodes t)))"
    by (rule inj_onI) (use strip_inj(2) [OF nr] can all(2) in \<open>metis (mono_tags, lifting) filter_is_subset in_mono mem_Collect_eq set_filter\<close>)
  have "distinct (map snd (map (\<lambda>p. (p, strip_prefix_path p nr)) (filter (under_new nr) (all_nodes t))))"
    using inj all(1) by (simp add: o_def distinct_map)
  then have "distinct (map snd ks)" unfolding ks_def
    by (metis (no_types, lifting) mset_map mset_sort mset_eq_imp_distinct_iff)
  moreover have "\<forall>x\<in>set ks. canonical (snd x) \<and> fst x \<in> keys t"
    using strip_inj(1) [OF nr can] by (auto simp: set_ks)
  ultimately have r: "tree_ok (snd x) \<and> groups_ok (fst x)
      \<and> (\<forall>p path. (p, path) \<in> set ks \<longrightarrow> mt_stack (snd x) path = mt_stack t p)
      \<and> (\<forall>path. path \<notin> snd ` set ks \<longrightarrow> mt_stack (snd x) path = mt_stack empty_table path)"
    unfolding x_def by (intro keep_nodes_ok [OF empty_tree_ok ok(2)]) simp_all
  then show "tree_ok (snd x)" "groups_ok (fst x)" by simp_all
  show "mt_stack (snd x) q = []" if "q \<notin> (\<lambda>p. strip_prefix_path p nr) ` {p \<in> keys t. under_new nr p}" for q
  proof -
    have "q \<notin> snd ` set ks" using that by (simp add: set_ks image_image)
    moreover have "mt_stack empty_table q = []" by (simp add: mt_stack_def node_at_def empty_table_def)
    ultimately show ?thesis using r by metis
  qed
  assume "p \<in> keys t" "under_new nr p"
  then show "mt_stack (snd x) (strip_prefix_path p nr) = mt_stack t p" using r by (auto simp: set_ks)
qed

text \<open>The tables before and after a change of the root. An old mount is one outside the new root, or,
  when the same directory is given for both, the mount at the root alone. Each old mount goes on top
  at its new place. Each mount inside the new root, with what it hides, goes to its path without the
  new root's, below the old mount that was put there if there is one. Nothing else is mounted.\<close>

definition pivoted :: "string \<Rightarrow> string \<Rightarrow> 'i mount_table \<Rightarrow> 'i mount_table \<Rightarrow> bool" where
  "pivoted new_root put_old t t' \<longleftrightarrow>
    (let place = (if put_old = new_root then (\<lambda>_. ''/'') else rebase_into (strip_prefix_path put_old new_root));
         old = {p \<in> keys t. if put_old = new_root then p = ''/'' else \<not> under_new new_root p};
         kept = {p \<in> keys t. under_new new_root p}
      in (\<forall>p\<in>old. mt_lookup t' (place p) = mt_lookup t p)
        \<and> (\<forall>p\<in>kept. (if strip_prefix_path p new_root \<in> place ` old
             then tl (mt_stack t' (strip_prefix_path p new_root))
             else mt_stack t' (strip_prefix_path p new_root)) = mt_stack t p)
        \<and> (\<forall>q. q \<notin> place ` old \<and> q \<notin> (\<lambda>p. strip_prefix_path p new_root) ` kept \<longrightarrow> mt_stack t' q = []))"

lemma pivot_stack_ok:
  fixes t u :: "'i mount_table" and self :: nat
  assumes u: "tree_ok u" "groups_ok w"
    and es: "distinct es" "inj_on place (set es)" "\<forall>p\<in>set es. p \<in> keys t \<and> canonical (place p)"
  defines "x \<equiv> stack_nodes self (sort_key (length \<circ> fst) (map (\<lambda>p. (place p, data_at t p)) es)) (w, u)"
  shows "tree_ok (snd x)" "groups_ok (fst x)" "p \<in> set es \<Longrightarrow> mt_lookup (snd x) (place p) = mt_lookup t p"
    "q \<notin> place ` set es \<Longrightarrow> mt_stack (snd x) q = mt_stack u q"
    "q \<in> place ` set es \<Longrightarrow> tl (mt_stack (snd x) q) = mt_stack u q"
proof -
  let ?es = "sort_key (length \<circ> fst) (map (\<lambda>p. (place p, data_at t p)) es)"
  have "distinct (map fst (map (\<lambda>p. (place p, data_at t p)) es))" using es(1,2) by (simp add: o_def distinct_map)
  then have d: "distinct (map fst ?es)" by (metis (no_types, lifting) mset_map mset_sort mset_eq_imp_distinct_iff)
  have s: "set ?es = (\<lambda>p. (place p, data_at t p)) ` set es" by simp
  have r: "tree_ok (snd x) \<and> groups_ok (fst x)
      \<and> (\<forall>p d. (p, d) \<in> set ?es \<longrightarrow> (\<exists>d'. same_mount d' d \<and> mt_stack (snd x) p = d' # mt_stack u p))
      \<and> (\<forall>p. p \<notin> fst ` set ?es \<longrightarrow> mt_stack (snd x) p = mt_stack u p)"
    unfolding x_def by (rule stack_nodes_ok [OF u d]) (use es(3) in auto)
  then show "tree_ok (snd x)" "groups_ok (fst x)" by simp_all
  show "q \<notin> place ` set es \<Longrightarrow> mt_stack (snd x) q = mt_stack u q" using r unfolding s by (auto simp: image_iff)
  show "tl (mt_stack (snd x) q) = mt_stack u q" if "q \<in> place ` set es"
  proof -
    obtain p where "p \<in> set es" "q = place p" using \<open>q \<in> place ` set es\<close> by blast
    then have "(q, data_at t p) \<in> set ?es" by simp
    then obtain d' where "mt_stack (snd x) q = d' # mt_stack u q" using r by blast
    then show ?thesis by simp
  qed
  assume p: "p \<in> set es"
  then have "(place p, data_at t p) \<in> set ?es" by simp
  then obtain d' where d': "same_mount d' (data_at t p)" "mt_stack (snd x) (place p) = d' # mt_stack u (place p)" using r by blast
  have "p \<in> keys t" using p es(3) by simp
  then show "mt_lookup (snd x) (place p) = mt_lookup t p"
    using d' same_mount_root [OF d'(1)] by (simp add: mt_lookup_stack mt_stack_at)
qed

lemma pivot_root_ok:
  assumes ok: "tree_ok t" "groups_ok w" and can: "canonical new_root" "canonical put_old"
    and r: "pivot_root self new_root put_old (w, t) = Inr x"
  shows "tree_ok (snd x)" "groups_ok (fst x)" "pivoted new_root put_old t (snd x)"
proof -
  let ?same = "put_old = new_root"
  define place where "place = (if ?same then (\<lambda>_. ''/'') else rebase_into (strip_prefix_path put_old new_root))"
  define es where "es = filter (\<lambda>p. if ?same then p = ''/'' else \<not> under_new new_root p) (all_nodes t)"
  have nr: "new_root \<noteq> ''/''" and un: "under_new new_root put_old"
    using r by (auto simp: pivot_root_def split: if_splits)
  define w1 where "w1 = fold (\<lambda>p. leave_group self p (nd_propagation (data_at t p))) (all_nodes t) w"
  define kx where "kx = keep_nodes self t (sort_key (length \<circ> snd)
    (map (\<lambda>p. (p, strip_prefix_path p new_root)) (filter (under_new new_root) (all_nodes t)))) (w1, empty_table)"
  have x: "x = stack_nodes self (sort_key (length \<circ> fst) (map (\<lambda>p. (place p, data_at t p)) es)) (fst kx, snd kx)"
    using r nr un by (cases ?same) (simp_all add: pivot_root_def Let_def place_def es_def kx_def w1_def)
  note all = all_nodes_keys [OF ok(1)]
  have ck: "canonical p" if "p \<in> keys t" for p using tree_okD(2) [OF ok(1) that] .
  have k: "tree_ok (snd kx)" "groups_ok (fst kx)"
    "\<And>p. p \<in> keys t \<Longrightarrow> under_new new_root p \<Longrightarrow> mt_stack (snd kx) (strip_prefix_path p new_root) = mt_stack t p"
    "\<And>q. q \<notin> (\<lambda>p. strip_prefix_path p new_root) ` {p \<in> keys t. under_new new_root p} \<Longrightarrow> mt_stack (snd kx) q = []"
    unfolding kx_def using pivot_keep_ok [OF ok(1) _ can(1) nr, where w = w1 and self = self] leave_all_groups [OF ok(2)] by (simp_all add: w1_def)
  have base: "canonical (strip_prefix_path put_old new_root)" by (rule strip_inj(1) [OF can(1) nr can(2) un])
  have es: "distinct es" "set es = {p \<in> keys t. if ?same then p = ''/'' else \<not> under_new new_root p}"
    using all by (auto simp: es_def)
  have inj: "inj_on place (set es)"
    by (rule inj_onI) (use rebase_inj(2) [OF base] ck in \<open>auto simp: es(2) place_def split: if_splits\<close>)
  have cp: "\<forall>p\<in>set es. p \<in> keys t \<and> canonical (place p)"
    using rebase_inj(1) [OF base] ck by (auto simp: es(2) place_def)
  note st = pivot_stack_ok [OF k(1,2) es(1) inj cp, where self = self, folded x]
  show "tree_ok (snd x)" "groups_ok (fst x)" by (rule st(1), rule st(2))
  show "pivoted new_root put_old t (snd x)"
    unfolding pivoted_def Let_def place_def [symmetric] es(2) [symmetric] using st(3,4,5) k(3,4) by simp
qed

section \<open>Unmounting\<close>

lemma drops_only_length: "drops_only s s' \<Longrightarrow> length (mt_stack (table_of s' i) q) \<le> length (mt_stack (table_of s i) q)"
  unfolding drops_only_def by (metis diff_le_self length_drop)

lemma remove_propagating_pops:
  assumes "sys_ok s" "mt_stack (table_of s (mc_table mc)) path \<noteq> []"
  shows "length (mt_stack (table_of (snd (remove_mount_propagating mc path s)) (mc_table mc)) path)
    < length (mt_stack (table_of s (mc_table mc)) path)"
proof -
  let ?s1 = "snd (table_remove (mc_table mc) path s)"
  have "drops_only ?s1 (snd (remove_mount_propagating mc path s))"
    by (rule remove_propagating_ok(4) [OF assms(1)])
  from drops_only_length [OF this, of "mc_table mc" path] show ?thesis
    using assms(2) by (simp add: table_remove_stack [OF assms(1)] le_less_trans)
qed

lemma umount_each_pops:
  "sys_ok s \<Longrightarrow> [] \<in> set sfxs \<Longrightarrow> mt_stack (table_of s (mc_table mc)) path \<noteq> [] \<Longrightarrow>
    length (mt_stack (table_of (umount_each mc path sfxs s) (mc_table mc)) path)
      < length (mt_stack (table_of s (mc_table mc)) path)"
proof (induction sfxs arbitrary: s)
  case (Cons sfx sfxs)
  let ?s1 = "snd (remove_mount_propagating mc (join_subtree path sfx) s)"
  note r = remove_propagating_ok [OF Cons.prems(1), of mc "join_subtree path sfx"]
  have l: "length (mt_stack (table_of (umount_each mc path sfxs ?s1) (mc_table mc)) path)
      \<le> length (mt_stack (table_of ?s1 (mc_table mc)) path)"
    by (rule drops_only_length) (use umount_each_ok [OF r(1)] in simp)
  consider "sfx = []" | "sfx \<noteq> []" "mt_stack (table_of ?s1 (mc_table mc)) path = []"
    | "sfx \<noteq> []" "mt_stack (table_of ?s1 (mc_table mc)) path \<noteq> []" by blast
  then show ?case
  proof cases
    case 1
    then show ?thesis using l remove_propagating_pops [OF Cons.prems(1,3)] by (simp add: join_subtree_def)
  next
    case 2
    then show ?thesis using l Cons.prems(3) by simp
  next
    case 3
    then show ?thesis
      using Cons.IH [OF r(1)] Cons.prems(2) drops_only_length [OF r(2), of "mc_table mc" path] by simp
  qed
qed simp

lemma collect_has_root: "node_at t path \<noteq> None \<Longrightarrow> [] \<in> fst ` set (collect_subtree t path)"
  by (auto simp: collect_subtree_def)

lemma errors_nonzero: "EINVAL \<noteq> 0" "EBUSY \<noteq> 0" "EINVAL \<noteq> EBUSY"
  by (simp_all add: errno_int_defs as_neg_i64_def)

lemma snapshot_one_stack: "snapshot_one t p = None \<longleftrightarrow> mt_stack t p = []"
  by (simp add: snapshot_one_def mt_stack_def split: option.splits)

section \<open>The mount system\<close>

definition initial_mounts :: "'i mnt_sys \<Rightarrow> bool" where
  "initial_mounts s \<longleftrightarrow> (\<forall>i. ms_tables s i = None)
    \<and> (\<forall>g. mw_groups (ms_world s) g = \<lparr>pg_members = [], pg_slaves = []\<rparr>)"

inductive mount_run :: "'i inode_ops \<Rightarrow> 'i \<Rightarrow> 'i mnt_sys \<Rightarrow> bool" for io groot where
  run_new: "initial_mounts s \<Longrightarrow> mount_run io groot s"
| run_boot: "mount_run io groot s \<Longrightarrow> canonical path \<Longrightarrow>
    mount_run io groot (table_install i path target root prop source fstype 0 s)"
| run_mount: "mount_run io groot s \<Longrightarrow> canonical path \<Longrightarrow>
    mount_run io groot (install_new io groot mc path target root flags source fstype s)"
| run_bind: "mount_run io groot s \<Longrightarrow> canonical s_norm \<Longrightarrow> canonical t_norm \<Longrightarrow>
    mount_run io groot (snd (bind_mount io groot mc s_norm t_norm flags s))"
| run_move: "mount_run io groot s \<Longrightarrow> canonical s_norm \<Longrightarrow> canonical t_norm \<Longrightarrow>
    mount_run io groot (snd (move_mount io mc s_norm t_norm s))"
| run_propagation: "mount_run io groot s \<Longrightarrow> mount_run io groot (snd (change_propagation mc t_norm flags s))"
| run_umount: "mount_run io groot s \<Longrightarrow> mount_run io groot (snd (do_umount io mc path flags s))"
| run_unshare: "mount_run io groot s \<Longrightarrow> mount_run io groot (snapshot_table i child s)"
| run_pivot: "mount_run io groot s \<Longrightarrow> canonical new_root \<Longrightarrow> canonical put_old \<Longrightarrow>
    pivot_root i new_root put_old (ms_world s, table_of s i) = Inr x \<Longrightarrow> mount_run io groot (set_table i x s)"
| run_gone: "mount_run io groot s \<Longrightarrow> mount_run io groot (s\<lparr>ms_tables := (ms_tables s)(i := None)\<rparr>)"

lemma mount_run_ok: "mount_run io groot s \<Longrightarrow> sys_ok s"
proof (induction rule: mount_run.induct)
  case (run_new s)
  then show ?case by (simp add: sys_ok_def initial_mounts_def table_of_def empty_tree_ok groups_ok_def)
next
  case (run_pivot s new_root put_old i x)
  have "tree_ok (table_of s i)" "groups_ok (ms_world s)" using run_pivot.IH by (simp_all add: sys_ok_def)
  from pivot_root_ok(1,2) [OF this run_pivot.hyps(2-4)] show ?case by (rule sys_ok_set [OF run_pivot.IH])
next
  case (run_gone s i)
  have "table_of (s\<lparr>ms_tables := (ms_tables s)(i := None)\<rparr>) j = (if j = i then empty_table else table_of s j)" for j
    by (simp add: table_of_def)
  then show ?case using run_gone.IH by (simp add: sys_ok_def empty_tree_ok)
next
  case (run_propagation s mc t_norm flags)
  then show ?case by (simp add: change_propagation_def Let_def change_loop_ok)
qed (simp_all add: table_install_ok install_new_ok bind_mount_ok move_mount_ok do_umount_ok snapshot_ok)

lemma umount_success:
  assumes ok: "sys_ok s" and nf: "flags AND UMOUNT_NOFOLLOW = 0"
    and m: "mt_stack (table_of s (mc_table mc)) path \<noteq> []"
    and busy: "flags AND (MNT_DETACH OR MNT_FORCE) \<noteq> 0 \<or> \<not> umount_busy mc path s"
    and root: "flags AND MNT_DETACH = 0 \<or> is_stacked (table_of s (mc_table mc)) path \<or> path \<noteq> ''/''"
  shows "fst (do_umount io mc path flags s) = 0
    \<and> length (mt_stack (table_of (snd (do_umount io mc path flags s)) (mc_table mc)) path)
      < length (mt_stack (table_of s (mc_table mc)) path)"
proof -
  let ?t = "table_of s (mc_table mc)"
  obtain e where e: "snapshot_one ?t path = Some e" using m snapshot_one_stack by (metis option.exhaust)
  obtain r where r: "mt_lookup ?t path = Some r" using m by (cases "mt_stack ?t path") (simp_all add: mt_lookup_stack)
  have p: "length (mt_stack (table_of (snd (remove_mount_propagating mc path s)) (mc_table mc)) path) < length (mt_stack ?t path)"
    by (rule remove_propagating_pops [OF ok m])
  have rp: "remove_mount_propagating mc path s = (Some r, snd (remove_mount_propagating mc path s))"
    using remove_propagating_ok(3) [OF ok, of mc path] r by (simp add: prod_eq_iff)
  have "[] \<in> set (sort_key (\<lambda>sfx. - int (length sfx)) (map fst (collect_subtree ?t path)))"
    using collect_has_root [of ?t path] e by (auto simp: snapshot_one_def)
  note u = umount_each_pops [OF ok this m]
  show ?thesis unfolding do_umount_def Let_def using nf e busy root p u rp
    by (cases "remove_mount_propagating mc path s") auto
qed

lemma umount_failure:
  assumes "sys_ok s" "fst (do_umount io mc path flags s) \<noteq> 0"
  shows "snd (do_umount io mc path flags s) = s"
proof (cases "snapshot_one (table_of s (mc_table mc)) path")
  case None
  show ?thesis unfolding do_umount_def Let_def None by (simp split: sum.split)
next
  case (Some e)
  then have "fst (remove_mount_propagating mc path s) \<noteq> None"
    using remove_propagating_ok(3) [OF assms(1), of mc path] by (auto simp: mt_lookup_def snapshot_one_def)
  then obtain r s1 where rp: "remove_mount_propagating mc path s = (Some r, s1)"
    by (cases "remove_mount_propagating mc path s") auto
  show ?thesis
  proof (cases "if flags AND UMOUNT_NOFOLLOW \<noteq> 0 then resolve_no_follow io (path_cx s mc) (mc_root mc) path else Inr (mc_root mc)")
    case (Inl e)
    then show ?thesis unfolding do_umount_def Let_def by simp
  next
    case (Inr x)
    have d: "do_umount io mc path flags s =
        (if flags AND (MNT_DETACH OR MNT_FORCE) = 0 \<and> umount_busy mc path s then (EBUSY, s)
         else if flags AND MNT_DETACH \<noteq> 0 then
           (if is_stacked (table_of s (mc_table mc)) path then (0, snd (remove_mount_propagating mc path s))
            else if path = ''/'' then (EINVAL, s)
            else (0, umount_each mc path
              (sort_key (\<lambda>sfx. - int (length sfx)) (map fst (collect_subtree (table_of s (mc_table mc)) path))) s))
         else (0, if nd_source e = ''/dev/vda'' then s1\<lparr>ms_vda_mounted := False\<rparr> else s1))"
      unfolding do_umount_def Let_def Inr Some rp by simp
    define Q where "Q r \<longleftrightarrow> (fst r \<noteq> 0 \<longrightarrow> snd r = s)" for r :: "int \<times> 'a mnt_sys"
    have q: "Q (n, s)" "Q (0, y)" for n y by (simp_all add: Q_def)
    have "Q (do_umount io mc path flags s)" unfolding d using q by (simp only: if_split) simp
    then show ?thesis using assms(2) by (simp add: Q_def)
  qed
qed

lemma umount_plain:
  assumes "sys_ok s" "flags AND (MNT_DETACH OR MNT_FORCE) = 0" "flags AND UMOUNT_NOFOLLOW = 0" "flags AND MNT_DETACH = 0"
  shows "fst (do_umount io mc path flags s) =
    (if mt_stack (table_of s (mc_table mc)) path = [] then EINVAL else if umount_busy mc path s then EBUSY else 0)"
proof (cases "mt_stack (table_of s (mc_table mc)) path = []")
  case True
  then have "snapshot_one (table_of s (mc_table mc)) path = None" using snapshot_one_stack by blast
  then show ?thesis using True assms(3) by (simp add: do_umount_def)
next
  case False
  then obtain e where e: "snapshot_one (table_of s (mc_table mc)) path = Some e"
    using snapshot_one_stack by (metis option.exhaust)
  show ?thesis
  proof (cases "umount_busy mc path s")
    case True
    then show ?thesis using False e assms by (simp add: do_umount_def)
  next
    case nb: False
    from umount_success [OF assms(1,3) False] nb assms(4) show ?thesis using False nb by simp
  qed
qed

section \<open>Properties\<close>

text \<open>C32: Whatever sequence of mounts, binds, moves, propagation changes, unmounts, namespace copies, root
  changes and table releases a system runs, in the table of every namespace the answers taken from the
  mount tree are those the mount paths give: whether mounts lie below a path, the subtree of a
  path with each mount once, and the deepest mount containing a path.\<close>

theorem mount_system_answers:
  assumes "mount_run io groot s" "canonical path"
  shows "let t = table_of s i in
    (has_child_mount t path \<longleftrightarrow> (\<exists>k\<in>keys t. is_descendant_path k path))
    \<and> mset (collect_subtree t path) = mset (paths_below t path)
    \<and> (case containing_mount_with_path t path of
        None \<Rightarrow> \<forall>k\<in>keys t. k \<noteq> path \<and> \<not> is_descendant_path path k
      | Some (q, d) \<Rightarrow> snapshot_one t q = Some d \<and> (q = path \<or> is_descendant_path path q)
          \<and> (\<forall>k\<in>keys t. k = path \<or> is_descendant_path path k \<longrightarrow> k = q \<or> is_descendant_path q k))"
proof -
  have ok: "tree_ok (table_of s i)" using mount_run_ok [OF assms(1)] by (simp add: sys_ok_def)
  show ?thesis unfolding Let_def
    using has_child_mount_paths [OF ok assms(2)] collect_subtree_paths [OF ok assms(2)]
      containing_mount_paths [OF ok assms(2)] by (intro conjI)
qed

definition sample_sys :: "nat mnt_sys" where
  "sample_sys = table_install 0 ''/b'' 2 7 Private ''none'' ''tmpfs'' 0
    \<lparr>ms_world = \<lparr>mw_groups = (\<lambda>_. \<lparr>pg_members = [], pg_slaves = []\<rparr>), mw_flags = (\<lambda>_. 0), mw_next_tag = 0\<rparr>,
     ms_tables = (\<lambda>_. None), ms_next_group = 0, ms_refs = (\<lambda>_. 0), ms_vda_mounted = False\<rparr>"

definition sample_mc :: "nat mnt_cx" where
  "sample_mc = \<lparr>mc_root = 0, mc_table = 0, mc_chrooted = False\<rparr>"

lemma sample_canonical: "canonical ''/b''" "canonical ''/b/c''"
  by (simp_all add: canonical_code pieces_def clean_def plain_def print_path_def)

lemma sample_run: "mount_run sample_io 0 sample_sys"
  unfolding sample_sys_def by (intro run_boot run_new sample_canonical) (simp add: initial_mounts_def)

lemma sample_stack: "mt_stack (table_of sample_sys 0) ''/b'' \<noteq> []" "''/b'' \<in> keys (table_of sample_sys 0)"
  by code_simp+

theorem mount_system_answers_witness:
  "mount_run sample_io 0 sample_sys \<and> canonical ''/'' \<and> has_child_mount (table_of sample_sys 0) ''/''"
proof -
  have "is_descendant_path ''/b'' ''/''" by (simp add: is_descendant_path_def)
  then show ?thesis
    using mount_system_answers [OF sample_run canonical_root, of 0] sample_run sample_stack(2) canonical_root
    unfolding Let_def by blast
qed

text \<open>C33: Unmounting. A failed call changes nothing, and no call adds a mount anywhere. Without flags it fails
  with EINVAL exactly if nothing is mounted there, with EBUSY exactly if a file of the mount is open or
  a mount lies below it, and otherwise takes the mount off its table.\<close>

theorem umount_exact:
  assumes "mount_run io groot s" "canonical path"
  shows "(fst (do_umount io mc path flags s) \<noteq> 0 \<longrightarrow> snd (do_umount io mc path flags s) = s)
    \<and> drops_only s (snd (do_umount io mc path flags s))
    \<and> fst (do_umount io mc path 0 s) =
        (case mt_stack (table_of s (mc_table mc)) path of
           [] \<Rightarrow> EINVAL
         | d # _ \<Rightarrow> if ms_refs s (nd_in_use d) > 0 \<or> (\<exists>k\<in>keys (table_of s (mc_table mc)). is_descendant_path k path)
                   then EBUSY else 0)
    \<and> (fst (do_umount io mc path 0 s) = 0 \<longrightarrow>
        length (mt_stack (table_of (snd (do_umount io mc path 0 s)) (mc_table mc)) path)
          < length (mt_stack (table_of s (mc_table mc)) path))"
proof -
  have ok: "sys_ok s" by (rule mount_run_ok [OF assms(1)])
  then have t: "tree_ok (table_of s (mc_table mc))" by (simp add: sys_ok_def)
  have b: "umount_busy mc path s \<longleftrightarrow> ms_refs s (nd_in_use d) > 0 \<or> (\<exists>k\<in>keys (table_of s (mc_table mc)). is_descendant_path k path)"
    if "mt_stack (table_of s (mc_table mc)) path = d # ds" for d ds
    using that has_child_mount_paths [OF t assms(2)]
    by (auto simp: umount_busy_def snapshot_one_def mt_stack_def split: option.splits)
  have p: "fst (do_umount io mc path 0 s) =
      (if mt_stack (table_of s (mc_table mc)) path = [] then EINVAL else if umount_busy mc path s then EBUSY else 0)"
    by (rule umount_plain [OF ok]) simp_all
  then have "fst (do_umount io mc path 0 s) = 0 \<longrightarrow>
        length (mt_stack (table_of (snd (do_umount io mc path 0 s)) (mc_table mc)) path)
          < length (mt_stack (table_of s (mc_table mc)) path)"
    using umount_success [OF ok, of 0 mc path io] errors_nonzero by (auto split: if_splits)
  then show ?thesis using umount_failure [OF ok] do_umount_ok(2) [OF ok] p b
    by (auto split: list.splits)
qed

theorem umount_exact_witness:
  "mount_run sample_io 0 sample_sys \<and> canonical ''/b/c''
    \<and> fst (do_umount sample_io sample_mc ''/b/c'' 0 sample_sys) = EINVAL"
proof -
  have "mt_stack (table_of sample_sys 0) ''/b/c'' = []" by code_simp
  then show ?thesis
    using umount_exact [OF sample_run sample_canonical(2), of sample_mc 0] sample_run sample_canonical(2)
    by (simp add: sample_mc_def)
qed

text \<open>C34: Changing the root with \<open>pivot_root\<close>. If the place for the old root is a proper subdirectory
  of the new root, the visible mount of every path outside the new root is found at the same path
  below that place. If it is the new root itself, only the mount at the old root is taken over: it
  lies on top of the new root, and all other mounts outside the new root are gone. In both cases
  every mount inside the new root, with what it hides, is found at its path without the new root's,
  below the old mount that was put there if there is one, and nothing else is mounted. A namespace
  copy shows the same mount at every path.\<close>

theorem pivot_root_relocates:
  assumes "mount_run io groot s" "canonical new_root" "canonical put_old"
    "pivot_root i new_root put_old (ms_world s, table_of s i) = Inr x"
  shows "pivoted new_root put_old (table_of s i) (snd x)
    \<and> mount_run io groot (set_table i x s)
    \<and> mt_lookup (table_of (snapshot_table i child s) child) p = mt_lookup (table_of s i) p"
proof -
  have ok: "sys_ok s" by (rule mount_run_ok [OF assms(1)])
  then have "pivoted new_root put_old (table_of s i) (snd x)"
    by (intro pivot_root_ok(3) [OF _ _ assms(2-4)]) (simp_all add: sys_ok_def)
  moreover have "mt_lookup (table_of (snapshot_table i child s) child) p = mt_lookup (table_of s i) p"
    using snapshot_ok(2) [OF ok, where i = i and p = p and child = child] same_mount_root by (fastforce simp: mt_lookup_stack split: list.splits)
  ultimately show ?thesis using run_pivot [OF assms] by simp
qed

theorem pivot_root_relocates_witness:
  "\<exists>x. pivot_root 0 ''/b'' ''/b/c'' (ms_world sample_sys, table_of sample_sys 0) = Inr x
    \<and> pivoted ''/b'' ''/b/c'' (table_of sample_sys 0) (snd x)"
proof -
  have "\<exists>x. pivot_root 0 ''/b'' ''/b/c'' (ms_world sample_sys, table_of sample_sys 0) = Inr x"
    by (rule pivot_root_returns) (simp_all add: under_new_def)
  then show ?thesis using pivot_root_relocates [OF sample_run sample_canonical(1) sample_canonical(2), of 0] by blast
qed

end
