(* ===== verification/Signal_Queue.thy ===== *)
theory Signal_Queue
  imports Kapi
begin

text \<open>
  The signal state of one thread (\<open>SignalContext\<close> of
  \<open>kernel/src/process_model/context.rs\<close>): the pending and blocked masks, one information
  slot per signal, the overflow queue of the real-time signals, the alternate stack, the
  CPU-time interval timers and the group-stop counter. Bit \<open>n\<close> of a mask stands for signal
  \<open>n\<close>. Signal numbers are naturals below 64: every caller has rejected larger ones, on
  which \<open>1u64 << signo\<close> and the array accesses would panic. \<open>i32\<close> fields are kept as their
  32-bit patterns, \<open>usize\<close> capacities and lengths as naturals.

  The slot and the queue together implement one first-in first-out queue per real-time
  signal and a one-place buffer per standard signal; that refinement and the invariants of
  every sequence of operations are proved at the end.
\<close>

section \<open>State\<close>

record pending_sig_info =
  ps_code :: u32
  ps_pad :: u32
  ps_aux :: u64
  ps_sival :: u64

definition default_sig_info :: pending_sig_info where
  "default_sig_info = \<lparr>ps_code = 0, ps_pad = 0, ps_aux = 0, ps_sival = 0\<rparr>"

record alt_stack =
  as_sp :: u64
  as_flags :: u32
  as_size :: u64

abbreviation SS_DISABLE :: u32 where "SS_DISABLE \<equiv> 0x2"
abbreviation ALT_MIN_SIZE :: u64 where "ALT_MIN_SIZE \<equiv> 2048"

abbreviation alt_disabled :: alt_stack where
  "alt_disabled \<equiv> \<lparr>as_sp = 0, as_flags = SS_DISABLE, as_size = 0\<rparr>"

definition alt_is_enabled :: "alt_stack \<Rightarrow> bool" where
  "alt_is_enabled alt \<longleftrightarrow> as_flags alt AND SS_DISABLE = 0 \<and> ALT_MIN_SIZE \<le> as_size alt"

abbreviation NSIG :: nat where "NSIG \<equiv> 64"
abbreviation SIGKILL :: nat where "SIGKILL \<equiv> 9"
abbreviation SIGCHLD :: nat where "SIGCHLD \<equiv> 17"
abbreviation SIGCONT :: nat where "SIGCONT \<equiv> 18"
abbreviation SIGSTOP :: nat where "SIGSTOP \<equiv> 19"
abbreviation SIGTSTP :: nat where "SIGTSTP \<equiv> 20"
abbreviation SIGTTIN :: nat where "SIGTTIN \<equiv> 21"
abbreviation SIGTTOU :: nat where "SIGTTOU \<equiv> 22"
abbreviation RT_SIG_MIN :: nat where "RT_SIG_MIN \<equiv> 32"

definition sig_bit :: "nat \<Rightarrow> u64" where
  "sig_bit s = push_bit s 1"

definition RT_SIG_MASK :: u64 where
  "RT_SIG_MASK = NOT (sig_bit RT_SIG_MIN - 1)"

definition STOP_SIGNAL_MASK :: u64 where
  "STOP_SIGNAL_MASK = sig_bit SIGSTOP OR sig_bit SIGTSTP OR sig_bit SIGTTIN OR sig_bit SIGTTOU"

definition is_rt_signal :: "nat \<Rightarrow> bool" where
  "is_rt_signal s \<longleftrightarrow> RT_SIG_MIN \<le> s \<and> s < NSIG"

record signal_context =
  sc_pending :: u64
  sc_blocked :: u64
  sc_siginfo :: "pending_sig_info list"
  sc_rt_queue :: "(nat \<times> pending_sig_info) list"
  sc_altstack :: alt_stack
  sc_itimer_real_interval_ns :: u64
  sc_itimer_real_deadline_ns :: u64
  sc_itimer_virtual_interval_ns :: u64
  sc_itimer_virtual_value_ns :: u64
  sc_itimer_prof_interval_ns :: u64
  sc_itimer_prof_value_ns :: u64
  sc_group_stop_remaining :: u32
  sc_group_stop_notified :: bool
  sc_continued_latch :: bool

definition signal_new :: signal_context where
  "signal_new =
     \<lparr>sc_pending = 0, sc_blocked = 0, sc_siginfo = replicate NSIG default_sig_info,
      sc_rt_queue = [], sc_altstack = alt_disabled,
      sc_itimer_real_interval_ns = 0, sc_itimer_real_deadline_ns = 0,
      sc_itimer_virtual_interval_ns = 0, sc_itimer_virtual_value_ns = 0,
      sc_itimer_prof_interval_ns = 0, sc_itimer_prof_value_ns = 0,
      sc_group_stop_remaining = 0, sc_group_stop_notified = False, sc_continued_latch = False\<rparr>"

definition signal_inherit :: "signal_context \<Rightarrow> signal_context" where
  "signal_inherit parent =
     \<lparr>sc_pending = 0, sc_blocked = sc_blocked parent,
      sc_siginfo = replicate NSIG default_sig_info,
      sc_rt_queue = [], sc_altstack = sc_altstack parent,
      sc_itimer_real_interval_ns = 0, sc_itimer_real_deadline_ns = 0,
      sc_itimer_virtual_interval_ns = 0, sc_itimer_virtual_value_ns = 0,
      sc_itimer_prof_interval_ns = 0, sc_itimer_prof_value_ns = 0,
      sc_group_stop_remaining = 0, sc_group_stop_notified = False, sc_continued_latch = False\<rparr>"

section \<open>Masks\<close>

definition deliverable :: "signal_context \<Rightarrow> u64" where
  "deliverable c = sc_pending c AND NOT (sc_blocked c)"

definition set_blocked :: "u64 \<Rightarrow> signal_context \<Rightarrow> signal_context" where
  "set_blocked m c = c\<lparr>sc_blocked := m AND NOT (sig_bit SIGKILL OR sig_bit SIGSTOP)\<rparr>"

definition clear_pending :: "u64 \<Rightarrow> signal_context \<Rightarrow> signal_context" where
  "clear_pending m c = c\<lparr>sc_pending := sc_pending c AND NOT m\<rparr>"

definition reset_for_exec :: "signal_context \<Rightarrow> signal_context" where
  "reset_for_exec c =
     c\<lparr>sc_pending := sc_pending c AND sig_bit SIGKILL,
       sc_rt_queue := [],
       sc_siginfo := (replicate NSIG default_sig_info)[SIGKILL := sc_siginfo c ! SIGKILL]\<rparr>"

section \<open>Queueing\<close>

definition rt_pending_count :: "signal_context \<Rightarrow> nat" where
  "rt_pending_count c = count_ones (sc_pending c AND RT_SIG_MASK) + length (sc_rt_queue c)"

definition enqueue_signal ::
  "nat \<Rightarrow> pending_sig_info \<Rightarrow> nat \<Rightarrow> signal_context \<Rightarrow> bool \<times> signal_context" where
  "enqueue_signal s info rt_cap c =
     (if is_rt_signal s then
        if rt_cap \<le> rt_pending_count c then (False, c)
        else if sc_pending c AND sig_bit s = 0 then
          (True, c\<lparr>sc_pending := sc_pending c OR sig_bit s,
                   sc_siginfo := (sc_siginfo c)[s := info]\<rparr>)
        else (True, c\<lparr>sc_rt_queue := sc_rt_queue c @ [(s, info)]\<rparr>)
      else
        (True, c\<lparr>sc_pending := sc_pending c OR sig_bit s,
                 sc_siginfo := (sc_siginfo c)[s := info]\<rparr>))"

text \<open>\<open>iter().position(..)\<close> followed by \<open>remove(pos)\<close>: the first queued entry of the
  signal and the queue without it.\<close>

fun take_first :: "nat \<Rightarrow> (nat \<times> 'a) list \<Rightarrow> ('a \<times> (nat \<times> 'a) list) option" where
  "take_first s [] = None"
| "take_first s ((t, x) # q) =
     (if t = s then Some (x, q)
      else case take_first s q of None \<Rightarrow> None | Some (y, q') \<Rightarrow> Some (y, (t, x) # q'))"

definition dequeue_signal ::
  "nat \<Rightarrow> signal_context \<Rightarrow> pending_sig_info \<times> signal_context" where
  "dequeue_signal s c =
     (if sc_pending c AND sig_bit s = 0 then (default_sig_info, c)
      else
        (let head = sc_siginfo c ! s;
             emptied = (head, c\<lparr>sc_pending := sc_pending c AND NOT (sig_bit s),
                                sc_siginfo := (sc_siginfo c)[s := default_sig_info]\<rparr>) in
         if is_rt_signal s then
           (case take_first s (sc_rt_queue c) of
              Some (nxt, q) \<Rightarrow>
                (head, c\<lparr>sc_rt_queue := q, sc_siginfo := (sc_siginfo c)[s := nxt]\<rparr>)
            | None \<Rightarrow> emptied)
         else emptied))"

definition discard_signal :: "nat \<Rightarrow> signal_context \<Rightarrow> signal_context" where
  "discard_signal s c =
     c\<lparr>sc_pending := sc_pending c AND NOT (sig_bit s),
       sc_siginfo := (sc_siginfo c)[s := default_sig_info],
       sc_rt_queue := (if is_rt_signal s then filter (\<lambda>(t, _). t \<noteq> s) (sc_rt_queue c)
                       else sc_rt_queue c)\<rparr>"

definition discard_stop_signals :: "signal_context \<Rightarrow> signal_context" where
  "discard_stop_signals c =
     c\<lparr>sc_pending := sc_pending c AND NOT STOP_SIGNAL_MASK,
       sc_siginfo := fold (\<lambda>s xs. xs[s := default_sig_info])
         [SIGSTOP, SIGTSTP, SIGTTIN, SIGTTOU] (sc_siginfo c)\<rparr>"

definition enqueue_with_annihilation ::
  "nat \<Rightarrow> pending_sig_info \<Rightarrow> nat \<Rightarrow> signal_context \<Rightarrow> bool \<times> signal_context" where
  "enqueue_with_annihilation s info rt_cap c =
     enqueue_signal s info rt_cap
       (if s = SIGCONT then discard_stop_signals c
        else if sig_bit s AND STOP_SIGNAL_MASK \<noteq> 0 then discard_signal SIGCONT c
        else c)"

section \<open>Group stop\<close>

definition arm_group_stop :: "u32 \<Rightarrow> signal_context \<Rightarrow> signal_context" where
  "arm_group_stop n c = c\<lparr>sc_group_stop_remaining := n, sc_group_stop_notified := False\<rparr>"

definition group_stop_arrive :: "signal_context \<Rightarrow> bool \<times> signal_context" where
  "group_stop_arrive c =
     (let n = (if 0 < sc_group_stop_remaining c then sc_group_stop_remaining c - 1
               else sc_group_stop_remaining c);
          c' = c\<lparr>sc_group_stop_remaining := n\<rparr> in
      if n = 0 \<and> \<not> sc_group_stop_notified c then (True, c'\<lparr>sc_group_stop_notified := True\<rparr>)
      else (False, c'))"

definition clear_group_stop :: "signal_context \<Rightarrow> signal_context" where
  "clear_group_stop c = c\<lparr>sc_group_stop_remaining := 0, sc_group_stop_notified := False\<rparr>"

definition set_continued_latch :: "signal_context \<Rightarrow> signal_context" where
  "set_continued_latch c = c\<lparr>sc_continued_latch := True\<rparr>"

definition take_continued_latch :: "signal_context \<Rightarrow> bool \<times> signal_context" where
  "take_continued_latch c = (sc_continued_latch c, c\<lparr>sc_continued_latch := False\<rparr>)"

section \<open>Interval timers on CPU time\<close>

definition advance_itimer :: "u64 \<Rightarrow> u64 \<Rightarrow> u64 \<Rightarrow> bool \<times> u64" where
  "advance_itimer v interval delta =
     (if v = 0 \<or> delta = 0 then (False, v)
      else if delta < v then (False, v - delta)
      else (True, interval))"

definition charge_cpu_itimers ::
  "u64 \<Rightarrow> u64 \<Rightarrow> signal_context \<Rightarrow> (bool \<times> bool) \<times> signal_context" where
  "charge_cpu_itimers user_ns sys_ns c =
     (case advance_itimer (sc_itimer_virtual_value_ns c) (sc_itimer_virtual_interval_ns c)
             user_ns of
        (virt, v) \<Rightarrow>
      (case advance_itimer (sc_itimer_prof_value_ns c) (sc_itimer_prof_interval_ns c)
              (saturating_add user_ns sys_ns) of
         (prof, p) \<Rightarrow>
           ((virt, prof),
            c\<lparr>sc_itimer_virtual_value_ns := v, sc_itimer_prof_value_ns := p\<rparr>)))"

section \<open>Bits of the masks\<close>

lemma bit_sig_bit [simp]: "bit (sig_bit s) i \<longleftrightarrow> i = s \<and> s < 64"
  by (auto simp: sig_bit_def push_bit_eq_mult bit_exp_iff)

lemma sig_bit_and_0 [simp]:
  assumes "s < 64" shows "w AND sig_bit s = 0 \<longleftrightarrow> \<not> bit w s"
proof
  assume "w AND sig_bit s = 0"
  then have "\<not> bit (w AND sig_bit s) s" by simp
  then show "\<not> bit w s" using assms by (simp add: bit_and_iff)
next
  assume "\<not> bit w s"
  then show "w AND sig_bit s = 0" by (intro bit_word_eqI) (auto simp: bit_and_iff)
qed

lemma sig_bit_and_0' [simp]: "s < 64 \<Longrightarrow> sig_bit s AND w = 0 \<longleftrightarrow> \<not> bit w s"
  by (simp add: and.commute)

lemma bit_stop_mask [simp]: "bit STOP_SIGNAL_MASK i \<longleftrightarrow> i \<in> {19, 20, 21, 22}"
  by (auto simp: STOP_SIGNAL_MASK_def bit_or_iff)

lemma bit_rt_mask [simp]: "bit RT_SIG_MASK i \<longleftrightarrow> is_rt_signal i"
proof -
  have "sig_bit RT_SIG_MIN - 1 = (mask 32 :: u64)"
    by (simp add: sig_bit_def mask_eq_exp_minus_1 push_bit_eq_mult)
  then show ?thesis
    by (auto simp: RT_SIG_MASK_def is_rt_signal_def bit_not_iff bit_mask_iff)
qed

lemma bit_deliverable: "bit (deliverable c) s \<longleftrightarrow> bit (sc_pending c) s \<and> \<not> bit (sc_blocked c) s"
  by (auto simp: deliverable_def bit_and_iff bit_not_iff dest: bit_imp_le_length)

lemma bit_and_not [simp]: "bit (v AND NOT w) i \<longleftrightarrow> bit v i \<and> \<not> bit w i" for v w :: u64
  by (auto simp: bit_and_iff bit_not_iff dest: bit_imp_le_length)

lemma bit_u64_less: "bit (w :: u64) i \<Longrightarrow> i < 64"
  using bit_imp_le_length [of w i] by simp

section \<open>One queue per signal\<close>

text \<open>The information waiting for a signal, oldest first.\<close>

definition sig_queue :: "signal_context \<Rightarrow> nat \<Rightarrow> pending_sig_info list" where
  "sig_queue c s =
     (if bit (sc_pending c) s
      then sc_siginfo c ! s # map snd (filter (\<lambda>(t, _). t = s) (sc_rt_queue c))
      else [])"

text \<open>Well-formed contexts: an entry of the overflow queue belongs to a real-time signal
  whose slot is taken, signal 0 is never pending, and SIGKILL and SIGSTOP are not blocked.\<close>

definition sig_ok :: "signal_context \<Rightarrow> bool" where
  "sig_ok c \<longleftrightarrow>
     length (sc_siginfo c) = NSIG \<and>
     (\<forall>(t, i) \<in> set (sc_rt_queue c). is_rt_signal t \<and> bit (sc_pending c) t) \<and>
     \<not> bit (sc_pending c) 0 \<and>
     \<not> bit (sc_blocked c) SIGKILL \<and> \<not> bit (sc_blocked c) SIGSTOP"

lemma sig_ok_rt: "sig_ok c \<Longrightarrow> \<not> is_rt_signal s \<Longrightarrow> filter (\<lambda>(t, _). t = s) (sc_rt_queue c) = []"
  by (auto simp: sig_ok_def filter_empty_conv)

lemma take_first_None: "take_first s q = None \<longleftrightarrow> filter (\<lambda>(t, _). t = s) q = []"
  by (induction s q rule: take_first.induct) (auto split: option.splits)

lemma take_first_Some:
  "take_first s q = Some (x, q') \<Longrightarrow>
     map snd (filter (\<lambda>(t, _). t = s) q) = x # map snd (filter (\<lambda>(t, _). t = s) q')
     \<and> set q' \<subseteq> set q \<and> length q = Suc (length q')"
  by (induction s q arbitrary: q' rule: take_first.induct) (fastforce split: if_splits option.splits)+

lemma take_first_other:
  "take_first s q = Some (x, q') \<Longrightarrow> u \<noteq> s \<Longrightarrow>
     filter (\<lambda>(t, _). t = u) q' = filter (\<lambda>(t, _). t = u) q"
  by (induction s q arbitrary: q' rule: take_first.induct) (auto split: if_splits option.splits)

lemma enqueue_ok:
  assumes "sig_ok c" and "0 < s" and "s < NSIG"
  shows "sig_ok (snd (enqueue_signal s info cap c))"
  using assms by (auto simp: enqueue_signal_def sig_ok_def bit_or_iff)

lemma enqueue_queue:
  assumes "sig_ok c" and "s < NSIG"
  shows "sig_queue (snd (enqueue_signal s info cap c)) =
    (if is_rt_signal s
     then if rt_pending_count c < cap then (sig_queue c)(s := sig_queue c s @ [info]) else sig_queue c
     else (sig_queue c)(s := [info]))"
proof (rule ext)
  fix u
  show "sig_queue (snd (enqueue_signal s info cap c)) u =
    (if is_rt_signal s
     then if rt_pending_count c < cap then (sig_queue c)(s := sig_queue c s @ [info]) else sig_queue c
     else (sig_queue c)(s := [info])) u"
  proof (cases "is_rt_signal s")
    case False
    then show ?thesis using assms sig_ok_rt [OF assms(1) False]
      by (auto simp: enqueue_signal_def sig_queue_def bit_or_iff sig_ok_def)
  next
    case True
    have "filter (\<lambda>(t, _). t = s) (sc_rt_queue c) = []" if "\<not> bit (sc_pending c) s"
      using that assms(1) by (auto simp: sig_ok_def filter_empty_conv)
    with True show ?thesis using assms
      by (auto simp: enqueue_signal_def sig_queue_def bit_or_iff sig_ok_def)
  qed
qed

lemma enqueue_fst:
  "fst (enqueue_signal s info cap c) \<longleftrightarrow> (is_rt_signal s \<longrightarrow> rt_pending_count c < cap)"
  by (simp add: enqueue_signal_def not_less)

lemma dequeue_ok: "sig_ok c \<Longrightarrow> s < NSIG \<Longrightarrow> sig_ok (snd (dequeue_signal s c))"
proof -
  assume ok: "sig_ok c" and s: "s < NSIG"
  have empty: "t \<noteq> s" if "take_first s (sc_rt_queue c) = None" "(t, i) \<in> set (sc_rt_queue c)" for t i
    using that by (auto simp: take_first_None filter_empty_conv)
  have "\<not> is_rt_signal s \<Longrightarrow> (s, i) \<notin> set (sc_rt_queue c)" for i
    using ok by (auto simp: sig_ok_def)
  then show "sig_ok (snd (dequeue_signal s c))"
    using ok s empty
    by (auto simp: dequeue_signal_def sig_ok_def Let_def split: option.splits
        dest!: take_first_Some)
qed

lemma dequeue_queue:
  assumes "sig_ok c" and "s < NSIG"
  shows "sig_queue (snd (dequeue_signal s c)) = (sig_queue c)(s := tl (sig_queue c s))"
    and "fst (dequeue_signal s c) = (case sig_queue c s of [] \<Rightarrow> default_sig_info | i # _ \<Rightarrow> i)"
proof -
  have len: "length (sc_siginfo c) = 64" using assms(1) by (simp add: sig_ok_def)
  show "sig_queue (snd (dequeue_signal s c)) = (sig_queue c)(s := tl (sig_queue c s))"
  proof (cases "is_rt_signal s \<and> bit (sc_pending c) s")
    case True
    show ?thesis
    proof (cases "take_first s (sc_rt_queue c)")
      case None
      then have q: "filter (\<lambda>(t, _). t = s) (sc_rt_queue c) = []" by (simp add: take_first_None)
      show ?thesis using True assms(2) None q len
        by (auto simp: dequeue_signal_def sig_queue_def fun_eq_iff)
    next
      case (Some r)
      obtain x q' where r: "r = (x, q')" by (cases r)
      note first = take_first_Some [OF Some [unfolded r]] and other = take_first_other [OF Some [unfolded r]]
      show ?thesis using True assms(2) Some r first other len
        by (auto simp: dequeue_signal_def sig_queue_def fun_eq_iff Let_def)
    qed
  next
    case False
    then show ?thesis using assms(2) sig_ok_rt [OF assms(1), of s] len
      by (auto simp: dequeue_signal_def sig_queue_def fun_eq_iff Let_def)
  qed
  show "fst (dequeue_signal s c) = (case sig_queue c s of [] \<Rightarrow> default_sig_info | i # _ \<Rightarrow> i)"
    using assms(2) by (auto simp: dequeue_signal_def sig_queue_def Let_def split: option.splits)
qed

lemma discard_queue:
  assumes "sig_ok c" and "s < NSIG"
  shows "sig_ok (discard_signal s c)" and "sig_queue (discard_signal s c) = (sig_queue c)(s := [])"
proof -
  show "sig_ok (discard_signal s c)"
    using assms by (auto simp: discard_signal_def sig_ok_def)
  have "filter (\<lambda>(t, _). t = u) (filter (\<lambda>(t, _). t \<noteq> s) q) = filter (\<lambda>(t, _). t = u) q"
    if "u \<noteq> s" for u and q :: "(nat \<times> pending_sig_info) list"
    using that by (induction q) auto
  then show "sig_queue (discard_signal s c) = (sig_queue c)(s := [])"
    using assms by (auto simp: discard_signal_def sig_queue_def fun_eq_iff)
qed

lemma discard_stops:
  assumes "sig_ok c"
  shows "sig_ok (discard_stop_signals c)"
    and "sig_queue (discard_stop_signals c) s = (if s \<in> {19, 20, 21, 22} then [] else sig_queue c s)"
  using assms
  by (auto simp: discard_stop_signals_def sig_ok_def sig_queue_def is_rt_signal_def)

lemma annihilation_ok:
  assumes "sig_ok c" and "0 < s" and "s < NSIG"
  shows "sig_ok (snd (enqueue_with_annihilation s info cap c))"
  using assms by (simp add: enqueue_with_annihilation_def enqueue_ok discard_stops discard_queue)

text \<open>The count that the resource limit is compared with is the number of queued
  real-time signals.\<close>

lemma length_by_key:
  assumes "finite S" and "\<forall>(t, i) \<in> set q. t \<in> S"
  shows "length q = (\<Sum>s\<in>S. length (filter (\<lambda>(t, _). t = s) q))"
  using assms(2)
proof (induction q)
  case (Cons x q)
  obtain t i where x: "x = (t, i)" by (cases x)
  have "(\<Sum>s\<in>S. length (filter (\<lambda>(t, _). t = s) (x # q)))
      = (\<Sum>s\<in>S. (if t = s then 1 else 0) + length (filter (\<lambda>(t, _). t = s) q))"
    by (rule sum.cong) (simp_all add: x)
  also have "\<dots> = 1 + (\<Sum>s\<in>S. length (filter (\<lambda>(t, _). t = s) q))"
    using Cons.prems assms(1) by (simp add: sum.distrib x)
  finally show ?case using Cons by simp
qed simp

lemma rt_count:
  assumes "sig_ok c"
  shows "rt_pending_count c = (\<Sum>s\<in>{32..<64}. length (sig_queue c s))"
proof -
  let ?P = "bit (sc_pending c)" and ?f = "\<lambda>s. length (filter (\<lambda>(t, _). t = s) (sc_rt_queue c))"
  have q: "length (sc_rt_queue c) = (\<Sum>s\<in>{32..<64}. ?f s)"
    using assms by (intro length_by_key) (auto simp: sig_ok_def is_rt_signal_def)
  have "count_ones (sc_pending c AND RT_SIG_MASK) = card {s \<in> {32..<64}. ?P s}"
  proof -
    have "distinct (set_bits64 m)" for m by (simp add: set_bits64_def)
    then have "count_ones (sc_pending c AND RT_SIG_MASK)
        = card (set (set_bits64 (sc_pending c AND RT_SIG_MASK)))"
      by (simp add: count_ones_def distinct_card)
    also have "set (set_bits64 (sc_pending c AND RT_SIG_MASK)) = {s \<in> {32..<64}. ?P s}"
      by (auto simp: set_bits64_def bit_and_iff is_rt_signal_def)
    finally show ?thesis .
  qed
  also have "\<dots> = (\<Sum>s\<in>{32..<64}. if ?P s then 1 else 0)"
    by (simp add: sum.If_cases Int_def)
  finally have "rt_pending_count c = (\<Sum>s\<in>{32..<64}. (if ?P s then 1 else 0) + ?f s)"
    by (simp add: rt_pending_count_def q sum.distrib)
  also have "\<dots> = (\<Sum>s\<in>{32..<64}. length (sig_queue c s))"
    using assms by (intro sum.cong) (auto simp: sig_queue_def sig_ok_def filter_empty_conv)
  finally show ?thesis .
qed

section \<open>Sequences of operations\<close>

text \<open>The calls the kernel makes on a context. \<open>Continue\<close> is the \<open>clear_pending\<close> of
  \<open>request_continue\<close>, its only caller; \<open>Fork\<close> continues with the child's context.\<close>

datatype sig_op =
    Set_Blocked u64
  | Continue
  | Exec
  | Enqueue nat pending_sig_info nat
  | Send nat pending_sig_info nat
  | Dequeue nat
  | Discard nat
  | Discard_Stops
  | Arm u32
  | Arrive
  | Clear_Stop
  | Set_Latch
  | Take_Latch
  | Charge u64 u64
  | Fork
  | Replace_Altstack alt_stack

primrec sig_apply :: "sig_op \<Rightarrow> signal_context \<Rightarrow> signal_context" where
  "sig_apply (Set_Blocked m) c = set_blocked m c"
| "sig_apply Continue c = clear_pending STOP_SIGNAL_MASK c"
| "sig_apply Exec c = (reset_for_exec c)\<lparr>sc_altstack := alt_disabled\<rparr>"
| "sig_apply (Enqueue s i n) c = snd (enqueue_signal s i n c)"
| "sig_apply (Send s i n) c = snd (enqueue_with_annihilation s i n c)"
| "sig_apply (Dequeue s) c = snd (dequeue_signal s c)"
| "sig_apply (Discard s) c = discard_signal s c"
| "sig_apply Discard_Stops c = discard_stop_signals c"
| "sig_apply (Arm n) c = arm_group_stop n c"
| "sig_apply Arrive c = snd (group_stop_arrive c)"
| "sig_apply Clear_Stop c = clear_group_stop c"
| "sig_apply Set_Latch c = set_continued_latch c"
| "sig_apply Take_Latch c = snd (take_continued_latch c)"
| "sig_apply (Charge u s) c = snd (charge_cpu_itimers u s c)"
| "sig_apply Fork c = signal_inherit c"
| "sig_apply (Replace_Altstack a) c = c\<lparr>sc_altstack := a\<rparr>"

fun op_valid :: "sig_op \<Rightarrow> bool" where
  "op_valid (Enqueue s _ _) \<longleftrightarrow> 0 < s \<and> s < NSIG"
| "op_valid (Send s _ _) \<longleftrightarrow> 0 < s \<and> s < NSIG"
| "op_valid (Dequeue s) \<longleftrightarrow> s < NSIG"
| "op_valid (Discard s) \<longleftrightarrow> s < NSIG"
| "op_valid _ \<longleftrightarrow> True"

text \<open>Outside tracing, stop signals and SIGCONT are queued only by \<open>Send\<close>.\<close>

fun op_untraced :: "sig_op \<Rightarrow> bool" where
  "op_untraced (Enqueue s _ _) \<longleftrightarrow> s \<notin> {18, 19, 20, 21, 22}"
| "op_untraced _ \<longleftrightarrow> True"

lemma sig_ok_new [simp]: "sig_ok signal_new"
  by (simp add: sig_ok_def signal_new_def)

lemma sig_ok_step: "op_valid op \<Longrightarrow> sig_ok c \<Longrightarrow> sig_ok (sig_apply op c)"
proof (cases op)
  case Continue
  assume "sig_ok c"
  with Continue show ?thesis
    by (auto simp: clear_pending_def sig_ok_def is_rt_signal_def)
next
  case (Charge u s)
  assume "sig_ok c"
  with Charge show ?thesis
    by (simp add: charge_cpu_itimers_def sig_ok_def split: prod.splits)
qed (auto simp: enqueue_ok annihilation_ok dequeue_ok discard_queue discard_stops,
     auto simp: sig_ok_def set_blocked_def bit_or_iff bit_not_iff reset_for_exec_def arm_group_stop_def
       group_stop_arrive_def clear_group_stop_def set_continued_latch_def take_continued_latch_def
       signal_inherit_def bit_and_iff Let_def)

lemma sig_ok_run: "list_all op_valid ops \<Longrightarrow> sig_ok c \<Longrightarrow> sig_ok (fold sig_apply ops c)"
  by (induction ops arbitrary: c) (simp_all add: sig_ok_step)

text \<open>SIGCONT and a stop signal are never pending together.\<close>

definition stop_cont_apart :: "signal_context \<Rightarrow> bool" where
  "stop_cont_apart c \<longleftrightarrow>
     \<not> (bit (sc_pending c) SIGCONT \<and> (\<exists>s\<in>{19, 20, 21, 22}. bit (sc_pending c) s))"

lemma apart_mono:
  "stop_cont_apart c \<Longrightarrow> (\<And>s. bit (sc_pending c') s \<Longrightarrow> s \<in> {18..22} \<Longrightarrow> bit (sc_pending c) s) \<Longrightarrow>
     stop_cont_apart c'"
  by (fastforce simp: stop_cont_apart_def)

lemma pending_enqueue:
  "s < NSIG \<Longrightarrow> bit (sc_pending (snd (enqueue_signal s i n c))) t \<Longrightarrow> t = s \<or> bit (sc_pending c) t"
  by (auto simp: enqueue_signal_def bit_or_iff split: if_splits)

lemma pending_dequeue:
  "bit (sc_pending (snd (dequeue_signal s c))) t \<Longrightarrow> bit (sc_pending c) t"
  by (auto simp: dequeue_signal_def Let_def split: if_splits option.splits prod.splits)

lemma apart_send:
  assumes "s < NSIG" and "stop_cont_apart c"
  shows "stop_cont_apart (snd (enqueue_with_annihilation s i n c))"
  using assms pending_enqueue [OF assms(1), of i n]
  by (fastforce simp: enqueue_with_annihilation_def stop_cont_apart_def discard_stop_signals_def
      discard_signal_def split: if_splits)

lemma apart_step:
  assumes "op_valid op" and "op_untraced op" and "stop_cont_apart c"
  shows "stop_cont_apart (sig_apply op c)"
proof (cases op)
  case (Send s i n)
  then show ?thesis using assms by (simp add: apart_send)
next
  case (Enqueue s i n)
  then show ?thesis using assms
    by (auto intro: apart_mono [OF assms(3)] dest!: pending_enqueue [rotated])
next
  case (Dequeue s)
  then show ?thesis using assms(3) by (auto intro: apart_mono pending_dequeue)
next
  case (Charge u s)
  then show ?thesis using assms(3)
    by (simp add: charge_cpu_itimers_def stop_cont_apart_def split: prod.splits)
qed (rule apart_mono [OF assms(3)];
     auto simp: set_blocked_def clear_pending_def reset_for_exec_def discard_signal_def
       discard_stop_signals_def arm_group_stop_def group_stop_arrive_def clear_group_stop_def
       set_continued_latch_def take_continued_latch_def signal_inherit_def bit_and_iff Let_def
       split: if_splits)+

lemma apart_run:
  "list_all op_valid ops \<Longrightarrow> list_all op_untraced ops \<Longrightarrow> stop_cont_apart c \<Longrightarrow>
     stop_cont_apart (fold sig_apply ops c)"
  by (induction ops arbitrary: c) (simp_all add: apart_step)

text \<open>The answers of \<open>k\<close> threads arriving at a group stop one after the other.\<close>

primrec arrivals :: "nat \<Rightarrow> signal_context \<Rightarrow> bool list" where
  "arrivals 0 c = []"
| "arrivals (Suc k) c =
     (case group_stop_arrive c of (answer, c') \<Rightarrow> answer # arrivals k c')"

lemma arrivals_notified:
  "sc_group_stop_notified c \<Longrightarrow> arrivals k c = replicate k False"
  by (induction k arbitrary: c) (simp_all add: group_stop_arrive_def Let_def)

lemma arrivals_armed:
  "\<not> sc_group_stop_notified c \<Longrightarrow>
     arrivals k c = map (\<lambda>i. Suc i = max 1 (unat (sc_group_stop_remaining c))) [0..<k]"
proof (induction k arbitrary: c)
  case (Suc k)
  let ?n = "sc_group_stop_remaining c"
  have shift: "map f [0..<Suc k] = f 0 # map (\<lambda>i. f (Suc i)) [0..<k]" for f :: "nat \<Rightarrow> bool"
    by (simp add: upt_conv_Cons map_Suc_upt [symmetric] del: upt_Suc)
  show ?case
  proof (cases "?n = 0 \<or> ?n = 1")
    case True
    then show ?thesis using Suc.prems
      by (auto simp: group_stop_arrive_def Let_def arrivals_notified shift map_replicate_const
          simp del: upt_Suc)
  next
    case False
    then have n: "0 < ?n" "?n - 1 \<noteq> 0" by (auto simp: word_gt_0 word_greater_zero_iff)
    then have u: "unat (?n - 1) = unat ?n - 1" by (simp add: unat_minus_one word_gt_0)
    have "0 < unat (?n - 1)" using n(2) by (simp add: unat_gt_0)
    with u have "max 1 (unat ?n) = Suc (max 1 (unat (?n - 1)))" by simp
    moreover have "max 1 (unat ?n) \<noteq> 1" using calculation by simp
    ultimately show ?thesis using Suc n
      by (simp add: group_stop_arrive_def Let_def shift del: upt_Suc)
  qed
qed simp

section \<open>Properties\<close>

text \<open>C37: after any sequence of operations the slots and the overflow queue behave as one
  queue per signal. Queueing a real-time signal below the limit appends to its queue and at
  the limit changes nothing and reports it; a standard signal keeps only the latest
  information; dequeuing returns and removes the oldest entry; discarding empties the
  queue; no operation touches the queue of another signal; and the number the limit is
  compared with is the total length of the real-time queues.\<close>

theorem signal_queues_refine:
  assumes "list_all op_valid ops" and "0 < s" and "s < NSIG"
  shows "let c = fold sig_apply ops signal_new; q = sig_queue c in
     (fst (enqueue_signal s info cap c) \<longleftrightarrow> (if is_rt_signal s then rt_pending_count c < cap else True)) \<and>
     sig_queue (snd (enqueue_signal s info cap c)) =
       (if is_rt_signal s then if rt_pending_count c < cap then q(s := q s @ [info]) else q
        else q(s := [info])) \<and>
     fst (dequeue_signal s c) = (case q s of [] \<Rightarrow> default_sig_info | i # _ \<Rightarrow> i) \<and>
     sig_queue (snd (dequeue_signal s c)) = q(s := tl (q s)) \<and>
     sig_queue (discard_signal s c) = q(s := []) \<and>
     rt_pending_count c = (\<Sum>t\<in>{32..<64}. length (q t))"
proof -
  have ok: "sig_ok (fold sig_apply ops signal_new)"
    using assms(1) by (simp add: sig_ok_run)
  show ?thesis
    unfolding Let_def
    by (intro conjI enqueue_queue [OF ok assms(3)] dequeue_queue [OF ok assms(3)]
        discard_queue [OF ok assms(3)] rt_count [OF ok]) (simp add: enqueue_fst)
qed

theorem signal_queues_refine_witness:
  "\<exists>a b. a \<noteq> b \<and>
     (let c = fold sig_apply [Send 34 a 9, Send 34 b 9] signal_new in
      sig_queue c 34 = [a, b] \<and> fst (dequeue_signal 34 c) = a \<and> rt_pending_count c = 2 \<and>
      sig_queue (snd (dequeue_signal 34 c)) 34 = [b])"
proof -
  let ?a = "default_sig_info" and ?b = "default_sig_info\<lparr>ps_aux := 1\<rparr>"
  let ?c1 = "snd (enqueue_signal 34 ?a 9 signal_new)" and ?c2 = "\<lambda>c. snd (enqueue_signal 34 ?b 9 c)"
  have c2: "fold sig_apply [Send 34 ?a 9, Send 34 ?b 9] signal_new = ?c2 ?c1"
    by (simp add: enqueue_with_annihilation_def)
  have rt: "is_rt_signal 34" by (simp add: is_rt_signal_def)
  have q0: "sig_queue signal_new = (\<lambda>_. [])" by (simp add: sig_queue_def signal_new_def fun_eq_iff)
  note p = signal_queues_refine [of _ 34, simplified Let_def, simplified]
  have n0: "rt_pending_count signal_new = 0"
    using p [of "[]" "?a" 9] by (simp add: q0)
  have q1: "sig_queue ?c1 = (\<lambda>_. [])(34 := [?a])"
    using p [of "[]" "?a" 9] rt by (simp add: q0 n0)
  have n1: "rt_pending_count ?c1 = 1"
    using p [of "[Enqueue 34 ?a 9]" "?b" 9] by (simp add: q1 if_distrib [of length] cong: if_cong)
  have q2: "sig_queue (?c2 ?c1) = (\<lambda>_. [])(34 := [?a, ?b])"
    using p [of "[Enqueue 34 ?a 9]" "?b" 9] rt by (simp add: q1 n1)
  have "fst (dequeue_signal 34 (?c2 ?c1)) = ?a \<and> rt_pending_count (?c2 ?c1) = 2 \<and>
      sig_queue (snd (dequeue_signal 34 (?c2 ?c1))) 34 = [?b]"
    using p [of "[Enqueue 34 ?a 9, Enqueue 34 ?b 9]" "?a" 9]
    by (simp add: q2 if_distrib [of length] cong: if_cong)
  moreover have "?a \<noteq> ?b" by (simp add: default_sig_info_def)
  ultimately show ?thesis
    unfolding Let_def by (intro exI [of _ ?a] exI [of _ ?b]) (simp add: c2 q2 del: fold.simps)
qed

text \<open>C38: no sequence of mask changes, signals, forks and execs makes a thread immune: SIGKILL
  and SIGSTOP are never blocked, so they are deliverable as soon as they are pending, and a
  context that is not manipulated by a tracer never holds SIGCONT together with a stop
  signal, whichever came last having cancelled the other.\<close>

theorem signal_masks_safe:
  assumes "list_all op_valid ops"
  shows "let c = fold sig_apply ops signal_new in
     bit (deliverable c) SIGKILL = bit (sc_pending c) SIGKILL \<and>
     bit (deliverable c) SIGSTOP = bit (sc_pending c) SIGSTOP \<and>
     (list_all op_untraced ops \<longrightarrow> stop_cont_apart c)"
proof -
  have ok: "sig_ok (fold sig_apply ops signal_new)"
    using assms by (simp add: sig_ok_run)
  moreover have "stop_cont_apart (fold sig_apply ops signal_new)" if "list_all op_untraced ops"
    using assms that by (rule apart_run) (simp add: stop_cont_apart_def signal_new_def)
  ultimately show ?thesis by (simp add: bit_deliverable sig_ok_def)
qed

text \<open>A thread that tries to block everything is still killed.\<close>

theorem signal_masks_safe_witness:
  "bit (deliverable (fold sig_apply [Set_Blocked (- 1), Send SIGKILL default_sig_info 0] signal_new)) SIGKILL"
proof -
  have "bit (sc_pending (fold sig_apply [Set_Blocked (- 1), Send SIGKILL default_sig_info 0] signal_new)) SIGKILL"
    by (simp add: enqueue_with_annihilation_def enqueue_signal_def is_rt_signal_def bit_or_iff)
  with signal_masks_safe [of "[Set_Blocked (- 1), Send SIGKILL default_sig_info 0]"]
  show ?thesis by (simp add: Let_def)
qed

text \<open>A group stop armed for \<open>n\<close> threads notifies the parent exactly once, at the arrival
  of the \<open>n\<close>-th thread (the first one when none was expected), however many arrive.\<close>

lemma group_stop_notifies_once:
  "arrivals k (arm_group_stop n c) = map (\<lambda>i. Suc i = max 1 (unat n)) [0..<k]"
  by (simp add: arm_group_stop_def arrivals_armed)

end
