(* ===== verification/Signal_Frame.thy ===== *)
theory Signal_Frame
  imports Signal_Queue Seccomp
begin

text \<open>
  The user-visible side of a signal (\<open>kernel/src/core/signal.rs\<close>): the default actions, the
  \<open>siginfo\<close> and \<open>ucontext\<close> layouts, the frame that \<open>deliver_to_handler\<close> pushes on the user
  stack and that \<open>restore_from_frame\<close> reads back for \<open>rt_sigreturn\<close>. A plain addition that
  overflows panics: the functions that contain one return an option whose \<open>None\<close> is the
  panic. A fault of a user copy is the inner \<open>None\<close>. The user memory and the fault hook are
  those of \<open>User_Mem\<close>.
\<close>

section \<open>Default actions and siginfo\<close>

datatype default_action = Term | Core | Stop | Cont | Ignore

definition default_action :: "nat \<Rightarrow> default_action" where
  "default_action s =
     (if s = 17 \<or> s = 23 \<or> s = 28 then Ignore
      else if s = 18 then Cont
      else if s = 19 \<or> s = 20 \<or> s = 21 \<or> s = 22 then Stop
      else if s = 3 \<or> s = 4 \<or> s = 5 \<or> s = 6 \<or> s = 7 \<or> s = 8 \<or> s = 11 \<or> s = 24 \<or> s = 25 \<or> s = 31
      then Core
      else Term)"

record sig_info =
  si_signo :: u32
  si_errno :: u32
  si_code :: u32
  si_pad0 :: u32
  si_fields :: bytes

abbreviation SI_TIMER :: u32 where "SI_TIMER \<equiv> - 2"
abbreviation SIGINFO_SIZE :: nat where "SIGINFO_SIZE \<equiv> 128"

text \<open>A run of \<open>buf[off..].copy_from_slice(..)\<close> statements, in order.\<close>

definition write_fields :: "(nat \<times> bytes) list \<Rightarrow> bytes \<Rightarrow> bytes" where
  "write_fields fs buf = fold (\<lambda>(off, bs) b. splice off bs b) fs buf"

definition expand :: "nat \<Rightarrow> pending_sig_info \<Rightarrow> sig_info" where
  "expand s p =
     (let info = \<lparr>si_signo = of_nat s, si_errno = 0, si_code = ps_code p, si_pad0 = 0,
                  si_fields = replicate 112 0\<rparr>;
          put = (\<lambda>fs i. i\<lparr>si_fields := write_fields fs (si_fields i)\<rparr>) in
      if s = SIGCHLD then
        put [(0, to_le 4 (ucast (drop_bit 32 (ps_aux p)) :: u32)),
             (8, to_le 4 (ucast (ps_aux p AND 0xffffffff) :: u32))] info
      else if s = 11 \<or> s = 7 \<or> s = 8 \<or> s = 4 then
        put [(0, to_le 8 (ps_aux p))] info
      else if s = 31 \<and> ps_code p = 1 then
        put [(0, to_le 8 (ps_aux p)), (8, to_le 4 (ucast (ps_sival p) :: u32)),
             (12, to_le 4 AUDIT_ARCH_X86_64)] (info\<lparr>si_errno := ps_pad p\<rparr>)
      else if ps_code p = SI_TIMER then
        put [(0, to_le 4 (ucast (ps_aux p) :: u32)), (4, to_le 4 (ps_pad p)),
             (8, to_le 8 (ps_sival p))] info
      else
        put [(0, to_le 4 (ucast (ps_aux p) :: u32)), (8, to_le 8 (ps_sival p))] info)"

definition siginfo_to_bytes :: "sig_info \<Rightarrow> bytes" where
  "siginfo_to_bytes i =
     write_fields
       [(0, to_le 4 (si_signo i)), (4, to_le 4 (si_errno i)), (8, to_le 4 (si_code i)),
        (12, to_le 4 (si_pad0 i)), (16, si_fields i)]
       (replicate SIGINFO_SIZE 0)"

section \<open>The saved machine context\<close>

record sig_context =
  sx_r8 :: u64
  sx_r9 :: u64
  sx_r10 :: u64
  sx_r11 :: u64
  sx_r12 :: u64
  sx_r13 :: u64
  sx_r14 :: u64
  sx_r15 :: u64
  sx_rdi :: u64
  sx_rsi :: u64
  sx_rbp :: u64
  sx_rbx :: u64
  sx_rdx :: u64
  sx_rax :: u64
  sx_rcx :: u64
  sx_rsp :: u64
  sx_rip :: u64
  sx_eflags :: u64
  sx_cs :: u16
  sx_gs :: u16
  sx_fs :: u16
  sx_ss :: u16
  sx_err :: u64
  sx_trapno :: u64
  sx_oldmask :: u64
  sx_cr2 :: u64
  sx_fpstate :: u64
  sx_reserved :: "u64 list"

abbreviation SIGCONTEXT_SIZE :: nat where "SIGCONTEXT_SIZE \<equiv> 256"

definition sigcontext_of_frame :: "trap_frame \<Rightarrow> u64 \<Rightarrow> sig_context" where
  "sigcontext_of_frame tf oldmask =
     \<lparr>sx_r8 = tf_r8 tf, sx_r9 = tf_r9 tf, sx_r10 = tf_r10 tf, sx_r11 = tf_r11 tf,
      sx_r12 = tf_r12 tf, sx_r13 = tf_r13 tf, sx_r14 = tf_r14 tf, sx_r15 = tf_r15 tf,
      sx_rdi = tf_rdi tf, sx_rsi = tf_rsi tf, sx_rbp = tf_rbp tf, sx_rbx = tf_rbx tf,
      sx_rdx = tf_rdx tf, sx_rax = tf_rax tf, sx_rcx = tf_rcx tf, sx_rsp = tf_rsp_user tf,
      sx_rip = tf_rip_user tf, sx_eflags = tf_rflags_user tf,
      sx_cs = 0x23, sx_gs = 0, sx_fs = 0, sx_ss = 0x1B, sx_err = 0, sx_trapno = 0,
      sx_oldmask = oldmask, sx_cr2 = 0, sx_fpstate = 0, sx_reserved = replicate 8 0\<rparr>"

text \<open>The \<open>words\<close> arrays of \<open>to_bytes\<close>, the segment registers and the reserved words, in the
  order they are stored.\<close>

definition sigcontext_fields :: "sig_context \<Rightarrow> (nat \<times> bytes) list" where
  "sigcontext_fields x =
     [(0, to_le 8 (sx_r8 x)), (8, to_le 8 (sx_r9 x)), (16, to_le 8 (sx_r10 x)),
      (24, to_le 8 (sx_r11 x)), (32, to_le 8 (sx_r12 x)), (40, to_le 8 (sx_r13 x)),
      (48, to_le 8 (sx_r14 x)), (56, to_le 8 (sx_r15 x)), (64, to_le 8 (sx_rdi x)),
      (72, to_le 8 (sx_rsi x)), (80, to_le 8 (sx_rbp x)), (88, to_le 8 (sx_rbx x)),
      (96, to_le 8 (sx_rdx x)), (104, to_le 8 (sx_rax x)), (112, to_le 8 (sx_rcx x)),
      (120, to_le 8 (sx_rsp x)), (128, to_le 8 (sx_rip x)), (136, to_le 8 (sx_eflags x)),
      (152, to_le 8 (sx_err x)),
      (160, to_le 8 (sx_trapno x)), (168, to_le 8 (sx_oldmask x)), (176, to_le 8 (sx_cr2 x)),
      (184, to_le 8 (sx_fpstate x)),
      (144, to_le 2 (sx_cs x)), (146, to_le 2 (sx_gs x)), (148, to_le 2 (sx_fs x)),
      (150, to_le 2 (sx_ss x))]
     @ map (\<lambda>i. (192 + i * 8, to_le 8 (sx_reserved x ! i))) [0..<8]"

definition sigcontext_to_bytes :: "sig_context \<Rightarrow> bytes" where
  "sigcontext_to_bytes x = write_fields (sigcontext_fields x) (replicate SIGCONTEXT_SIZE 0)"

definition rd64 :: "bytes \<Rightarrow> nat \<Rightarrow> u64" where
  "rd64 buf off = from_le (slice off 8 buf)"

definition rd16 :: "bytes \<Rightarrow> nat \<Rightarrow> u16" where
  "rd16 buf off = from_le (slice off 2 buf)"

definition sigcontext_from_bytes :: "bytes \<Rightarrow> sig_context" where
  "sigcontext_from_bytes buf =
     \<lparr>sx_r8 = rd64 buf 0, sx_r9 = rd64 buf 8, sx_r10 = rd64 buf 16, sx_r11 = rd64 buf 24,
      sx_r12 = rd64 buf 32, sx_r13 = rd64 buf 40, sx_r14 = rd64 buf 48, sx_r15 = rd64 buf 56,
      sx_rdi = rd64 buf 64, sx_rsi = rd64 buf 72, sx_rbp = rd64 buf 80, sx_rbx = rd64 buf 88,
      sx_rdx = rd64 buf 96, sx_rax = rd64 buf 104, sx_rcx = rd64 buf 112, sx_rsp = rd64 buf 120,
      sx_rip = rd64 buf 128, sx_eflags = rd64 buf 136,
      sx_cs = rd16 buf 144, sx_gs = rd16 buf 146, sx_fs = rd16 buf 148, sx_ss = rd16 buf 150,
      sx_err = rd64 buf 152, sx_trapno = rd64 buf 160, sx_oldmask = rd64 buf 168,
      sx_cr2 = rd64 buf 176, sx_fpstate = rd64 buf 184,
      sx_reserved = map (\<lambda>i. rd64 buf (192 + i * 8)) [0..<8]\<rparr>"

section \<open>The user context\<close>

abbreviation UC_SIZE :: nat where "UC_SIZE \<equiv> 936"
abbreviation UC_OFF_MCONTEXT :: nat where "UC_OFF_MCONTEXT \<equiv> 40"
abbreviation UC_OFF_SIGMASK :: nat where "UC_OFF_SIGMASK \<equiv> 296"

definition write_ucontext :: "u64 \<Rightarrow> alt_stack \<Rightarrow> sig_context \<Rightarrow> bytes \<Rightarrow> bytes" where
  "write_ucontext sigmask alt x buf =
     write_fields
       [(0, replicate 8 0), (8, replicate 8 0), (16, to_le 8 (as_sp alt)),
        (24, to_le 4 (as_flags alt)), (28, replicate 4 0), (32, to_le 8 (as_size alt)),
        (UC_OFF_MCONTEXT, sigcontext_to_bytes x), (UC_OFF_SIGMASK, to_le 8 sigmask),
        (UC_OFF_SIGMASK + 8, replicate 120 0)] buf"

definition read_sigcontext_from_ucontext :: "bytes \<Rightarrow> sig_context" where
  "read_sigcontext_from_ucontext buf =
     sigcontext_from_bytes (slice UC_OFF_MCONTEXT SIGCONTEXT_SIZE buf)"

definition read_sigmask_from_ucontext :: "bytes \<Rightarrow> u64" where
  "read_sigmask_from_ucontext buf = from_le (slice UC_OFF_SIGMASK 8 buf)"

section \<open>Entering and leaving a handler\<close>

record sig_action =
  sa_handler :: u64
  sa_flags :: u64
  sa_restorer :: u64
  sa_mask :: u64

definition default_sig_action :: sig_action where
  "default_sig_action = \<lparr>sa_handler = 0, sa_flags = 0, sa_restorer = 0, sa_mask = 0\<rparr>"

abbreviation SA_ONSTACK :: u64 where "SA_ONSTACK \<equiv> 0x08000000"
abbreviation SA_RESTART :: u64 where "SA_RESTART \<equiv> 0x10000000"
abbreviation SA_NODEFER :: u64 where "SA_NODEFER \<equiv> 0x40000000"
abbreviation SA_RESETHAND :: u64 where "SA_RESETHAND \<equiv> 0x80000000"
abbreviation FRAME_TOTAL :: u64 where "FRAME_TOTAL \<equiv> 1072"
abbreviation USER_RFLAGS_MASK :: u64 where "USER_RFLAGS_MASK \<equiv> 0x200CD5"

definition is_on_altstack :: "u64 \<Rightarrow> alt_stack \<Rightarrow> bool option" where
  "is_on_altstack rsp alt =
     (if \<not> alt_is_enabled alt \<or> rsp < as_sp alt then Some False
      else case checked_add (as_sp alt) (as_size alt) of
        None \<Rightarrow> None
      | Some limit \<Rightarrow> Some (rsp < limit))"

text \<open>The restart of an interrupted system call: back over the \<open>syscall\<close> instruction.\<close>

definition restart_syscall :: "sig_action \<Rightarrow> trap_frame \<Rightarrow> trap_frame" where
  "restart_syscall act tf =
     (if tf_rax tf = - 4 \<and> sa_flags act AND SA_RESTART \<noteq> 0 \<and>
         tf_orig_rax tf \<notin> {7, 23, 34, 128, 130, 232, 270, 271, 281, 441}
      then tf\<lparr>tf_rip_user := tf_rip_user tf - 2, tf_rax := tf_orig_rax tf\<rparr> else tf)"

definition handler_stack :: "sig_action \<Rightarrow> alt_stack \<Rightarrow> trap_frame \<Rightarrow> u64 option" where
  "handler_stack act alt tf =
     (if sa_flags act AND SA_ONSTACK \<noteq> 0 \<and> alt_is_enabled alt then
        (case is_on_altstack (tf_rsp_user tf) alt of
           None \<Rightarrow> None
         | Some True \<Rightarrow> Some (tf_rsp_user tf)
         | Some False \<Rightarrow> checked_add (as_sp alt) (as_size alt))
      else Some (tf_rsp_user tf))"

definition frame_base_of :: "u64 \<Rightarrow> u64" where
  "frame_base_of base_rsp = (((base_rsp AND NOT 15) - FRAME_TOTAL) AND NOT 15) - 8"

definition enter_handler ::
  "nat \<Rightarrow> sig_action \<Rightarrow> u64 \<Rightarrow> u64 \<Rightarrow> u64 \<Rightarrow> trap_frame \<Rightarrow> trap_frame" where
  "enter_handler s act frame_base uc_addr info_addr tf =
     tf\<lparr>tf_rip_user := sa_handler act, tf_rsp_user := frame_base, tf_rdi := of_nat s,
        tf_rsi := info_addr, tf_rdx := uc_addr, tf_rax := 0, tf_r8 := 0, tf_r9 := 0,
        tf_r10 := 0, tf_rflags_user := tf_rflags_user tf OR 0x202\<rparr>"

definition handler_mask :: "nat \<Rightarrow> sig_action \<Rightarrow> u64 \<Rightarrow> u64" where
  "handler_mask s act pre_blocked =
     (let m = pre_blocked OR sa_mask act in
      if sa_flags act AND SA_NODEFER = 0 then m OR sig_bit s else m)"

definition deliver_to_handler ::
  "pf_hook option \<Rightarrow> nat \<Rightarrow> sig_action \<Rightarrow> u64 \<Rightarrow> sig_info \<Rightarrow> alt_stack \<Rightarrow>
   trap_frame \<Rightarrow> user_mem \<Rightarrow> (u64 option \<times> trap_frame \<times> user_mem) option" where
  "deliver_to_handler hook s act pre_blocked info alt tf0 m =
     (let tf = restart_syscall act tf0 in
      case handler_stack act alt tf of None \<Rightarrow> None | Some base_rsp \<Rightarrow>
      (let frame_base = frame_base_of base_rsp in
       case checked_add frame_base 8 of None \<Rightarrow> None | Some uc_addr \<Rightarrow>
       case checked_add uc_addr (of_nat UC_SIZE) of None \<Rightarrow> None | Some info_addr \<Rightarrow>
       (case copy_to_user hook frame_base (to_le 8 (sa_restorer act)) m of
          (False, m1) \<Rightarrow> Some (None, tf, m1)
        | (True, m1) \<Rightarrow>
        (case copy_to_user hook uc_addr
                (write_ucontext pre_blocked alt (sigcontext_of_frame tf pre_blocked)
                   (replicate UC_SIZE 0)) m1 of
           (False, m2) \<Rightarrow> Some (None, tf, m2)
         | (True, m2) \<Rightarrow>
         (case copy_to_user hook info_addr (siginfo_to_bytes info) m2 of
            (False, m3) \<Rightarrow> Some (None, tf, m3)
          | (True, m3) \<Rightarrow>
              Some (Some (handler_mask s act pre_blocked),
                    enter_handler s act frame_base uc_addr info_addr tf, m3))))))"

definition restore_from_frame ::
  "pf_hook option \<Rightarrow> trap_frame \<Rightarrow> user_mem \<Rightarrow> u64 option \<times> trap_frame \<times> user_mem" where
  "restore_from_frame hook tf m =
     (case copy_from_user hook (tf_rsp_user tf) UC_SIZE m of
        (None, m') \<Rightarrow> (None, tf, m')
      | (Some buf, m') \<Rightarrow>
          (let x = read_sigcontext_from_ucontext buf in
           (Some (read_sigmask_from_ucontext buf),
            tf\<lparr>tf_r8 := sx_r8 x, tf_r9 := sx_r9 x, tf_r10 := sx_r10 x, tf_r11 := sx_r11 x,
               tf_rcx := sx_rcx x, tf_r12 := sx_r12 x, tf_r13 := sx_r13 x, tf_r14 := sx_r14 x,
               tf_r15 := sx_r15 x, tf_rdi := sx_rdi x, tf_rsi := sx_rsi x, tf_rbp := sx_rbp x,
               tf_rbx := sx_rbx x, tf_rdx := sx_rdx x, tf_rax := sx_rax x,
               tf_rsp_user := sx_rsp x, tf_rip_user := sx_rip x,
               tf_rflags_user := (sx_eflags x AND USER_RFLAGS_MASK) OR 0x202\<rparr>,
            m')))"

section \<open>Reading back what was written\<close>

text \<open>Fields that do not overlap can all be read back.\<close>

definition apart :: "nat \<times> bytes \<Rightarrow> nat \<times> bytes \<Rightarrow> bool" where
  "apart f g \<longleftrightarrow> fst f + length (snd f) \<le> fst g \<or> fst g + length (snd g) \<le> fst f"

fun fields_apart :: "(nat \<times> bytes) list \<Rightarrow> bool" where
  "fields_apart [] \<longleftrightarrow> True"
| "fields_apart (f # fs) \<longleftrightarrow> list_all (apart f) fs \<and> fields_apart fs"

definition fields_fit :: "nat \<Rightarrow> (nat \<times> bytes) list \<Rightarrow> bool" where
  "fields_fit n fs \<longleftrightarrow> list_all (\<lambda>(off, bs). off + length bs \<le> n) fs"

lemma length_write_fields:
  "fields_fit (length buf) fs \<Longrightarrow> length (write_fields fs buf) = length buf"
  by (induction fs arbitrary: buf)
    (auto simp: write_fields_def fields_fit_def length_splice)

lemma slice_write_other:
  "fields_fit (length buf) fs \<Longrightarrow> list_all (apart (off, bs)) fs \<Longrightarrow> n = length bs \<Longrightarrow>
     slice off n (write_fields fs buf) = slice off n buf"
proof (induction fs arbitrary: buf)
  case (Cons f fs)
  obtain o2 b2 where f: "f = (o2, b2)" by (cases f)
  have "slice off n (write_fields fs (splice o2 b2 buf)) = slice off n (splice o2 b2 buf)"
    using Cons.prems by (intro Cons.IH) (simp_all add: f fields_fit_def length_splice)
  also have "\<dots> = slice off n buf"
    using Cons.prems by (intro slice_splice_other) (auto simp: f fields_fit_def apart_def)
  finally show ?case by (simp add: f write_fields_def)
qed (simp add: write_fields_def)

lemma slice_write_field:
  "fields_fit (length buf) fs \<Longrightarrow> fields_apart fs \<Longrightarrow> (off, bs) \<in> set fs \<Longrightarrow> n = length bs \<Longrightarrow>
     slice off n (write_fields fs buf) = bs"
proof (induction fs arbitrary: buf)
  case (Cons f fs)
  obtain o2 b2 where f: "f = (o2, b2)" by (cases f)
  have fit: "fields_fit (length (splice o2 b2 buf)) fs" "o2 + length b2 \<le> length buf"
    using Cons.prems(1) by (simp_all add: f fields_fit_def length_splice)
  show ?case
  proof (cases "(off, bs) \<in> set fs")
    case True
    then show ?thesis using Cons fit by (simp add: f write_fields_def)
  next
    case False
    then have eq: "off = o2" "bs = b2" using Cons.prems(3) f by auto
    then have "slice off n (write_fields fs (splice o2 b2 buf)) = slice off n (splice o2 b2 buf)"
      using Cons.prems fit(1) f by (intro slice_write_other [where bs = bs]) simp_all
    also have "\<dots> = bs" using eq fit(2) Cons.prems(4) by (simp add: slice_splice_same)
    finally show ?thesis by (simp add: f write_fields_def)
  qed
qed simp

text \<open>The offsets of the two layouts.\<close>

lemma upt_8: "[0..<8] = [0, 1, 2, 3, 4, 5, 6, 7]"
  by (simp add: upt_rec)

lemma sigcontext_layout:
  "fields_fit 256 (sigcontext_fields x)" "fields_apart (sigcontext_fields x)"
  by (simp_all add: sigcontext_fields_def fields_fit_def apart_def upt_8)

lemma length_sigcontext [simp]: "length (sigcontext_to_bytes x) = 256"
  by (simp add: sigcontext_to_bytes_def length_write_fields sigcontext_layout)

lemma sigcontext_slices:
  "list_all (\<lambda>(off, bs). slice off (length bs) (sigcontext_to_bytes x) = bs) (sigcontext_fields x)"
  by (auto simp: list_all_iff sigcontext_to_bytes_def intro!: slice_write_field sigcontext_layout)

lemma sigcontext_round_trip:
  assumes "length (sx_reserved x) = 8"
  shows "sigcontext_from_bytes (sigcontext_to_bytes x) = x"
proof -
  have "sx_reserved x = map ((!) (sx_reserved x)) [0..<8]" using assms by (metis map_nth)
  then show ?thesis
    using sigcontext_slices [of x]
    by (simp add: sigcontext_from_bytes_def rd64_def rd16_def sigcontext_fields_def upt_8)
qed

lemma ucontext_round_trip:
  assumes "length buf = UC_SIZE" and "length (sx_reserved x) = 8"
  shows "read_sigcontext_from_ucontext (write_ucontext sigmask alt x buf) = x"
    and "read_sigmask_from_ucontext (write_ucontext sigmask alt x buf) = sigmask"
    and "length (write_ucontext sigmask alt x buf) = UC_SIZE"
proof -
  have "slice off n (write_ucontext sigmask alt x buf) = bs"
    if "(off, bs) \<in> {(UC_OFF_MCONTEXT, sigcontext_to_bytes x), (UC_OFF_SIGMASK, to_le 8 sigmask)}"
      "n = length bs" for off n bs
    unfolding write_ucontext_def
    using that assms(1) by (intro slice_write_field) (auto simp: fields_fit_def apart_def)
  from this [of UC_OFF_MCONTEXT _ 256] this [of UC_OFF_SIGMASK _ 8]
  show "read_sigcontext_from_ucontext (write_ucontext sigmask alt x buf) = x"
    "read_sigmask_from_ucontext (write_ucontext sigmask alt x buf) = sigmask"
    by (simp_all add: read_sigcontext_from_ucontext_def read_sigmask_from_ucontext_def
        sigcontext_round_trip assms(2))
  show "length (write_ucontext sigmask alt x buf) = UC_SIZE"
    unfolding write_ucontext_def
    using assms(1) by (subst length_write_fields) (simp_all add: fields_fit_def)
qed

section \<open>The frame on the user stack\<close>

lemma reserved_sigcontext_of_frame [simp]: "length (sx_reserved (sigcontext_of_frame tf m)) = 8"
  by (simp add: sigcontext_of_frame_def)

lemma length_siginfo_to_bytes:
  assumes "length (si_fields i) = 112"
  shows "length (siginfo_to_bytes i) = 128"
  unfolding siginfo_to_bytes_def
  by (subst length_write_fields) (simp_all add: fields_fit_def assms)

lemma length_expand [simp]: "length (si_fields (expand s p)) = 112"
  by (simp add: expand_def Let_def length_write_fields fields_fit_def)

lemma deliver_SomeD:
  assumes "deliver_to_handler hook s act pre info alt tf0 m = Some (Some nb, tf', m')"
  obtains base_rsp m1 m2 where
    "handler_stack act alt (restart_syscall act tf0) = Some base_rsp"
    "unat (frame_base_of base_rsp) + 944 < 2 ^ 64"
    "copy_to_user hook (frame_base_of base_rsp) (to_le 8 (sa_restorer act)) m = (True, m1)"
    "copy_to_user hook (frame_base_of base_rsp + 8)
       (write_ucontext pre alt (sigcontext_of_frame (restart_syscall act tf0) pre) (replicate UC_SIZE 0)) m1
     = (True, m2)"
    "copy_to_user hook (frame_base_of base_rsp + 944) (siginfo_to_bytes info) m2 = (True, m')"
    "tf' = enter_handler s act (frame_base_of base_rsp) (frame_base_of base_rsp + 8)
       (frame_base_of base_rsp + 944) (restart_syscall act tf0)"
    "nb = handler_mask s act pre"
proof -
  obtain base_rsp where h: "handler_stack act alt (restart_syscall act tf0) = Some base_rsp"
    using assms by (auto simp: deliver_to_handler_def Let_def split: option.splits)
  let ?f = "frame_base_of base_rsp"
  have r: "unat ?f + 8 < 2 ^ 64" "unat (?f + 8) + 936 < 2 ^ 64"
    using assms h
    by (auto simp: deliver_to_handler_def Let_def checked_add_def split: option.splits if_splits)
  then have r2: "unat ?f + 944 < 2 ^ 64"
    using unat_add_in_range [of ?f 8] by simp
  have eq: "?f + 8 + 936 = ?f + 944" by simp
  from assms h r that [OF h r2] show ?thesis
    by (auto simp: deliver_to_handler_def Let_def checked_add_def eq
        split: prod.splits bool.splits if_splits)
qed

lemma delivered_frame:
  assumes hook: "hook_monotone hook"
    and d: "deliver_to_handler hook s act pre info alt tf0 m = Some (Some nb, tf', m')"
  shows "range_usable Write (tf_rsp_user tf' + 8) UC_SIZE m'"
    and "read_bytes m' (tf_rsp_user tf' + 8) UC_SIZE =
      write_ucontext pre alt (sigcontext_of_frame (restart_syscall act tf0) pre) (replicate UC_SIZE 0)"
    and "read_bytes m' (tf_rsp_user tf') 8 = to_le 8 (sa_restorer act)"
proof -
  let ?uc = "write_ucontext pre alt (sigcontext_of_frame (restart_syscall act tf0) pre) (replicate UC_SIZE 0)"
  obtain b m1 m2 where fit: "unat (frame_base_of b) + 944 < 2 ^ 64"
    and c1: "copy_to_user hook (frame_base_of b) (to_le 8 (sa_restorer act)) m = (True, m1)"
    and c2: "copy_to_user hook (frame_base_of b + 8) ?uc m1 = (True, m2)"
    and c3: "copy_to_user hook (frame_base_of b + 944) (siginfo_to_bytes info) m2 = (True, m')"
    and tf': "tf_rsp_user tf' = frame_base_of b"
    using d by (rule deliver_SomeD) (simp add: enter_handler_def)
  let ?f = "frame_base_of b"
  have len: "length ?uc = UC_SIZE" by (simp add: ucontext_round_trip)
  have at: "unat (?f + 8) = unat ?f + 8" "unat (?f + 944) = unat ?f + 944"
    using fit by (simp_all add: unat_add_in_range)
  have u1: "range_usable Write ?f 8 m1" "read_bytes m1 ?f 8 = to_le 8 (sa_restorer act)"
    using copy_to_user_TrueD [OF hook c1] by (simp_all add: to_le_def)
  have u2: "range_usable Write (?f + 8) UC_SIZE m2" "read_bytes m2 (?f + 8) UC_SIZE = ?uc"
    using copy_to_user_TrueD [OF hook c2] len by (metis length_0_conv zero_neq_numeral)+
  have k2: "range_usable Write ?f 8 m2 \<and> read_bytes m2 ?f 8 = read_bytes m1 ?f 8"
    using copy_to_user_keeps [OF hook c2 u1(1)] at by simp
  show "range_usable Write (tf_rsp_user tf' + 8) UC_SIZE m'"
    "read_bytes m' (tf_rsp_user tf' + 8) UC_SIZE = ?uc"
    using copy_to_user_keeps [OF hook c3 u2(1)] at u2(2) by (simp_all add: tf')
  show "read_bytes m' (tf_rsp_user tf') 8 = to_le 8 (sa_restorer act)"
    using copy_to_user_keeps [OF hook c3 conjunct1 [OF k2]] at u1(2) k2 by (simp add: tf')
qed

text \<open>With room on the stack the handler is reached.\<close>

lemma range_usable_sub:
  assumes "range_usable k a n m" and "i + j \<le> n"
  shows "range_usable k (a + of_nat i) j m"
proof -
  have lim: "unat a + n \<le> 2 ^ 63" using assms(1) by (simp add: range_usable_def)
  then have "unat (a + of_nat i) = unat a + i" using assms(2) by (intro unat_addr_plus [OF lim]) linarith
  moreover have "page_usable k (um_flags m (page_of (a + of_nat i + of_nat q)))" if "q < j" for q
  proof -
    have "page_usable k (um_flags m (page_of (a + of_nat (i + q))))"
      using assms that by (simp add: range_usable_def del: of_nat_add)
    then show ?thesis by (simp add: add.assoc)
  qed
  ultimately show ?thesis using assms by (simp add: range_usable_def)
qed

lemma copy_to_usable:
  "range_usable Write a (length bs) m \<Longrightarrow> copy_to_user hook a bs m = (True, write_bytes a bs m)"
  by (simp add: copy_to_user_def access_ok_of_usable)

lemma deliver_reaches:
  assumes "handler_stack act alt (restart_syscall act tf) = Some b"
    and u: "range_usable Write (frame_base_of b) 1072 m"
    and "length (si_fields info) = 112"
  shows "\<exists>m'. deliver_to_handler hook s act pre info alt tf m =
    Some (Some (handler_mask s act pre),
          enter_handler s act (frame_base_of b) (frame_base_of b + 8) (frame_base_of b + 944)
            (restart_syscall act tf), m')"
proof -
  let ?f = "frame_base_of b"
  have lim: "unat ?f + 1072 \<le> 2 ^ 63" using u by (simp add: range_usable_def)
  have at: "unat (?f + 8) = unat ?f + 8" using lim by (simp add: unat_add_in_range)
  have eq: "?f + 8 + 936 = ?f + 944" by simp
  have sub: "range_usable Write ?f 8 m" "range_usable Write (?f + 8) 936 m"
    "range_usable Write (?f + 944) 128 m"
    using range_usable_sub [OF u, of 0 8] range_usable_sub [OF u, of 8 936]
      range_usable_sub [OF u, of 944 128] by simp_all
  show ?thesis
    using assms(1,3) lim sub at
    by (simp add: deliver_to_handler_def Let_def checked_add_def eq copy_to_usable
        ucontext_round_trip length_siginfo_to_bytes)
qed

section \<open>Stack pointers that stop the kernel\<close>

text \<open>The frame address is computed with \<open>wrapping_sub\<close>, the addresses of its parts with a
  plain \<open>+\<close>: a stack pointer between 144 and 1071 wraps below zero and then overflows.\<close>

lemma align16: "unat (w AND NOT 15 :: u64) = unat w div 16 * 16"
  using unat_align_down [of w 4] by (simp add: mask_eq_exp_minus_1)

lemma unat_sub_wrap: "unat x < unat y \<Longrightarrow> unat (x - y :: u64) = 2 ^ 64 + unat x - unat y"
  by (simp add: unat_sub_if_size word_size)

lemma small_stack_panics:
  assumes "144 \<le> unat (tf_rsp_user tf)" and "unat (tf_rsp_user tf) < 1072"
    and "sa_flags act AND SA_ONSTACK = 0"
  shows "deliver_to_handler hook s act pre info alt tf m = None"
proof -
  let ?r = "tf_rsp_user tf"
  have st: "handler_stack act alt (restart_syscall act tf) = Some ?r"
    using assms(3) by (simp add: handler_stack_def restart_syscall_def)
  define q where "q = unat ?r div 16"
  have q: "9 \<le> q" "q < 67" using assms(1,2) by (simp_all add: q_def)
  have a: "unat (?r AND NOT 15) = q * 16" by (simp only: align16 q_def)
  then have w: "unat ((?r AND NOT 15) - FRAME_TOTAL) = 2 ^ 64 + q * 16 - 1072"
    using q by (subst unat_sub_wrap) simp_all
  have "2 ^ 64 + q * 16 - 1072 = (2 ^ 60 + q - 67) * (16 :: nat)"
    using q by (simp add: diff_mult_distrib)
  then have "(2 ^ 64 + q * 16 - 1072) div 16 * 16 = 2 ^ 64 + q * 16 - (1072 :: nat)"
    by (simp only: div_mult_self_is_m zero_less_numeral)
  then have x: "unat (((?r AND NOT 15) - FRAME_TOTAL) AND NOT 15) = 2 ^ 64 + q * 16 - 1072"
    by (simp only: align16 w)
  let ?x = "((?r AND NOT 15) - FRAME_TOTAL) AND NOT 15"
  have "checked_add (?x - 8) 8 = None \<or> checked_add (?x - 8) 8 = Some ?x"
    by (simp add: checked_add_def)
  moreover have "checked_add ?x (of_nat UC_SIZE) = None"
    using x q by (simp add: checked_add_def)
  ultimately show ?thesis
    by (auto simp: deliver_to_handler_def st Let_def frame_base_of_def)
qed

text \<open>An alternate stack whose end exceeds the address space does the same for every stack
  pointer.\<close>

lemma altstack_overflow_panics:
  assumes "alt_is_enabled alt" and "2 ^ 64 \<le> unat (as_sp alt) + unat (as_size alt)"
    and "sa_flags act AND SA_ONSTACK \<noteq> 0"
  shows "deliver_to_handler hook s act pre info alt tf m = None"
proof -
  have "checked_add (as_sp alt) (as_size alt) = None" using assms(2) by (simp add: checked_add_def)
  then have "handler_stack act alt (restart_syscall act tf) = None"
    using assms(1,3) by (simp add: handler_stack_def is_on_altstack_def)
  then show ?thesis by (simp add: deliver_to_handler_def Let_def)
qed

section \<open>Properties\<close>

text \<open>C35: a handler that returns resumes the interrupted program. Let a signal be delivered to a
  handler, and let the handler later execute \<open>ret\<close> into the restorer, which enters
  \<open>rt_sigreturn\<close> with the stack pointer eight bytes above the frame base and the saved context
  still readable and unchanged. Then the return address the handler pops is the restorer,
  every general register, the instruction pointer and the stack pointer get back the value
  they had at delivery (after the restart adjustment of an interrupted system call), the
  flags come back restricted to the user bits, and the signal mask is the one before
  delivery.\<close>

theorem signal_frame_round_trip:
  assumes "hook_monotone hook"
    and "deliver_to_handler hook s act pre info alt tf0 m = Some (Some nb, tf', m')"
    and "tf_rsp_user tf'' = tf_rsp_user tf' + 8"
    and "fst (copy_from_user hook (tf_rsp_user tf'') UC_SIZE m'')
         = fst (copy_from_user hook (tf_rsp_user tf' + 8) UC_SIZE m')"
  shows "let tf = restart_syscall act tf0 in
      from_le (read_bytes m' (tf_rsp_user tf') 8) = sa_restorer act \<and>
      fst (restore_from_frame hook tf'' m'') = Some pre \<and>
      fst (snd (restore_from_frame hook tf'' m'')) =
        tf\<lparr>tf_orig_rax := tf_orig_rax tf'',
           tf_rflags_user := (tf_rflags_user tf AND USER_RFLAGS_MASK) OR 0x202\<rparr>"
proof -
  note f = delivered_frame [OF assms(1,2)]
  let ?tf = "restart_syscall act tf0"
  have "fst (copy_from_user hook (tf_rsp_user tf' + 8) UC_SIZE m') =
      Some (write_ucontext pre alt (sigcontext_of_frame ?tf pre) (replicate UC_SIZE 0))"
    using copy_from_usable [OF f(1)] f(2) by simp
  then obtain m3 where c: "copy_from_user hook (tf_rsp_user tf'') UC_SIZE m'' =
      (Some (write_ucontext pre alt (sigcontext_of_frame ?tf pre) (replicate UC_SIZE 0)), m3)"
    using assms(3,4) by (metis prod.collapse)
  show ?thesis
    by (simp add: restore_from_frame_def c f(3) ucontext_round_trip sigcontext_of_frame_def Let_def)
qed

definition demo_frame :: trap_frame where
  "demo_frame =
     \<lparr>tf_rax = 0, tf_rdi = 1, tf_rsi = 2, tf_rdx = 3, tf_r10 = 4, tf_r8 = 5, tf_r9 = 6,
      tf_rip_user = 0x401000, tf_rflags_user = 0x246, tf_rsp_user = 0x10000, tf_rbx = 7,
      tf_rbp = 8, tf_r12 = 9, tf_r13 = 10, tf_r14 = 11, tf_r15 = 12, tf_orig_rax = 0,
      tf_rcx = 13, tf_r11 = 14\<rparr>"

definition demo_mem :: user_mem where
  "demo_mem = \<lparr>um_byte = (\<lambda>_. 0), um_flags = (\<lambda>_. Some (True, True, True))\<rparr>"

definition demo_action :: sig_action where
  "demo_action = \<lparr>sa_handler = 0x402000, sa_flags = 0, sa_restorer = 0x403000, sa_mask = 0\<rparr>"

lemma demo_delivered:
  "\<exists>nb tf' m'. deliver_to_handler None 10 demo_action 0 (expand 10 default_sig_info) alt_disabled
     demo_frame demo_mem = Some (Some nb, tf', m')"
proof -
  have h: "handler_stack demo_action alt_disabled (restart_syscall demo_action demo_frame) = Some 0x10000"
    by (simp add: handler_stack_def demo_action_def restart_syscall_def demo_frame_def)
  have f: "frame_base_of 0x10000 = 0xfbc8" by (simp add: frame_base_of_def)
  have u: "range_usable Write 0xfbc8 1072 demo_mem"
    by (simp add: range_usable_def demo_mem_def page_usable_def)
  show ?thesis
    using deliver_reaches [OF h, unfolded f, OF u length_expand] by blast
qed

theorem signal_frame_round_trip_witness:
  "\<exists>nb tf' m'. deliver_to_handler None 10 demo_action 0 (expand 10 default_sig_info) alt_disabled
       demo_frame demo_mem = Some (Some nb, tf', m') \<and>
     fst (restore_from_frame None (tf'\<lparr>tf_rsp_user := tf_rsp_user tf' + 8\<rparr>) m') = Some 0 \<and>
     tf_r12 (fst (snd (restore_from_frame None (tf'\<lparr>tf_rsp_user := tf_rsp_user tf' + 8\<rparr>) m'))) = 9"
proof -
  obtain nb tf' m' where d: "deliver_to_handler None 10 demo_action 0 (expand 10 default_sig_info)
      alt_disabled demo_frame demo_mem = Some (Some nb, tf', m')"
    using demo_delivered by blast
  have "restart_syscall demo_action demo_frame = demo_frame" "tf_r12 demo_frame = 9"
    by (simp_all add: restart_syscall_def demo_action_def demo_frame_def)
  with signal_frame_round_trip [OF hook_monotone_None d, of "tf'\<lparr>tf_rsp_user := tf_rsp_user tf' + 8\<rparr>" m']
  show ?thesis
    by (intro exI [of _ nb] exI [of _ tf'] exI [of _ m']) (simp add: d Let_def)
qed

text \<open>C36: \<open>rt_sigreturn\<close> cannot raise privilege. Whatever bytes the program puts where the
  saved context is expected, the flags it resumes with have interrupts enabled and no bit
  outside the arithmetic flags, direction, overflow and CPUID (in particular not the I/O
  privilege level, the trap flag or the nested-task flag), and a fault of the read leaves the
  registers alone.\<close>

theorem sigreturn_flags_confined:
  "case restore_from_frame hook tf m of
     (None, tf', m') \<Rightarrow> tf' = tf
   | (Some blocked, tf', m') \<Rightarrow>
       tf_rflags_user tf' AND 0x202 = 0x202 \<and> tf_rflags_user tf' AND NOT 0x200ED7 = 0 \<and>
       tf_orig_rax tf' = tf_orig_rax tf"
proof -
  have "((x AND f) OR c) AND n = 0" if "f AND n = 0" "c AND n = 0" for x f c n :: u64
    using that by (simp add: bit.conj_disj_distrib2 and.assoc)
  from this [of USER_RFLAGS_MASK "NOT 0x200ED7" "0x202"]
  have "((x AND USER_RFLAGS_MASK) OR 0x202) AND NOT 0x200ED7 = 0" for x by simp
  moreover have "((x AND USER_RFLAGS_MASK) OR 0x202) AND 0x202 = 0x202" for x :: u64
    by (intro bit_word_eqI) (auto simp: bit_or_iff bit_and_iff)
  ultimately show ?thesis
    by (simp add: restore_from_frame_def Let_def split: prod.splits option.splits)
qed

end
