(* ===== verification/Signal_Deliver.thy ===== *)
theory Signal_Deliver
  imports Signal_Frame
begin

text \<open>
  Signals between the system-call layer and the user frame (\<open>kernel/src/core/signals.rs\<close>,
  \<open>kernel/src/syscall/signal.rs\<close>): the mask, action and alternate-stack calls of a thread,
  the signal a processor fault raises, the selection loop of \<open>deliver_pending_signals\<close>, the
  check on the way out of an interrupt, and \<open>rt_sigreturn\<close>. A thread is its signal context, the
  action table of its process (64 entries), its trap frame and its memory. The thread looked
  at is the current one, so the \<open>None\<close> branches of the process-table lookups do not arise.
  The report to a tracer (\<open>forward_signal_to_tracer_if_any\<close>) does nothing for an untraced
  thread, which is what \<open>deliver_pending_signals\<close> below is about; the selection loop itself
  keeps the traced case. How a terminated or stopped thread leaves the processor is the
  scheduler's part; here it is the outcome.
\<close>

section \<open>Masks and actions\<close>

abbreviation SIG_BLOCK :: u32 where "SIG_BLOCK \<equiv> 0"
abbreviation SIG_UNBLOCK :: u32 where "SIG_UNBLOCK \<equiv> 1"
abbreviation SIG_SETMASK :: u32 where "SIG_SETMASK \<equiv> 2"

definition sigprocmask ::
  "u32 \<Rightarrow> u64 \<Rightarrow> signal_context \<Rightarrow> (errno + u64) \<times> signal_context" where
  "sigprocmask how new_set c =
     (let kept = NOT (sig_bit SIGKILL OR sig_bit SIGSTOP); old = sc_blocked c in
      if how = SIG_BLOCK then (Inr old, set_blocked (old OR (new_set AND kept)) c)
      else if how = SIG_UNBLOCK then (Inr old, set_blocked (old AND NOT new_set) c)
      else if how = SIG_SETMASK then (Inr old, set_blocked (new_set AND kept) c)
      else (Inl Errno_INVAL, c))"

definition set_sigaction ::
  "nat \<Rightarrow> sig_action \<Rightarrow> sig_action list \<Rightarrow> (errno + unit) \<times> sig_action list" where
  "set_sigaction s act acts =
     (if s = 0 \<or> NSIG \<le> s \<or> s = SIGKILL \<or> s = SIGSTOP then (Inl Errno_INVAL, acts)
      else (Inr (), acts[s := act]))"

definition sys_rt_sigprocmask ::
  "pf_hook option \<Rightarrow> u64 \<Rightarrow> u64 \<Rightarrow> u64 \<Rightarrow> u64 \<Rightarrow> signal_context \<times> user_mem \<Rightarrow>
   int \<times> signal_context \<times> user_mem" where
  "sys_rt_sigprocmask hook how set_ptr oldset sigsetsize st =
     (case st of (c, m) \<Rightarrow>
      let finish = (\<lambda>old c' m'.
        if oldset = 0 then (0, c', m')
        else case copy_to_user hook oldset (to_le 8 old) m' of
          (True, m'') \<Rightarrow> (0, c', m'')
        | (False, m'') \<Rightarrow> (EFAULT, c', m'')) in
      if sigsetsize \<noteq> 8 then (EINVAL, c, m)
      else if set_ptr = 0 then finish (sc_blocked c) c m
      else (case copy_from_user hook set_ptr 8 m of
              (None, m') \<Rightarrow> (EFAULT, c, m')
            | (Some buf, m') \<Rightarrow>
                (case sigprocmask (ucast how) (from_le buf) c of
                   (Inl _, c') \<Rightarrow> (EINVAL, c', m')
                 | (Inr old, c') \<Rightarrow> finish old c' m')))"

definition sigaction_to_bytes :: "sig_action \<Rightarrow> bytes" where
  "sigaction_to_bytes a =
     write_fields [(0, to_le 8 (sa_handler a)), (8, to_le 8 (sa_flags a)),
       (16, to_le 8 (sa_restorer a)), (24, to_le 8 (sa_mask a))] (replicate 32 0)"

definition sigaction_of_bytes :: "bytes \<Rightarrow> sig_action" where
  "sigaction_of_bytes buf =
     \<lparr>sa_handler = rd64 buf 0, sa_flags = rd64 buf 8, sa_restorer = rd64 buf 16,
      sa_mask = rd64 buf 24\<rparr>"

definition sys_rt_sigaction ::
  "pf_hook option \<Rightarrow> u64 \<Rightarrow> u64 \<Rightarrow> u64 \<Rightarrow> u64 \<Rightarrow> sig_action list \<times> user_mem \<Rightarrow>
   int \<times> sig_action list \<times> user_mem" where
  "sys_rt_sigaction hook signum new_act old_act sigsetsize st =
     (case st of (acts, m) \<Rightarrow>
      let s = unat signum;
          install = (\<lambda>m'.
            if new_act = 0 then (0, acts, m')
            else case copy_from_user hook new_act 32 m' of
              (None, m'') \<Rightarrow> (EFAULT, acts, m'')
            | (Some buf, m'') \<Rightarrow>
                (case set_sigaction s (sigaction_of_bytes buf) acts of
                   (Inl _, acts') \<Rightarrow> (EINVAL, acts', m'')
                 | (Inr _, acts') \<Rightarrow> (0, acts', m''))) in
      if s = 0 \<or> NSIG \<le> s then (EINVAL, acts, m)
      else if new_act \<noteq> 0 \<and> (s = SIGKILL \<or> s = SIGSTOP) then (EINVAL, acts, m)
      else if sigsetsize \<noteq> 8 then (EINVAL, acts, m)
      else if old_act = 0 then install m
      else case copy_to_user hook old_act (sigaction_to_bytes (acts ! s)) m of
        (False, m') \<Rightarrow> (EFAULT, acts, m')
      | (True, m') \<Rightarrow> install m')"

text \<open>\<open>sigaltstack\<close>: \<open>None\<close> is the overflow of \<open>alt.sp + alt.size\<close> in \<open>current_on_altstack\<close>.\<close>

definition altstack_to_bytes :: "alt_stack \<Rightarrow> bytes" where
  "altstack_to_bytes a =
     write_fields [(0, to_le 8 (as_sp a)), (8, to_le 4 (as_flags a)), (16, to_le 8 (as_size a))]
       (replicate 24 0)"

definition altstack_of_bytes :: "bytes \<Rightarrow> alt_stack" where
  "altstack_of_bytes buf =
     \<lparr>as_sp = rd64 buf 0, as_flags = from_le (slice 8 4 buf), as_size = rd64 buf 16\<rparr>"

definition sys_sigaltstack ::
  "pf_hook option \<Rightarrow> u64 \<Rightarrow> u64 \<Rightarrow> u64 \<Rightarrow> signal_context \<times> user_mem \<Rightarrow>
   (int \<times> signal_context \<times> user_mem) option" where
  "sys_sigaltstack hook new_ptr old_ptr current_rsp st =
     (case st of (c, m) \<Rightarrow>
      let update = (\<lambda>m'.
        if new_ptr = 0 then Some (0, c, m')
        else case is_on_altstack current_rsp (sc_altstack c) of
          None \<Rightarrow> None
        | Some True \<Rightarrow> Some (EPERM, c, m')
        | Some False \<Rightarrow>
            (case copy_from_user hook new_ptr 24 m' of
               (None, m'') \<Rightarrow> Some (EFAULT, c, m'')
             | (Some buf, m'') \<Rightarrow>
                 (let new = altstack_of_bytes buf in
                  if as_flags new AND SS_DISABLE \<noteq> 0
                  then Some (0, c\<lparr>sc_altstack := alt_disabled\<rparr>, m'')
                  else if as_size new < ALT_MIN_SIZE then Some (EINVAL, c, m'')
                  else Some (0, c\<lparr>sc_altstack := new\<rparr>, m'')))) in
      if old_ptr = 0 then update m
      else case copy_to_user hook old_ptr (altstack_to_bytes (sc_altstack c)) m of
        (False, m') \<Rightarrow> Some (EFAULT, c, m')
      | (True, m') \<Rightarrow> update m')"

section \<open>Pending signals\<close>

definition sig_ignored :: "sig_action list \<Rightarrow> nat \<Rightarrow> bool" where
  "sig_ignored acts s \<longleftrightarrow>
     sa_handler (acts ! s) = 1 \<or> sa_handler (acts ! s) = 0 \<and> default_action s = Ignore"

definition current_signal_pending :: "sig_action list \<Rightarrow> signal_context \<Rightarrow> bool" where
  "current_signal_pending acts c \<longleftrightarrow>
     list_ex (\<lambda>s. bit (deliverable c) s \<and> \<not> sig_ignored acts s) [1..<NSIG]"

definition consume_pending_signal ::
  "nat \<Rightarrow> signal_context \<Rightarrow> (u32 \<times> u64) \<times> signal_context" where
  "consume_pending_signal s c =
     (if s = 0 \<or> NSIG \<le> s \<or> sc_pending c AND sig_bit s = 0 then ((0, 0), c)
      else case dequeue_signal s c of (p, c') \<Rightarrow> ((ps_code p, ps_aux p), c'))"

definition consume_signalfd_signal ::
  "u64 \<Rightarrow> nat \<Rightarrow> signal_context \<Rightarrow> (u32 \<times> u64) \<times> signal_context" where
  "consume_signalfd_signal m s c =
     (if s = 0 \<or> NSIG \<le> s \<or> sc_pending c AND sc_blocked c AND m AND sig_bit s = 0 then ((0, 0), c)
      else case dequeue_signal s c of (p, c') \<Rightarrow> ((ps_code p, ps_aux p), c'))"

text \<open>The signal of a processor fault, and how it is forced on the thread.\<close>

abbreviation for_fault_code :: "u64 \<Rightarrow> u32 \<Rightarrow> pending_sig_info" where
  "for_fault_code addr code \<equiv> \<lparr>ps_code = code, ps_pad = 0, ps_aux = addr, ps_sival = 0\<rparr>"

definition fault_signal :: "u64 \<Rightarrow> nat \<Rightarrow> u64 \<Rightarrow> u64 \<Rightarrow> nat \<times> pending_sig_info" where
  "fault_signal rip vector error addr =
     (if vector = 14 then (11, for_fault_code addr (if error AND 1 \<noteq> 0 then 2 else 1))
      else if vector = 0 then (8, for_fault_code rip 1)
      else if vector = 6 then (4, for_fault_code rip 2)
      else if vector = 16 \<or> vector = 19 then (8, for_fault_code rip 0x80)
      else if vector = 17 then (7, for_fault_code rip 1)
      else (11, for_fault_code addr 0x80))"

definition force_fault_signal ::
  "nat \<Rightarrow> pending_sig_info \<Rightarrow> sig_action list \<times> signal_context \<Rightarrow>
   sig_action list \<times> signal_context" where
  "force_fault_signal s info st =
     (case st of (acts, c) \<Rightarrow>
      let c1 = (if sc_blocked c AND sig_bit s \<noteq> 0
                then set_blocked (sc_blocked c AND NOT (sig_bit s)) c else c);
          acts1 = (if sa_handler (acts ! s) = 1 then acts[s := default_sig_action] else acts) in
      (acts1, snd (enqueue_signal s info (2 ^ 64 - 1) c1)))"

section \<open>Delivery\<close>

datatype sig_act =
    No_Act
  | Terminate_By nat
  | Stop_Act
  | Cont_Act
  | Invoke nat sig_action u64 sig_info alt_stack

definition select_one ::
  "sig_action list \<Rightarrow> signal_context \<Rightarrow> nat \<Rightarrow> sig_act \<times> signal_context" where
  "select_one acts c s =
     (let act = acts ! s; force_default = (s = SIGKILL \<or> s = SIGSTOP) in
      case dequeue_signal s c of (p, c') \<Rightarrow>
        (if sa_handler act = 1 \<and> \<not> force_default then No_Act
         else if sa_handler act = 0 \<or> force_default then
           (case default_action s of
              Term \<Rightarrow> Terminate_By s
            | Core \<Rightarrow> Terminate_By s
            | Stop \<Rightarrow> Stop_Act
            | Cont \<Rightarrow> Cont_Act
            | Ignore \<Rightarrow> No_Act)
         else Invoke s act (sc_blocked c') (expand s p) (sc_altstack c'), c'))"

fun select_signal ::
  "nat \<Rightarrow> bool \<Rightarrow> sig_action list \<Rightarrow> signal_context \<Rightarrow> sig_act \<times> signal_context" where
  "select_signal 0 traced acts c = (No_Act, c)"
| "select_signal (Suc n) traced acts c =
     (if deliverable c = 0 then (No_Act, c)
      else case select_one acts c (trailing_zeros (deliverable c)) of (this, c') \<Rightarrow>
        if (this = No_Act \<or> this = Cont_Act) \<and> \<not> traced then select_signal n traced acts c'
        else (this, c'))"

record sig_thread =
  th_ctx :: signal_context
  th_acts :: "sig_action list"
  th_tf :: trap_frame
  th_mem :: user_mem

datatype sig_outcome =
    Resumed sig_thread
  | Terminated nat sig_thread
  | Stopped sig_thread
  | Exited int sig_thread

text \<open>The second match of \<open>deliver_pending_signals\<close>, on the selected action.\<close>

definition perform_action ::
  "pf_hook option \<Rightarrow> sig_thread \<Rightarrow> sig_act \<Rightarrow> sig_outcome option" where
  "perform_action hook th act =
     (case act of
        No_Act \<Rightarrow> Some (Resumed th)
      | Terminate_By s \<Rightarrow> Some (Terminated s th)
      | Stop_Act \<Rightarrow> Some (Stopped th)
      | Cont_Act \<Rightarrow> Some (Resumed th)
      | Invoke s a pre info alt \<Rightarrow>
          (case deliver_to_handler hook s a pre info alt (th_tf th) (th_mem th) of
             None \<Rightarrow> None
           | Some (None, tf, m) \<Rightarrow> Some (Exited 139 (th\<lparr>th_tf := tf, th_mem := m\<rparr>))
           | Some (Some new_blocked, tf, m) \<Rightarrow>
               Some (Resumed (th\<lparr>th_ctx := set_blocked new_blocked (th_ctx th),
                 th_acts := (if sa_flags a AND SA_RESETHAND \<noteq> 0
                             then (th_acts th)[s := default_sig_action] else th_acts th),
                 th_tf := tf, th_mem := m\<rparr>))))"

definition deliver_pending_signals ::
  "pf_hook option \<Rightarrow> sig_thread \<Rightarrow> sig_outcome option" where
  "deliver_pending_signals hook th =
     (case select_signal NSIG False (th_acts th) (th_ctx th) of (act, c) \<Rightarrow>
        perform_action hook (th\<lparr>th_ctx := c\<rparr>) act)"

definition rt_sigreturn :: "pf_hook option \<Rightarrow> sig_thread \<Rightarrow> sig_outcome" where
  "rt_sigreturn hook th =
     (case restore_from_frame hook (th_tf th) (th_mem th) of
        (Some saved, tf, m) \<Rightarrow>
          Resumed (th\<lparr>th_ctx := set_blocked saved (th_ctx th), th_tf := tf, th_mem := m\<rparr>)
      | (None, tf, m) \<Rightarrow> Exited 139 (th\<lparr>th_tf := tf, th_mem := m\<rparr>))"

datatype irq_act = Irq_Return | Irq_Term nat | Irq_Stop

definition irq_notify_resume_checkpoint ::
  "bool \<Rightarrow> sig_action list \<Rightarrow> signal_context \<Rightarrow> irq_act \<times> signal_context" where
  "irq_notify_resume_checkpoint traced acts c =
     (if deliverable c = 0 then (Irq_Return, c)
      else
        (let s = trailing_zeros (deliverable c);
             force_default = (s = SIGKILL \<or> s = SIGSTOP) in
         if s \<noteq> SIGKILL \<and> traced then (Irq_Return, c)
         else if sa_handler (acts ! s) \<noteq> 0 \<and> \<not> force_default then (Irq_Return, c)
         else (case default_action s of
                 Term \<Rightarrow> (Irq_Term s, discard_signal s c)
               | Core \<Rightarrow> (Irq_Term s, discard_signal s c)
               | Stop \<Rightarrow> (Irq_Stop, discard_signal s c)
               | Cont \<Rightarrow> (Irq_Return, discard_signal s c)
               | Ignore \<Rightarrow> (Irq_Return, discard_signal s c))))"

section \<open>Which signal is taken\<close>

text \<open>Signals that have an effect on an untraced thread when they are taken: SIGKILL and SIGSTOP
  always, a signal with a handler, and one with the default action unless that is to do nothing
  (SIGCHLD, SIGCONT, SIGURG, SIGWINCH).\<close>

definition effective :: "sig_action list \<Rightarrow> nat \<Rightarrow> bool" where
  "effective acts s \<longleftrightarrow>
     s = SIGKILL \<or> s = SIGSTOP \<or> sa_handler (acts ! s) \<notin> {0, 1} \<or>
     sa_handler (acts ! s) = 0 \<and> s \<notin> {17, 18, 23, 28}"

lemma default_action_cases:
  "default_action s = Ignore \<or> default_action s = Cont \<longleftrightarrow> s \<in> {17, 18, 23, 28}"
  "default_action s = Stop \<longleftrightarrow> s \<in> {19, 20, 21, 22}"
  by (simp_all add: default_action_def)

lemma select_one_effective:
  "fst (select_one acts c s) \<in> {No_Act, Cont_Act} \<longleftrightarrow> \<not> effective acts s"
proof -
  have "default_action SIGKILL = Term" "default_action SIGSTOP = Stop"
    by (simp_all add: default_action_def)
  then show ?thesis
    unfolding effective_def default_action_cases(1) [symmetric]
    by (cases "default_action s") (auto simp: select_one_def Let_def split_beta)
qed

lemma snd_select_one: "snd (select_one acts c s) = snd (dequeue_signal s c)"
  by (simp add: select_one_def Let_def split_beta)

lemma mem_set_bits64 [simp]: "t \<in> set (set_bits64 m) \<longleftrightarrow> bit m t"
  by (auto simp: set_bits64_def dest: bit_u64_less)

lemma distinct_set_bits64 [simp]: "distinct (set_bits64 m)"
  by (simp add: set_bits64_def)

lemma set_bits64_Nil: "set_bits64 m = [] \<longleftrightarrow> m = 0"
proof
  assume "set_bits64 m = []"
  then have "\<not> bit m i" for i using mem_set_bits64 [of i m] by simp
  then show "m = 0" by (intro bit_word_eqI) simp
qed (simp add: set_bits64_def)

lemma set_bits64_drop_hd:
  assumes "\<And>t. bit m' t \<longleftrightarrow> bit m t \<and> t \<noteq> s" and "set_bits64 m = s # rest"
  shows "set_bits64 m' = rest"
proof -
  have "set_bits64 m' = filter (\<lambda>t. t \<noteq> s) (set_bits64 m)"
    unfolding set_bits64_def filter_filter by (rule filter_cong) (auto simp: assms(1))
  moreover have "s \<notin> set rest" using assms(2) distinct_set_bits64 [of m] by simp
  ultimately show ?thesis using assms(2) by (auto simp: filter_id_conv)
qed

lemma sorted_set_bits64: "sorted (set_bits64 m)"
  by (simp add: set_bits64_def sorted_wrt_filter)

text \<open>Without an overflow queue a dequeued signal is no longer pending, and nothing else
  changes that a later selection reads.\<close>

lemma dequeue_plain:
  assumes "bit (sc_pending c) s" and "sc_rt_queue c = []"
  shows "bit (sc_pending (snd (dequeue_signal s c))) t \<longleftrightarrow> bit (sc_pending c) t \<and> t \<noteq> s"
    and "sc_blocked (snd (dequeue_signal s c)) = sc_blocked c"
    and "sc_rt_queue (snd (dequeue_signal s c)) = []"
    and "t \<noteq> s \<Longrightarrow> fst (select_one acts (snd (dequeue_signal s c)) t) = fst (select_one acts c t)"
proof -
  have s: "s < 64" using assms(1) by (rule bit_u64_less)
  show "bit (sc_pending (snd (dequeue_signal s c))) t \<longleftrightarrow> bit (sc_pending c) t \<and> t \<noteq> s"
    "sc_blocked (snd (dequeue_signal s c)) = sc_blocked c"
    "sc_rt_queue (snd (dequeue_signal s c)) = []"
    using s assms by (auto simp: dequeue_signal_def Let_def)
  show "fst (select_one acts (snd (dequeue_signal s c)) t) = fst (select_one acts c t)" if "t \<noteq> s"
  proof -
    let ?c = "snd (dequeue_signal s c)"
    have "sc_pending ?c AND sig_bit t = sc_pending c AND sig_bit t"
      using that s assms by (intro bit_word_eqI) (auto simp: dequeue_signal_def Let_def bit_and_iff bit_not_iff)
    moreover have "sc_siginfo ?c ! t = sc_siginfo c ! t" "sc_altstack ?c = sc_altstack c"
      "sc_blocked ?c = sc_blocked c" "sc_rt_queue ?c = []"
      using that s assms by (auto simp: dequeue_signal_def Let_def)
    ultimately have "fst (dequeue_signal t ?c) = fst (dequeue_signal t c)"
      using assms(2) by (simp add: dequeue_signal_def Let_def)
    moreover have "sc_blocked (snd (dequeue_signal t d)) = sc_blocked d"
      "sc_altstack (snd (dequeue_signal t d)) = sc_altstack d" for d
      by (simp_all add: dequeue_signal_def Let_def split: option.splits prod.splits)
    ultimately show ?thesis
      using \<open>sc_blocked ?c = sc_blocked c\<close> \<open>sc_altstack ?c = sc_altstack c\<close>
      by (simp add: select_one_def Let_def split_beta)
  qed
qed

lemma select_signal_spec:
  assumes "sc_rt_queue c = []" and "length (set_bits64 (deliverable c)) \<le> n"
  shows "fst (select_signal n False acts c) =
      (case List.find (effective acts) (set_bits64 (deliverable c)) of
         None \<Rightarrow> No_Act | Some s \<Rightarrow> fst (select_one acts c s)) \<and>
    (\<forall>t. bit (sc_pending (snd (select_signal n False acts c))) t \<longleftrightarrow>
       bit (sc_pending c) t \<and>
       \<not> (bit (deliverable c) t \<and>
          (case List.find (effective acts) (set_bits64 (deliverable c)) of
             None \<Rightarrow> True | Some s \<Rightarrow> t \<le> s)))"
  using assms
proof (induction n arbitrary: c)
  case 0
  then have d: "deliverable c = 0" by (simp add: set_bits64_Nil)
  then show ?case by (simp add: set_bits64_def)
next
  case (Suc n)
  show ?case
  proof (cases "set_bits64 (deliverable c)")
    case Nil
    then have "deliverable c = 0" by (simp add: set_bits64_Nil)
    then show ?thesis by (simp add: set_bits64_def)
  next
    case (Cons s rest)
    let ?c = "snd (dequeue_signal s c)"
    have nz: "deliverable c \<noteq> 0" using Cons by (auto simp: set_bits64_def)
    have tz: "trailing_zeros (deliverable c) = s" using Cons trailing_zeros_hd by simp
    have ds: "bit (deliverable c) s" using Cons mem_set_bits64 [of s "deliverable c"] by simp
    then have p: "bit (sc_pending c) s" by (simp add: bit_deliverable)
    note dq = dequeue_plain [OF p Suc.prems(1)]
    have d': "bit (deliverable ?c) t \<longleftrightarrow> bit (deliverable c) t \<and> t \<noteq> s" for t
      by (auto simp: bit_deliverable dq)
    have rest: "set_bits64 (deliverable ?c) = rest"
      using d' Cons by (rule set_bits64_drop_hd)
    have low: "s \<le> t" if "bit (deliverable c) t" for t
      using that Cons sorted_set_bits64 [of "deliverable c"] mem_set_bits64 [of t "deliverable c"] by auto
    have eff: "fst (select_one acts c s) = No_Act \<or> fst (select_one acts c s) = Cont_Act \<longleftrightarrow> \<not> effective acts s"
      using select_one_effective [of acts c s] by simp
    show ?thesis
    proof (cases "effective acts s")
      case True
      then have "select_signal (Suc n) False acts c = select_one acts c s"
        using nz eff by (simp add: tz split_beta)
      then show ?thesis using True Cons low ds
        by (auto simp: snd_select_one dq le_antisym)
    next
      case False
      then have sel: "select_signal (Suc n) False acts c = select_signal n False acts ?c"
        using nz eff by (simp add: tz split_beta snd_select_one)
      have "length (set_bits64 (deliverable ?c)) \<le> n" using rest Cons Suc.prems(2) by simp
      note ih = Suc.IH [OF dq(3) this, unfolded rest d' dq(1)]
      have f: "List.find (effective acts) (set_bits64 (deliverable c)) = List.find (effective acts) rest"
        using False Cons by simp
      have "fst (select_one acts ?c u) = fst (select_one acts c u)"
        if "List.find (effective acts) rest = Some u" for u
        using that Cons distinct_set_bits64 [of "deliverable c"] find_SomeD [OF that] by (auto intro: dq(4))
      moreover have "s \<le> u" if "List.find (effective acts) rest = Some u" for u
        using find_SomeD [OF that] Cons low [of u] mem_set_bits64 [of u "deliverable c"] by simp
      ultimately show ?thesis
        using ih ds unfolding sel f by (auto split: option.splits)
    qed
  qed
qed

lemma blocked_select_signal:
  "sc_blocked (snd (select_signal n traced acts c)) = sc_blocked c"
proof (induction n arbitrary: c)
  case (Suc n)
  have "sc_blocked (snd (dequeue_signal t d)) = sc_blocked d" for t d
    by (simp add: dequeue_signal_def Let_def split: option.splits prod.splits)
  then show ?case using Suc by (cases traced) (simp_all add: split_beta snd_select_one)
qed simp

lemma fst_select_one:
  assumes "effective acts s" and "bit (sc_pending c) s" and "sc_rt_queue c = []"
  shows "fst (select_one acts c s) =
    (if s \<in> {SIGKILL, SIGSTOP} \<or> sa_handler (acts ! s) = 0
     then if default_action s = Stop then Stop_Act else Terminate_By s
     else Invoke s (acts ! s) (sc_blocked c) (expand s (sc_siginfo c ! s)) (sc_altstack c))"
proof -
  have s: "s < 64" using assms(2) by (rule bit_u64_less)
  have k: "default_action SIGKILL = Term" "default_action SIGSTOP = Stop"
    by (simp_all add: default_action_def)
  have "fst (dequeue_signal s c) = sc_siginfo c ! s"
    "sc_blocked (snd (dequeue_signal s c)) = sc_blocked c"
    "sc_altstack (snd (dequeue_signal s c)) = sc_altstack c"
    using s assms(2,3) by (simp_all add: dequeue_signal_def Let_def)
  then show ?thesis
    using assms(1) k unfolding effective_def default_action_cases(1) [symmetric]
    by (cases "default_action s") (auto simp: select_one_def Let_def split_beta)
qed

lemma length_set_bits64: "length (set_bits64 m) \<le> 64"
  using length_filter_le [of "bit m" "[0..<64]"] by (simp add: set_bits64_def)

text \<open>A deliverable signal below SIGKILL that has a handler is taken first, by both paths: the
  interrupt path then returns to the program without looking further, and the system-call
  path enters the handler. SIGKILL stays pending.\<close>

lemma kill_waits_for_lower_handlers:
  assumes "trailing_zeros (deliverable c) = s" and "deliverable c \<noteq> 0" and "s < SIGKILL"
    and "sa_handler (acts ! s) \<notin> {0, 1}"
  shows "irq_notify_resume_checkpoint traced acts c = (Irq_Return, c)"
    and "fst (select_signal NSIG False acts c) = fst (select_one acts c s)"
    and "\<not> bit (sc_blocked c) SIGKILL \<Longrightarrow> bit (sc_pending c) SIGKILL \<Longrightarrow>
      bit (deliverable (snd (select_signal NSIG False acts c))) SIGKILL"
proof -
  show "irq_notify_resume_checkpoint traced acts c = (Irq_Return, c)"
    using assms by (auto simp: irq_notify_resume_checkpoint_def Let_def)
  have "effective acts s" using assms by (auto simp: effective_def)
  then have "fst (select_one acts c s) \<notin> {No_Act, Cont_Act}"
    using select_one_effective [of acts c s] by blast
  then have sel: "select_signal NSIG False acts c = select_one acts c s"
    using assms(1,2) select_signal.simps(2) [of 63 False acts c] by (simp add: split_beta)
  then show "fst (select_signal NSIG False acts c) = fst (select_one acts c s)" by simp
  show "bit (deliverable (snd (select_signal NSIG False acts c))) SIGKILL"
    if "\<not> bit (sc_blocked c) SIGKILL" "bit (sc_pending c) SIGKILL"
    using that assms(3) blocked_select_signal [of NSIG False acts c]
    by (auto simp: bit_deliverable sel snd_select_one dequeue_signal_def Let_def
        split: option.splits)
qed

text \<open>The signal sets of the system calls are read with bit \<open>n\<close> for signal \<open>n\<close>. In the layout
  that programs built for Linux use, bit \<open>n - 1\<close> stands for signal \<open>n\<close>: their set for SIGUSR1
  (signal 10) has bit 9, which is taken for SIGKILL and dropped.\<close>

lemma linux_usr1_set_blocks_nothing:
  "sc_blocked (snd (sigprocmask SIG_BLOCK (push_bit (10 - 1) 1) c))
   = sc_blocked c AND NOT (sig_bit SIGKILL OR sig_bit SIGSTOP)"
proof -
  have "sc_blocked (snd (sigprocmask SIG_BLOCK (sig_bit SIGKILL) c))
      = sc_blocked c AND NOT (sig_bit SIGKILL OR sig_bit SIGSTOP)"
    by (intro bit_word_eqI)
      (auto simp: sigprocmask_def set_blocked_def Let_def bit_or_iff bit_and_iff bit_not_iff)
  moreover have "push_bit (10 - 1) 1 = sig_bit SIGKILL" by (simp add: sig_bit_def)
  ultimately show ?thesis by (simp only:)
qed

section \<open>Actions and alternate stacks in user memory\<close>

lemma sigaction_of_to_bytes: "sigaction_of_bytes (sigaction_to_bytes a) = a"
proof -
  let ?fs = "[(0, to_le 8 (sa_handler a)), (8, to_le 8 (sa_flags a)),
    (16, to_le 8 (sa_restorer a)), (24, to_le 8 (sa_mask a))]"
  have "slice off 8 (write_fields ?fs (replicate 32 0)) = bs" if "(off, bs) \<in> set ?fs" for off bs
    using that by (intro slice_write_field) (auto simp: fields_fit_def apart_def)
  then show ?thesis by (simp add: sigaction_of_bytes_def sigaction_to_bytes_def rd64_def)
qed

lemma four_slices:
  assumes "length a = 32"
  shows "slice 0 8 a @ slice 8 8 a @ slice 16 8 a @ slice 24 8 a = a"
proof -
  have "take 8 (drop 16 a) @ drop 24 a = drop 16 a" "take 8 (drop 8 a) @ drop 16 a = drop 8 a"
    using append_take_drop_id [of 8 "drop 16 a"] append_take_drop_id [of 8 "drop 8 a"] by simp_all
  then show ?thesis using assms by (simp add: slice_def)
qed

lemma sigaction_to_of_bytes:
  assumes "length buf = 32"
  shows "sigaction_to_bytes (sigaction_of_bytes buf) = buf"
proof -
  let ?a = "sigaction_to_bytes (sigaction_of_bytes buf)"
  have part: "to_le 8 (rd64 buf off) = slice off 8 buf" if "off + 8 \<le> 32" for off
    using that assms unfolding rd64_def by (intro to_le_from_le) (simp_all add: length_slice)
  have "length ?a = 32"
    unfolding sigaction_to_bytes_def by (subst length_write_fields) (simp_all add: fields_fit_def)
  moreover have "slice off 8 ?a = slice off 8 buf" if "off \<in> {0, 8, 16, 24}" for off
    unfolding sigaction_to_bytes_def sigaction_of_bytes_def
    using that assms
    by (intro slice_write_field) (auto simp: fields_fit_def apart_def part length_slice)
  ultimately show ?thesis
    using four_slices [of ?a] four_slices [OF assms] by simp
qed

lemma altstack_of_to_bytes: "altstack_of_bytes (altstack_to_bytes a) = a"
proof -
  let ?fs = "[(0, to_le 8 (as_sp a)), (8, to_le 4 (as_flags a)), (16, to_le 8 (as_size a))]"
  have "slice off (length bs) (write_fields ?fs (replicate 24 0)) = bs" if "(off, bs) \<in> set ?fs" for off bs
    using that by (intro slice_write_field) (auto simp: fields_fit_def apart_def)
  from this [of 0 "to_le 8 (as_sp a)"] this [of 8 "to_le 4 (as_flags a)"] this [of 16 "to_le 8 (as_size a)"]
  show ?thesis by (simp add: altstack_of_bytes_def altstack_to_bytes_def rd64_def)
qed

text \<open>\<open>sigaltstack\<close> accepts a stack that ends beyond the address space. The next signal with
  \<open>SA_ONSTACK\<close>, and the next \<open>sigaltstack\<close> from a stack pointer above its start, panic.\<close>

lemma altstack_accepted_then_panic:
  assumes "is_on_altstack rsp (sc_altstack c) = Some False" and "new_ptr \<noteq> 0"
    and "copy_from_user hook new_ptr 24 m = (Some (altstack_to_bytes alt), m')"
    and "as_flags alt AND SS_DISABLE = 0" and "ALT_MIN_SIZE \<le> as_size alt"
    and "2 ^ 64 \<le> unat (as_sp alt) + unat (as_size alt)"
  shows "\<exists>c'. sys_sigaltstack hook new_ptr 0 rsp (c, m) = Some (0, c', m') \<and>
    (\<forall>act s pre info tf. sa_flags act AND SA_ONSTACK \<noteq> 0 \<longrightarrow>
       deliver_to_handler hook s act pre info (sc_altstack c') tf m' = None) \<and>
    (\<forall>rsp'. as_sp alt \<le> rsp' \<longrightarrow> sys_sigaltstack hook new_ptr 0 rsp' (c', m') = None)"
proof -
  have en: "alt_is_enabled alt" using assms(4,5) by (simp add: alt_is_enabled_def)
  have "sys_sigaltstack hook new_ptr 0 rsp (c, m) = Some (0, c\<lparr>sc_altstack := alt\<rparr>, m')"
    using assms by (simp add: sys_sigaltstack_def altstack_of_to_bytes leD)
  moreover have "is_on_altstack rsp' alt = None" if "as_sp alt \<le> rsp'" for rsp'
    using that en assms(6) by (simp add: is_on_altstack_def checked_add_def)
  ultimately show ?thesis
    using altstack_overflow_panics [OF en assms(6)] assms(2)
    by (intro exI [of _ "c\<lparr>sc_altstack := alt\<rparr>"]) (simp add: sys_sigaltstack_def)
qed

section \<open>Properties\<close>

text \<open>C40: what a program installs with \<open>rt_sigaction\<close> is what it reads back. A successful call
  with a new action stores the 32 bytes read from user memory for that signal alone, never for
  SIGKILL or SIGSTOP, and a later query of the same signal writes exactly those bytes to the
  caller's buffer and changes no action.\<close>

theorem sigaction_round_trip:
  assumes "hook_monotone hook" and "length acts = NSIG" and "new_ptr \<noteq> 0" and "old_ptr \<noteq> 0"
    and "sys_rt_sigaction hook signum new_ptr 0 8 (acts, m) = (0, acts1, m1)"
    and "sys_rt_sigaction hook signum 0 old_ptr 8 (acts1, m2) = (0, acts2, m3)"
  shows "fst (copy_from_user hook new_ptr 32 m) = Some (read_bytes m3 old_ptr 32) \<and>
    acts2 = acts1 \<and> (\<forall>t. t \<noteq> unat signum \<longrightarrow> acts1 ! t = acts ! t) \<and>
    acts1 ! SIGKILL = acts ! SIGKILL \<and> acts1 ! SIGSTOP = acts ! SIGSTOP"
proof -
  have err: "EINVAL \<noteq> 0" "EFAULT \<noteq> 0" by (simp_all add: as_neg_i64_def)
  obtain buf where buf: "copy_from_user hook new_ptr 32 m = (Some buf, m1)"
    and s: "unat signum < NSIG" "unat signum \<noteq> SIGKILL" "unat signum \<noteq> SIGSTOP"
    and a1: "acts1 = acts[unat signum := sigaction_of_bytes buf]"
    using assms(3,5) err
    by (auto simp: sys_rt_sigaction_def set_sigaction_def Let_def split: if_splits prod.splits option.splits)
  have len: "length buf = 32"
    using buf by (auto simp: copy_from_user_def split: prod.splits if_splits)
  have "copy_to_user hook old_ptr (sigaction_to_bytes (acts1 ! unat signum)) m2 = (True, m3) \<and> acts2 = acts1"
    using assms(4,6) err
    by (auto simp: sys_rt_sigaction_def Let_def split: if_splits prod.splits bool.splits)
  moreover have "sigaction_to_bytes (acts1 ! unat signum) = buf"
    using a1 s(1) assms(2) by (simp add: sigaction_to_of_bytes len)
  ultimately have c: "copy_to_user hook old_ptr buf m2 = (True, m3)" "acts2 = acts1" by simp_all
  have "read_bytes m3 old_ptr 32 = buf"
    using copy_to_user_TrueD(2) [OF assms(1) c(1)] len by fastforce
  then show ?thesis using buf c(2) s a1 by simp
qed

theorem sigaction_round_trip_witness:
  "let acts = replicate NSIG default_sig_action;
       r1 = sys_rt_sigaction None 10 0x1000 0 8 (acts, demo_mem);
       r2 = sys_rt_sigaction None 10 0 0x2000 8 (snd r1) in
     fst r1 = 0 \<and> fst r2 = 0 \<and> read_bytes (snd (snd r2)) 0x2000 32 = replicate 32 0"
proof -
  let ?acts = "replicate NSIG default_sig_action"
  let ?r1 = "sys_rt_sigaction None 10 0x1000 0 8 (?acts, demo_mem)"
  have u: "range_usable k a 32 demo_mem" if "a \<in> {0x1000, 0x2000}" for a k
    using that by (auto simp: range_usable_def demo_mem_def page_usable_def)
  have buf: "copy_from_user None 0x1000 32 demo_mem = (Some (replicate 32 0), demo_mem)"
    using copy_from_usable [OF u [of "0x1000" Read]]
    by (simp add: read_bytes_def demo_mem_def map_replicate_const)
  have r1: "?r1 = (0, ?acts[10 := sigaction_of_bytes (replicate 32 0)], demo_mem)"
    by (simp add: sys_rt_sigaction_def buf set_sigaction_def Let_def)
  have "copy_to_user None 0x2000 (sigaction_to_bytes (sigaction_of_bytes (replicate 32 0))) demo_mem
      = (True, write_bytes 0x2000 (replicate 32 0) demo_mem)"
    using copy_to_usable [of "0x2000" "replicate 32 0" demo_mem None] u [of "0x2000" Write]
    by (simp add: sigaction_to_of_bytes)
  then have r2: "sys_rt_sigaction None 10 0 0x2000 8 (snd ?r1) =
      (0, ?acts[10 := sigaction_of_bytes (replicate 32 0)], write_bytes 0x2000 (replicate 32 0) demo_mem)"
    unfolding r1 by (simp add: sys_rt_sigaction_def Let_def)
  show ?thesis
    using sigaction_round_trip [OF hook_monotone_None _ _ _ r1 r2 [unfolded r1 snd_conv]]
    unfolding Let_def r1 r2 [unfolded r1] by (simp add: buf)
qed

lemma bit_handler_mask:
  "s < NSIG \<Longrightarrow> bit (handler_mask s act pre) t \<longleftrightarrow>
     bit pre t \<or> bit (sa_mask act) t \<or> t = s \<and> sa_flags act AND SA_NODEFER = 0"
  by (auto simp: handler_mask_def Let_def bit_or_iff)

lemma bit_set_blocked:
  "bit (sc_blocked (set_blocked m c)) t \<longleftrightarrow> bit m t \<and> t \<notin> {SIGKILL, SIGSTOP}"
  by (auto simp: set_blocked_def bit_and_iff bit_not_iff bit_or_iff dest: bit_u64_less)

text \<open>What entering a handler does to a thread: the handler is entered with the signal as its
  argument, a one-shot action is reset, and until it returns the old mask, the mask of the action
  and, unless the action says otherwise, the signal itself are blocked.\<close>

definition handler_entered ::
  "nat \<Rightarrow> sig_action \<Rightarrow> trap_frame \<Rightarrow> user_mem \<Rightarrow> sig_thread \<Rightarrow> sig_thread \<Rightarrow> bool" where
  "handler_entered s act tf m th th' \<longleftrightarrow>
     th_tf th' = tf \<and> th_mem th' = m \<and> tf_rip_user tf = sa_handler act \<and> tf_rdi tf = of_nat s \<and>
     th_acts th' = (if sa_flags act AND SA_RESETHAND \<noteq> 0
       then (th_acts th)[s := default_sig_action] else th_acts th) \<and>
     th_ctx th' = (th_ctx th)\<lparr>sc_blocked := sc_blocked (th_ctx th')\<rparr> \<and>
     (\<forall>t. bit (sc_blocked (th_ctx th')) t \<longleftrightarrow>
        (bit (sc_blocked (th_ctx th)) t \<or> bit (sa_mask act) t \<or>
         t = s \<and> sa_flags act AND SA_NODEFER = 0) \<and> t \<notin> {SIGKILL, SIGSTOP})"

lemma perform_invoke:
  assumes "s < NSIG" "pre = sc_blocked (th_ctx th)"
    "deliver_to_handler hook s act pre info alt (th_tf th) (th_mem th) = Some (Some nb, tf, m)"
  shows "\<exists>th'. perform_action hook th (Invoke s act pre info alt) = Some (Resumed th') \<and>
    handler_entered s act tf m th th'"
proof -
  have "nb = handler_mask s act pre" "tf_rip_user tf = sa_handler act" "tf_rdi tf = of_nat s"
    by (rule deliver_SomeD [OF assms(3)], simp add: enter_handler_def)+
  then show ?thesis
    using assms
    by (simp add: perform_action_def handler_entered_def bit_set_blocked bit_handler_mask)
      (simp add: set_blocked_def)
qed

text \<open>C39: an untraced thread without a real-time backlog takes the lowest-numbered deliverable
  signal that has an effect, after at most 64 rounds. Every deliverable signal up to it is
  consumed and no other; the blocked mask is kept unless a handler is entered. A signal with the
  default action, and SIGKILL and SIGSTOP whatever the action, stops the thread if it is one of
  the four stop signals and otherwise terminates it. A signal with a handler enters it: the frame
  is written, the mask of the handler installed and a one-shot action reset; the thread exits with
  status 139 if the frame cannot be written. Without a signal that has an effect the thread
  resumes, the ignored signals consumed.\<close>

theorem deliver_takes_lowest:
  assumes "sc_rt_queue (th_ctx th) = []"
  shows "let c = th_ctx th; acts = th_acts th; d = set_bits64 (deliverable c) in
    \<exists>c'. (\<forall>t. bit (sc_pending c') t \<longleftrightarrow>
            bit (sc_pending c) t \<and>
            \<not> (t \<in> set d \<and> (case List.find (effective acts) d of None \<Rightarrow> True | Some s \<Rightarrow> t \<le> s))) \<and>
      sc_blocked c' = sc_blocked c \<and>
      (case List.find (effective acts) d of
         None \<Rightarrow> deliver_pending_signals hook th = Some (Resumed (th\<lparr>th_ctx := c'\<rparr>))
       | Some s \<Rightarrow>
           if s \<in> {SIGKILL, SIGSTOP} \<or> sa_handler (acts ! s) = 0 then
             deliver_pending_signals hook th =
               Some (if s \<in> {19, 20, 21, 22} then Stopped (th\<lparr>th_ctx := c'\<rparr>)
                     else Terminated s (th\<lparr>th_ctx := c'\<rparr>))
           else
             (case deliver_to_handler hook s (acts ! s) (sc_blocked c) (expand s (sc_siginfo c ! s))
                     (sc_altstack c) (th_tf th) (th_mem th) of
                None \<Rightarrow> deliver_pending_signals hook th = None
              | Some (None, tf, m) \<Rightarrow>
                  deliver_pending_signals hook th =
                    Some (Exited 139 (th\<lparr>th_ctx := c', th_tf := tf, th_mem := m\<rparr>))
              | Some (Some _, tf, m) \<Rightarrow>
                  \<exists>th'. deliver_pending_signals hook th = Some (Resumed th') \<and>
                    handler_entered s (acts ! s) tf m (th\<lparr>th_ctx := c'\<rparr>) th'))"
proof -
  let ?c = "th_ctx th" and ?acts = "th_acts th"
  let ?d = "set_bits64 (deliverable ?c)" and ?c' = "snd (select_signal NSIG False ?acts ?c)"
  let ?f = "List.find (effective ?acts) ?d" and ?th = "th\<lparr>th_ctx := ?c'\<rparr>"
  note spec = select_signal_spec [OF assms length_set_bits64, of ?acts]
  have del: "deliver_pending_signals hook th = perform_action hook ?th
      (case ?f of None \<Rightarrow> No_Act | Some s \<Rightarrow> fst (select_one ?acts ?c s))"
    unfolding deliver_pending_signals_def split_beta conjunct1 [OF spec] ..
  have blk: "sc_blocked ?c' = sc_blocked ?c" by (rule blocked_select_signal)
  have "case ?f of
         None \<Rightarrow> deliver_pending_signals hook th = Some (Resumed ?th)
       | Some s \<Rightarrow>
           if s \<in> {SIGKILL, SIGSTOP} \<or> sa_handler (?acts ! s) = 0 then
             deliver_pending_signals hook th =
               Some (if s \<in> {19, 20, 21, 22} then Stopped ?th else Terminated s ?th)
           else
             (case deliver_to_handler hook s (?acts ! s) (sc_blocked ?c) (expand s (sc_siginfo ?c ! s))
                     (sc_altstack ?c) (th_tf th) (th_mem th) of
                None \<Rightarrow> deliver_pending_signals hook th = None
              | Some (None, tf, m) \<Rightarrow>
                  deliver_pending_signals hook th = Some (Exited 139 (?th\<lparr>th_tf := tf, th_mem := m\<rparr>))
              | Some (Some _, tf, m) \<Rightarrow>
                  \<exists>th'. deliver_pending_signals hook th = Some (Resumed th') \<and>
                    handler_entered s (?acts ! s) tf m ?th th')"
  proof (cases ?f)
    case None
    then show ?thesis by (simp add: del perform_action_def)
  next
    case (Some s)
    have s: "effective ?acts s" "bit (sc_pending ?c) s"
      using find_SomeD [OF Some] by (simp_all add: bit_deliverable)
    note one = fst_select_one [OF s assms, unfolded default_action_cases(2)]
    show ?thesis
    proof (cases "s \<in> {SIGKILL, SIGSTOP} \<or> sa_handler (?acts ! s) = 0")
      case True
      then show ?thesis by (simp only: del Some option.case one if_True) (simp add: perform_action_def)
    next
      case False
      have inv: "deliver_pending_signals hook th = perform_action hook ?th
          (Invoke s (?acts ! s) (sc_blocked ?c) (expand s (sc_siginfo ?c ! s)) (sc_altstack ?c))"
        using False by (simp only: del Some option.case one if_False)
      have "s < NSIG" using s(2) by (rule bit_u64_less)
      note inv_ok = perform_invoke [OF this, of "sc_blocked ?c" ?th hook "?acts ! s"
          "expand s (sc_siginfo ?c ! s)" "sc_altstack ?c", folded inv]
      show ?thesis
        using False inv inv_ok blk
        by (simp only: Some option.case if_False)
          (auto simp: perform_action_def split: option.split)
    qed
  qed
  then show ?thesis
    unfolding Let_def using conjunct2 [OF spec] blk
    by (intro exI [of _ ?c']) (simp only: mem_set_bits64 simp_thms)
qed

definition demo_thread :: sig_thread where
  "demo_thread =
     \<lparr>th_ctx = signal_new\<lparr>sc_pending := sig_bit 15 OR sig_bit 17\<rparr>,
      th_acts = replicate NSIG default_sig_action, th_tf = demo_frame, th_mem = demo_mem\<rparr>"

text \<open>With the default actions, SIGTERM terminates the thread before the ignored SIGCHLD is
  looked at.\<close>

theorem deliver_takes_lowest_witness:
  "\<exists>c'. deliver_pending_signals None demo_thread = Some (Terminated 15 (demo_thread\<lparr>th_ctx := c'\<rparr>)) \<and>
     bit (sc_pending c') 17"
proof -
  have d: "set_bits64 (deliverable (th_ctx demo_thread)) = [15, 17]"
    by (simp add: set_bits64_def demo_thread_def bit_deliverable signal_new_def bit_or_iff upt_rec)
  have f: "List.find (effective (th_acts demo_thread)) [15, 17] = Some 15"
    by (simp add: effective_def demo_thread_def default_sig_action_def)
  have h: "sa_handler (th_acts demo_thread ! 15) = 0"
    "bit (sc_pending (th_ctx demo_thread)) 17" "sc_rt_queue (th_ctx demo_thread) = []"
    by (simp_all add: demo_thread_def default_sig_action_def bit_or_iff signal_new_def)
  obtain c' where p: "\<forall>t. bit (sc_pending c') t \<longleftrightarrow>
      bit (sc_pending (th_ctx demo_thread)) t \<and> \<not> (t \<in> set [15, 17] \<and> t \<le> 15)"
    and "deliver_pending_signals None demo_thread = Some (Terminated 15 (demo_thread\<lparr>th_ctx := c'\<rparr>))"
    using deliver_takes_lowest [OF h(3), of None, unfolded Let_def d f option.case]
    by (auto simp: h simp del: list.set)
  moreover have "bit (sc_pending c') 17" using p h(2) by simp
  ultimately show ?thesis by blast
qed

end
