(* ===== verification/Spec2Isabelle.thy ===== *)
theory Spec2Isabelle
  imports Id_Map Seccomp Sleep_Protocol Posix_Locks Flock Fd_Table Pipe Cow Futex Mount_Space Signal_Deliver
begin

text \<open>
  \<^bold>\<open>Verification of the Cyphera kernel.\<close>

  The kernel is a Unix-like kernel in Rust in two layers. \<open>src/frame\<close> is the substrate: physical
  frames, page tables, the user boundary and the hardware. \<open>src/kernel\<close> is built on it: processes and
  the scheduler, credentials, memory maps, files, locks, IPC and the system calls. \<open>src/kapi\<close> holds
  the types both share. The theories model the state and the operations of the parts listed below by
  functions on records, one per source function, and prove what callers rely on. Paths in the list
  are relative to \<open>src/\<close>.

  \<^bold>\<open>Conventions.\<close> Machine integers are words of their width. The workspace is built with overflow
  checks, so a plain addition or subtraction that leaves the type panics; a panic is the value
  \<^const>\<open>None\<close> of an option result (or an outcome of its own, as in \<open>Bpf\<close>), and errors are \<^const>\<open>Inl\<close> of an
  \<open>errno\<close> or the negated number a system call returns. \<open>usize\<close> counters that are bounded by the size
  of a list are natural numbers. A section under a lock is one function of the state; where the code
  releases a lock in between (waking, sleeping, futex waits), the parts are separate functions and the
  interleavings are step relations. Shared objects (\<open>Arc\<close>) are named by numbers when their identity
  matters. \<open>BTreeMap\<close> is an ordered association list (\<open>Ordered_Map\<close>). Code that is not part of the
  repository is a parameter with its documented behaviour as a locale: binary search
  (\<open>bsearch_impl\<close>), the buddy allocator (\<open>buddy\<close>), the page-table crate (\<open>page_mapper\<close>). The other
  locales are contracts between components: id translation (\<open>id_translation\<close>), deadline tables
  (\<open>deadline_table\<close>), waking (\<open>waker\<close>). Every locale is interpreted on the model's own definitions.

  \<^bold>\<open>Shared.\<close>
  \<^item> \<open>Prelude\<close>: words, checked and saturating arithmetic, little-endian bytes, slices, lists.
  \<^item> \<open>Kapi\<close>: \<open>kapi/src/lib.rs\<close>, \<open>kernel/src/errno.rs\<close>: process ids, wait keys, errors, open flags.
  \<^item> \<open>Ordered_Map\<close>: the standard library's ordered map.

  \<^bold>\<open>Security.\<close>
  \<^item> \<open>Bpf\<close>: \<open>kernel/src/security/bpf.rs\<close>. Verifier and interpreter. A verified program never panics and
    takes at most as many steps as it has instructions (the fuel of \<open>bpf_run\<close>).
  \<^item> \<open>Seccomp\<close>: \<open>kernel/src/security/seccomp.rs\<close>, \<open>kernel/src/syscall/creds.rs\<close>. Filter chains, the
    seccomp call and the check at system call entry. The strictest action of a chain wins as long as no
    filter answers kill-process, which the code ignores; only verified programs are ever installed;
    strict mode restricts nothing.
  \<^item> \<open>Creds\<close>, \<open>Setid\<close>, \<open>Id_Map\<close>: \<open>kernel/src/process_model/creds.rs\<close>, \<open>kernel/src/security/\<close>,
    the map files of \<open>kernel/src/fs/procfs.rs\<close>. Capabilities, id maps and their round trip, every
    set-id call, the credential change of exec; no sequence of calls regains a dropped privilege.

  \<^bold>\<open>Memory.\<close>
  \<^item> \<open>User_Mem\<close>: \<open>frame/src/user/mod.rs\<close>. Checked copies; what is stored is read back and
    nothing else changes. Pages are named by virtual address, so two views of one frame are not
    modelled here.
  \<^item> \<open>Frame_Alloc\<close>: \<open>frame/src/mm/frame_alloc.rs\<close>. Boot memory map, allocation, reference counts; cutting
    out the reserved ranges is set difference.
  \<^item> \<open>Memory_Map\<close>: \<open>kernel/src/process_model/memory_map.rs\<close>, address choice of \<open>kernel/src/syscall/mm.rs\<close>. The
    list of areas implements a partial function from addresses; where arithmetic overflows.
  \<^item> \<open>Vm_Space\<close>, \<open>Cow\<close>: \<open>frame/src/mm/vm.rs\<close>, \<open>kernel/src/mm/mmap_fault.rs\<close>. Page-table leaves, copy-on-write,
    fork and its failure. A process never sees what another writes to a private page, for forks
    without shared areas and faults on private anonymous areas, unless permissions are raised on a shared read-only page or a fork fails, which are shown as defects.

  \<^bold>\<open>Processes.\<close>
  \<^item> \<open>Sched_State\<close>, \<open>Runqueue\<close>, \<open>Scheduler\<close>, \<open>Dispatch\<close>: \<open>kernel/src/sched_state.rs\<close> and
    \<open>kernel/src/core/\<close> (\<open>runqueue.rs\<close>, \<open>cfs.rs\<close>, \<open>sched_class.rs\<close>, \<open>park.rs\<close>, \<open>dispatch.rs\<close>). The
    automaton of process states, run queues with three classes, waking, accounting, throttling,
    priority inheritance, stealing. The run-queue invariant under every sequence of calls, the order
    in which tasks are picked, waking queues a task exactly once, stealing loses none.
  \<^item> \<open>Timeout\<close>, \<open>Wait_Queue\<close>, \<open>Sleep_Protocol\<close>: \<open>kernel/src/core/timeout.rs\<close>, \<open>wait.rs\<close>, \<open>park.rs\<close>. Deadlines
    fire when due; waking; under every interleaving no wake-up is lost.
  \<^item> \<open>Futex\<close>: \<open>kernel/src/ipc/futex/\<close>. Waiting, waking, requeueing, robust lists. A wake run by itself
    wakes the first sleepers in priority order; overlapping wakes may lose one. The robust-list loop
    has the limit the code has; the read-modify-write loop has fuel and is shown to return as soon as
    one attempt is not disturbed.

  \<^bold>\<open>Files.\<close>
  \<^item> \<open>Fd_Table\<close>: \<open>kernel/src/vfs/fd.rs\<close>, seeking in \<open>kernel/src/vfs/mod.rs\<close>. Refinement of a partial function
    for a table within its limit; a lowered limit is not honoured.
  \<^item> \<open>Pipe\<close>: \<open>kernel/src/vfs/pipe.rs\<close>. A pipe is a byte stream within its capacity.
  \<^item> \<open>Posix_Locks\<close>, \<open>Flock\<close>: \<open>kernel/src/vfs/locks/\<close>. Record locks refine a byte-wise specification;
    exclusion of whole-file locks; a blocking record lock that has to wait hangs.
  \<^item> \<open>Path_Name\<close>, \<open>Mount_Table\<close>: \<open>kernel/src/vfs/path.rs\<close>, \<open>kernel/src/vfs/mod.rs\<close>. Normalisation gives
    canonical paths; the mount table is a map of stacks and its tree agrees with the paths. The walk
    down the tree has the length of the longest mount path as fuel, since a child's path is longer
    than its parent's.
  \<^item> \<open>Path_Resolve\<close>: \<open>kernel/src/vfs/path.rs\<close>, the path helpers of \<open>kernel/src/syscall/fs/mod.rs\<close>. Walking a
    path through mounts, directories, symbolic and magic links, with the inode methods as parameters.
    The fuel of \<open>resolve_with_depth\<close> is 43: link depths 0 to 41 (the first one over the limit
    returns an error) and one nested call for dot-dot. Resolution always returns, stays inside the
    tree, and agrees with normalisation.
  \<^item> \<open>Mount_Ops\<close>, \<open>Mount_Space\<close>: \<open>kernel/src/vfs/mount.rs\<close>, propagation in \<open>kernel/src/vfs/path.rs\<close>, namespace
    copies and root changes in \<open>kernel/src/vfs/mod.rs\<close>. Mounting, binding, moving, propagation,
    unmounting, \<open>pivot_root\<close>. The tree invariant under every sequence of them, exactly when an unmount
    fails, where \<open>pivot_root\<close> puts each mount.

  \<^bold>\<open>Signals.\<close>
  \<^item> \<open>Signal_Queue\<close>: \<open>SignalContext\<close> in \<open>kernel/src/process_model/context.rs\<close>. Masks, slots, the real-time
    overflow queue, group stop, CPU timers. One queue per signal; SIGKILL and SIGSTOP are never
    blocked; a stop signal and SIGCONT cancel each other; a group stop notifies once.
  \<^item> \<open>Signal_Frame\<close>: \<open>kernel/src/core/signal.rs\<close>. Layouts of \<open>siginfo\<close> and \<open>ucontext\<close>, entering a handler,
    returning from it. Entering and returning restore the registers and the mask; the flags taken
    from user memory are confined; two stack layouts that panic the kernel.
  \<^item> \<open>Signal_Deliver\<close>: \<open>kernel/src/core/signals.rs\<close>, \<open>kernel/src/syscall/signal.rs\<close>. Masks, actions and
    alternate stacks as system calls, faults, the selection loop (64 rounds as in the code, which is
    enough when no real-time signal is queued twice), the check after an interrupt. Which signal is
    taken and what happens to it; how a lower signal with a handler keeps SIGKILL pending.

  \<^bold>\<open>Not modelled.\<close> Hardware access (drivers, interrupts, port and memory-mapped I/O, context switch, TLB),
  which is register traffic without an algorithm; the network stack and ext4, which wrap third-party
  crates; device front ends; ELF parsing (a crate); procfs, sysfs and devfs beyond the id-map files,
  which format text; dispatch of system calls, whose handlers are modelled with the part they call.
  Process creation, exec, exit and reaping assemble the parts above under several locks; the parts
  are modelled, their assembly is not. Sending a signal mixes the queueing modelled here with the
  choice of a thread and its scheduling state; tracing works on another address space, which the
  memory model does not have, so threads are untraced. Shared memory and file-backed pages go through
  the page cache, the memory, pids and io controllers of control groups count what those parts do,
  and tmpfs is a graph of heap objects that path resolution takes as parameters.
\<close>

end
